(* ===== verification/Mui_Prelude.thy ===== *)
theory Mui_Prelude
  imports Main "HOL-Library.Word"
begin

text \<open>
  Shared vocabulary of the development: the integer types of
  \<^verbatim>\<open>include/eza/amd64/types.h\<close> as words of their width, the error codes of
  \<^verbatim>\<open>include/eza/errno.h\<close>, the page constants of \<^verbatim>\<open>include/eza/amd64/page.h\<close>, the outcome
  of a kernel routine that may never return, and the generic lemmas on words and lists that
  the component theories share.
\<close>

unbundle bit_operations_syntax

section \<open>Machine integers\<close>

type_synonym u8 = "8 word"
type_synonym u16 = "16 word"
type_synonym u32 = "32 word"
type_synonym u64 = "64 word"
type_synonym addr = "64 word"
type_synonym page_idx = "32 word"
type_synonym page_flags = "32 word"
type_synonym bit_idx = "32 word"
type_synonym cpu_id = "32 word"

section \<open>Error codes and outcomes\<close>

text \<open>
  A C routine of the kernel returns, or it stops the machine: \<^verbatim>\<open>panic()\<close> ends in an endless
  loop, and so do the handlers of the page-fault and protection exceptions that a wild or null
  access raises. Such an end is a value of \<open>kerror\<close>.
\<close>

datatype kerror = Panic string | BadAccess | DivideError

type_synonym 'a res = "kerror + 'a"

definition EPERM :: int where "EPERM = 1"
definition ENOENT :: int where "ENOENT = 2"
definition ENOMEM :: int where "ENOMEM = 12"
definition EINVAL :: int where "EINVAL = 22"

definition rbind :: "'a res \<Rightarrow> ('a \<Rightarrow> 'b res) \<Rightarrow> 'b res" where
  "rbind m f = (case m of Inl e \<Rightarrow> Inl e | Inr x \<Rightarrow> f x)"

definition obind :: "'a res option \<Rightarrow> ('a \<Rightarrow> 'b res option) \<Rightarrow> 'b res option" where
  "obind m f = Option.bind m (\<lambda>r. case r of Inl e \<Rightarrow> Some (Inl e) | Inr x \<Rightarrow> f x)"

section \<open>Page constants\<close>

definition PAGE_WIDTH :: nat where "PAGE_WIDTH = 12"
definition PAGE_SIZE :: u64 where "PAGE_SIZE = 4096"
definition PAGE_ADDR_MASK :: u64 where "PAGE_ADDR_MASK = NOT (PAGE_SIZE - 1)"
definition KERNEL_BASE :: u64 where "KERNEL_BASE = 0xffffffff80000000"
definition KERNEL_OFFSET :: u64 where "KERNEL_OFFSET = 0xffff800000000000"
definition MAX_VIRT_ADDRESS :: u64 where "MAX_VIRT_ADDRESS = 0xffffffffffffffff"
definition KERNEL_INVALID_ADDRESS :: u64 where "KERNEL_INVALID_ADDRESS = 0x100"
definition KERNEL_PHYS_START :: u64 where "KERNEL_PHYS_START = 0x100000"
definition MIN_PHYS_MEMORY_REQUIRED :: u64 where "MIN_PHYS_MEMORY_REQUIRED = 0x1800000"

definition k2p :: "u64 \<Rightarrow> u64" where
  "k2p p = (if p > KERNEL_BASE then p - KERNEL_BASE else p - KERNEL_OFFSET)"

definition p2k_code :: "u64 \<Rightarrow> u64" where
  "p2k_code p = p + KERNEL_BASE"

section \<open>Collections of facts\<close>

named_theorems errno_defs \<open>the numeric values of the error codes\<close>
named_theorems page_defs \<open>the page constants\<close>

declare EPERM_def [errno_defs] ENOENT_def [errno_defs] ENOMEM_def [errno_defs]
  EINVAL_def [errno_defs]
declare PAGE_WIDTH_def [page_defs] PAGE_SIZE_def [page_defs] PAGE_ADDR_MASK_def [page_defs]
  KERNEL_BASE_def [page_defs] MAX_VIRT_ADDRESS_def [page_defs]

lemma rbind_simps [simp]:
  "rbind (Inl e) f = Inl e"
  "rbind (Inr x) f = f x"
  by (simp_all add: rbind_def)

lemma rbind_eq_Inr [simp]:
  "rbind m f = Inr y \<longleftrightarrow> (\<exists>x. m = Inr x \<and> f x = Inr y)"
  by (cases m) (auto simp: rbind_def)

lemma obind_simps [simp]:
  "obind None f = None"
  "obind (Some (Inl e)) f = Some (Inl e)"
  "obind (Some (Inr x)) f = f x"
  by (simp_all add: obind_def)

lemma obind_mono [partial_function_mono]:
  assumes "mono_option B" and "\<And>y. mono_option (C y)"
  shows "mono_option (\<lambda>f. obind (B f) (\<lambda>y. C y f))"
proof -
  have case_mono: "mono_option (\<lambda>f. case r of Inl e \<Rightarrow> Some (Inl e) | Inr x \<Rightarrow> C x f)" for r
    using assms(2) by (cases r) (auto intro: option.const_mono)
  show ?thesis
    unfolding obind_def by (rule bind_mono [OF assms(1) case_mono])
qed

section \<open>Words and natural numbers\<close>

lemma ucast_of_nat_down: "LENGTH('b) \<le> LENGTH('a) \<Longrightarrow> (ucast (of_nat n :: 'a::len word) :: 'b::len word) = of_nat n"
  by (rule bit_word_eqI) (simp add: bit_simps)

lemma unat_take_bit: "unat (take_bit n x :: 'a::len word) = unat x mod 2 ^ n"
  by (subst unsigned_take_bit_eq) (rule take_bit_eq_mod)

lemma unat_and_mask: "unat (x AND mask n :: 'a::len word) = unat x mod 2 ^ n"
  by (simp only: take_bit_eq_mask [symmetric] unat_take_bit)

lemma unat_ucast_up: "LENGTH('a) \<le> LENGTH('b) \<Longrightarrow> unat (ucast (x :: 'a::len word) :: 'b::len word) = unat x"
  by (simp add: unsigned_ucast_eq take_bit_nat_eq_self order_less_le_trans [OF unsigned_less])

lemma and_not_mask: "x AND NOT (mask n) = push_bit n (drop_bit n (x :: 'a::len word))"
  by (rule bit_word_eqI) (auto simp: bit_simps)

lemma unat_and_not_mask: "unat (x AND NOT (mask n) :: 'a::len word) = unat x div 2 ^ n * 2 ^ n"
proof -
  have "unat (x AND NOT (mask n)) = push_bit n (drop_bit n (unat x))"
    by (rule bit_eqI) (auto simp: bit_simps dest: bit_imp_le_length)
  then show ?thesis by (simp only: push_bit_eq_mult drop_bit_eq_div)
qed

lemma unat_drop_bit: "unat (drop_bit n w) = unat w div 2 ^ n"
  by (subst unat_drop_bit_eq) (rule drop_bit_eq_div)

lemma unat_push_bit: "unat (push_bit n w :: 'a::len word) = (unat w * 2^n) mod 2 ^ LENGTH('a)"
  by (subst unsigned_push_bit_eq) (simp only: push_bit_eq_mult take_bit_eq_mod)

lemma unat_of_nat_small:
  "n < 2 ^ LENGTH('a) \<Longrightarrow> unat (of_nat n :: 'a::len word) = n"
  by (simp add: unat_of_nat)

lemma of_nat_eq_iff_small:
  "m < 2 ^ LENGTH('a) \<Longrightarrow> n < 2 ^ LENGTH('a) \<Longrightarrow>
   (of_nat m :: 'a::len word) = of_nat n \<longleftrightarrow> m = n"
  by (metis unat_of_nat_small)

end
