(* ===== verification/Mui_List.thy ===== *)
theory Mui_List
  imports Mui_Prelude
begin

text \<open>
  The intrusive doubly linked rings of \<^verbatim>\<open>include/eza/list.h\<close>. A \<open>list_heap\<close> holds the two
  link fields of every \<^verbatim>\<open>list_head_t\<close> by the node's address, so the aliasing of the C code
  (head and neighbours may coincide) is the aliasing of the model. \<open>dlist h l xs\<close> is the
  abstraction: the ring with head \<open>l\<close> holds exactly the nodes \<open>xs\<close>, in order, once each.
\<close>

section \<open>State and operations\<close>

record list_heap =
  lh_next :: "addr \<Rightarrow> addr"
  lh_prev :: "addr \<Rightarrow> addr"

definition LIST_POISON1 :: addr where "LIST_POISON1 = 0x00100100"
definition LIST_POISON2 :: addr where "LIST_POISON2 = 0x00200200"

definition set_next :: "addr \<Rightarrow> addr \<Rightarrow> list_heap \<Rightarrow> list_heap" where
  "set_next a b h = h\<lparr>lh_next := (lh_next h)(a := b)\<rparr>"

definition set_prev :: "addr \<Rightarrow> addr \<Rightarrow> list_heap \<Rightarrow> list_heap" where
  "set_prev a b h = h\<lparr>lh_prev := (lh_prev h)(a := b)\<rparr>"

definition init_list_head :: "addr \<Rightarrow> list_heap \<Rightarrow> list_heap" where
  "init_list_head l h = set_prev l l (set_next l l h)"

definition list_add_between :: "addr \<Rightarrow> addr \<Rightarrow> addr \<Rightarrow> list_heap \<Rightarrow> list_heap" where
  "list_add_between new prev nxt h =
     (let h1 = set_prev nxt new h;
          h2 = set_next new nxt h1;
          h3 = set_prev new prev h2
      in set_next prev new h3)"

definition list_add :: "addr \<Rightarrow> addr \<Rightarrow> list_heap \<Rightarrow> list_heap" where
  "list_add new head h = list_add_between new head (lh_next h head) h"

definition list_add_tail :: "addr \<Rightarrow> addr \<Rightarrow> list_heap \<Rightarrow> list_heap" where
  "list_add_tail new head h = list_add_between new (lh_prev h head) head h"

definition list_del_between :: "addr \<Rightarrow> addr \<Rightarrow> list_heap \<Rightarrow> list_heap" where
  "list_del_between prev nxt h = set_next prev nxt (set_prev nxt prev h)"

definition list_del :: "addr \<Rightarrow> list_heap \<Rightarrow> list_heap" where
  "list_del entry h =
     (let h1 = list_del_between (lh_prev h entry) (lh_next h entry) h;
          h2 = set_next entry LIST_POISON1 h1
      in set_prev entry LIST_POISON2 h2)"

text \<open>
  \<^verbatim>\<open>list_for_each\<close> and \<^verbatim>\<open>list_for_each_entry\<close>: the body runs before the next link is read, so
  a body that changes the links changes the walk. The walk may never meet the head again; not
  returning is \<open>None\<close>.
\<close>

partial_function (option) list_for_each ::
  "('s \<Rightarrow> list_heap) \<Rightarrow> (addr \<Rightarrow> 's \<Rightarrow> 's) \<Rightarrow> addr \<Rightarrow> addr \<Rightarrow> 's \<Rightarrow> 's option" where
  "list_for_each links body head pos s =
     (if pos = head then Some s
      else let s' = body pos s
           in list_for_each links body head (lh_next (links s') pos) s')"

section \<open>The abstraction\<close>

fun seg :: "list_heap \<Rightarrow> addr \<Rightarrow> addr list \<Rightarrow> addr \<Rightarrow> bool" where
  "seg h a [] b \<longleftrightarrow> lh_next h a = b \<and> lh_prev h b = a"
| "seg h a (x # xs) b \<longleftrightarrow> lh_next h a = x \<and> lh_prev h x = a \<and> seg h x xs b"

definition dlist :: "list_heap \<Rightarrow> addr \<Rightarrow> addr list \<Rightarrow> bool" where
  "dlist h l xs \<longleftrightarrow> distinct (l # xs) \<and> seg h l xs l"

section \<open>Link updates and segments\<close>

lemma set_next_prev_simps [simp]:
  "lh_next (set_next a b h) = (lh_next h)(a := b)"
  "lh_prev (set_next a b h) = lh_prev h"
  "lh_next (set_prev a b h) = lh_next h"
  "lh_prev (set_prev a b h) = (lh_prev h)(a := b)"
  by (simp_all add: set_next_def set_prev_def)

lemma seg_append:
  "seg h a (xs @ y # ys) b \<longleftrightarrow> seg h a xs y \<and> seg h y ys b"
  by (induction xs arbitrary: a) auto

lemma seg_cong:
  assumes "\<And>x. x \<in> insert a (set xs) \<Longrightarrow> lh_next h' x = lh_next h x"
    and "\<And>x. x \<in> insert b (set xs) \<Longrightarrow> lh_prev h' x = lh_prev h x"
  shows "seg h' a xs b = seg h a xs b"
  using assms by (induction xs arbitrary: a) auto

lemma seg_first: "seg h a xs b \<Longrightarrow> lh_next h a = (case xs of [] \<Rightarrow> b | x # _ \<Rightarrow> x)"
  by (cases xs) auto

lemma seg_last: "seg h a xs b \<Longrightarrow> lh_prev h b = (if xs = [] then a else last xs)"
  by (induction xs arbitrary: a) auto

lemma dlist_next_head: "dlist h l xs \<Longrightarrow> lh_next h l = (case xs of [] \<Rightarrow> l | x # _ \<Rightarrow> x)"
  by (auto simp: dlist_def dest: seg_first)

lemma dlist_prev_head: "dlist h l xs \<Longrightarrow> lh_prev h l = (if xs = [] then l else last xs)"
  by (auto simp: dlist_def dest: seg_last)

lemma dlist_empty_iff: "dlist h l xs \<Longrightarrow> lh_next h l = l \<longleftrightarrow> xs = []"
  by (cases xs) (auto simp: dlist_def)

lemma dlist_cong:
  assumes "\<And>x. x \<in> insert l (set xs) \<Longrightarrow> lh_next h' x = lh_next h x \<and> lh_prev h' x = lh_prev h x"
  shows "dlist h' l xs = dlist h l xs"
  unfolding dlist_def using assms by (subst seg_cong [of l xs h' h l]) auto

lemma dlist_unique: "dlist h l xs \<Longrightarrow> dlist h l ys \<Longrightarrow> xs = ys"
proof -
  have "seg h a xs l \<Longrightarrow> seg h a ys l \<Longrightarrow> l \<notin> set xs \<Longrightarrow> l \<notin> set ys \<Longrightarrow> xs = ys" for a
  proof (induction xs arbitrary: a ys)
    case Nil
    then show ?case by (cases ys) auto
  next
    case (Cons x xs)
    then show ?case by (cases ys) auto
  qed
  then show "dlist h l xs \<Longrightarrow> dlist h l ys \<Longrightarrow> xs = ys"
    by (auto simp: dlist_def)
qed

section \<open>Correctness of the operations\<close>

lemma init_list_head_empty: "dlist (init_list_head l h) l []"
  by (simp add: dlist_def init_list_head_def)

lemma seg_insert:
  assumes "seg h a (xs @ ys) b" and "distinct (xs @ ys)" and "n \<notin> insert a (set (xs @ ys))"
    and "n \<noteq> b" and "a \<notin> set (xs @ ys)" and "b \<notin> set (xs @ ys)"
    and p: "p = (if xs = [] then a else last xs)" and q: "q = (case ys of [] \<Rightarrow> b | y # _ \<Rightarrow> y)"
  shows "seg (list_add_between n p q h) a (xs @ n # ys) b"
  using assms
proof (induction xs arbitrary: a p)
  case Nil
  have "seg (list_add_between n p q h) n ys b"
  proof (cases ys)
    case Nil
    with Nil.prems show ?thesis by (auto simp: list_add_between_def Let_def)
  next
    case (Cons y zs)
    with Nil.prems have "seg h y zs b" by simp
    moreover have "seg (list_add_between n p q h) y zs b = seg h y zs b"
      using Nil.prems Cons by (intro seg_cong) (auto simp: list_add_between_def Let_def)
    ultimately show ?thesis
      using Nil.prems Cons by (auto simp: list_add_between_def Let_def)
  qed
  then show ?case using Nil.prems by (auto simp: list_add_between_def Let_def)
next
  case (Cons x xs)
  have "seg (list_add_between n p q h) x (xs @ n # ys) b"
    by (rule Cons.IH) (use Cons.prems in auto)
  moreover have "lh_next (list_add_between n p q h) a = x"
    using Cons.prems by (auto simp: list_add_between_def Let_def split: if_splits)
  moreover have "lh_prev (list_add_between n p q h) x = a"
    using Cons.prems by (auto simp: list_add_between_def Let_def split: list.splits)
  ultimately show ?case by simp
qed

lemma list_add_tail_dlist:
  assumes "dlist h l xs" and "n \<notin> insert l (set xs)"
  shows "dlist (list_add_tail n l h) l (xs @ [n])"
  using assms seg_insert [of h l xs "[]" l n] dlist_prev_head [OF assms(1)]
  by (auto simp: dlist_def list_add_tail_def)

lemma list_add_dlist:
  assumes "dlist h l xs" and "n \<notin> insert l (set xs)"
  shows "dlist (list_add n l h) l (n # xs)"
  using assms seg_insert [of h l "[]" xs l n] dlist_next_head [OF assms(1)]
  by (auto simp: dlist_def list_add_def)

text \<open>An insertion changes the links of the new node and of nodes of the ring only.\<close>

lemma list_add_tail_frame:
  assumes "dlist h l xs" and "y \<notin> insert n (insert l (set xs))"
  shows "lh_next (list_add_tail n l h) y = lh_next h y"
    and "lh_prev (list_add_tail n l h) y = lh_prev h y"
  using assms dlist_prev_head [OF assms(1)]
  by (auto simp: list_add_tail_def list_add_between_def Let_def)

lemma list_add_frame:
  assumes "dlist h l xs" and "y \<notin> insert n (insert l (set xs))"
  shows "lh_next (list_add n l h) y = lh_next h y"
    and "lh_prev (list_add n l h) y = lh_prev h y"
  using assms dlist_next_head [OF assms(1)]
  by (auto simp: list_add_def list_add_between_def Let_def split: list.splits)

lemma dlist_add_tail_other:
  assumes "dlist h l xs" and "dlist h m ys"
    and "insert l (set xs) \<inter> insert m (set ys) = {}" and "n \<notin> insert m (set ys)"
  shows "dlist (list_add_tail n l h) m ys"
proof -
  have "y \<notin> insert n (insert l (set xs))" if "y \<in> insert m (set ys)" for y
    using assms(3,4) that by blast
  then show ?thesis
    using assms(2) list_add_tail_frame [OF assms(1)] by (subst dlist_cong [of m ys _ h]) blast+
qed

lemma dlist_add_other:
  assumes "dlist h l xs" and "dlist h m ys"
    and "insert l (set xs) \<inter> insert m (set ys) = {}" and "n \<notin> insert m (set ys)"
  shows "dlist (list_add n l h) m ys"
proof -
  have "y \<notin> insert n (insert l (set xs))" if "y \<in> insert m (set ys)" for y
    using assms(3,4) that by blast
  then show ?thesis
    using assms(2) list_add_frame [OF assms(1)] by (subst dlist_cong [of m ys _ h]) blast+
qed

lemma list_del_links:
  "lh_next (list_del e h) = (lh_next h)(lh_prev h e := lh_next h e, e := LIST_POISON1)"
  "lh_prev (list_del e h) = (lh_prev h)(lh_next h e := lh_prev h e, e := LIST_POISON2)"
  by (auto simp: list_del_def list_del_between_def Let_def)

lemma seg_middle:
  assumes "seg h a (xs @ e # ys) b"
  shows "lh_prev h e = (if xs = [] then a else last xs)"
    and "lh_next h e = (case ys of [] \<Rightarrow> b | y # _ \<Rightarrow> y)"
  using assms by (auto simp: seg_append dest: seg_last seg_first)

lemma seg_delete:
  assumes "seg h a (xs @ e # ys) b" and "distinct (xs @ e # ys)"
    and "a \<notin> set (xs @ e # ys)" and "b \<notin> set (xs @ e # ys)"
  shows "seg (list_del e h) a (xs @ ys) b"
  using assms
proof (induction xs arbitrary: a)
  case Nil
  show ?case
  proof (cases ys)
    case Nil
    with Nil.prems show ?thesis by (auto simp: list_del_links)
  next
    case (Cons y zs)
    with Nil.prems have "seg h y zs b" by simp
    moreover have "seg (list_del e h) y zs b = seg h y zs b"
      using Nil.prems Cons by (intro seg_cong) (auto simp: list_del_links)
    ultimately show ?thesis
      using Nil.prems Cons by (auto simp: list_del_links)
  qed
next
  case (Cons x xs)
  have "seg (list_del e h) x (xs @ ys) b"
    by (rule Cons.IH) (use Cons.prems in auto)
  moreover have "lh_next (list_del e h) a = x"
    using Cons.prems seg_middle [of h x xs e ys b] by (auto simp: list_del_links)
  moreover have "lh_prev (list_del e h) x = a"
    using Cons.prems seg_middle [of h x xs e ys b]
    by (auto simp: list_del_links split: list.splits)
  ultimately show ?case by simp
qed

lemma list_del_dlist:
  assumes "dlist h l (xs @ e # ys)"
  shows "dlist (list_del e h) l (xs @ ys)"
  using assms seg_delete [of h l xs e ys l] by (auto simp: dlist_def)

lemma list_del_frame:
  assumes "dlist h l (xs @ e # ys)" and "y \<notin> insert l (set (xs @ e # ys))"
  shows "lh_next (list_del e h) y = lh_next h y \<and> lh_prev (list_del e h) y = lh_prev h y"
  using assms seg_middle [of h l xs e ys l]
  by (auto simp: dlist_def list_del_links split: list.splits if_splits)

lemma dlist_del_other:
  assumes "dlist h l (xs @ e # ys)" and "dlist h m zs"
    and "insert l (set (xs @ e # ys)) \<inter> insert m (set zs) = {}"
  shows "dlist (list_del e h) m zs"
proof -
  have "y \<notin> insert l (set (xs @ e # ys))" if "y \<in> insert m (set zs)" for y
    using assms(3) that by blast
  then show ?thesis
    using assms(2) list_del_frame [OF assms(1)] by (subst dlist_cong [of m zs _ h]) blast+
qed

lemma list_del_poisons:
  "lh_next (list_del e h) e = LIST_POISON1" "lh_prev (list_del e h) e = LIST_POISON2"
  by (simp_all add: list_del_links)

section \<open>Walking a ring\<close>

text \<open>A body that leaves the links alone visits every node once, in order, and the walk ends.\<close>

lemma list_for_each_seg:
  assumes "seg h a xs l" and "l \<notin> set xs" and "\<And>p s. links (body p s) = links s" and "links s = h"
  shows "list_for_each links body l (lh_next h a) s = Some (fold body xs s)"
  using assms
proof (induction xs arbitrary: a s)
  case Nil
  then show ?case by (simp add: list_for_each.simps)
next
  case (Cons x xs)
  then show ?case by (subst list_for_each.simps) (auto simp: Let_def)
qed

lemma list_for_each_dlist:
  assumes "dlist (links s) l xs" and "\<And>p s. links (body p s) = links s"
  shows "list_for_each links body l (lh_next (links s) l) s = Some (fold body xs s)"
  using assms list_for_each_seg [of "links s" l xs l links body s] by (auto simp: dlist_def)

section \<open>The interface\<close>

text \<open>
  What the clients of a ring rely on: an abstraction to a list, the insertions and the removal,
  and that an operation on one ring does not disturb a ring on other nodes.
\<close>

locale node_list =
  fixes rep :: "'h \<Rightarrow> 'a \<Rightarrow> 'a list \<Rightarrow> bool"
    and make :: "'a \<Rightarrow> 'h \<Rightarrow> 'h"
    and push_back :: "'a \<Rightarrow> 'a \<Rightarrow> 'h \<Rightarrow> 'h"
    and push_front :: "'a \<Rightarrow> 'a \<Rightarrow> 'h \<Rightarrow> 'h"
    and delete :: "'a \<Rightarrow> 'h \<Rightarrow> 'h"
    and first :: "'h \<Rightarrow> 'a \<Rightarrow> 'a"
  assumes rep_distinct: "rep h l xs \<Longrightarrow> distinct (l # xs)"
    and rep_make: "rep (make l h) l []"
    and rep_push_back: "rep h l xs \<Longrightarrow> n \<notin> insert l (set xs) \<Longrightarrow> rep (push_back n l h) l (xs @ [n])"
    and rep_push_front: "rep h l xs \<Longrightarrow> n \<notin> insert l (set xs) \<Longrightarrow> rep (push_front n l h) l (n # xs)"
    and rep_delete: "rep h l (xs @ e # ys) \<Longrightarrow> rep (delete e h) l (xs @ ys)"
    and rep_delete_other: "rep h l (xs @ e # ys) \<Longrightarrow> rep h m zs \<Longrightarrow>
      insert l (set (xs @ e # ys)) \<inter> insert m (set zs) = {} \<Longrightarrow> rep (delete e h) m zs"
    and rep_first: "rep h l xs \<Longrightarrow> first h l = (case xs of [] \<Rightarrow> l | x # _ \<Rightarrow> x)"
begin

lemma build_back:
  "rep h l xs \<Longrightarrow> distinct ns \<Longrightarrow> set ns \<inter> insert l (set xs) = {} \<Longrightarrow>
   rep (fold (\<lambda>n. push_back n l) ns h) l (xs @ ns)"
proof (induction ns arbitrary: h xs)
  case Nil
  then show ?case by simp
next
  case (Cons n ns)
  have "rep (push_back n l h) l (xs @ [n])"
    using Cons.prems by (intro rep_push_back) auto
  then have "rep (fold (\<lambda>n. push_back n l) ns (push_back n l h)) l ((xs @ [n]) @ ns)"
    by (rule Cons.IH) (use Cons.prems in auto)
  then show ?case by simp
qed

lemma pop_front:
  assumes "rep h l (x # xs)"
  shows "first h l = x" and "rep (delete (first h l) h) l xs"
  using assms rep_first [OF assms] rep_delete [of h l "[]" x xs] by auto

lemma move_front:
  assumes "rep h l (x # xs)" and "rep h m ys"
    and "insert l (set (x # xs)) \<inter> insert m (set ys) = {}"
  shows "rep (push_back x m (delete x h)) m (ys @ [x])"
proof (rule rep_push_back)
  show "rep (delete x h) m ys"
    using assms rep_delete_other [of h l "[]" x xs m ys] by auto
  show "x \<notin> insert m (set ys)" using assms(3) by auto
qed

end

interpretation ring: node_list dlist init_list_head list_add_tail list_add list_del lh_next
proof (unfold_locales, goal_cases)
  case 1 then show ?case by (simp add: dlist_def)
next
  case 2 show ?case by (rule init_list_head_empty)
next
  case 3 then show ?case by (rule list_add_tail_dlist)
next
  case 4 then show ?case by (rule list_add_dlist)
next
  case 5 then show ?case by (rule list_del_dlist)
next
  case 6 then show ?case by (rule dlist_del_other)
next
  case 7 then show ?case by (rule dlist_next_head)
qed

section \<open>Properties\<close>

text \<open>C28: On a ring that holds a sequence of nodes, the insertions add the new node at the front
  and at the back, the removal takes out exactly the node it is given and poisons its links, and none of the
  three disturbs a ring over other nodes.\<close>

theorem ring_operations:
  assumes "dlist h l xs" and "n \<notin> insert l (set xs)" and "dlist h m ms"
    and "insert l (set xs) \<inter> insert m (set ms) = {}" and "n \<notin> insert m (set ms)"
    and "xs = ys @ e # zs"
  shows "dlist (list_add n l h) l (n # xs) \<and> dlist (list_add_tail n l h) l (xs @ [n]) \<and>
    dlist (list_del e h) l (ys @ zs) \<and>
    dlist (list_add n l h) m ms \<and> dlist (list_add_tail n l h) m ms \<and> dlist (list_del e h) m ms \<and>
    lh_next (list_del e h) e = LIST_POISON1 \<and> lh_prev (list_del e h) e = LIST_POISON2"
  using assms ring.rep_push_front [OF assms(1,2)] ring.rep_push_back [OF assms(1,2)]
    ring.rep_delete [of h l ys e zs] ring.rep_delete_other [of h l ys e zs m ms]
    dlist_add_other [OF assms(1,3,4,5)] dlist_add_tail_other [OF assms(1,3,4,5)]
  by (simp add: list_del_poisons)

definition sample_ring :: list_heap where
  "sample_ring = list_add_tail 0x30 0x10 (list_add_tail 0x20 0x10
     (init_list_head 0x10 (init_list_head 0x90 \<lparr>lh_next = (\<lambda>_. 0), lh_prev = (\<lambda>_. 0)\<rparr>)))"

theorem ring_operations_witness:
  "dlist (list_del 0x20 sample_ring) 0x10 [0x30] \<and>
   dlist (list_add_tail 0x40 0x10 sample_ring) 0x10 [0x20, 0x30, 0x40] \<and>
   dlist (list_add 0x40 0x10 sample_ring) 0x90 []"
proof -
  have "dlist sample_ring 0x10 [0x20, 0x30]" "dlist sample_ring 0x90 []"
    by (simp_all add: sample_ring_def dlist_def init_list_head_def list_add_tail_def
        list_add_between_def Let_def)
  then show ?thesis
    using ring_operations [of sample_ring "0x10" "[0x20, 0x30]" "0x40" "0x90" "[]" "[]" "0x20" "[0x30]"]
    by simp
qed

text \<open>C29: A walk over a ring whose body leaves the links alone ends, and runs the body on every
  node once, in the order of the ring.\<close>

theorem walk_visits_all:
  assumes "dlist (links s) l xs" and "\<And>p s. links (body p s) = links s"
  shows "list_for_each links body l (lh_next (links s) l) s = Some (fold body xs s)"
  using assms by (rule list_for_each_dlist)

theorem walk_visits_all_witness:
  "list_for_each fst (\<lambda>p (h, ps). (h, p # ps)) 0x10 (lh_next sample_ring 0x10) (sample_ring, [])
    = Some (sample_ring, [0x30, 0x20])"
proof -
  have "dlist (fst (sample_ring, [])) 0x10 [0x20, 0x30]"
    by (simp add: sample_ring_def dlist_def init_list_head_def list_add_tail_def
        list_add_between_def Let_def)
  then show ?thesis
    using walk_visits_all [of fst "(sample_ring, [])" "0x10" "[0x20, 0x30]" "\<lambda>p (h, ps). (h, p # ps)"]
    by (simp add: case_prod_beta)
qed

end
