(* ===== verification/Mui_Frames.thy ===== *)
theory Mui_Frames
  imports Mui_List
begin

text \<open>
  Page frames and where they come from: \<^verbatim>\<open>include/mm/mm.h\<close>, \<^verbatim>\<open>include/mm/pagealloc.h\<close>,
  \<^verbatim>\<open>mm/pagealloc.c\<close> (the per-CPU page cache), \<^verbatim>\<open>mm/pageaccs.c\<close> (the linear and the list
  page accessor) and \<^verbatim>\<open>arch_clean_page\<close> of \<^verbatim>\<open>eza/amd64/mm/mm.c\<close>. A \<^verbatim>\<open>page_frame_t\<close> is named
  by the address of its \<^verbatim>\<open>active_list\<close>, which is its first field, so \<^verbatim>\<open>container_of\<close> is the
  identity. The locale \<open>frame_source\<close> states what the page-table code asks of an accessor; both
  accessors of the kernel are shown to meet it.
\<close>

section \<open>State\<close>

record percpu_page_cache =
  pc_pages :: addr
  pc_num_free_pages :: page_idx
  pc_total_pages :: page_idx

text \<open>
  The memory the mapping code touches: 8-byte slots by virtual address, the links and the indexes
  of the page frames, the cache of the running CPU and \<^verbatim>\<open>swks.mem_total_pages\<close>. The array of
  page frames and the page tables are different memory in the kernel and different fields here.
\<close>

record kmm =
  kmem :: "u64 \<Rightarrow> u64"
  frame_links :: list_heap
  frame_idx :: "addr \<Rightarrow> page_idx"
  cpu_cache :: percpu_page_cache
  mem_total_pages :: page_idx

definition PF_KERNEL_PAGE :: page_flags where "PF_KERNEL_PAGE = 1"
definition PF_IO_PAGE :: page_flags where "PF_IO_PAGE = 2"
definition PAF_DMA_PAGE :: page_flags where "PAF_DMA_PAGE = 1"
definition GENERIC_KERNEL_PAGE :: page_flags where "GENERIC_KERNEL_PAGE = 0"
definition INVALID_PAGE_IDX :: page_idx where "INVALID_PAGE_IDX = 0xffffffff"

section \<open>Frames and addresses\<close>

definition pframe_to_virt :: "page_idx \<Rightarrow> u64" where
  "pframe_to_virt idx = KERNEL_BASE + ucast (idx * ucast PAGE_SIZE)"

definition pframe_id_to_virt :: "page_idx \<Rightarrow> u64" where
  "pframe_id_to_virt idx = KERNEL_BASE + ucast (idx * ucast PAGE_SIZE)"

definition pframe_phys_addr :: "page_idx \<Rightarrow> u64" where
  "pframe_phys_addr idx = ucast idx * PAGE_SIZE"

definition virt_to_phys :: "u64 \<Rightarrow> u64" where
  "virt_to_phys virt = virt - KERNEL_BASE"

definition virt_to_pframe_id :: "u64 \<Rightarrow> page_idx" where
  "virt_to_pframe_id virt = ucast (drop_bit PAGE_WIDTH (virt - KERNEL_BASE))"

section \<open>The page allocator\<close>

definition memset_zero :: "u64 \<Rightarrow> u64 \<Rightarrow> (u64 \<Rightarrow> u64) \<Rightarrow> (u64 \<Rightarrow> u64)" where
  "memset_zero base n mem = (\<lambda>a. if a - base < n then 0 else mem a)"

definition arch_clean_page :: "addr option \<Rightarrow> kmm \<Rightarrow> kmm res" where
  "arch_clean_page frame m =
     (case frame of
        None \<Rightarrow> Inl BadAccess
      | Some f \<Rightarrow> Inr (m\<lparr>kmem := memset_zero (pframe_to_virt (frame_idx m f)) PAGE_SIZE (kmem m)\<rparr>))"

definition alloc_page :: "page_flags \<Rightarrow> bool \<Rightarrow> kmm \<Rightarrow> (addr option \<times> kmm) res" where
  "alloc_page flags clean_page m =
     (if flags AND PAF_DMA_PAGE \<noteq> 0 then Inr (None, m)
      else
        let cache = cpu_cache m;
            (page, m') =
              (if pc_num_free_pages cache > 0 then
                 let l = lh_next (frame_links m) (pc_pages cache)
                 in (Some l, m\<lparr>frame_links := list_del l (frame_links m),
                               cpu_cache := cache\<lparr>pc_num_free_pages := pc_num_free_pages cache - 1\<rparr>\<rparr>)
               else (None, m))
        in if clean_page then rbind (arch_clean_page page m') (\<lambda>m''. Inr (page, m''))
           else Inr (page, m'))"

definition alloc_page_virt :: "page_flags \<Rightarrow> bool \<Rightarrow> kmm \<Rightarrow> (u64 \<times> kmm) res" where
  "alloc_page_virt flags clean_page m =
     rbind (alloc_page flags clean_page m) (\<lambda>(pf, m').
       case pf of Some f \<Rightarrow> Inr (pframe_to_virt (frame_idx m' f), m') | None \<Rightarrow> Inr (0, m'))"

section \<open>The page accessors\<close>

record 'c page_frame_accessor =
  pa_frames_left :: "'c \<Rightarrow> kmm \<Rightarrow> page_idx"
  pa_next_frame :: "'c \<Rightarrow> kmm \<Rightarrow> (page_idx \<times> 'c \<times> kmm) res"
  pa_reset :: "'c \<Rightarrow> 'c"
  pa_alloc_page :: "'c \<Rightarrow> page_flags \<Rightarrow> bool \<Rightarrow> kmm \<Rightarrow> (addr option \<times> kmm) res"

definition pageaccs_reset_stub :: "'c \<Rightarrow> 'c" where
  "pageaccs_reset_stub ctx = ctx"

definition pageaccs_alloc_page_stub ::
  "'c \<Rightarrow> page_flags \<Rightarrow> bool \<Rightarrow> kmm \<Rightarrow> (addr option \<times> kmm) res" where
  "pageaccs_alloc_page_stub ctx flags clean_page m = alloc_page flags clean_page m"

definition pageaccs_frames_left_stub :: "'c \<Rightarrow> kmm \<Rightarrow> page_idx" where
  "pageaccs_frames_left_stub ctx m = mem_total_pages m"

record pageaccs_linear_pa_ctx =
  lp_start_page :: page_idx
  lp_end_page :: page_idx
  lp_curr_page :: page_idx

definition linear_pa_frames_left :: "pageaccs_linear_pa_ctx \<Rightarrow> kmm \<Rightarrow> page_idx" where
  "linear_pa_frames_left lctx m =
     (if lp_curr_page lctx < lp_end_page lctx then lp_curr_page lctx - lp_end_page lctx else 0)"

definition linear_pa_next_frame ::
  "pageaccs_linear_pa_ctx \<Rightarrow> kmm \<Rightarrow> (page_idx \<times> pageaccs_linear_pa_ctx \<times> kmm) res" where
  "linear_pa_next_frame lctx m =
     Inr (lp_curr_page lctx, lctx\<lparr>lp_curr_page := lp_curr_page lctx + 1\<rparr>, m)"

definition linear_pa_reset :: "pageaccs_linear_pa_ctx \<Rightarrow> pageaccs_linear_pa_ctx" where
  "linear_pa_reset lctx = lctx\<lparr>lp_curr_page := lp_start_page lctx\<rparr>"

definition pageaccs_linear_pa :: "pageaccs_linear_pa_ctx page_frame_accessor" where
  "pageaccs_linear_pa =
     \<lparr>pa_frames_left = linear_pa_frames_left, pa_next_frame = linear_pa_next_frame,
      pa_reset = linear_pa_reset, pa_alloc_page = pageaccs_alloc_page_stub\<rparr>"

record pageaccs_list_pa_ctx =
  li_head :: addr
  li_curr :: addr
  li_num_pages :: page_idx
  li_pages_left :: page_idx

definition list_pa_frames_left :: "pageaccs_list_pa_ctx \<Rightarrow> kmm \<Rightarrow> page_idx" where
  "list_pa_frames_left lctx m = li_pages_left lctx"

definition list_pa_next_frame ::
  "pageaccs_list_pa_ctx \<Rightarrow> kmm \<Rightarrow> (page_idx \<times> pageaccs_list_pa_ctx \<times> kmm) res" where
  "list_pa_next_frame lctx m =
     (if li_pages_left lctx \<noteq> 0 then
        let f = li_curr lctx
        in Inr (frame_idx m f, lctx\<lparr>li_curr := lh_next (frame_links m) (li_curr lctx),
                                    li_pages_left := li_pages_left lctx - 1\<rparr>, m)
      else Inr (INVALID_PAGE_IDX, lctx, m))"

definition list_pa_reset :: "pageaccs_list_pa_ctx \<Rightarrow> pageaccs_list_pa_ctx" where
  "list_pa_reset lctx = lctx\<lparr>li_curr := li_head lctx, li_pages_left := li_num_pages lctx\<rparr>"

definition pageaccs_list_pa :: "pageaccs_list_pa_ctx page_frame_accessor" where
  "pageaccs_list_pa =
     \<lparr>pa_frames_left = list_pa_frames_left, pa_next_frame = list_pa_next_frame,
      pa_reset = list_pa_reset, pa_alloc_page = pageaccs_alloc_page_stub\<rparr>"

section \<open>The cache and its abstraction\<close>

text \<open>\<open>cache_rep m nodes\<close>: the free list of the cache holds the frames \<open>nodes\<close>, in order, and the
  counter is not behind it. The counter may run ahead: \<^verbatim>\<open>initialize_percpu_caches\<close> counts every page twice.\<close>

definition cache_rep :: "kmm \<Rightarrow> addr list \<Rightarrow> bool" where
  "cache_rep m nodes \<longleftrightarrow> dlist (frame_links m) (pc_pages (cpu_cache m)) nodes \<and>
     length nodes \<le> unat (pc_num_free_pages (cpu_cache m))"

definition zeroed :: "(u64 \<Rightarrow> u64) \<Rightarrow> page_idx \<Rightarrow> (u64 \<Rightarrow> u64)" where
  "zeroed mem idx = memset_zero (pframe_to_virt idx) PAGE_SIZE mem"

definition take_frame :: "addr \<Rightarrow> kmm \<Rightarrow> kmm" where
  "take_frame n m = m\<lparr>frame_links := list_del n (frame_links m),
     cpu_cache := (cpu_cache m)\<lparr>pc_num_free_pages := pc_num_free_pages (cpu_cache m) - 1\<rparr>\<rparr>"

lemma take_frame_simps [simp]:
  "kmem (take_frame n m) = kmem m" "frame_idx (take_frame n m) = frame_idx m"
  "frame_links (take_frame n m) = list_del n (frame_links m)"
  "pc_pages (cpu_cache (take_frame n m)) = pc_pages (cpu_cache m)"
  "mem_total_pages (take_frame n m) = mem_total_pages m"
  by (simp_all add: take_frame_def)

lemma cache_rep_mem [simp]: "cache_rep (m\<lparr>kmem := k\<rparr>) nodes = cache_rep m nodes"
  by (simp add: cache_rep_def)

lemma cache_rep_take:
  assumes "cache_rep m (n # nodes)"
  shows "cache_rep (take_frame n m) nodes" and "pc_num_free_pages (cpu_cache m) > 0"
    and "lh_next (frame_links m) (pc_pages (cpu_cache m)) = n"
proof -
  have d: "dlist (frame_links m) (pc_pages (cpu_cache m)) (n # nodes)"
    and num: "Suc (length nodes) \<le> unat (pc_num_free_pages (cpu_cache m))"
    using assms by (auto simp: cache_rep_def)
  show first: "lh_next (frame_links m) (pc_pages (cpu_cache m)) = n" using ring.pop_front(1) [OF d] .
  have "dlist (list_del n (frame_links m)) (pc_pages (cpu_cache m)) nodes"
    using ring.pop_front(2) [OF d] first by simp
  moreover have pos: "pc_num_free_pages (cpu_cache m) > 0" using num by (simp add: word_less_nat_alt)
  then have "unat (pc_num_free_pages (cpu_cache m) - 1) = unat (pc_num_free_pages (cpu_cache m)) - 1"
    by (intro unat_minus_one) auto
  ultimately show "cache_rep (take_frame n m) nodes" using num by (simp add: cache_rep_def take_frame_def)
  show "pc_num_free_pages (cpu_cache m) > 0" by (rule pos)
qed

lemma alloc_page_take:
  assumes "cache_rep m (n # nodes)" and "flags AND PAF_DMA_PAGE = 0"
  shows "alloc_page flags clean m = Inr (Some n,
    if clean then (take_frame n m)\<lparr>kmem := zeroed (kmem m) (frame_idx m n)\<rparr> else take_frame n m)"
  using cache_rep_take [OF assms(1)] assms(2)
  by (simp add: alloc_page_def Let_def arch_clean_page_def zeroed_def take_frame_def)

lemma alloc_page_empty:
  assumes "pc_num_free_pages (cpu_cache m) = 0" and "flags AND PAF_DMA_PAGE = 0"
  shows "alloc_page flags clean m = (if clean then Inl BadAccess else Inr (None, m))"
  using assms by (simp add: alloc_page_def arch_clean_page_def)

lemma alloc_page_dma: "flags AND PAF_DMA_PAGE \<noteq> 0 \<Longrightarrow> alloc_page flags clean m = Inr (None, m)"
  by (simp add: alloc_page_def)

section \<open>The interface of a frame source\<close>

text \<open>
  \<open>rep c m fs frs\<close>: the accessor in context \<open>c\<close> will hand out the frames \<open>fs\<close> for mapping, in
  order, while the frames \<open>frs\<close> stay free. The contents of memory do not matter to it, nor does it
  change them.
\<close>

locale frame_supply =
  fixes pacc :: "'c page_frame_accessor"
    and rep :: "'c \<Rightarrow> kmm \<Rightarrow> page_idx list \<Rightarrow> page_idx list \<Rightarrow> bool"
  assumes rep_next: "rep c m (f # fs) frs \<Longrightarrow>
      \<exists>c' m'. pa_next_frame pacc c m = Inr (f, c', m') \<and> kmem m' = kmem m \<and> rep c' m' fs frs"
    and rep_mem: "rep c m fs frs \<Longrightarrow> rep c (m\<lparr>kmem := k\<rparr>) fs frs"

text \<open>A source also hands out the frames \<open>frs\<close> for page tables, in order. A page-table frame comes
  zeroed; a DMA request is refused.\<close>

locale frame_source = frame_supply +
  assumes rep_alloc: "rep c m fs (r # frs) \<Longrightarrow> flags AND PAF_DMA_PAGE = 0 \<Longrightarrow>
      \<exists>n m'. pa_alloc_page pacc c flags True m = Inr (Some n, m') \<and> frame_idx m' n = r \<and>
        kmem m' = zeroed (kmem m) r \<and> rep c m' fs frs"
    and alloc_dma: "flags AND PAF_DMA_PAGE \<noteq> 0 \<Longrightarrow> pa_alloc_page pacc c flags True m = Inr (None, m)"

definition cache_frames :: "kmm \<Rightarrow> page_idx list \<Rightarrow> bool" where
  "cache_frames m frs \<longleftrightarrow> (\<exists>nodes. cache_rep m nodes \<and> frs = map (frame_idx m) nodes)"

lemma cache_frames_mem [simp]: "cache_frames (m\<lparr>kmem := k\<rparr>) frs = cache_frames m frs"
  by (simp add: cache_frames_def)

text \<open>An allocation in terms of the frames of the cache.\<close>

lemma cache_frames_alloc:
  assumes "cache_frames m (r # frs)" and "flags AND PAF_DMA_PAGE = 0"
  shows "\<exists>n m'. alloc_page flags clean m = Inr (Some n, m') \<and> frame_idx m n = r \<and> frame_idx m' = frame_idx m \<and>
    kmem m' = (if clean then zeroed (kmem m) r else kmem m) \<and> cache_frames m' frs"
proof -
  obtain n nodes where n: "cache_rep m (n # nodes)" "r = frame_idx m n" "frs = map (frame_idx m) nodes"
    using assms(1) by (auto simp: cache_frames_def)
  have "cache_frames (take_frame n m) frs"
    using cache_rep_take(1) [OF n(1)] n(3) by (auto simp: cache_frames_def)
  then show ?thesis using alloc_page_take [OF n(1) assms(2)] n(2) by simp
qed

definition linear_rep ::
  "pageaccs_linear_pa_ctx \<Rightarrow> kmm \<Rightarrow> page_idx list \<Rightarrow> page_idx list \<Rightarrow> bool" where
  "linear_rep c m fs frs \<longleftrightarrow>
     fs = map (\<lambda>i. lp_curr_page c + of_nat i) [0..<length fs] \<and> cache_frames m frs"

lemma linear_rep_next:
  assumes "linear_rep c m (f # fs) frs"
  shows "\<exists>c'. linear_pa_next_frame c m = Inr (f, c', m) \<and> linear_rep c' m fs frs"
proof -
  have "map (\<lambda>i. lp_curr_page c + of_nat i) [0..<Suc (length fs)]
      = lp_curr_page c # map (\<lambda>i. lp_curr_page c + 1 + of_nat i) [0..<length fs]"
    unfolding upt_conv_Cons [OF zero_less_Suc] map_Suc_upt [symmetric] by (simp add: comp_def add.assoc)
  then show ?thesis using assms by (simp add: linear_rep_def linear_pa_next_frame_def del: upt_Suc)
qed

interpretation linear_pa: frame_source pageaccs_linear_pa linear_rep
proof (unfold_locales, goal_cases)
  case (1 c m f fs frs)
  then show ?case using linear_rep_next by (fastforce simp: pageaccs_linear_pa_def)
next
  case (2 c m fs frs k)
  then show ?case by (simp add: linear_rep_def cache_frames_def)
next
  case (3 c m fs r frs flags)
  then obtain n nodes where "cache_rep m (n # nodes)" "r = frame_idx m n" "frs = map (frame_idx m) nodes"
    by (auto simp: linear_rep_def cache_frames_def)
  with 3 cache_rep_take(1) [of m n nodes] show ?case
    by (auto simp: pageaccs_linear_pa_def pageaccs_alloc_page_stub_def alloc_page_take linear_rep_def
        cache_frames_def)
next
  case (4 flags c m)
  then show ?case
    by (simp add: pageaccs_linear_pa_def pageaccs_alloc_page_stub_def alloc_page_dma)
qed

text \<open>The list accessor follows the links of the frames it is given, which must not be frames
  of the cache: taking a frame from the cache rewrites the links of its neighbours.\<close>

fun link_walk :: "list_heap \<Rightarrow> addr \<Rightarrow> addr list \<Rightarrow> bool" where
  "link_walk h a [] \<longleftrightarrow> True"
| "link_walk h a (x # xs) \<longleftrightarrow> x = a \<and> link_walk h (lh_next h a) xs"

definition list_rep ::
  "pageaccs_list_pa_ctx \<Rightarrow> kmm \<Rightarrow> page_idx list \<Rightarrow> page_idx list \<Rightarrow> bool" where
  "list_rep c m fs frs \<longleftrightarrow> (\<exists>xs nodes. cache_rep m nodes \<and> frs = map (frame_idx m) nodes \<and>
     link_walk (frame_links m) (li_curr c) xs \<and> fs = map (frame_idx m) xs \<and>
     length xs < 2 ^ 32 \<and> li_pages_left c = of_nat (length xs) \<and>
     set xs \<inter> insert (pc_pages (cpu_cache m)) (set nodes) = {})"

lemma link_walk_cong:
  assumes "\<And>x. x \<in> set xs \<Longrightarrow> lh_next h' x = lh_next h x"
  shows "link_walk h' a xs = link_walk h a xs"
  using assms by (induction xs arbitrary: a) auto

lemma list_rep_next:
  assumes "list_rep c m (f # fs) frs"
  shows "\<exists>c'. list_pa_next_frame c m = Inr (f, c', m) \<and> list_rep c' m fs frs"
proof -
  obtain x xs nodes where w: "cache_rep m nodes" "frs = map (frame_idx m) nodes"
      "link_walk (frame_links m) (li_curr c) (x # xs)" "f = frame_idx m x" "fs = map (frame_idx m) xs"
      "Suc (length xs) < 2 ^ 32" "li_pages_left c = of_nat (Suc (length xs))"
      "set (x # xs) \<inter> insert (pc_pages (cpu_cache m)) (set nodes) = {}"
    using assms by (auto simp: list_rep_def)
  have "unat (li_pages_left c) = Suc (length xs)"
    unfolding w(7) using w(6) by (intro unat_of_nat_small) simp
  then have "li_pages_left c \<noteq> 0" by auto
  moreover have "set xs \<inter> insert (pc_pages (cpu_cache m)) (set nodes) = {}" using w(8) by auto
  moreover have "list_rep (c\<lparr>li_curr := lh_next (frame_links m) (li_curr c),
      li_pages_left := li_pages_left c - 1\<rparr>) m fs frs"
    using w unfolding list_rep_def by (intro exI [of _ xs] exI [of _ nodes]) auto
  ultimately show ?thesis
    using w(3,4) by (simp add: list_pa_next_frame_def Let_def)
qed

lemma list_rep_take:
  assumes "cache_rep m (n # nodes)" and "link_walk (frame_links m) a xs"
    and "set xs \<inter> insert (pc_pages (cpu_cache m)) (set (n # nodes)) = {}"
  shows "link_walk (list_del n (frame_links m)) a xs"
proof -
  have d: "dlist (frame_links m) (pc_pages (cpu_cache m)) ([] @ n # nodes)"
    using assms(1) by (simp add: cache_rep_def)
  have "lh_next (list_del n (frame_links m)) x = lh_next (frame_links m) x" if "x \<in> set xs" for x
    using list_del_frame [OF d, of x] assms(3) that by auto
  then show ?thesis using assms(2) link_walk_cong by blast
qed

interpretation list_pa: frame_source pageaccs_list_pa list_rep
proof (unfold_locales, goal_cases)
  case (1 c m f fs frs)
  then show ?case using list_rep_next by (fastforce simp: pageaccs_list_pa_def)
next
  case (2 c m fs frs k)
  then show ?case by (auto simp: list_rep_def)
next
  case (3 c m fs r frs flags)
  then obtain xs n nodes where w: "cache_rep m (n # nodes)" "r = frame_idx m n"
      "frs = map (frame_idx m) nodes" "link_walk (frame_links m) (li_curr c) xs"
      "fs = map (frame_idx m) xs" "length xs < 2 ^ 32" "li_pages_left c = of_nat (length xs)"
      "set xs \<inter> insert (pc_pages (cpu_cache m)) (set (n # nodes)) = {}"
    by (auto simp: list_rep_def)
  let ?m = "(take_frame n m)\<lparr>kmem := zeroed (kmem m) r\<rparr>"
  have "alloc_page flags True m = Inr (Some n, ?m)" using alloc_page_take [OF w(1)] 3(2) w(2) by simp
  moreover have "list_rep c ?m fs frs"
    using w cache_rep_take(1) [OF w(1)] list_rep_take [OF w(1,4,8)]
    unfolding list_rep_def by (intro exI [of _ xs] exI [of _ nodes]) auto
  ultimately show ?case
    using w(2) by (simp add: pageaccs_list_pa_def pageaccs_alloc_page_stub_def)
next
  case (4 flags c m)
  then show ?case by (simp add: pageaccs_list_pa_def pageaccs_alloc_page_stub_def alloc_page_dma)
qed

section \<open>Properties\<close>

text \<open>An allocation takes the first frame of the cache off its free list, lowers the counter
  and, on request, zeroes the frame's page and nothing else.\<close>

theorem alloc_takes_first_frame:
  assumes "cache_rep m (n # nodes)" and "flags AND PAF_DMA_PAGE = 0"
  shows "\<exists>m'. alloc_page flags clean m = Inr (Some n, m') \<and> cache_rep m' nodes \<and>
    frame_idx m' = frame_idx m \<and> pc_num_free_pages (cpu_cache m') = pc_num_free_pages (cpu_cache m) - 1 \<and>
    kmem m' = (if clean then zeroed (kmem m) (frame_idx m n) else kmem m)"
proof -
  let ?m = "if clean then (take_frame n m)\<lparr>kmem := zeroed (kmem m) (frame_idx m n)\<rparr> else take_frame n m"
  have "alloc_page flags clean m = Inr (Some n, ?m)" by (rule alloc_page_take [OF assms])
  moreover have "cache_rep ?m nodes" using cache_rep_take(1) [OF assms(1)] by simp
  ultimately show ?thesis by (auto simp: take_frame_def)
qed

definition one_frame :: kmm where
  "one_frame = \<lparr>kmem = (\<lambda>_. 7),
     frame_links = list_add_tail 0x10000 0x500 (init_list_head 0x500 \<lparr>lh_next = (\<lambda>_. 0), lh_prev = (\<lambda>_. 0)\<rparr>),
     frame_idx = (\<lambda>a. ucast (drop_bit 16 a)),
     cpu_cache = \<lparr>pc_pages = 0x500, pc_num_free_pages = 1, pc_total_pages = 1\<rparr>, mem_total_pages = 64\<rparr>"

lemma one_frame_rep: "cache_rep one_frame [0x10000]"
  using list_add_tail_dlist [OF init_list_head_empty] by (simp add: cache_rep_def one_frame_def)

theorem alloc_takes_first_frame_witness:
  "\<exists>m'. alloc_page GENERIC_KERNEL_PAGE True one_frame = Inr (Some 0x10000, m') \<and>
    cache_rep m' [] \<and> kmem m' 0xffffffff80001008 = 0 \<and> kmem m' 0xffffffff80002000 = 7"
  using alloc_takes_first_frame [OF one_frame_rep, of GENERIC_KERNEL_PAGE True]
  by (auto simp: GENERIC_KERNEL_PAGE_def one_frame_def zeroed_def memset_zero_def pframe_to_virt_def
      page_defs drop_bit_eq_div)

text \<open>A cache whose counter runs ahead of its free list hands out its own list head as if it
  were a page frame: the allocator trusts the counter and never looks at the list.\<close>

theorem alloc_past_the_list:
  assumes "dlist (frame_links m) (pc_pages (cpu_cache m)) []" and "0 < pc_num_free_pages (cpu_cache m)"
    and "flags AND PAF_DMA_PAGE = 0"
  shows "\<exists>m'. alloc_page flags False m = Inr (Some (pc_pages (cpu_cache m)), m') \<and>
    lh_next (frame_links m') (pc_pages (cpu_cache m)) = LIST_POISON1"
  using assms dlist_next_head [OF assms(1)] by (simp add: alloc_page_def Let_def list_del_poisons)

theorem alloc_past_the_list_witness:
  "\<exists>m'. alloc_page 0 False (one_frame\<lparr>frame_links := init_list_head 0x500 (frame_links one_frame)\<rparr>)
    = Inr (Some 0x500, m') \<and> lh_next (frame_links m') 0x500 = LIST_POISON1"
  using alloc_past_the_list [of "one_frame\<lparr>frame_links := init_list_head 0x500 (frame_links one_frame)\<rparr>" 0]
    init_list_head_empty [of "0x500"] by (simp add: one_frame_def)

end
