(* ===== verification/Mui_PageTable.thy ===== *)
theory Mui_PageTable
  imports Mui_Frames
begin

text \<open>
  The four-level page tables of \<^verbatim>\<open>eza/amd64/mm/pt.c\<close> and \<^verbatim>\<open>mm/pt.c\<close>: the layouts of the
  entries, the routines that fill a range of each level, \<^verbatim>\<open>mm_map_pages\<close> and
  \<^verbatim>\<open>mm_pin_virtual_address\<close>.
\<close>

section \<open>Layout of the entries\<close>

record pml4_entry =
  e4_present :: "1 word"
  e4_rw :: "1 word"
  e4_us :: "1 word"
  e4_pwt :: "1 word"
  e4_pcd :: "1 word"
  e4_a :: "1 word"
  e4_reserved_6_8 :: "3 word"
  e4_available_9_11 :: "3 word"
  e4_base_0_19 :: "20 word"
  e4_base_20_39 :: "20 word"
  e4_available_52_62 :: "11 word"
  e4_nx :: "1 word"

type_synonym pdp3_entry = pml4_entry

record pde2_entry =
  e2_present :: "1 word"
  e2_rw :: "1 word"
  e2_us :: "1 word"
  e2_pwt :: "1 word"
  e2_pcd :: "1 word"
  e2_a :: "1 word"
  e2_x6 :: "1 word"
  e2_page_size :: "1 word"
  e2_x8 :: "1 word"
  e2_available_9_11 :: "3 word"
  e2_base_0_19 :: "20 word"
  e2_base_20_39 :: "20 word"
  e2_available_52_62 :: "11 word"
  e2_nx :: "1 word"

record pte =
  e1_present :: "1 word"
  e1_rw :: "1 word"
  e1_us :: "1 word"
  e1_pwt :: "1 word"
  e1_pcd :: "1 word"
  e1_a :: "1 word"
  e1_d :: "1 word"
  e1_pat :: "1 word"
  e1_g :: "1 word"
  e1_available_9_11 :: "3 word"
  e1_base_0_19 :: "20 word"
  e1_base_20_39 :: "20 word"
  e1_available_52_62 :: "11 word"
  e1_nx :: "1 word"

definition field :: "nat \<Rightarrow> u64 \<Rightarrow> 'a::len word" where
  "field lo w = ucast (drop_bit lo w)"

definition place :: "nat \<Rightarrow> 'a::len word \<Rightarrow> u64" where
  "place lo v = push_bit lo (ucast v)"

definition pml4_decode :: "u64 \<Rightarrow> pml4_entry" where
  "pml4_decode w = \<lparr>e4_present = field 0 w, e4_rw = field 1 w, e4_us = field 2 w, e4_pwt = field 3 w,
     e4_pcd = field 4 w, e4_a = field 5 w, e4_reserved_6_8 = field 6 w, e4_available_9_11 = field 9 w,
     e4_base_0_19 = field 12 w, e4_base_20_39 = field 32 w, e4_available_52_62 = field 52 w,
     e4_nx = field 63 w\<rparr>"

definition pml4_encode :: "pml4_entry \<Rightarrow> u64" where
  "pml4_encode e = place 0 (e4_present e) OR place 1 (e4_rw e) OR place 2 (e4_us e)
     OR place 3 (e4_pwt e) OR place 4 (e4_pcd e) OR place 5 (e4_a e) OR place 6 (e4_reserved_6_8 e)
     OR place 9 (e4_available_9_11 e) OR place 12 (e4_base_0_19 e) OR place 32 (e4_base_20_39 e)
     OR place 52 (e4_available_52_62 e) OR place 63 (e4_nx e)"

definition pde2_decode :: "u64 \<Rightarrow> pde2_entry" where
  "pde2_decode w = \<lparr>e2_present = field 0 w, e2_rw = field 1 w, e2_us = field 2 w, e2_pwt = field 3 w,
     e2_pcd = field 4 w, e2_a = field 5 w, e2_x6 = field 6 w, e2_page_size = field 7 w,
     e2_x8 = field 8 w, e2_available_9_11 = field 9 w, e2_base_0_19 = field 12 w,
     e2_base_20_39 = field 32 w, e2_available_52_62 = field 52 w, e2_nx = field 63 w\<rparr>"

definition pde2_encode :: "pde2_entry \<Rightarrow> u64" where
  "pde2_encode e = place 0 (e2_present e) OR place 1 (e2_rw e) OR place 2 (e2_us e)
     OR place 3 (e2_pwt e) OR place 4 (e2_pcd e) OR place 5 (e2_a e) OR place 6 (e2_x6 e)
     OR place 7 (e2_page_size e) OR place 8 (e2_x8 e) OR place 9 (e2_available_9_11 e)
     OR place 12 (e2_base_0_19 e) OR place 32 (e2_base_20_39 e) OR place 52 (e2_available_52_62 e)
     OR place 63 (e2_nx e)"

definition pte_decode :: "u64 \<Rightarrow> pte" where
  "pte_decode w = \<lparr>e1_present = field 0 w, e1_rw = field 1 w, e1_us = field 2 w, e1_pwt = field 3 w,
     e1_pcd = field 4 w, e1_a = field 5 w, e1_d = field 6 w, e1_pat = field 7 w, e1_g = field 8 w,
     e1_available_9_11 = field 9 w, e1_base_0_19 = field 12 w, e1_base_20_39 = field 32 w,
     e1_available_52_62 = field 52 w, e1_nx = field 63 w\<rparr>"

definition pte_encode :: "pte \<Rightarrow> u64" where
  "pte_encode e = place 0 (e1_present e) OR place 1 (e1_rw e) OR place 2 (e1_us e)
     OR place 3 (e1_pwt e) OR place 4 (e1_pcd e) OR place 5 (e1_a e) OR place 6 (e1_d e)
     OR place 7 (e1_pat e) OR place 8 (e1_g e) OR place 9 (e1_available_9_11 e)
     OR place 12 (e1_base_0_19 e) OR place 32 (e1_base_20_39 e) OR place 52 (e1_available_52_62 e)
     OR place 63 (e1_nx e)"

lemma field_or: "field lo (v OR w) = field lo v OR field lo w"
  by (rule bit_word_eqI) (auto simp: field_def bit_simps)

lemma field_place_same:
  "lo + LENGTH('a) \<le> 64 \<Longrightarrow> field lo (place lo (v :: 'a::len word)) = v"
  by (rule bit_word_eqI) (auto simp: field_def place_def bit_simps)

lemma field_place_other:
  "lo + LENGTH('a) \<le> lo' \<or> lo' + LENGTH('b) \<le> lo \<Longrightarrow>
   (field lo (place lo' (v :: 'b::len word)) :: 'a::len word) = 0"
  by (rule bit_word_eqI) (auto simp: field_def place_def bit_simps dest: bit_imp_le_length)

lemma pml4_decode_encode [simp]: "pml4_decode (pml4_encode e) = e"
  by (simp add: pml4_decode_def pml4_encode_def field_or field_place_same field_place_other)

lemma pde2_decode_encode [simp]: "pde2_decode (pde2_encode e) = e"
  by (simp add: pde2_decode_def pde2_encode_def field_or field_place_same field_place_other)

lemma pte_decode_encode [simp]: "pte_decode (pte_encode e) = e"
  by (simp add: pte_decode_def pte_encode_def field_or field_place_same field_place_other)

section \<open>Addresses of tables and entries\<close>

definition PTE_ENTRIES_PER_PAGE :: u64 where "PTE_ENTRIES_PER_PAGE = 512"
definition L1_ENTRY_RANGE :: u64 where "L1_ENTRY_RANGE = PAGE_SIZE"
definition L2_ENTRY_RANGE :: u64 where "L2_ENTRY_RANGE = L1_ENTRY_RANGE * PTE_ENTRIES_PER_PAGE"
definition L3_ENTRY_RANGE :: u64 where "L3_ENTRY_RANGE = L2_ENTRY_RANGE * PTE_ENTRIES_PER_PAGE"
definition L4_ENTRY_RANGE :: u64 where "L4_ENTRY_RANGE = L3_ENTRY_RANGE * PTE_ENTRIES_PER_PAGE"
definition L2_ADDR_MASK :: u64 where "L2_ADDR_MASK = NOT (L2_ENTRY_RANGE - 1)"
definition L3_ADDR_MASK :: u64 where "L3_ADDR_MASK = NOT (L3_ENTRY_RANGE - 1)"
definition L4_ADDR_MASK :: u64 where "L4_ADDR_MASK = NOT (L4_ENTRY_RANGE - 1)"

record page_directory =
  pd_entries :: addr

definition initialize_page_directory :: "page_directory \<Rightarrow> page_directory" where
  "initialize_page_directory pd = pd\<lparr>pd_entries := 0\<rparr>"

text \<open>
  The base of the next table. The two 20-bit fields are promoted to a 32-bit \<^verbatim>\<open>int\<close>, shifted
  there, and the sign of the result is extended when it is stored in the 64-bit address.
\<close>

definition table_base :: "20 word \<Rightarrow> 20 word \<Rightarrow> u64" where
  "table_base base_0_19 base_20_39 =
     scast (push_bit 12 ((ucast base_0_19 :: 32 word) OR push_bit 20 (ucast base_20_39 :: 32 word)))"

definition entry_ptr :: "addr \<Rightarrow> u64 \<Rightarrow> addr" where
  "entry_ptr table idx = table + 8 * idx"

definition store_slot :: "addr \<Rightarrow> u64 \<Rightarrow> kmm \<Rightarrow> kmm" where
  "store_slot a w m = m\<lparr>kmem := (kmem m)(a := w)\<rparr>"

definition vaddr_to_pml4 :: "u64 \<Rightarrow> page_directory \<Rightarrow> addr" where
  "vaddr_to_pml4 vaddr pd = entry_ptr (pd_entries pd) (drop_bit 39 vaddr AND 0x1FF)"

section \<open>Filling one entry\<close>

definition populate_pml4_entry ::
  "addr \<Rightarrow> 'c page_frame_accessor \<Rightarrow> page_flags \<Rightarrow> 'c \<Rightarrow> kmm \<Rightarrow> (int \<times> kmm) res" where
  "populate_pml4_entry entry pacc flags ctx m =
     rbind (pa_alloc_page pacc ctx flags True m) (\<lambda>(pf, m).
       case pf of
         None \<Rightarrow> Inr (- ENOMEM, m)
       | Some f \<Rightarrow>
           let pfn = frame_idx m f;
               e = pml4_decode (kmem m entry)
           in Inr (0, store_slot entry (pml4_encode (e\<lparr>e4_present := 1, e4_rw := 1, e4_us := 0,
                e4_pwt := 0, e4_pcd := 0, e4_a := 0, e4_reserved_6_8 := 0, e4_available_9_11 := 0,
                e4_available_52_62 := 0, e4_nx := 0, e4_base_0_19 := ucast (pfn AND 0xfffff),
                e4_base_20_39 := ucast (drop_bit 20 pfn AND 0xfffff)\<rparr>)) m))"

definition populate_pdp3_entry ::
  "addr \<Rightarrow> 'c page_frame_accessor \<Rightarrow> page_flags \<Rightarrow> 'c \<Rightarrow> kmm \<Rightarrow> (int \<times> kmm) res" where
  "populate_pdp3_entry entry pacc flags ctx m =
     rbind (pa_alloc_page pacc ctx flags True m) (\<lambda>(pf, m).
       case pf of
         None \<Rightarrow> Inr (- ENOMEM, m)
       | Some f \<Rightarrow>
           let pfn = frame_idx m f;
               e = pml4_decode (kmem m entry)
           in Inr (0, store_slot entry (pml4_encode (e\<lparr>e4_present := 1, e4_rw := 1, e4_us := 0,
                e4_pwt := 0, e4_pcd := 0, e4_a := 0, e4_reserved_6_8 := 0, e4_available_9_11 := 0,
                e4_available_52_62 := 0, e4_nx := 0, e4_base_0_19 := ucast (pfn AND 0xfffff),
                e4_base_20_39 := ucast (drop_bit 20 pfn AND 0xfffff)\<rparr>)) m))"

definition populate_pde2_entry ::
  "addr \<Rightarrow> 'c page_frame_accessor \<Rightarrow> page_flags \<Rightarrow> 'c \<Rightarrow> kmm \<Rightarrow> (int \<times> kmm) res" where
  "populate_pde2_entry entry pacc flags ctx m =
     rbind (pa_alloc_page pacc ctx flags True m) (\<lambda>(pf, m).
       case pf of
         None \<Rightarrow> Inr (- ENOMEM, m)
       | Some f \<Rightarrow>
           let pfn = frame_idx m f;
               e = pde2_decode (kmem m entry)
           in Inr (0, store_slot entry (pde2_encode (e\<lparr>e2_present := 1, e2_rw := 1, e2_us := 0,
                e2_pwt := 0, e2_pcd := 0, e2_a := 0, e2_x6 := 0, e2_page_size := 0, e2_x8 := 0,
                e2_available_52_62 := 0, e2_nx := 0, e2_base_0_19 := ucast (pfn AND 0xfffff),
                e2_base_20_39 := ucast (drop_bit 20 pfn AND 0xfffff)\<rparr>)) m))"

definition fill_pte :: "page_flags \<Rightarrow> page_idx \<Rightarrow> pte \<Rightarrow> pte" where
  "fill_pte flags page_base e = e\<lparr>e1_present := 1, e1_rw := 1,
     e1_us := (if flags AND PF_KERNEL_PAGE \<noteq> 0 then 0 else 1),
     e1_pwt := 0,
     e1_pcd := (if flags AND PF_IO_PAGE \<noteq> 0 then 1 else 0),
     e1_a := 0, e1_d := 0, e1_pat := 0, e1_g := 1, e1_available_9_11 := 0,
     e1_available_52_62 := 0, e1_nx := 0,
     e1_base_0_19 := ucast (page_base AND 0xfffff),
     e1_base_20_39 := ucast (drop_bit 20 page_base AND 0xfffff)\<rparr>"

section \<open>Filling a range\<close>

text \<open>The loops run their body first; a loop that does not end is \<open>None\<close>.\<close>

partial_function (option) map_pde2_loop ::
  "u64 \<Rightarrow> u64 \<Rightarrow> u64 \<Rightarrow> 'c page_frame_accessor \<Rightarrow> page_flags \<Rightarrow> 'c \<Rightarrow> kmm \<Rightarrow>
   (int \<times> 'c \<times> kmm) res option" where
  "map_pde2_loop v virt_addr end_addr pacc flags ctx m =
     (let pte = entry_ptr (p2k_code v) (drop_bit 12 virt_addr AND 0x1ff)
      in obind (Some (pa_next_frame pacc ctx m)) (\<lambda>(frame_idx, ctx, m).
           let m = store_slot pte (pte_encode (fill_pte flags frame_idx (pte_decode (kmem m pte)))) m;
               virt_addr = virt_addr + L1_ENTRY_RANGE
           in if virt_addr < end_addr
              then map_pde2_loop v virt_addr end_addr pacc flags ctx m
              else Some (Inr (0, ctx, m))))"

definition map_pde2_range ::
  "addr \<Rightarrow> u64 \<Rightarrow> u64 \<Rightarrow> 'c page_frame_accessor \<Rightarrow> page_flags \<Rightarrow> 'c \<Rightarrow> kmm \<Rightarrow>
   (int \<times> 'c \<times> kmm) res option" where
  "map_pde2_range pde2 virt_addr end_addr pacc flags ctx m =
     (let e = pde2_decode (kmem m pde2);
          v = table_base (e2_base_0_19 e) (e2_base_20_39 e)
      in map_pde2_loop v virt_addr end_addr pacc flags ctx m)"

definition ensure_entry :: "(int \<times> kmm) res \<Rightarrow> bool \<Rightarrow> kmm \<Rightarrow> (int \<times> kmm) res" where
  "ensure_entry populated valid m = (if valid then Inr (0, m) else populated)"

definition clip_to :: "u64 \<Rightarrow> u64 \<Rightarrow> u64 \<Rightarrow> u64 \<Rightarrow> u64" where
  "clip_to entry_range addr_mask virt_addr to_addr =
     (if to_addr > (virt_addr + entry_range) AND addr_mask
      then (virt_addr + entry_range) AND addr_mask else to_addr)"

partial_function (option) map_pdp3_loop ::
  "addr \<Rightarrow> u64 \<Rightarrow> u64 \<Rightarrow> u64 \<Rightarrow> 'c page_frame_accessor \<Rightarrow> page_flags \<Rightarrow> 'c \<Rightarrow> kmm \<Rightarrow>
   (int \<times> 'c \<times> kmm) res option" where
  "map_pdp3_loop pde2 virt_addr len end_addr pacc flags ctx m =
     obind (Some (ensure_entry (populate_pde2_entry pde2 pacc flags ctx m)
                    (e2_present (pde2_decode (kmem m pde2)) \<noteq> 0) m)) (\<lambda>(r, m).
     if r \<noteq> 0 then Some (Inr (- ENOMEM, ctx, m)) else
     let to_addr = clip_to L2_ENTRY_RANGE L2_ADDR_MASK virt_addr (virt_addr + len);
         len = len - (to_addr - virt_addr)
     in obind (map_pde2_range pde2 virt_addr to_addr pacc flags ctx m) (\<lambda>(r, ctx, m).
        if r \<noteq> 0 then Some (Inr (- ENOMEM, ctx, m)) else
        if to_addr < end_addr
        then map_pdp3_loop (pde2 + 8) to_addr len end_addr pacc flags ctx m
        else Some (Inr (0, ctx, m))))"

definition map_pdp3_range ::
  "addr \<Rightarrow> u64 \<Rightarrow> u64 \<Rightarrow> 'c page_frame_accessor \<Rightarrow> page_flags \<Rightarrow> 'c \<Rightarrow> kmm \<Rightarrow>
   (int \<times> 'c \<times> kmm) res option" where
  "map_pdp3_range pdp3 virt_addr end_addr pacc flags ctx m =
     (let e = pml4_decode (kmem m pdp3);
          v = p2k_code (table_base (e4_base_0_19 e) (e4_base_20_39 e));
          pde2 = entry_ptr v (drop_bit 21 virt_addr AND 0x1ff)
      in map_pdp3_loop pde2 virt_addr (end_addr - virt_addr) end_addr pacc flags ctx m)"

partial_function (option) map_pml4_loop ::
  "addr \<Rightarrow> u64 \<Rightarrow> u64 \<Rightarrow> u64 \<Rightarrow> 'c page_frame_accessor \<Rightarrow> page_flags \<Rightarrow> 'c \<Rightarrow> kmm \<Rightarrow>
   (int \<times> 'c \<times> kmm) res option" where
  "map_pml4_loop pdp3 virt_addr len end_addr pacc flags ctx m =
     obind (Some (ensure_entry (populate_pdp3_entry pdp3 pacc flags ctx m)
                    (e4_present (pml4_decode (kmem m pdp3)) \<noteq> 0) m)) (\<lambda>(r, m).
     if r \<noteq> 0 then Some (Inr (- ENOMEM, ctx, m)) else
     let to_addr = clip_to L3_ENTRY_RANGE L3_ADDR_MASK virt_addr (virt_addr + len);
         len = len - (to_addr - virt_addr)
     in obind (map_pdp3_range pdp3 virt_addr to_addr pacc flags ctx m) (\<lambda>(r, ctx, m).
        if r \<noteq> 0 then Some (Inr (- ENOMEM, ctx, m)) else
        if to_addr < end_addr
        then map_pml4_loop (pdp3 + 8) to_addr len end_addr pacc flags ctx m
        else Some (Inr (0, ctx, m))))"

definition map_pml4_range ::
  "addr \<Rightarrow> u64 \<Rightarrow> u64 \<Rightarrow> 'c page_frame_accessor \<Rightarrow> page_flags \<Rightarrow> 'c \<Rightarrow> kmm \<Rightarrow>
   (int \<times> 'c \<times> kmm) res option" where
  "map_pml4_range pml4 virt_addr end_addr pacc flags ctx m =
     (let e = pml4_decode (kmem m pml4);
          v = table_base (e4_base_0_19 e) (e4_base_20_39 e);
          pdp3 = entry_ptr (p2k_code v) (drop_bit 30 virt_addr AND 0x1ff)
      in map_pml4_loop pdp3 virt_addr (end_addr - virt_addr) end_addr pacc flags ctx m)"

definition mm_map_pages ::
  "page_directory option \<Rightarrow> 'c page_frame_accessor option \<Rightarrow> u64 \<Rightarrow> u64 \<Rightarrow> page_flags \<Rightarrow> 'c \<Rightarrow> kmm \<Rightarrow>
   (int \<times> 'c \<times> kmm) res option" where
  "mm_map_pages pd pacc virt_addr num_pages flags ctx m =
     (case (pd, pacc) of
        (Some pd, Some pacc) \<Rightarrow>
          if pd_entries pd = 0 \<or> num_pages = 0 \<or> virt_addr = 0 then Some (Inr (- EINVAL, ctx, m))
          else if pd_entries pd AND NOT PAGE_ADDR_MASK \<noteq> 0 then Some (Inr (- EINVAL, ctx, m))
          else
            let end_addr = virt_addr + num_pages * PAGE_SIZE
            in if end_addr < virt_addr \<or> end_addr > MAX_VIRT_ADDRESS
               then Some (Inr (- EINVAL, ctx, m))
               else
                 let virt_addr = virt_addr AND PAGE_ADDR_MASK;
                     pml4 = vaddr_to_pml4 virt_addr pd;
                     len = end_addr - virt_addr
                 in obind (Some (ensure_entry (populate_pml4_entry pml4 pacc flags ctx m)
                              (e4_present (pml4_decode (kmem m pml4)) \<noteq> 0) m)) (\<lambda>(r, m).
                    if r \<noteq> 0 then Some (Inr (- ENOMEM, ctx, m)) else
                    let to_addr =
                          (if virt_addr < MAX_VIRT_ADDRESS - L4_ENTRY_RANGE
                           then clip_to L4_ENTRY_RANGE L4_ADDR_MASK virt_addr (virt_addr + len)
                           else virt_addr + len)
                    in obind (map_pml4_range pml4 virt_addr to_addr pacc flags ctx m) (\<lambda>(r, ctx, m).
                       if r \<noteq> 0 then Some (Inr (- ENOMEM, ctx, m))
                       else Some (Inr (0, ctx, m))))
      | _ \<Rightarrow> Some (Inr (- EINVAL, ctx, m)))"

text \<open>The \<^verbatim>\<open>break\<close> at the end of the loop body of \<^verbatim>\<open>mm_map_pages\<close> leaves it after one entry.\<close>

definition mm_pin_virtual_address :: "page_directory \<Rightarrow> u64 \<Rightarrow> kmm \<Rightarrow> page_idx" where
  "mm_pin_virtual_address pd virt_addr m =
     (let e4 = pml4_decode (kmem m (vaddr_to_pml4 virt_addr pd))
      in if e4_present e4 = 0 then INVALID_PAGE_IDX else
      let v = p2k_code (table_base (e4_base_0_19 e4) (e4_base_20_39 e4));
          e3 = pml4_decode (kmem m (entry_ptr v (drop_bit 30 virt_addr AND 0x1ff)))
      in if e4_present e3 = 0 then INVALID_PAGE_IDX else
      let v = p2k_code (table_base (e4_base_0_19 e3) (e4_base_20_39 e3));
          e2 = pde2_decode (kmem m (entry_ptr v (drop_bit 21 virt_addr AND 0x1ff)))
      in if e2_present e2 = 0 then INVALID_PAGE_IDX else
      let v = p2k_code (table_base (e2_base_0_19 e2) (e2_base_20_39 e2));
          e1 = pte_decode (kmem m (entry_ptr v (drop_bit 12 virt_addr AND 0x1ff)))
      in if e1_present e1 = 0 then INVALID_PAGE_IDX
         else ucast (e1_base_0_19 e1) OR push_bit 20 (ucast (e1_base_20_39 e1)))"

end
