(* ===== verification/Mui_PageMap.thy ===== *)
theory Mui_PageMap
  imports Mui_PageTable "HOL-Library.Sublist"
begin

text \<open>
  What the page-table code of \<open>Mui_PageTable\<close> computes. A directory is read as a four-level tree
  of tables (\<open>walk\<close>, \<open>leaf\<close>); \<open>tables_ok\<close> is its invariant: no table is shared between two
  places of the tree, and no frame still free is a table. Under it each routine is shown to do
  what its level asks, and the levels are put together for \<^verbatim>\<open>mm_map_pages\<close>.
\<close>

section \<open>Entries as words\<close>

definition next_table :: "u64 \<Rightarrow> addr" where
  "next_table w = p2k_code (table_base (field 12 w) (field 32 w))"

definition frame_of :: "u64 \<Rightarrow> page_idx" where
  "frame_of w = ucast (field 12 w :: 20 word) OR push_bit 20 (ucast (field 32 w :: 20 word))"

definition table_entry :: "u64 \<Rightarrow> page_idx \<Rightarrow> bool" where
  "table_entry w r \<longleftrightarrow> bit w 0 \<and> next_table w = pframe_to_virt r"

lemma one_bit_zero_iff: "(w :: 1 word) = 0 \<longleftrightarrow> \<not> bit w 0"
  by (auto intro!: bit_word_eqI)

lemma field0_zero [simp]: "(field 0 w :: 1 word) = 0 \<longleftrightarrow> \<not> bit w 0"
  by (simp only: one_bit_zero_iff) (simp add: field_def bit_simps)

lemma decode_fields [simp]:
  "e4_present (pml4_decode w) = field 0 w" "e2_present (pde2_decode w) = field 0 w"
  "e1_present (pte_decode w) = field 0 w"
  "e4_base_0_19 (pml4_decode w) = field 12 w" "e4_base_20_39 (pml4_decode w) = field 32 w"
  "e2_base_0_19 (pde2_decode w) = field 12 w" "e2_base_20_39 (pde2_decode w) = field 32 w"
  "e1_base_0_19 (pte_decode w) = field 12 w" "e1_base_20_39 (pte_decode w) = field 32 w"
  by (simp_all add: pml4_decode_def pde2_decode_def pte_decode_def)

lemma split_20_20:
  "(ucast (ucast (x AND 0xfffff :: 32 word) :: 20 word) :: 32 word)
     OR push_bit 20 (ucast (ucast (drop_bit 20 x AND 0xfffff) :: 20 word)) = x"
proof -
  have m: "(0xfffff :: 32 word) = mask 20" by (simp add: mask_eq_exp_minus_1)
  show ?thesis unfolding m
    by (rule bit_word_eqI) (auto simp: bit_simps dest: bit_imp_le_length)
qed

lemma table_base_small:
  assumes "unat r < 2 ^ 19"
  shows "p2k_code (table_base (ucast (r AND 0xfffff)) (ucast (drop_bit 20 r AND 0xfffff))) =
    pframe_to_virt r"
proof -
  have "take_bit 19 r = r" using assms by (simp add: word_unat_eq_iff unat_take_bit)
  then have nb: "bit r n \<Longrightarrow> n < 19" for n by (metis bit_take_bit_iff)
  have "scast (push_bit 12 r :: 32 word) = (ucast (push_bit 12 r) :: 64 word)"
    by (intro bit_word_eqI) (auto simp: bit_simps min_def dest: nb)
  moreover have "push_bit 12 r = r * ucast PAGE_SIZE" by (simp add: push_bit_eq_mult page_defs)
  ultimately show ?thesis
    unfolding table_base_def split_20_20 pframe_to_virt_def p2k_code_def by simp
qed

lemma frame_of_fill_pte [simp]:
  "frame_of (pte_encode (fill_pte flags f e)) = f" "bit (pte_encode (fill_pte flags f e)) 0"
proof -
  let ?w = "pte_encode (fill_pte flags f e)"
  have d: "pte_decode ?w = fill_pte flags f e" by simp
  have "field 12 ?w = e1_base_0_19 (pte_decode ?w)" "field 32 ?w = e1_base_20_39 (pte_decode ?w)"
    by (simp_all only: decode_fields)
  then show "frame_of ?w = f" unfolding d by (simp add: frame_of_def fill_pte_def split_20_20)
  have "(field 0 ?w :: 1 word) = e1_present (pte_decode ?w)" by (simp only: decode_fields)
  then have "(field 0 ?w :: 1 word) = 1" unfolding d by (simp add: fill_pte_def)
  then show "bit ?w 0" using field0_zero [of ?w] by auto
qed

section \<open>Addresses of pages and slots\<close>

definition page_addr :: "nat \<Rightarrow> u64" where
  "page_addr P = of_nat (4096 * P)"

definition aligned :: "u64 \<Rightarrow> bool" where
  "aligned t \<longleftrightarrow> unat t mod 4096 = 0"

lemma unat_page_addr: "P < 2 ^ 52 \<Longrightarrow> unat (page_addr P) = 4096 * P"
  unfolding page_addr_def by (intro unat_of_nat_small) simp

lemma page_addr_less: "P < 2 ^ 52 \<Longrightarrow> Q < 2 ^ 52 \<Longrightarrow> page_addr P < page_addr Q \<longleftrightarrow> P < Q"
  by (simp add: word_less_nat_alt unat_page_addr)

lemma page_addr_add: "page_addr P + page_addr n = page_addr (P + n)"
  by (simp add: page_addr_def algebra_simps)

lemma page_addr_diff: "page_addr (P + n) - page_addr P = page_addr n"
  by (simp add: page_addr_def algebra_simps)

lemma page_addr_inject: "P < 2 ^ 52 \<Longrightarrow> Q < 2 ^ 52 \<Longrightarrow> page_addr P = page_addr Q \<longleftrightarrow> P = Q"
  by (metis unat_page_addr mult_cancel1 zero_neq_numeral)

lemma index_page_addr:
  assumes "P < 2 ^ 52"
  shows "drop_bit (12 + k) (page_addr P) AND 0x1ff = (of_nat (P div 2 ^ k mod 512) :: u64)"
proof -
  have m: "(0x1ff :: u64) = mask 9" by (simp add: mask_eq_exp_minus_1)
  have "unat (drop_bit (12 + k) (page_addr P) AND 0x1ff) = 4096 * P div 2 ^ (12 + k) mod 2 ^ 9"
    unfolding m unat_and_mask unat_drop_bit unat_page_addr [OF assms] ..
  also have "4096 * P div 2 ^ (12 + k) = P div 2 ^ k"
    by (simp add: power_add div_mult2_eq)
  finally have "unat (drop_bit (12 + k) (page_addr P) AND 0x1ff) = P div 2 ^ k mod 512" by simp
  moreover have "unat (of_nat (P div 2 ^ k mod 512) :: u64) = P div 2 ^ k mod 512"
    by (intro unat_of_nat_small) (simp add: order_less_trans [OF mod_less_divisor])
  ultimately show ?thesis by (simp only: word_unat_eq_iff)
qed

lemma unat_slot:
  assumes "aligned t" and "i < 512"
  shows "unat (entry_ptr t (of_nat i)) = unat t + 8 * i"
proof -
  obtain u where u: "unat t = 4096 * u" using assms(1) by (auto simp: aligned_def)
  have "unat t < 2 ^ 64" using unsigned_less [of t] by simp
  then have "u < 2 ^ 52" unfolding u by simp
  then have lt: "4096 * u + 8 * i < 2 ^ 64" using assms(2) by simp
  have "entry_ptr t (of_nat i) = of_nat (4096 * u + 8 * i)"
    unfolding entry_ptr_def of_nat_add u [symmetric] by simp
  moreover have "unat (of_nat (4096 * u + 8 * i) :: u64) = 4096 * u + 8 * i"
    using lt by (intro unat_of_nat_small) simp
  ultimately show ?thesis by (simp only: u)
qed

lemma slot_inject:
  assumes "aligned t" and "aligned u" and "i < 512" and "j < 512"
  shows "entry_ptr t (of_nat i) = entry_ptr u (of_nat j) \<longleftrightarrow> t = u \<and> i = j"
proof
  assume "entry_ptr t (of_nat i) = entry_ptr u (of_nat j)"
  then have eq: "unat t + 8 * i = unat u + 8 * j"
    using unat_slot [OF assms(1,3)] unat_slot [OF assms(2,4)] by simp
  obtain a b where ab: "unat t = 4096 * a" "unat u = 4096 * b"
    using assms(1,2) by (auto simp: aligned_def elim!: dvdE)
  then have "a = b" using eq assms(3,4) by linarith
  moreover from this have "i = j" using eq ab by simp
  ultimately show "t = u \<and> i = j" using ab by (simp add: word_unat_eq_iff)
qed simp

lemma slot_in_page:
  assumes "aligned t" and "aligned b" and "i < 512"
  shows "entry_ptr t (of_nat i) - b < PAGE_SIZE \<longleftrightarrow> t = b"
proof -
  obtain x y where xy: "unat t = 4096 * x" "unat b = 4096 * y"
    using assms(1,2) by (auto simp: aligned_def elim!: dvdE)
  have "unat b < 2 ^ 64" using unsigned_less [of b] by simp
  then have "y < 2 ^ 52" unfolding xy by simp
  then have "unat (entry_ptr t (of_nat i) - b) < 4096 \<longleftrightarrow> x = y"
    using assms(3) xy unat_slot [OF assms(1,3)]
    by (auto simp: unat_sub_if_size word_size)
  moreover have "x = y \<longleftrightarrow> t = b" using xy by (simp add: word_unat_eq_iff)
  ultimately show ?thesis by (simp add: word_less_nat_alt PAGE_SIZE_def)
qed

lemma pframe_to_virt_small:
  assumes "unat r < 2 ^ 19"
  shows "unat (pframe_to_virt r) = 0xffffffff80000000 + 4096 * unat r"
    and "aligned (pframe_to_virt r)"
proof -
  have "unat (r * ucast PAGE_SIZE) = unat r * 4096"
    using assms by (simp add: unat_word_ariths page_defs)
  then have "unat (ucast (r * ucast PAGE_SIZE) :: u64) = unat r * 4096"
    by (simp add: unat_ucast_up)
  then show 1: "unat (pframe_to_virt r) = 0xffffffff80000000 + 4096 * unat r"
    using assms by (simp add: pframe_to_virt_def unat_word_ariths KERNEL_BASE_def)
  have "unat (pframe_to_virt r) = 4096 * (0xffffffff80000 + unat r)" unfolding 1 by simp
  then show "aligned (pframe_to_virt r)" by (simp add: aligned_def)
qed

lemma pframe_to_virt_inject:
  "unat r < 2 ^ 19 \<Longrightarrow> unat r' < 2 ^ 19 \<Longrightarrow> pframe_to_virt r = pframe_to_virt r' \<Longrightarrow> r = r'"
  using pframe_to_virt_small(1) [of r] pframe_to_virt_small(1) [of r'] by (simp add: word_unat_eq_iff)

lemma zeroed_slot:
  assumes "aligned t" and "i < 512" and "unat r < 2 ^ 19"
  shows "zeroed mem r (entry_ptr t (of_nat i)) =
    (if t = pframe_to_virt r then 0 else mem (entry_ptr t (of_nat i)))"
  using slot_in_page [OF assms(1) pframe_to_virt_small(2) [OF assms(3)] assms(2)]
  by (simp add: zeroed_def memset_zero_def)

section \<open>The tree of tables\<close>

fun walk :: "(u64 \<Rightarrow> u64) \<Rightarrow> addr \<Rightarrow> nat list \<Rightarrow> addr option" where
  "walk mem t [] = Some t"
| "walk mem t (i # is) =
     (let w = mem (entry_ptr t (of_nat i)) in if bit w 0 then walk mem (next_table w) is else None)"

definition path_ok :: "nat list \<Rightarrow> bool" where
  "path_ok p \<longleftrightarrow> length p \<le> 3 \<and> (\<forall>i\<in>set p. i < 512)"

definition path3 :: "nat \<Rightarrow> nat list" where
  "path3 V = [V div 2 ^ 27 mod 512, V div 2 ^ 18 mod 512, V div 2 ^ 9 mod 512]"

definition leaf :: "(u64 \<Rightarrow> u64) \<Rightarrow> addr \<Rightarrow> nat \<Rightarrow> page_idx option" where
  "leaf mem R V =
     (case walk mem R (path3 V) of
        None \<Rightarrow> None
      | Some t \<Rightarrow> let w = mem (entry_ptr t (of_nat (V mod 512)))
                  in if bit w 0 then Some (frame_of w) else None)"

definition tables_ok :: "(u64 \<Rightarrow> u64) \<Rightarrow> addr \<Rightarrow> page_idx list \<Rightarrow> bool" where
  "tables_ok mem R frs \<longleftrightarrow>
     (\<forall>p t. path_ok p \<and> walk mem R p = Some t \<longrightarrow> aligned t \<and> t \<notin> pframe_to_virt ` set frs) \<and>
     (\<forall>p q t. path_ok p \<and> path_ok q \<and> walk mem R p = Some t \<and> walk mem R q = Some t \<longrightarrow> p = q) \<and>
     distinct frs \<and> (\<forall>r\<in>set frs. unat r < 2 ^ 19)"

definition table_of :: "(u64 \<Rightarrow> u64) \<Rightarrow> addr \<Rightarrow> nat list \<Rightarrow> addr \<Rightarrow> bool" where
  "table_of mem R p t \<longleftrightarrow> path_ok p \<and> walk mem R p = Some t"

lemma tables_okD:
  assumes "tables_ok mem R frs"
  shows "table_of mem R p t \<Longrightarrow> aligned t"
    and "table_of mem R p t \<Longrightarrow> r \<in> set frs \<Longrightarrow> t \<noteq> pframe_to_virt r"
    and "table_of mem R p t \<Longrightarrow> table_of mem R q t \<Longrightarrow> p = q"
    and "distinct frs" and "r \<in> set frs \<Longrightarrow> unat r < 2 ^ 19"
  using assms unfolding tables_ok_def table_of_def by blast+

lemma path_ok_snoc [simp]: "path_ok (p @ [i]) \<longleftrightarrow> length p \<le> 2 \<and> (\<forall>j\<in>set p. j < 512) \<and> i < 512"
  by (auto simp: path_ok_def)

lemma path3_ok [simp]: "path_ok (path3 V)" "length (path3 V) = 3"
  by (simp_all add: path_ok_def path3_def)

lemma walk_append:
  "walk mem R (p @ q) = (case walk mem R p of None \<Rightarrow> None | Some t \<Rightarrow> walk mem t q)"
  by (induction p arbitrary: R) (auto simp: Let_def)

lemma walk_snoc:
  "walk mem R (p @ [i]) = (case walk mem R p of None \<Rightarrow> None | Some t \<Rightarrow>
     let w = mem (entry_ptr t (of_nat i)) in if bit w 0 then Some (next_table w) else None)"
  by (simp add: walk_append Let_def split: option.splits)

text \<open>Memories that agree on the slots of the tables along a path lead along it alike.\<close>

lemma walk_agree:
  assumes "path_ok p"
    and "\<And>q i t. table_of mem R q t \<Longrightarrow> prefix (q @ [i]) p \<Longrightarrow> i < 512 \<Longrightarrow>
      mem' (entry_ptr t (of_nat i)) = mem (entry_ptr t (of_nat i))"
  shows "walk mem' R p = walk mem R p"
  using assms
proof (induction p rule: rev_induct)
  case Nil
  then show ?case by simp
next
  case (snoc i p)
  have ok: "path_ok p" "i < 512" using snoc.prems(1) by (auto simp: path_ok_def)
  have "walk mem' R p = walk mem R p"
    by (rule snoc.IH [OF ok(1)]) (use snoc.prems(2) in \<open>auto simp: prefix_def\<close>)
  moreover have "mem' (entry_ptr t (of_nat i)) = mem (entry_ptr t (of_nat i))"
    if "walk mem R p = Some t" for t
    using snoc.prems(2) [of p t i] that ok by (simp add: table_of_def)
  ultimately show ?case by (auto simp: walk_snoc split: option.splits)
qed

lemma prefix_len: "prefix p q \<Longrightarrow> length p \<le> length q"
  by (auto simp: prefix_def)

lemma digit_eqI: "(x :: nat) div 512 = y div 512 \<Longrightarrow> x mod 512 = y mod 512 \<Longrightarrow> x = y"
  by (metis div_mult_mod_eq)

lemma path3_inject:
  assumes "path3 V = path3 Q" and "V mod 512 = Q mod 512" and "V < 2 ^ 36" and "Q < 2 ^ 36"
  shows "V = Q"
proof -
  have split: "x div 2 ^ 9 = x div 512" "x div 2 ^ 18 = x div 512 div 512"
      "x div 2 ^ 27 = x div 512 div 512 div 512" for x :: nat
    by (simp_all only: div_mult2_eq [symmetric], simp_all)
  have small: "x div 512 div 512 div 512 < 512" if "x < 2 ^ 36" for x :: nat
    using that by (simp add: div_mult2_eq [symmetric] less_mult_imp_div_less)
  note eqs = assms(1) [unfolded path3_def split list.inject]
  have "V div 512 div 512 div 512 = Q div 512 div 512 div 512"
    using eqs mod_less [OF small [OF assms(3)]] mod_less [OF small [OF assms(4)]] by argo
  then have "V div 512 div 512 = Q div 512 div 512" using eqs digit_eqI by blast
  then have "V div 512 = Q div 512" using eqs digit_eqI by blast
  then show ?thesis using assms(2) digit_eqI by blast
qed

text \<open>Two slots of tables of the tree are the same only for the same path and index.\<close>

lemma tree_slot_inject:
  assumes "tables_ok mem R frs" and "table_of mem R p t" and "table_of mem R q u"
    and "i < 512" and "j < 512" and "entry_ptr t (of_nat i) = entry_ptr u (of_nat j)"
  shows "p = q" and "i = j"
proof -
  have "t = u \<and> i = j"
    using slot_inject [OF tables_okD(1) [OF assms(1,2)] tables_okD(1) [OF assms(1,3)] assms(4,5)]
      assms(6) by simp
  then show "p = q" "i = j" using tables_okD(3) [OF assms(1,2)] assms(3) by auto
qed

lemma tables_ok_agree:
  assumes "tables_ok mem R frs" and "\<And>p. path_ok p \<Longrightarrow> walk mem' R p = walk mem R p"
  shows "tables_ok mem' R frs"
  using assms unfolding tables_ok_def by metis

lemma store_leaf:
  assumes ok: "tables_ok mem R frs" and V: "V < 2 ^ 36" and t: "walk mem R (path3 V) = Some t"
    and mem': "mem' = mem(entry_ptr t (of_nat (V mod 512)) := w)"
  shows "path_ok p \<Longrightarrow> walk mem' R p = walk mem R p"
    and "tables_ok mem' R frs"
    and "leaf mem' R V = (if bit w 0 then Some (frame_of w) else None)"
    and "Q < 2 ^ 36 \<Longrightarrow> Q \<noteq> V \<Longrightarrow> leaf mem' R Q = leaf mem R Q"
proof -
  have tV: "table_of mem R (path3 V) t" using t by (simp add: table_of_def)
  have walks: "walk mem' R p = walk mem R p" if "path_ok p" for p
  proof (rule walk_agree [OF that])
    fix q i u assume q: "table_of mem R q u" "prefix (q @ [i]) p" "i < 512"
    have "length q < 3" using prefix_len [OF q(2)] that by (auto simp: path_ok_def)
    then have "q \<noteq> path3 V" by auto
    then have "entry_ptr u (of_nat i) \<noteq> entry_ptr t (of_nat (V mod 512))"
      using tree_slot_inject(1) [OF ok q(1) tV q(3), of "V mod 512"] by fastforce
    then show "mem' (entry_ptr u (of_nat i)) = mem (entry_ptr u (of_nat i))" by (simp add: mem')
  qed
  then show "path_ok p \<Longrightarrow> walk mem' R p = walk mem R p" .
  show "tables_ok mem' R frs" using ok walks by (rule tables_ok_agree)
  show "leaf mem' R V = (if bit w 0 then Some (frame_of w) else None)"
    unfolding leaf_def walks [OF path3_ok(1)] t option.case by (simp add: mem')
  show "leaf mem' R Q = leaf mem R Q" if Q: "Q < 2 ^ 36" "Q \<noteq> V"
  proof (cases "walk mem R (path3 Q)")
    case None
    then show ?thesis by (simp add: leaf_def walks)
  next
    case (Some u)
    then have tQ: "table_of mem R (path3 Q) u" by (simp add: table_of_def)
    have "entry_ptr u (of_nat (Q mod 512)) \<noteq> entry_ptr t (of_nat (V mod 512))"
    proof
      assume "entry_ptr u (of_nat (Q mod 512)) = entry_ptr t (of_nat (V mod 512))"
      then have "path3 Q = path3 V" "Q mod 512 = V mod 512"
        using tree_slot_inject [OF ok tQ tV, of "Q mod 512" "V mod 512"] by auto
      then show False using path3_inject [of Q V] Q V by blast
    qed
    then show ?thesis
      unfolding leaf_def walks [OF path3_ok(1)] Some option.case by (simp add: mem')
  qed
qed

lemma new_table:
  assumes ok: "tables_ok mem R (r # frs)" and t: "table_of mem R p t" and len: "length p \<le> 2"
    and i: "i < 512" and absent: "\<not> bit (mem (entry_ptr t (of_nat i))) 0" and w: "table_entry w r"
    and mem': "mem' = (zeroed mem r)(entry_ptr t (of_nat i) := w)" and q: "path_ok q"
  shows "walk mem' R q = (if q = p @ [i] then Some (pframe_to_virt r)
    else if prefix (p @ [i]) q then None else walk mem R q)"
    and "prefix (p @ [i]) q \<Longrightarrow> walk mem R q = None"
proof -
  let ?a = "entry_ptr t (of_nat i)" and ?r = "pframe_to_virt r"
  have r: "unat r < 2 ^ 19" using tables_okD(5) [OF ok] by simp
  have slot: "mem' (entry_ptr u (of_nat j)) = mem (entry_ptr u (of_nat j))"
    if "table_of mem R s u" "j < 512" "s @ [j] \<noteq> p @ [i]" for s u j
  proof -
    have "entry_ptr u (of_nat j) \<noteq> ?a"
      using tree_slot_inject [OF ok that(1) t that(2) i] that(3) by auto
    moreover have "u \<noteq> ?r" using tables_okD(2) [OF ok that(1)] by simp
    ultimately show ?thesis
      using zeroed_slot [OF tables_okD(1) [OF ok that(1)] that(2) r] by (simp add: mem')
  qed
  have other: "walk mem' R s = walk mem R s" if "path_ok s" "\<not> prefix (p @ [i]) s" for s
    by (rule walk_agree [OF that(1)]) (use slot that(2) in auto)
  have "\<not> prefix (p @ [i]) p" by (auto dest: prefix_len)
  then have p': "walk mem' R p = Some t" using other [of p] t by (simp add: table_of_def)
  have pi: "walk mem' R (p @ [i]) = Some ?r" using p' w by (simp add: walk_snoc mem' table_entry_def)
  have below: "walk mem' ?r (j # js) = None" if "j < 512" for j js
  proof -
    have "entry_ptr ?r (of_nat j) \<noteq> ?a"
      using slot_inject [OF pframe_to_virt_small(2) [OF r] tables_okD(1) [OF ok t] that i]
        tables_okD(2) [OF ok t, of r] by auto
    then show ?thesis
      using zeroed_slot [OF pframe_to_virt_small(2) [OF r] that r, of mem] by (simp add: mem')
  qed
  show "walk mem' R q = (if q = p @ [i] then Some ?r
    else if prefix (p @ [i]) q then None else walk mem R q)"
  proof (cases "prefix (p @ [i]) q")
    case True
    then obtain s where s: "q = (p @ [i]) @ s" by (auto simp: prefix_def)
    have "walk mem' R q = walk mem' ?r s"
      unfolding s walk_append [of _ _ "p @ [i]" s] pi option.case ..
    moreover have "walk mem' ?r s = None" if "s \<noteq> []"
      using that q s below by (cases s) (auto simp: path_ok_def simp del: walk.simps)
    ultimately show ?thesis using s pi by (cases "s = []") auto
  next
    case False
    then show ?thesis using other q by auto
  qed
  show "walk mem R q = None" if pre: "prefix (p @ [i]) q"
  proof -
    obtain s where "q = (p @ [i]) @ s" using pre by (auto simp: prefix_def)
    moreover have "walk mem R (p @ [i]) = None"
      using t absent by (simp add: walk_snoc table_of_def)
    ultimately show ?thesis by (simp only: walk_append [of _ _ "p @ [i]" s] option.case)
  qed
qed

text \<open>Filling an absent entry with a fresh, zeroed table: the tree only grows by that table, and
  no page becomes mapped.\<close>

lemma new_table_ok:
  assumes ok: "tables_ok mem R (r # frs)" and t: "table_of mem R p t" and len: "length p \<le> 2"
    and i: "i < 512" and absent: "\<not> bit (mem (entry_ptr t (of_nat i))) 0" and w: "table_entry w r"
    and mem': "mem' = (zeroed mem r)(entry_ptr t (of_nat i) := w)"
  shows "tables_ok mem' R frs"
    and "table_of mem' R (p @ [i]) (pframe_to_virt r)"
    and "table_of mem R q u \<Longrightarrow> table_of mem' R q u"
    and "leaf mem' R V = leaf mem R V"
proof -
  let ?r = "pframe_to_virt r"
  note walk' = new_table [OF assms]
  have r: "unat r < 2 ^ 19" using tables_okD(5) [OF ok] by simp
  have okpi: "path_ok (p @ [i])" using t len i by (auto simp: table_of_def path_ok_def)
  have keep: "table_of mem' R q u" if "table_of mem R q u" for q u
  proof -
    have "path_ok q" "walk mem R q = Some u" using that by (auto simp: table_of_def)
    then have "\<not> prefix (p @ [i]) q" using walk'(2) [of q] by auto
    then show ?thesis using \<open>path_ok q\<close> \<open>walk mem R q = Some u\<close> walk'(1) [of q]
      by (auto simp: table_of_def)
  qed
  show "table_of mem R q u \<Longrightarrow> table_of mem' R q u" by (rule keep)
  have grown: "q = p @ [i] \<and> u = ?r \<or> table_of mem R q u" if "table_of mem' R q u" for q u
    using that walk'(1) [of q] by (auto simp: table_of_def split: if_splits)
  show new: "table_of mem' R (p @ [i]) ?r" using okpi walk'(1) [OF okpi] by (simp add: table_of_def)
  have fresh: "u \<noteq> ?r" if "table_of mem R q u" for q u using tables_okD(2) [OF ok that] by simp
  have notin: "u \<notin> pframe_to_virt ` set frs" if u: "table_of mem' R q u" for q u
  proof
    assume "u \<in> pframe_to_virt ` set frs"
    then obtain s where s: "s \<in> set frs" "u = pframe_to_virt s" by auto
    have "r \<noteq> s" "unat s < 2 ^ 19" using tables_okD(4,5) [OF ok] s(1) by auto
    then have "u \<noteq> ?r" using pframe_to_virt_inject [OF r, of s] s(2) by auto
    then have "table_of mem R q u" using grown [OF u] by simp
    then show False using tables_okD(2) [OF ok, of q u s] s by simp
  qed
  have "aligned u" if "table_of mem' R q u" for q u
    using grown [OF that] tables_okD(1) [OF ok] pframe_to_virt_small(2) [OF r] by auto
  moreover have "q = s" if "table_of mem' R q u" "table_of mem' R s u" for q s u
    using grown [OF that(1)] grown [OF that(2)] fresh tables_okD(3) [OF ok] by metis
  moreover have "distinct frs" "\<forall>r\<in>set frs. unat r < 2 ^ 19"
    using tables_okD(4,5) [OF ok] by auto
  ultimately show "tables_ok mem' R frs"
    using notin unfolding tables_ok_def table_of_def by blast
  show "leaf mem' R V = leaf mem R V"
  proof (cases "prefix (p @ [i]) (path3 V)")
    case True
    have "walk mem R (path3 V) = None" using walk'(2) [OF path3_ok(1) True] .
    moreover have "entry_ptr ?r (of_nat (V mod 512)) \<noteq> entry_ptr t (of_nat i)"
      using slot_inject [OF pframe_to_virt_small(2) [OF r] tables_okD(1) [OF ok t], of "V mod 512" i]
        fresh [OF t] i by auto
    then have "mem' (entry_ptr ?r (of_nat (V mod 512))) = 0"
      using zeroed_slot [OF pframe_to_virt_small(2) [OF r], of "V mod 512" r mem] r by (simp add: mem')
    ultimately show ?thesis
      using walk'(1) [OF path3_ok(1), of V] True by (simp add: leaf_def)
  next
    case False
    then have eq: "walk mem' R (path3 V) = walk mem R (path3 V)"
      using walk'(1) [OF path3_ok(1), of V] by auto
    show ?thesis
    proof (cases "walk mem R (path3 V)")
      case None
      then show ?thesis by (simp add: leaf_def eq)
    next
      case (Some u)
      then have u: "table_of mem R (path3 V) u" by (simp add: table_of_def)
      have "p \<noteq> path3 V" using len by auto
      then have "entry_ptr u (of_nat (V mod 512)) \<noteq> entry_ptr t (of_nat i)"
        using tree_slot_inject(1) [OF ok u t, of "V mod 512" i] i by auto
      then have "mem' (entry_ptr u (of_nat (V mod 512))) = mem (entry_ptr u (of_nat (V mod 512)))"
        using zeroed_slot [OF tables_okD(1) [OF ok u], of "V mod 512" r mem] r fresh [OF u]
        by (simp add: mem')
      then show ?thesis by (simp add: leaf_def eq Some)
    qed
  qed
qed

section \<open>Page numbers and paths\<close>

definition path2 :: "nat \<Rightarrow> nat list" where
  "path2 V = [V div 2 ^ 27 mod 512, V div 2 ^ 18 mod 512]"

definition path1 :: "nat \<Rightarrow> nat list" where
  "path1 V = [V div 2 ^ 27 mod 512]"

text \<open>\<open>vpn P\<close>: the 36 bits of a page number that the tables look at.\<close>

definition vpn :: "nat \<Rightarrow> nat" where
  "vpn P = P mod 2 ^ 36"

lemma path_snoc:
  "path3 V = path2 V @ [V div 2 ^ 9 mod 512]" "path2 V = path1 V @ [V div 2 ^ 18 mod 512]"
  by (simp_all add: path3_def path2_def path1_def)

lemma path_lengths [simp]: "length (path2 V) = 2" "length (path1 V) = 1"
  by (simp_all add: path2_def path1_def)

lemma vpn_digit: "k \<le> 27 \<Longrightarrow> vpn P div 2 ^ k mod 512 = P div 2 ^ k mod 512"
proof -
  assume "k \<le> 27"
  then have "min 9 (36 - k) = 9" by simp
  then have "take_bit 9 (drop_bit k (take_bit 36 P)) = take_bit 9 (drop_bit k P)"
    by (simp only: drop_bit_take_bit take_bit_take_bit)
  then show ?thesis by (simp add: vpn_def take_bit_eq_mod drop_bit_eq_div)
qed

lemma vpn_digits:
  "vpn P mod 512 = P mod 512" "vpn P div 2 ^ 9 mod 512 = P div 2 ^ 9 mod 512"
  "vpn P div 2 ^ 18 mod 512 = P div 2 ^ 18 mod 512" "vpn P div 2 ^ 27 mod 512 = P div 2 ^ 27 mod 512"
  using vpn_digit [of 0 P] vpn_digit [of 9 P] vpn_digit [of 18 P] vpn_digit [of 27 P] by simp_all

lemma vpn_less [simp]: "vpn P < 2 ^ 36"
  by (simp add: vpn_def)

lemma block_room: "j \<le> 36 \<Longrightarrow> vpn P mod 2 ^ j + n \<le> 2 ^ j \<Longrightarrow> vpn P + n \<le> 2 ^ 36"
proof -
  assume j: "j \<le> 36" and n: "vpn P mod 2 ^ j + n \<le> 2 ^ j"
  define q where "q = vpn P div 2 ^ j"
  have V: "vpn P = q * 2 ^ j + vpn P mod 2 ^ j" unfolding q_def by (rule div_mult_mod_eq [symmetric])
  have split: "(2::nat) ^ 36 = 2 ^ (36 - j) * 2 ^ j" using j by (simp flip: power_add)
  have "q * 2 ^ j < 2 ^ (36 - j) * 2 ^ j"
    using V vpn_less [of P] unfolding split by linarith
  then have "Suc q \<le> 2 ^ (36 - j)" by simp
  then have "Suc q * 2 ^ j \<le> 2 ^ 36" unfolding split by (rule mult_le_mono1)
  then show "vpn P + n \<le> 2 ^ 36" using V n by simp
qed

lemma vpn_add: "vpn P + n < 2 ^ 36 \<Longrightarrow> vpn (P + n) = vpn P + n"
  unfolding vpn_def by (metis mod_add_left_eq mod_less)

lemma same_block:
  fixes x :: nat
  assumes "x mod b + k < b"
  shows "(x + k) div b = x div b"
proof (rule div_nat_eqI)
  have x: "b * (x div b) + x mod b = x" by (rule mult_div_mod_eq)
  show "b * (x div b) \<le> x + k" using x by linarith
  show "x + k < b * Suc (x div b)" using x assms unfolding mult_Suc_right by linarith
qed

lemma path_same_block:
  "V mod 2 ^ 9 + k < 2 ^ 9 \<Longrightarrow> path3 (V + k) = path3 V"
  "V mod 2 ^ 18 + k < 2 ^ 18 \<Longrightarrow> path2 (V + k) = path2 V"
  "V mod 2 ^ 27 + k < 2 ^ 27 \<Longrightarrow> path1 (V + k) = path1 V"
proof -
  have d: "x div 2 ^ 18 = x div 2 ^ 9 div 2 ^ 9" "x div 2 ^ 27 = x div 2 ^ 18 div 2 ^ 9"
      "x div 2 ^ 27 = x div 2 ^ 9 div 2 ^ 18" for x :: nat
    by (simp_all only: div_mult2_eq [symmetric] power_add [symmetric], simp_all)
  show "path3 (V + k) = path3 V" if "V mod 2 ^ 9 + k < 2 ^ 9"
    unfolding path3_def d(1,3) same_block [OF that] ..
  show "path2 (V + k) = path2 V" if "V mod 2 ^ 18 + k < 2 ^ 18"
    unfolding path2_def d(2) same_block [OF that] ..
  show "path1 (V + k) = path1 V" if "V mod 2 ^ 27 + k < 2 ^ 27"
    unfolding path1_def same_block [OF that] ..
qed

lemma page_addr_clip:
  assumes "j \<le> 27" and "P + 2 ^ j < 2 ^ 52" and "P + n < 2 ^ 52"
  shows "clip_to (of_nat (2 ^ (12 + j))) (NOT (mask (12 + j))) (page_addr P) (page_addr (P + n))
    = page_addr (P + min n (2 ^ j - P mod 2 ^ j))"
proof -
  let ?b = "2 ^ j :: nat"
  have b: "0 < ?b" by simp
  have add: "page_addr P + of_nat (2 ^ (12 + j)) = page_addr (P + ?b)"
    by (simp add: page_addr_def power_add algebra_simps)
  have "unat (page_addr (P + ?b) AND NOT (mask (12 + j))) = 4096 * (P + ?b) div 2 ^ (12 + j) * 2 ^ (12 + j)"
    unfolding unat_and_not_mask unat_page_addr [OF assms(2)] ..
  also have "4096 * (P + ?b) div 2 ^ (12 + j) = P div ?b + 1"
    unfolding power_add div_mult2_eq by (simp add: div_add_self2)
  also have "(P div ?b + 1) * 2 ^ (12 + j) = 4096 * ((P div ?b + 1) * ?b)"
    by (simp add: power_add)
  also have "(P div ?b + 1) * ?b = P + (?b - P mod ?b)"
    using div_mult_mod_eq [of P ?b] mod_less_divisor [OF b, of P] by (simp add: distrib_right)
  finally have bound: "unat (page_addr (P + ?b) AND NOT (mask (12 + j))) = 4096 * (P + (?b - P mod ?b))" .
  have lt: "P + (?b - P mod ?b) < 2 ^ 52" using assms(2) by linarith
  have eq: "page_addr (P + ?b) AND NOT (mask (12 + j)) = page_addr (P + (?b - P mod ?b))"
    using bound unat_page_addr [OF lt] by (simp add: word_unat_eq_iff)
  have min: "(if P + c < P + n then page_addr (P + c) else page_addr (P + n)) = page_addr (P + min n c)"
    for c by (simp add: min_def)
  show ?thesis
    unfolding clip_to_def add eq page_addr_less [OF lt assms(3)] by (rule min)
qed

section \<open>What a range of each level does\<close>

text \<open>\<open>advances\<close>: the tables stay where they were, the \<open>n\<close> pages from \<open>V\<close> on are mapped to the
  first frames of \<open>fs\<close>, and every other page is mapped as before.\<close>

definition advances ::
  "(u64 \<Rightarrow> u64) \<Rightarrow> (u64 \<Rightarrow> u64) \<Rightarrow> addr \<Rightarrow> nat \<Rightarrow> nat \<Rightarrow> page_idx list \<Rightarrow> bool" where
  "advances mem mem' R V n fs \<longleftrightarrow>
     (\<forall>p t. table_of mem R p t \<longrightarrow> table_of mem' R p t) \<and>
     (\<forall>Q<2 ^ 36. leaf mem' R Q = (if V \<le> Q \<and> Q < V + n then Some (fs ! (Q - V)) else leaf mem R Q))"

lemma advancesD:
  assumes "advances mem mem' R V n fs"
  shows "table_of mem R p t \<Longrightarrow> table_of mem' R p t"
    and "Q < 2 ^ 36 \<Longrightarrow>
      leaf mem' R Q = (if V \<le> Q \<and> Q < V + n then Some (fs ! (Q - V)) else leaf mem R Q)"
  using assms unfolding advances_def by blast+

lemma advances_none: "advances mem mem R V 0 fs"
  by (auto simp: advances_def)

lemma advances_trans:
  assumes "advances mem mem1 R V k fs" and "advances mem1 mem2 R (V + k) n (drop k fs)"
    and "k \<le> length fs"
  shows "advances mem mem2 R V (k + n) fs"
proof -
  have "leaf mem2 R Q = (if V \<le> Q \<and> Q < V + (k + n) then Some (fs ! (Q - V)) else leaf mem R Q)"
    if "Q < 2 ^ 36" for Q
    using advancesD(2) [OF assms(1) that] advancesD(2) [OF assms(2) that] assms(3)
    by (auto simp: nth_drop)
  then show ?thesis using assms(1,2) unfolding advances_def by blast
qed

lemma table_entry_intro:
  assumes "unat r < 2 ^ 19" and "(field 0 w :: 1 word) = 1"
    and "field 12 w = (ucast (r AND 0xfffff) :: 20 word)"
    and "field 32 w = (ucast (drop_bit 20 r AND 0xfffff) :: 20 word)"
  shows "table_entry w r"
  using assms(2) field0_zero [of w]
  unfolding table_entry_def next_table_def assms(3,4) table_base_small [OF assms(1)] by auto

lemma pml4_fields:
  "(field 0 (pml4_encode e) :: 1 word) = e4_present e" "field 12 (pml4_encode e) = e4_base_0_19 e"
  "field 32 (pml4_encode e) = e4_base_20_39 e"
  using decode_fields(1,4,5) [of "pml4_encode e"] by (simp_all only: pml4_decode_encode)

lemma pde2_fields:
  "(field 0 (pde2_encode e) :: 1 word) = e2_present e" "field 12 (pde2_encode e) = e2_base_0_19 e"
  "field 32 (pde2_encode e) = e2_base_20_39 e"
  using decode_fields(2,6,7) [of "pde2_encode e"] by (simp_all only: pde2_decode_encode)

text \<open>An entry that a routine fills points to the frame it got, whichever level it is on.\<close>

definition fills :: "(int \<times> kmm) res \<Rightarrow> addr \<Rightarrow> addr \<Rightarrow> kmm \<Rightarrow> bool" where
  "fills out slot n m1 \<longleftrightarrow>
     (\<exists>w. out = Inr (0, store_slot slot w m1) \<and> table_entry w (frame_idx m1 n))"

lemma populate_fills:
  fixes pacc :: "'c page_frame_accessor"
  shows "\<forall>n m1. pa_alloc_page pacc c flags True m = Inr (Some n, m1) \<and> unat (frame_idx m1 n) < 2 ^ 19 \<longrightarrow>
      fills (populate_pml4_entry slot pacc flags c m) slot n m1"
    and "\<forall>n m1. pa_alloc_page pacc c flags True m = Inr (Some n, m1) \<and> unat (frame_idx m1 n) < 2 ^ 19 \<longrightarrow>
      fills (populate_pdp3_entry slot pacc flags c m) slot n m1"
    and "\<forall>n m1. pa_alloc_page pacc c flags True m = Inr (Some n, m1) \<and> unat (frame_idx m1 n) < 2 ^ 19 \<longrightarrow>
      fills (populate_pde2_entry slot pacc flags c m) slot n m1"
  unfolding fills_def populate_pml4_entry_def populate_pdp3_entry_def populate_pde2_entry_def
  by (auto simp: Let_def pml4_fields pde2_fields intro!: table_entry_intro)

lemma store_slot_simps [simp]:
  "kmem (store_slot a w m) = (kmem m)(a := w)" "frame_idx (store_slot a w m) = frame_idx m"
  by (simp_all add: store_slot_def)

text \<open>\<open>regions j V n\<close>: how many blocks of \<open>2 ^ j\<close> pages the \<open>n\<close> pages from \<open>V\<close> on touch.\<close>

definition regions :: "nat \<Rightarrow> nat \<Rightarrow> nat \<Rightarrow> nat" where
  "regions j V n = (V + n - 1) div 2 ^ j - V div 2 ^ j + 1"

lemma regions_one: "1 \<le> n \<Longrightarrow> V mod 2 ^ j + n \<le> 2 ^ j \<Longrightarrow> regions j V n = 1"
  using same_block [of V "2 ^ j" "n - 1"] by (simp add: regions_def)

lemma regions_split:
  assumes "2 ^ j dvd V + k" and "1 \<le> k" and "k < n"
  shows "regions j V n = regions j V k + regions j (V + k) (n - k)"
proof -
  obtain q where q: "V + k = 2 ^ j * q" using assms(1) by (auto elim: dvdE)
  then have "0 < q" using assms(2) by (cases q) auto
  then have pred: "(2 ^ j * q - 1) div 2 ^ j = q - 1"
    by (intro div_nat_eqI) (auto simp: algebra_simps intro: diff_le_mono2)
  have "V < 2 ^ j * q" using q assms(2) by simp
  then have "V div 2 ^ j < q" by (simp add: less_mult_imp_div_less mult.commute)
  moreover have "2 ^ j * q \<le> V + n - 1" using q assms(3) by simp
  then have "q \<le> (V + n - 1) div 2 ^ j" by (simp add: less_eq_div_iff_mult_less_eq mult.commute)
  moreover have "V + k + (n - k) - 1 = V + n - 1" using assms(3) by simp
  moreover have "b - a + 1 = (q - 1 - a + 1) + (b - q + 1)" if "a < q" "q \<le> b" for a b :: nat
    using that by linarith
  ultimately show ?thesis
    unfolding regions_def q pred by simp
qed

lemma next_block:
  fixes V :: nat
  assumes "k = 2 ^ j - V mod 2 ^ j" and "V mod (2 ^ j * 512) + k < 2 ^ j * 512"
  shows "(V + k) div 2 ^ j mod 512 = V div 2 ^ j mod 512 + 1" and "2 ^ j dvd V + k"
    and "(V + k) mod (2 ^ j * 512) = V mod (2 ^ j * 512) + k"
proof -
  have lt: "V mod 2 ^ j < 2 ^ j" by simp
  have "k + V mod 2 ^ j = 2 ^ j" using lt assms(1) by simp
  then have V: "V + k = 2 ^ j * (V div 2 ^ j + 1)"
    using mult_div_mod_eq [of "2 ^ j" V] unfolding distrib_left mult_1_right by linarith
  show "2 ^ j dvd V + k" unfolding V by simp
  have "V mod (2 ^ j * 512) = 2 ^ j * (V div 2 ^ j mod 512) + V mod 2 ^ j" by (rule mod_mult2_eq)
  then have "2 ^ j * (V div 2 ^ j mod 512 + 1) < 2 ^ j * 512"
    using assms lt by (simp add: distrib_left)
  then have "V div 2 ^ j mod 512 + 1 < 512" by simp
  moreover have "(V + k) div 2 ^ j = V div 2 ^ j + 1" unfolding V by simp
  ultimately show "(V + k) div 2 ^ j mod 512 = V div 2 ^ j mod 512 + 1" by (simp add: mod_Suc)
  show "(V + k) mod (2 ^ j * 512) = V mod (2 ^ j * 512) + k"
    using assms(2) by (metis mod_add_left_eq mod_less)
qed

lemma entry_ptr_next: "entry_ptr t (of_nat i) + 8 = entry_ptr t (of_nat (i + 1))"
  by (simp add: entry_ptr_def algebra_simps)

lemma vpn_mod18: "vpn P mod 2 ^ 18 = P mod 2 ^ 18"
proof -
  have "take_bit 18 (take_bit 36 P) = take_bit 18 P" by simp
  then show ?thesis by (simp add: vpn_def take_bit_eq_mod)
qed

lemma vpn_mod27: "vpn P mod 2 ^ 27 = P mod 2 ^ 27"
proof -
  have "take_bit 27 (take_bit 36 P) = take_bit 27 P" by simp
  then show ?thesis by (simp add: vpn_def take_bit_eq_mod)
qed

definition regions2 :: "nat \<Rightarrow> nat \<Rightarrow> nat" where
  "regions2 V n = regions 18 V n + regions 9 V n"

lemma next_table_walk:
  assumes "table_of mem R p t" and "table_of mem R (p @ [i]) u"
  shows "next_table (mem (entry_ptr t (of_nat i))) = u"
  using assms by (auto simp: table_of_def walk_snoc Let_def split: if_splits)

text \<open>The table a range routine starts in, and the index it starts at.\<close>

lemma map_pdp3_range_eq:
  assumes "table_of (kmem m) R (path1 (vpn P)) t" and "table_of (kmem m) R (path2 (vpn P)) u"
    and "P < 2 ^ 52"
  shows "map_pdp3_range (entry_ptr t (of_nat (vpn P div 2 ^ 18 mod 512))) (page_addr P)
      (page_addr (P + k)) pacc flags c m =
    map_pdp3_loop (entry_ptr u (of_nat (vpn P div 2 ^ 9 mod 512))) (page_addr P) (page_addr k)
      (page_addr (P + k)) pacc flags c m"
  using next_table_walk [OF assms(1) assms(2) [unfolded path_snoc(2)]] index_page_addr [OF assms(3), of 9]
  by (simp add: map_pdp3_range_def Let_def next_table_def [symmetric] vpn_digits [simplified] page_addr_diff)

lemma map_pml4_range_eq:
  assumes "table_of (kmem m) R [] t" and "table_of (kmem m) R (path1 (vpn P)) u"
    and "P < 2 ^ 52"
  shows "map_pml4_range (entry_ptr t (of_nat (vpn P div 2 ^ 27 mod 512))) (page_addr P)
      (page_addr (P + k)) pacc flags c m =
    map_pml4_loop (entry_ptr u (of_nat (vpn P div 2 ^ 18 mod 512))) (page_addr P) (page_addr k)
      (page_addr (P + k)) pacc flags c m"
  using next_table_walk [of "kmem m" R "[]" t "vpn P div 2 ^ 27 mod 512" u] assms(1,2)
    index_page_addr [OF assms(3), of 18]
  by (simp add: map_pml4_range_def Let_def next_table_def [symmetric] vpn_digits [simplified] page_addr_diff
      path1_def)

lemma index_any:
  "drop_bit (12 + k) va AND 0x1ff = (of_nat (unat va div 4096 div 2 ^ k mod 512) :: u64)"
proof -
  have m: "(0x1ff :: u64) = mask 9" by (simp add: mask_eq_exp_minus_1)
  have "unat (drop_bit (12 + k) va AND 0x1ff) = unat va div 4096 div 2 ^ k mod 512"
    unfolding m unat_and_mask unat_drop_bit power_add div_mult2_eq by simp
  then show ?thesis by (metis of_nat_unat ucast_id)
qed

text \<open>\<^verbatim>\<open>mm_pin_virtual_address\<close> reads the leaf of the page the address lies in.\<close>

lemma pin_leaf:
  "mm_pin_virtual_address pd va m =
    (case leaf (kmem m) (pd_entries pd) (vpn (unat va div 4096)) of
       None \<Rightarrow> INVALID_PAGE_IDX | Some f \<Rightarrow> f)"
proof -
  let ?V = "vpn (unat va div 4096)"
  have idx: "drop_bit 39 va AND 0x1ff = (of_nat (?V div 2 ^ 27 mod 512) :: u64)"
      "drop_bit 30 va AND 0x1ff = (of_nat (?V div 2 ^ 18 mod 512) :: u64)"
      "drop_bit 21 va AND 0x1ff = (of_nat (?V div 2 ^ 9 mod 512) :: u64)"
      "drop_bit 12 va AND 0x1ff = (of_nat (?V mod 512) :: u64)"
    using index_any [of 27 va] index_any [of 18 va] index_any [of 9 va] index_any [of 0 va]
    unfolding vpn_digits by simp_all
  show ?thesis
    unfolding mm_pin_virtual_address_def vaddr_to_pml4_def idx leaf_def path3_def
    by (simp add: Let_def next_table_def frame_of_def)
qed

text \<open>The arguments of \<open>mm_map_pages\<close> that pass its checks.\<close>

lemma mm_map_pages_aligned:
  assumes "pd_entries pd \<noteq> 0" and "pd_entries pd AND NOT PAGE_ADDR_MASK = 0" and "1 \<le> P"
    and "1 \<le> n" and lt: "P + n < 2 ^ 52"
  shows "mm_map_pages (Some pd) (Some pacc) (page_addr P) (of_nat n) flags c m =
    (let pml4 = vaddr_to_pml4 (page_addr P) pd
     in obind (Some (ensure_entry (populate_pml4_entry pml4 pacc flags c m)
          (e4_present (pml4_decode (kmem m pml4)) \<noteq> 0) m)) (\<lambda>(r, m).
        if r \<noteq> 0 then Some (Inr (- ENOMEM, c, m)) else
        let to_addr =
              (if page_addr P < MAX_VIRT_ADDRESS - L4_ENTRY_RANGE
               then clip_to L4_ENTRY_RANGE L4_ADDR_MASK (page_addr P) (page_addr (P + n))
               else page_addr (P + n))
        in obind (map_pml4_range pml4 (page_addr P) to_addr pacc flags c m) (\<lambda>(r, ctx, m).
           if r \<noteq> 0 then Some (Inr (- ENOMEM, ctx, m)) else Some (Inr (0, ctx, m)))))"
proof -
  have P: "P < 2 ^ 52" using lt by simp
  have m12: "PAGE_ADDR_MASK = NOT (mask 12)" by (simp add: page_defs mask_eq_exp_minus_1)
  have "unat (page_addr P AND NOT (mask 12)) = unat (page_addr P)"
    unfolding unat_and_not_mask unat_page_addr [OF P] by simp
  then have virt: "page_addr P AND PAGE_ADDR_MASK = page_addr P"
    unfolding m12 by (simp add: word_unat_eq_iff)
  have pages: "of_nat n * PAGE_SIZE = page_addr n" by (simp add: page_addr_def page_defs)
  have nums: "(of_nat n :: u64) \<noteq> 0" "page_addr P \<noteq> 0"
    using unat_page_addr [OF P] assms(3,4) unat_of_nat_small [where 'a = 64, of n] lt by auto
  have ends: "\<not> page_addr (P + n) < page_addr P" "\<not> page_addr (P + n) > MAX_VIRT_ADDRESS"
    using page_addr_less [OF lt P] unsigned_less [of "page_addr (P + n)", where 'a = nat]
    by (simp_all add: MAX_VIRT_ADDRESS_def word_less_nat_alt)
  have step: "page_addr P + page_addr n = page_addr (P + n)"
      "page_addr P + (page_addr (P + n) - page_addr P) = page_addr (P + n)"
    by (simp_all add: page_addr_add)
  show ?thesis
    by (simp only: mm_map_pages_def option.case prod.case Let_def pages step virt assms(1,2) nums ends
        simp_thms if_False)
qed

text \<open>The arguments of an aligned area inside one 512 GB entry pass the checks, and the end of the
  area is not clipped.\<close>

lemma mm_map_pages_entry:
  assumes R: "aligned (pd_entries pd)" and root: "pd_entries pd \<noteq> 0" and P: "1 \<le> P" and n: "1 \<le> n"
    and entry: "vpn P mod 2 ^ 27 + n \<le> 2 ^ 27" and top: "P + n + 2 ^ 18 \<le> 2 ^ 52"
  defines "slot \<equiv> entry_ptr (pd_entries pd) (of_nat (vpn P div 2 ^ 27 mod 512))"
  shows "mm_map_pages (Some pd) (Some pacc) (page_addr P) (of_nat n) flags c m =
    obind (Some (ensure_entry (populate_pml4_entry slot pacc flags c m) (bit (kmem m slot) 0) m)) (\<lambda>(r, m).
      if r \<noteq> 0 then Some (Inr (- ENOMEM, c, m)) else
      obind (map_pml4_range slot (page_addr P) (page_addr (P + n)) pacc flags c m) (\<lambda>(r, c, m).
        if r \<noteq> 0 then Some (Inr (- ENOMEM, c, m)) else Some (Inr (0, c, m))))"
proof -
  let ?R = "pd_entries pd" and ?V = "vpn P"
  have lt: "P < 2 ^ 52" "P + n < 2 ^ 52" using top by simp_all
  have "unat (?R AND mask 12) = 0"
    using R unfolding unat_and_mask by (simp add: aligned_def)
  then have checks: "?R AND NOT PAGE_ADDR_MASK = 0"
    by (simp add: page_defs mask_eq_exp_minus_1 word_unat_eq_iff)
  have pml4: "vaddr_to_pml4 (page_addr P) pd = slot"
    using index_page_addr [OF lt(1), of 27] by (simp add: slot_def vaddr_to_pml4_def vpn_digits [simplified])
  have to_addr: "(if page_addr P < MAX_VIRT_ADDRESS - L4_ENTRY_RANGE
      then clip_to L4_ENTRY_RANGE L4_ADDR_MASK (page_addr P) (page_addr (P + n)) else page_addr (P + n))
      = page_addr (P + n)"
  proof (cases "page_addr P < MAX_VIRT_ADDRESS - L4_ENTRY_RANGE")
    case True
    have L4: "L4_ENTRY_RANGE = of_nat (2 ^ (12 + 27))" "L4_ADDR_MASK = NOT (mask (12 + 27))"
      by (simp_all add: L4_ADDR_MASK_def L4_ENTRY_RANGE_def L3_ENTRY_RANGE_def L2_ENTRY_RANGE_def
          L1_ENTRY_RANGE_def page_defs PTE_ENTRIES_PER_PAGE_def mask_eq_exp_minus_1)
    have "MAX_VIRT_ADDRESS - L4_ENTRY_RANGE = 0xFFFFFF7FFFFFFFFF"
      by (simp add: L4 MAX_VIRT_ADDRESS_def)
    then have "P + 2 ^ 27 < 2 ^ 52" using True unat_page_addr [OF lt(1)] by (simp add: word_less_nat_alt)
    moreover have "P mod 2 ^ 27 = ?V mod 2 ^ 27" by (simp only: vpn_mod27)
    then have "min n (2 ^ 27 - P mod 2 ^ 27) = n" using entry by simp
    ultimately show ?thesis
      using page_addr_clip [of 27 P n] lt(2) True unfolding L4 by simp
  qed simp
  show ?thesis
    unfolding mm_map_pages_aligned [OF root checks P n lt(2)]
    by (simp only: Let_def pml4 decode_fields field0_zero not_not to_addr)
qed

text \<open>One round of each loop, when the area lies inside one entry of its level.\<close>

lemma map_pdp3_loop_one:
  assumes "P mod 2 ^ 9 + n \<le> 2 ^ 9" and "1 \<le> n" and "P + n + 2 ^ 9 \<le> 2 ^ 52"
  shows "map_pdp3_loop slot (page_addr P) (page_addr n) (page_addr (P + n)) pacc flags c m =
    obind (Some (ensure_entry (populate_pde2_entry slot pacc flags c m) (bit (kmem m slot) 0) m)) (\<lambda>(r, m).
      if r \<noteq> 0 then Some (Inr (- ENOMEM, c, m)) else
      obind (map_pde2_range slot (page_addr P) (page_addr (P + n)) pacc flags c m) (\<lambda>(r, c, m).
        if r \<noteq> 0 then Some (Inr (- ENOMEM, c, m)) else Some (Inr (0, c, m))))"
proof -
  have L2: "L2_ENTRY_RANGE = of_nat (2 ^ (12 + 9))" "L2_ADDR_MASK = NOT (mask (12 + 9))"
    by (simp_all add: L2_ADDR_MASK_def L2_ENTRY_RANGE_def L1_ENTRY_RANGE_def page_defs
        PTE_ENTRIES_PER_PAGE_def mask_eq_exp_minus_1)
  have clip: "clip_to L2_ENTRY_RANGE L2_ADDR_MASK (page_addr P) (page_addr (P + n)) = page_addr (P + n)"
    using page_addr_clip [of 9 P n] assms min_absorb1 [of n "2 ^ 9 - P mod 2 ^ 9"] unfolding L2 by simp
  show ?thesis
    by (subst map_pdp3_loop.simps) (simp only: decode_fields field0_zero not_not Let_def page_addr_add clip
        less_irrefl if_False)
qed

lemma map_pml4_loop_one:
  assumes "P mod 2 ^ 18 + n \<le> 2 ^ 18" and "1 \<le> n" and "P + n + 2 ^ 18 \<le> 2 ^ 52"
  shows "map_pml4_loop slot (page_addr P) (page_addr n) (page_addr (P + n)) pacc flags c m =
    obind (Some (ensure_entry (populate_pdp3_entry slot pacc flags c m) (bit (kmem m slot) 0) m)) (\<lambda>(r, m).
      if r \<noteq> 0 then Some (Inr (- ENOMEM, c, m)) else
      obind (map_pdp3_range slot (page_addr P) (page_addr (P + n)) pacc flags c m) (\<lambda>(r, c, m).
        if r \<noteq> 0 then Some (Inr (- ENOMEM, c, m)) else Some (Inr (0, c, m))))"
proof -
  have L3: "L3_ENTRY_RANGE = of_nat (2 ^ (12 + 18))" "L3_ADDR_MASK = NOT (mask (12 + 18))"
    by (simp_all add: L3_ADDR_MASK_def L3_ENTRY_RANGE_def L2_ENTRY_RANGE_def L1_ENTRY_RANGE_def page_defs
        PTE_ENTRIES_PER_PAGE_def mask_eq_exp_minus_1)
  have clip: "clip_to L3_ENTRY_RANGE L3_ADDR_MASK (page_addr P) (page_addr (P + n)) = page_addr (P + n)"
    using page_addr_clip [of 18 P n] assms min_absorb1 [of n "2 ^ 18 - P mod 2 ^ 18"] unfolding L3 by simp
  show ?thesis
    by (subst map_pml4_loop.simps) (simp only: decode_fields field0_zero not_not Let_def page_addr_add clip
        less_irrefl if_False)
qed

context frame_supply
begin

lemma rep_store: "rep c m fs frs \<Longrightarrow> rep c (store_slot a w m) fs frs"
  unfolding store_slot_def by (rule rep_mem)

lemma map_pde2_loop_ok:
  assumes "rep c m fs frs" and "tables_ok (kmem m) R frs"
    and "table_of (kmem m) R (path3 (vpn P)) t" and "p2k_code v = t" and "1 \<le> n"
    and "vpn P mod 2 ^ 9 + n \<le> 2 ^ 9" and "n \<le> length fs" and "P + n < 2 ^ 52"
  shows "\<exists>c' m'. map_pde2_loop v (page_addr P) (page_addr (P + n)) pacc flags c m = Some (Inr (0, c', m')) \<and>
    rep c' m' (drop n fs) frs \<and> tables_ok (kmem m') R frs \<and>
    advances (kmem m) (kmem m') R (vpn P) n fs"
  using assms
proof (induction n arbitrary: c m fs P)
  case 0
  then show ?case by simp
next
  case (Suc n)
  note p = Suc.prems
  let ?slot = "entry_ptr t (of_nat (vpn P mod 512))"
  obtain f fs' where fs: "fs = f # fs'" using p(7) by (cases fs) auto
  obtain c1 m0 where c1: "pa_next_frame pacc c m = Inr (f, c1, m0)" "kmem m0 = kmem m" "rep c1 m0 fs' frs"
    using rep_next [of c m f fs' frs] p(1) fs by auto
  have P: "P < 2 ^ 52" using p(8) by simp
  have idx: "drop_bit 12 (page_addr P) AND 0x1ff = (of_nat (vpn P mod 512) :: u64)"
    using index_page_addr [OF P, of 0] by (simp add: vpn_digits)
  define w where "w = pte_encode (fill_pte flags f (pte_decode (kmem m ?slot)))"
  define m1 where "m1 = store_slot ?slot w m0"
  have nxt: "page_addr P + L1_ENTRY_RANGE = page_addr (Suc P)"
    by (simp add: page_addr_def L1_ENTRY_RANGE_def page_defs)
  have unfold: "map_pde2_loop v (page_addr P) (page_addr (P + Suc n)) pacc flags c m =
    (if Suc P < P + Suc n then map_pde2_loop v (page_addr (Suc P)) (page_addr (P + Suc n)) pacc flags c1 m1
     else Some (Inr (0, c1, m1)))"
    using page_addr_less [of "Suc P" "P + Suc n"] p(8)
    by (subst map_pde2_loop.simps)
      (simp only: Let_def c1(1,2) p(4) idx obind_simps prod.case nxt w_def m1_def)
  have mem1: "kmem m1 = (kmem m)(?slot := w)" by (simp add: m1_def c1(2))
  have w: "bit w 0" "frame_of w = f" by (simp_all add: w_def)
  have "walk (kmem m) R (path3 (vpn P)) = Some t" using p(3) by (simp add: table_of_def)
  note st = store_leaf [OF p(2) vpn_less this mem1]
  have tabs: "table_of (kmem m) R q u \<Longrightarrow> table_of (kmem m1) R q u" for q u
    using st(1) by (simp add: table_of_def)
  have "leaf (kmem m1) R Q =
      (if vpn P \<le> Q \<and> Q < vpn P + 1 then Some (fs ! (Q - vpn P)) else leaf (kmem m) R Q)"
    if "Q < 2 ^ 36" for Q
    using st(3) st(4) [OF that] w fs by (cases "Q = vpn P") auto
  then have adv: "advances (kmem m) (kmem m1) R (vpn P) 1 fs"
    unfolding advances_def using tabs by blast
  have rep1: "rep c1 m1 fs' frs" unfolding m1_def by (rule rep_store [OF c1(3)])
  show ?case
  proof (cases "n = 0")
    case True
    then show ?thesis using unfold rep1 st(2) adv fs by simp
  next
    case False
    then have room: "vpn P mod 2 ^ 9 + 1 < 2 ^ 9" using p(6) by simp
    have "vpn P + Suc n \<le> 2 ^ 36" using block_room [of 9 P "Suc n"] p(6) by simp
    then have vS: "vpn (Suc P) = vpn P + 1" using vpn_add [of P 1] False by simp
    have same: "path3 (vpn (Suc P)) = path3 (vpn P)"
      using path_same_block(1) [OF room] unfolding vS by simp
    have md: "vpn (Suc P) mod 2 ^ 9 = vpn P mod 2 ^ 9 + 1"
      using room unfolding vS by (simp add: mod_Suc)
    have hyps: "table_of (kmem m1) R (path3 (vpn (Suc P))) t" "vpn (Suc P) mod 2 ^ 9 + n \<le> 2 ^ 9"
      using tabs [OF p(3)] p(6) unfolding same md by simp_all
    have "1 \<le> n" "n \<le> length fs'" "Suc P + n < 2 ^ 52" using False p(7,8) fs by simp_all
    from Suc.IH [OF rep1 st(2) hyps(1) p(4) this(1) hyps(2) this(2,3)]
    obtain c' m' where rest: "map_pde2_loop v (page_addr (Suc P)) (page_addr (Suc P + n)) pacc flags c1 m1
        = Some (Inr (0, c', m'))" "rep c' m' (drop n fs') frs" "tables_ok (kmem m') R frs"
        "advances (kmem m1) (kmem m') R (vpn P + 1) n fs'"
      unfolding vS by blast
    have "advances (kmem m) (kmem m') R (vpn P) (Suc n) fs"
      using advances_trans [OF adv, of "kmem m'" n] rest(4) fs by simp
    then show ?thesis using unfold rest fs False by simp
  qed
qed

lemma map_pde2_range_ok:
  assumes "rep c m fs frs" and "tables_ok (kmem m) R frs" and "table_of (kmem m) R (path2 (vpn P)) t2"
    and "table_of (kmem m) R (path3 (vpn P)) t" and "1 \<le> n" and "vpn P mod 2 ^ 9 + n \<le> 2 ^ 9"
    and "n \<le> length fs" and "P + n < 2 ^ 52"
  shows "\<exists>c' m'. map_pde2_range (entry_ptr t2 (of_nat (vpn P div 2 ^ 9 mod 512))) (page_addr P)
      (page_addr (P + n)) pacc flags c m = Some (Inr (0, c', m')) \<and>
    rep c' m' (drop n fs) frs \<and> tables_ok (kmem m') R frs \<and>
    advances (kmem m) (kmem m') R (vpn P) n fs"
proof -
  let ?e = "pde2_decode (kmem m (entry_ptr t2 (of_nat (vpn P div 2 ^ 9 mod 512))))"
  have "p2k_code (table_base (e2_base_0_19 ?e) (e2_base_20_39 ?e)) = t"
    using next_table_walk [OF assms(3) assms(4) [unfolded path_snoc(1)]] by (simp add: next_table_def)
  from map_pde2_loop_ok [OF assms(1,2,4) this assms(5-8)]
  show ?thesis by (simp add: map_pde2_range_def Let_def)
qed

end

context frame_source
begin

lemma table_created:
  assumes rep: "rep c m fs frs" and ok: "tables_ok (kmem m) R frs" and frs: "frs \<noteq> []"
    and flags: "flags AND PAF_DMA_PAGE = 0"
    and t: "table_of (kmem m) R p t" and len: "length p \<le> 2" and i: "i < 512"
    and fills: "\<forall>n m1. pa_alloc_page pacc c flags True m = Inr (Some n, m1) \<and>
      unat (frame_idx m1 n) < 2 ^ 19 \<longrightarrow> fills out (entry_ptr t (of_nat i)) n m1"
  shows "\<exists>m' frs' u. ensure_entry out (bit (kmem m (entry_ptr t (of_nat i))) 0) m = Inr (0, m') \<and>
    rep c m' fs frs' \<and> tables_ok (kmem m') R frs' \<and> table_of (kmem m') R (p @ [i]) u \<and>
    advances (kmem m) (kmem m') R V 0 fs \<and> length frs \<le> length frs' + 1 \<and> (\<exists>j\<le>1. frs' = drop j frs)"
proof (cases "bit (kmem m (entry_ptr t (of_nat i))) 0")
  case True
  then obtain u where "table_of (kmem m) R (p @ [i]) u"
    using t len i by (auto simp: table_of_def walk_snoc path_ok_def)
  moreover have "frs = drop 0 frs" by simp
  ultimately show ?thesis
    using True rep ok advances_none [of "kmem m" R V fs] unfolding ensure_entry_def
    by (intro exI [of _ m] exI [of _ frs] exI [of _ u]) (metis le_add1 zero_le)
next
  case False
  obtain r frs' where frs': "frs = r # frs'" using frs by (cases frs) auto
  obtain n m1 where m1: "pa_alloc_page pacc c flags True m = Inr (Some n, m1)" "frame_idx m1 n = r"
      "kmem m1 = zeroed (kmem m) r" "rep c m1 fs frs'"
    using rep_alloc [of c m fs r frs' flags] rep flags frs' by auto
  have "unat r < 2 ^ 19" using tables_okD(5) [OF ok] frs' by simp
  then obtain w where w: "out = Inr (0, store_slot (entry_ptr t (of_nat i)) w m1)" "table_entry w r"
    using fills m1(1,2) unfolding fills_def by metis
  let ?m = "store_slot (entry_ptr t (of_nat i)) w m1"
  have "kmem ?m = (zeroed (kmem m) r)(entry_ptr t (of_nat i) := w)" by (simp add: m1(3))
  note new = new_table_ok [OF ok [unfolded frs'] t len i False w(2) this]
  have "advances (kmem m) (kmem ?m) R V 0 fs" unfolding advances_def using new(3,4) by auto
  moreover have "rep c ?m fs frs'" by (rule rep_store [OF m1(4)])
  moreover have "length frs \<le> length frs' + 1" "frs' = drop 1 frs" using frs' by simp_all
  moreover have "ensure_entry out (bit (kmem m (entry_ptr t (of_nat i))) 0) m = Inr (0, ?m)"
    using False w(1) by (simp add: ensure_entry_def)
  ultimately show ?thesis using new(1,2) by blast
qed

lemma map_pdp3_loop_ok:
  assumes "rep c m fs frs" and "tables_ok (kmem m) R frs" and "table_of (kmem m) R (path2 (vpn P)) t"
    and "1 \<le> n" and "vpn P mod 2 ^ 18 + n \<le> 2 ^ 18" and "n \<le> length fs"
    and "P + n + 2 ^ 9 \<le> 2 ^ 52" and "regions 9 (vpn P) n \<le> length frs"
    and "flags AND PAF_DMA_PAGE = 0"
  shows "\<exists>c' m' frs'. map_pdp3_loop (entry_ptr t (of_nat (vpn P div 2 ^ 9 mod 512))) (page_addr P)
      (page_addr n) (page_addr (P + n)) pacc flags c m = Some (Inr (0, c', m')) \<and>
    rep c' m' (drop n fs) frs' \<and> tables_ok (kmem m') R frs' \<and>
    advances (kmem m) (kmem m') R (vpn P) n fs \<and> length frs \<le> length frs' + regions 9 (vpn P) n"
  using assms
proof (induction n arbitrary: c m fs frs P rule: less_induct)
  case (less n)
  note p = less.prems
  let ?V = "vpn P" and ?slot = "entry_ptr t (of_nat (vpn P div 2 ^ 9 mod 512))"
  have modP: "P mod 2 ^ 9 = ?V mod 2 ^ 9" using vpn_digits(1) [of P] by simp
  define k where "k = min n (2 ^ 9 - ?V mod 2 ^ 9)"
  have lt: "?V mod 2 ^ 9 < 2 ^ 9" by simp
  have k: "1 \<le> k" "k \<le> n" "?V mod 2 ^ 9 + k \<le> 2 ^ 9" using p(4) lt by (auto simp: k_def)
  have clip: "clip_to L2_ENTRY_RANGE L2_ADDR_MASK (page_addr P) (page_addr (P + n)) = page_addr (P + k)"
  proof -
    have "L2_ENTRY_RANGE = of_nat (2 ^ (12 + 9))" "L2_ADDR_MASK = NOT (mask (12 + 9))"
      by (simp_all add: L2_ADDR_MASK_def L2_ENTRY_RANGE_def L1_ENTRY_RANGE_def page_defs
          PTE_ENTRIES_PER_PAGE_def mask_eq_exp_minus_1)
    then show ?thesis
      using page_addr_clip [of 9 P n] p(4,7) unfolding k_def modP by simp
  qed
  have "frs \<noteq> []" "length (path2 ?V) \<le> 2" "?V div 2 ^ 9 mod 512 < 512"
    using p(8) by (auto simp: regions_def)
  from table_created [OF p(1,2) this(1) p(9) p(3) this(2,3) populate_fills(3), where V = ?V]
  obtain m1 frs1 u where m1: "ensure_entry (populate_pde2_entry ?slot pacc flags c m) (bit (kmem m ?slot) 0) m
      = Inr (0, m1)" "rep c m1 fs frs1" "tables_ok (kmem m1) R frs1"
      "table_of (kmem m1) R (path2 ?V @ [?V div 2 ^ 9 mod 512]) u"
      "advances (kmem m) (kmem m1) R ?V 0 fs" "length frs \<le> length frs1 + 1"
    by blast
  note t1 = advancesD(1) [OF m1(5) p(3)]
  have "P + k < 2 ^ 52" "k \<le> length fs" using k p(6,7) by auto
  then obtain c2 m2 where m2: "map_pde2_range ?slot (page_addr P) (page_addr (P + k)) pacc flags c m1
      = Some (Inr (0, c2, m2))" "rep c2 m2 (drop k fs) frs1" "tables_ok (kmem m2) R frs1"
      "advances (kmem m1) (kmem m2) R ?V k fs"
    using map_pde2_range_ok [OF m1(2,3) t1 m1(4) [folded path_snoc(1)] k(1,3)] by blast
  have adv: "advances (kmem m) (kmem m2) R ?V k fs"
    using advances_trans [OF m1(5), of "kmem m2" k] m2(4) by simp
  have step: "page_addr P + page_addr n = page_addr (P + n)"
      "page_addr n - (page_addr (P + k) - page_addr P) = page_addr (n - k)"
    using k(2) page_addr_add page_addr_diff [of k "n - k"] by (simp_all add: page_addr_diff)
  have less: "page_addr (P + k) < page_addr (P + n) \<longleftrightarrow> k < n"
    using page_addr_less [of "P + k" "P + n"] p(7) k(2) by simp
  have unfold: "map_pdp3_loop ?slot (page_addr P) (page_addr n) (page_addr (P + n)) pacc flags c m =
      (if k < n then map_pdp3_loop (?slot + 8) (page_addr (P + k)) (page_addr (n - k)) (page_addr (P + n))
         pacc flags c2 m2
       else Some (Inr (0, c2, m2)))"
    by (subst map_pdp3_loop.simps) (simp only: decode_fields field0_zero not_not m1(1) obind_simps
        prod.case Let_def step clip m2(1) less simp_thms if_False)
  show ?case
  proof (cases "k < n")
    case False
    then have "k = n" using k(2) by simp
    moreover from this have "regions 9 ?V n = 1" using regions_one [OF k(1,3)] by simp
    ultimately show ?thesis using unfold m2(2,3) adv m1(6) by auto
  next
    case True
    then have k': "k = 2 ^ 9 - ?V mod 2 ^ 9" by (auto simp: k_def)
    have "?V mod (2 ^ 9 * 512) + k < 2 ^ 9 * 512" using p(5) True by simp
    note nb = next_block [OF k' this]
    have "?V + n \<le> 2 ^ 36" using block_room [of 18 P n] p(5) by simp
    then have vk: "vpn (P + k) = ?V + k" using vpn_add [of P k] True by simp
    have path: "path2 (vpn (P + k)) = path2 ?V"
      using path_same_block(2) [of ?V k] p(5) True unfolding vk by simp
    have regs: "regions 9 ?V n = 1 + regions 9 (vpn (P + k)) (n - k)"
      using regions_split [OF nb(2) k(1) True] regions_one [OF k(1,3)] unfolding vk by simp
    have slot: "?slot + 8 = entry_ptr t (of_nat (vpn (P + k) div 2 ^ 9 mod 512))"
      unfolding entry_ptr_next nb(1) [symmetric] vk ..
    have t2: "table_of (kmem m2) R (path2 (vpn (P + k))) t"
      using advancesD(1) [OF m2(4) t1] unfolding path .
    have room: "vpn (P + k) mod 2 ^ 18 + (n - k) \<le> 2 ^ 18"
      using nb(3) p(5) True unfolding vk by simp
    have "n - k < n" "1 \<le> n - k" "n - k \<le> length (drop k fs)" "P + k + (n - k) + 2 ^ 9 \<le> 2 ^ 52"
        "regions 9 (vpn (P + k)) (n - k) \<le> length frs1"
      using k True p(6,7,8) regs m1(6) by simp_all
    from less.IH [OF this(1) m2(2,3) t2 this(2) room this(3-5) p(9)]
    obtain c' m' frs' where rest: "map_pdp3_loop (?slot + 8) (page_addr (P + k)) (page_addr (n - k))
          (page_addr (P + k + (n - k))) pacc flags c2 m2 = Some (Inr (0, c', m'))"
        "rep c' m' (drop (n - k) (drop k fs)) frs'" "tables_ok (kmem m') R frs'"
        "advances (kmem m2) (kmem m') R (vpn (P + k)) (n - k) (drop k fs)"
        "length frs1 \<le> length frs' + regions 9 (vpn (P + k)) (n - k)"
      unfolding slot by blast
    have "advances (kmem m) (kmem m') R ?V n fs"
      using advances_trans [OF adv rest(4) [unfolded vk] \<open>k \<le> length fs\<close>] k(2) by simp
    moreover have "drop (n - k) (drop k fs) = drop n fs" using k(2) by simp
    moreover have "length frs \<le> length frs' + regions 9 ?V n" using rest(5) m1(6) regs by simp
    ultimately show ?thesis using unfold rest(1-3) True k(2) by auto
  qed
qed

lemma map_pml4_loop_ok:
  assumes "rep c m fs frs" and "tables_ok (kmem m) R frs" and "table_of (kmem m) R (path1 (vpn P)) t"
    and "1 \<le> n" and "vpn P mod 2 ^ 27 + n \<le> 2 ^ 27" and "n \<le> length fs"
    and "P + n + 2 ^ 18 \<le> 2 ^ 52" and "regions2 (vpn P) n \<le> length frs"
    and "flags AND PAF_DMA_PAGE = 0"
  shows "\<exists>c' m' frs'. map_pml4_loop (entry_ptr t (of_nat (vpn P div 2 ^ 18 mod 512))) (page_addr P)
      (page_addr n) (page_addr (P + n)) pacc flags c m = Some (Inr (0, c', m')) \<and>
    rep c' m' (drop n fs) frs' \<and> tables_ok (kmem m') R frs' \<and>
    advances (kmem m) (kmem m') R (vpn P) n fs \<and> length frs \<le> length frs' + regions2 (vpn P) n"
  using assms
proof (induction n arbitrary: c m fs frs P rule: less_induct)
  case (less n)
  note p = less.prems
  let ?V = "vpn P" and ?slot = "entry_ptr t (of_nat (vpn P div 2 ^ 18 mod 512))"
  have modP: "P mod 2 ^ 18 = ?V mod 2 ^ 18" by (simp only: vpn_mod18)
  define k where "k = min n (2 ^ 18 - ?V mod 2 ^ 18)"
  have lt: "?V mod 2 ^ 18 < 2 ^ 18" by simp
  have k: "1 \<le> k" "k \<le> n" "?V mod 2 ^ 18 + k \<le> 2 ^ 18" using p(4) lt by (auto simp: k_def)
  have clip: "clip_to L3_ENTRY_RANGE L3_ADDR_MASK (page_addr P) (page_addr (P + n)) = page_addr (P + k)"
  proof -
    have "L3_ENTRY_RANGE = of_nat (2 ^ (12 + 18))" "L3_ADDR_MASK = NOT (mask (12 + 18))"
      by (simp_all add: L3_ADDR_MASK_def L3_ENTRY_RANGE_def L2_ENTRY_RANGE_def L1_ENTRY_RANGE_def page_defs
          PTE_ENTRIES_PER_PAGE_def mask_eq_exp_minus_1)
    then show ?thesis
      using page_addr_clip [of 18 P n] p(4,7) unfolding k_def modP by simp
  qed
  have "frs \<noteq> []" "length (path1 ?V) \<le> 2" "?V div 2 ^ 18 mod 512 < 512"
    using p(8) by (auto simp: regions2_def regions_def)
  from table_created [OF p(1,2) this(1) p(9) p(3) this(2,3) populate_fills(2), where V = ?V]
  obtain m1 frs1 u where m1: "ensure_entry (populate_pdp3_entry ?slot pacc flags c m) (bit (kmem m ?slot) 0) m
      = Inr (0, m1)" "rep c m1 fs frs1" "tables_ok (kmem m1) R frs1"
      "table_of (kmem m1) R (path1 ?V @ [?V div 2 ^ 18 mod 512]) u"
      "advances (kmem m) (kmem m1) R ?V 0 fs" "length frs \<le> length frs1 + 1"
    by blast
  note t1 = advancesD(1) [OF m1(5) p(3)]
  have "P + k + 2 ^ 9 \<le> 2 ^ 52" "k \<le> length fs" using k p(6,7) by auto
  have "P < 2 ^ 52" using p(7) by simp
  have regs9: "regions 9 ?V n = regions 9 ?V k + (if k < n then regions 9 (?V + k) (n - k) else 0)"
    and regs18: "regions 18 ?V n = 1 + (if k < n then regions 18 (?V + k) (n - k) else 0)"
  proof -
    have dvd: "2 ^ 18 dvd ?V + k" if "k < n"
    proof -
      have "k = 2 ^ 18 - ?V mod 2 ^ 18" using that by (auto simp: k_def)
      then show ?thesis using next_block(2) [of k 18 ?V] p(5) that by simp
    qed
    have dvd9: "2 ^ 9 dvd ?V + k" if "k < n"
      using dvd [OF that] by (rule dvd_trans [rotated]) (simp add: le_imp_power_dvd)
    have "k = n" if "\<not> k < n" using that k(2) by simp
    then show "regions 9 ?V n = regions 9 ?V k + (if k < n then regions 9 (?V + k) (n - k) else 0)"
      using regions_split [OF dvd9 k(1)] by (cases "k < n") auto
    show "regions 18 ?V n = 1 + (if k < n then regions 18 (?V + k) (n - k) else 0)"
      using regions_split [OF dvd k(1)] regions_one [OF k(1,3)] \<open>\<not> k < n \<Longrightarrow> k = n\<close>
      by (cases "k < n") auto
  qed
  have "regions 9 ?V k \<le> length frs1"
    using p(8) m1(6) regs9 regs18 by (simp add: regions2_def)
  from map_pdp3_loop_ok [OF m1(2,3) m1(4) [folded path_snoc(2)] k(1,3) \<open>k \<le> length fs\<close>
      \<open>P + k + 2 ^ 9 \<le> 2 ^ 52\<close> this p(9)]
  obtain c2 m2 frs2 where m2: "map_pdp3_range ?slot (page_addr P) (page_addr (P + k)) pacc flags c m1
      = Some (Inr (0, c2, m2))" "rep c2 m2 (drop k fs) frs2" "tables_ok (kmem m2) R frs2"
      "advances (kmem m1) (kmem m2) R ?V k fs" "length frs1 \<le> length frs2 + regions 9 ?V k"
    unfolding map_pdp3_range_eq [OF t1 m1(4) [folded path_snoc(2)] \<open>P < 2 ^ 52\<close>] by blast
  have adv: "advances (kmem m) (kmem m2) R ?V k fs"
    using advances_trans [OF m1(5), of "kmem m2" k] m2(4) by simp
  have step: "page_addr P + page_addr n = page_addr (P + n)"
      "page_addr n - (page_addr (P + k) - page_addr P) = page_addr (n - k)"
    using k(2) page_addr_add page_addr_diff [of k "n - k"] by (simp_all add: page_addr_diff)
  have less: "page_addr (P + k) < page_addr (P + n) \<longleftrightarrow> k < n"
    using page_addr_less [of "P + k" "P + n"] p(7) k(2) by simp
  have unfold: "map_pml4_loop ?slot (page_addr P) (page_addr n) (page_addr (P + n)) pacc flags c m =
      (if k < n then map_pml4_loop (?slot + 8) (page_addr (P + k)) (page_addr (n - k)) (page_addr (P + n))
         pacc flags c2 m2
       else Some (Inr (0, c2, m2)))"
    by (subst map_pml4_loop.simps) (simp only: decode_fields field0_zero not_not m1(1) obind_simps
        prod.case Let_def step clip m2(1) less simp_thms if_False)
  show ?case
  proof (cases "k < n")
    case False
    then have "k = n" using k(2) by simp
    moreover have "length frs \<le> length frs2 + regions2 ?V n"
      using m1(6) m2(5) regs9 regs18 False unfolding regions2_def by simp
    ultimately show ?thesis using unfold m2(2,3) adv by auto
  next
    case True
    then have k': "k = 2 ^ 18 - ?V mod 2 ^ 18" by (auto simp: k_def)
    have "?V mod (2 ^ 18 * 512) + k < 2 ^ 18 * 512" using p(5) True by simp
    note nb = next_block [OF k' this]
    have "?V + n \<le> 2 ^ 36" using block_room [of 27 P n] p(5) by simp
    then have vk: "vpn (P + k) = ?V + k" using vpn_add [of P k] True by simp
    have path: "path1 (vpn (P + k)) = path1 ?V"
      using path_same_block(3) [of ?V k] p(5) True unfolding vk by simp
    have regs: "regions2 ?V n = 1 + regions 9 ?V k + regions2 (vpn (P + k)) (n - k)"
      using regs9 regs18 True unfolding vk by (simp add: regions2_def)
    have slot: "?slot + 8 = entry_ptr t (of_nat (vpn (P + k) div 2 ^ 18 mod 512))"
      unfolding entry_ptr_next nb(1) [symmetric] vk ..
    have t2: "table_of (kmem m2) R (path1 (vpn (P + k))) t"
      using advancesD(1) [OF m2(4) t1] unfolding path .
    have room: "vpn (P + k) mod 2 ^ 27 + (n - k) \<le> 2 ^ 27"
      using nb(3) p(5) True unfolding vk by simp
    have "n - k < n" "1 \<le> n - k" "n - k \<le> length (drop k fs)" "P + k + (n - k) + 2 ^ 18 \<le> 2 ^ 52"
        "regions2 (vpn (P + k)) (n - k) \<le> length frs2"
      using k True p(6,7,8) regs m1(6) m2(5) by simp_all
    from less.IH [OF this(1) m2(2,3) t2 this(2) room this(3-5) p(9)]
    obtain c' m' frs' where rest: "map_pml4_loop (?slot + 8) (page_addr (P + k)) (page_addr (n - k))
          (page_addr (P + k + (n - k))) pacc flags c2 m2 = Some (Inr (0, c', m'))"
        "rep c' m' (drop (n - k) (drop k fs)) frs'" "tables_ok (kmem m') R frs'"
        "advances (kmem m2) (kmem m') R (vpn (P + k)) (n - k) (drop k fs)"
        "length frs2 \<le> length frs' + regions2 (vpn (P + k)) (n - k)"
      unfolding slot by blast
    have "advances (kmem m) (kmem m') R ?V n fs"
      using advances_trans [OF adv rest(4) [unfolded vk] \<open>k \<le> length fs\<close>] k(2) by simp
    moreover have "drop (n - k) (drop k fs) = drop n fs" using k(2) by simp
    moreover have "length frs \<le> length frs' + regions2 ?V n" using rest(5) m1(6) m2(5) regs by simp
    ultimately show ?thesis using unfold rest(1-3) True k(2) by auto
  qed
qed

text \<open>A page-aligned area inside one 512 GB entry and below the last gigabyte of the address
  space: every page gets its frame, nothing else changes, and the tables stay well formed.\<close>

lemma mm_map_pages_ok:
  assumes rep: "rep c m fs frs" and ok: "tables_ok (kmem m) (pd_entries pd) frs"
    and root: "pd_entries pd \<noteq> 0" and P: "1 \<le> P" and n: "1 \<le> n"
    and entry: "vpn P mod 2 ^ 27 + n \<le> 2 ^ 27" and top: "P + n + 2 ^ 18 \<le> 2 ^ 52"
    and fs: "n \<le> length fs" and frs: "1 + regions2 (vpn P) n \<le> length frs"
    and flags: "flags AND PAF_DMA_PAGE = 0"
  shows "\<exists>c' m' frs'. mm_map_pages (Some pd) (Some pacc) (page_addr P) (of_nat n) flags c m
      = Some (Inr (0, c', m')) \<and>
    rep c' m' (drop n fs) frs' \<and> tables_ok (kmem m') (pd_entries pd) frs' \<and>
    advances (kmem m) (kmem m') (pd_entries pd) (vpn P) n fs \<and>
    length frs \<le> length frs' + 1 + regions2 (vpn P) n"
proof -
  let ?R = "pd_entries pd" and ?V = "vpn P"
  let ?slot = "entry_ptr ?R (of_nat (?V div 2 ^ 27 mod 512))"
  have R: "table_of (kmem m) ?R [] ?R" by (simp add: table_of_def path_ok_def)
  have lt: "P < 2 ^ 52" using top by simp
  have "frs \<noteq> []" "?V div 2 ^ 27 mod 512 < 512" using frs by auto
  from table_created [OF rep ok this(1) flags R _ this(2) populate_fills(1), where V = ?V]
  obtain m1 frs1 u where m1: "ensure_entry (populate_pml4_entry ?slot pacc flags c m) (bit (kmem m ?slot) 0) m
      = Inr (0, m1)" "rep c m1 fs frs1" "tables_ok (kmem m1) ?R frs1"
      "table_of (kmem m1) ?R (path1 ?V) u"
      "advances (kmem m) (kmem m1) ?R ?V 0 fs" "length frs \<le> length frs1 + 1"
    by (auto simp: path1_def)
  note t1 = advancesD(1) [OF m1(5) R]
  have "regions2 ?V n \<le> length frs1" using frs m1(6) by simp
  from map_pml4_loop_ok [OF m1(2,3,4) n entry fs top this flags]
  obtain c2 m2 frs2 where m2: "map_pml4_range ?slot (page_addr P) (page_addr (P + n)) pacc flags c m1
      = Some (Inr (0, c2, m2))" "rep c2 m2 (drop n fs) frs2" "tables_ok (kmem m2) ?R frs2"
      "advances (kmem m1) (kmem m2) ?R ?V n fs" "length frs1 \<le> length frs2 + regions2 ?V n"
    unfolding map_pml4_range_eq [OF t1 m1(4) lt] by blast
  have "mm_map_pages (Some pd) (Some pacc) (page_addr P) (of_nat n) flags c m = Some (Inr (0, c2, m2))"
    unfolding mm_map_pages_entry [OF tables_okD(1) [OF ok R] root P n entry top] m1(1)
    by (simp only: obind_simps prod.case m2(1) simp_thms if_False)
  moreover have "advances (kmem m) (kmem m2) ?R ?V n fs"
    using advances_trans [OF m1(5), of "kmem m2" n] m2(4) by simp
  moreover have "length frs \<le> length frs2 + 1 + regions2 ?V n" using m1(6) m2(5) by simp
  ultimately show ?thesis using m2(2,3) by blast
qed

end

end
