(* ===== verification/Mui_Mapping.thy ===== *)
theory Mui_Mapping
  imports Mui_PageMap
begin

text \<open>
  The properties of the mapping code, over \<^verbatim>\<open>mm_map_pages\<close> and \<^verbatim>\<open>mm_pin_virtual_address\<close>
  themselves and for the two accessors of the kernel, with the error paths and the limits of the
  code: it maps no more than one 512 GB entry per call, it takes the kernel-page flag for a DMA
  request, and it does not survive an empty page cache.
\<close>

section \<open>From leaves to addresses\<close>

text \<open>The page of the area that starts at page \<open>P\<close> which an address lies in, if it lies in it.\<close>

definition page_in_area :: "nat \<Rightarrow> nat \<Rightarrow> u64 \<Rightarrow> nat option" where
  "page_in_area P n va =
     (let V = vpn (unat va div 4096)
      in if vpn P \<le> V \<and> V < vpn P + n then Some (V - vpn P) else None)"

lemma pin_advances:
  assumes "advances (kmem m) (kmem m') (pd_entries pd) (vpn P) n fs"
  shows "mm_pin_virtual_address pd va m' =
    (case page_in_area P n va of Some i \<Rightarrow> fs ! i | None \<Rightarrow> mm_pin_virtual_address pd va m)"
  using advancesD(2) [OF assms vpn_less [of "unat va div 4096"]]
  by (auto simp: pin_leaf page_in_area_def Let_def)

lemma page_in_area_less: "page_in_area P n va = Some i \<Longrightarrow> i < n"
  by (auto simp: page_in_area_def Let_def split: if_splits)

text \<open>What the caller of \<^verbatim>\<open>mm_map_pages\<close> has to provide: a directory with sound tables, an area of
  whole pages inside one 512 GB entry and below the last gigabyte, no DMA bit in the flags, and
  one free frame for every table the area may need.\<close>

definition mappable :: "page_directory \<Rightarrow> kmm \<Rightarrow> page_idx list \<Rightarrow> nat \<Rightarrow> nat \<Rightarrow> page_flags \<Rightarrow> bool" where
  "mappable pd m frs P n flags \<longleftrightarrow> tables_ok (kmem m) (pd_entries pd) frs \<and> pd_entries pd \<noteq> 0 \<and>
     1 \<le> P \<and> 1 \<le> n \<and> P mod 2 ^ 27 + n \<le> 2 ^ 27 \<and> P + n + 2 ^ 18 \<le> 2 ^ 52 \<and>
     1 + regions2 (vpn P) n \<le> length frs \<and> flags AND PAF_DMA_PAGE = 0"

context frame_source
begin

lemma map_then_pin:
  assumes "mappable pd m frs P n flags" and "rep c m fs frs" and "n \<le> length fs"
  shows "\<exists>c' m' frs'. mm_map_pages (Some pd) (Some pacc) (page_addr P) (of_nat n) flags c m
      = Some (Inr (0, c', m')) \<and>
    rep c' m' (drop n fs) frs' \<and> tables_ok (kmem m') (pd_entries pd) frs' \<and>
    length frs \<le> length frs' + 1 + regions2 (vpn P) n \<and>
    (\<forall>va. mm_pin_virtual_address pd va m' =
      (case page_in_area P n va of Some i \<Rightarrow> fs ! i | None \<Rightarrow> mm_pin_virtual_address pd va m))"
proof -
  have "vpn P mod 2 ^ 27 + n \<le> 2 ^ 27" using assms(1) unfolding mappable_def vpn_mod27 by blast
  then obtain c' m' frs' where "mm_map_pages (Some pd) (Some pacc) (page_addr P) (of_nat n) flags c m
      = Some (Inr (0, c', m'))" "rep c' m' (drop n fs) frs'" "tables_ok (kmem m') (pd_entries pd) frs'"
      "advances (kmem m) (kmem m') (pd_entries pd) (vpn P) n fs"
      "length frs \<le> length frs' + 1 + regions2 (vpn P) n"
    using mm_map_pages_ok [OF assms(2), of pd P n flags] assms(1,3) unfolding mappable_def by blast
  then show ?thesis using pin_advances by blast
qed

end

section \<open>A concrete memory\<close>

definition sample_nodes :: "addr list" where
  "sample_nodes = [0x10000, 0x20000, 0x30000, 0x40000]"

definition sample_pd :: page_directory where
  "sample_pd = \<lparr>pd_entries = 0xffffffff80200000\<rparr>"

definition sample_mm :: kmm where
  "sample_mm = \<lparr>kmem = (\<lambda>_. 0),
     frame_links = fold (\<lambda>n. list_add_tail n 0x500) sample_nodes
       (init_list_head 0x500 \<lparr>lh_next = (\<lambda>_. 0), lh_prev = (\<lambda>_. 0)\<rparr>),
     frame_idx = (\<lambda>a. ucast (drop_bit 16 a)),
     cpu_cache = \<lparr>pc_pages = 0x500, pc_num_free_pages = 4, pc_total_pages = 4\<rparr>,
     mem_total_pages = 64\<rparr>"

lemma sample_cache: "cache_rep sample_mm sample_nodes"
  using ring.build_back [OF init_list_head_empty, of sample_nodes]
  by (simp add: cache_rep_def sample_mm_def sample_nodes_def)

lemma sample_frames: "cache_frames sample_mm [1, 2, 3, 4]"
proof -
  have "map (frame_idx sample_mm) sample_nodes = [1, 2, 3, 4]"
    by (simp add: sample_mm_def sample_nodes_def drop_bit_eq_div)
  then show ?thesis using sample_cache unfolding cache_frames_def by metis
qed

lemma walk_zero: "walk (\<lambda>_. 0) R p = (if p = [] then Some R else None)"
  by (cases p) auto

lemma sample_tables: "tables_ok (kmem sample_mm) (pd_entries sample_pd) [1, 2, 3, 4]"
  by (auto simp: tables_ok_def sample_mm_def sample_pd_def walk_zero aligned_def pframe_to_virt_def
      page_defs split: if_splits)

lemma sample_mappable: "mappable sample_pd sample_mm [1, 2, 3, 4] 1 2 0"
  using sample_tables
  by (simp add: mappable_def regions2_def regions_def vpn_def) (simp add: sample_pd_def)

section \<open>Properties\<close>

text \<open>C3: Mapping an area with the linear accessor succeeds and then \<^verbatim>\<open>mm_pin_virtual_address\<close>
  finds, for every address of the area, the frame that is as many frames after the current one as
  the page is after the first page of the area, and for every other address what it found before.\<close>

theorem map_linear_area:
  assumes "mappable pd m frs P n flags" and "cache_frames m frs"
  shows "\<exists>c' m' frs'. mm_map_pages (Some pd) (Some pageaccs_linear_pa) (page_addr P) (of_nat n) flags c m
      = Some (Inr (0, c', m')) \<and>
    cache_frames m' frs' \<and> tables_ok (kmem m') (pd_entries pd) frs' \<and>
    (\<forall>va. mm_pin_virtual_address pd va m' =
      (case page_in_area P n va of
         Some i \<Rightarrow> lp_curr_page c + of_nat i
       | None \<Rightarrow> mm_pin_virtual_address pd va m))"
proof -
  let ?fs = "map (\<lambda>i. lp_curr_page c + of_nat i) [0..<n]"
  have "linear_rep c m ?fs frs" using assms(2) by (simp add: linear_rep_def)
  then obtain c' m' frs' where m': "mm_map_pages (Some pd) (Some pageaccs_linear_pa) (page_addr P)
      (of_nat n) flags c m = Some (Inr (0, c', m'))" "linear_rep c' m' (drop n ?fs) frs'"
      "tables_ok (kmem m') (pd_entries pd) frs'"
    and pin: "\<forall>va. mm_pin_virtual_address pd va m' =
      (case page_in_area P n va of Some i \<Rightarrow> ?fs ! i | None \<Rightarrow> mm_pin_virtual_address pd va m)"
    using linear_pa.map_then_pin [OF assms(1), of c ?fs] by auto
  have "?fs ! i = lp_curr_page c + of_nat i" if "page_in_area P n va = Some i" for va i
    using page_in_area_less [OF that] by simp
  then have "mm_pin_virtual_address pd va m' =
      (case page_in_area P n va of Some i \<Rightarrow> lp_curr_page c + of_nat i
       | None \<Rightarrow> mm_pin_virtual_address pd va m)" for va
    using pin by (simp split: option.splits)
  then show ?thesis using m' by (auto simp: linear_rep_def)
qed

theorem map_linear_area_witness:
  "\<exists>c' m'. mm_map_pages (Some sample_pd) (Some pageaccs_linear_pa) 0x1000 2 0
      \<lparr>lp_start_page = 5, lp_end_page = 7, lp_curr_page = 5\<rparr> sample_mm = Some (Inr (0, c', m')) \<and>
    mm_pin_virtual_address sample_pd 0x2008 m' = 6"
proof -
  have "page_in_area 1 2 0x2008 = Some 1" by (simp add: page_in_area_def vpn_def)
  then show ?thesis
    using map_linear_area [OF sample_mappable sample_frames,
        of "\<lparr>lp_start_page = 5, lp_end_page = 7, lp_curr_page = 5\<rparr>"]
    by (force simp: page_addr_def)
qed

text \<open>C4: Mapping an area with the list accessor succeeds and maps its pages, in order, to the
  frames of the list, which need not be contiguous; every other address stays as it was.\<close>

theorem map_list_area:
  assumes "mappable pd m frs P n flags" and "list_rep c m fs frs" and "n \<le> length fs"
  shows "\<exists>c' m' frs'. mm_map_pages (Some pd) (Some pageaccs_list_pa) (page_addr P) (of_nat n) flags c m
      = Some (Inr (0, c', m')) \<and>
    list_rep c' m' (drop n fs) frs' \<and> tables_ok (kmem m') (pd_entries pd) frs' \<and>
    (\<forall>va. mm_pin_virtual_address pd va m' =
      (case page_in_area P n va of Some i \<Rightarrow> fs ! i | None \<Rightarrow> mm_pin_virtual_address pd va m))"
  using list_pa.map_then_pin [OF assms] by blast

definition sample_list_ctx :: pageaccs_list_pa_ctx where
  "sample_list_ctx = \<lparr>li_head = 0x90000, li_curr = 0x90000, li_num_pages = 2, li_pages_left = 2\<rparr>"

definition sample_list_mm :: kmm where
  "sample_list_mm = sample_mm\<lparr>frame_links := set_next 0x90000 0x70000 (frame_links sample_mm)\<rparr>"

lemma sample_list_rep: "list_rep sample_list_ctx sample_list_mm [9, 7] [1, 2, 3, 4]"
proof -
  have "dlist (frame_links sample_list_mm) 0x500 sample_nodes = dlist (frame_links sample_mm) 0x500 sample_nodes"
    by (rule dlist_cong) (auto simp: sample_list_mm_def sample_nodes_def)
  then have "cache_rep sample_list_mm sample_nodes"
    using sample_cache by (simp add: cache_rep_def sample_list_mm_def sample_mm_def)
  then show ?thesis
    unfolding list_rep_def
    by (intro exI [of _ "[0x90000, 0x70000]"] exI [of _ sample_nodes] conjI)
      (simp_all add: sample_list_mm_def sample_mm_def sample_nodes_def sample_list_ctx_def drop_bit_eq_div)
qed

theorem map_list_area_witness:
  "\<exists>c' m'. mm_map_pages (Some sample_pd) (Some pageaccs_list_pa) 0x1000 2 0 sample_list_ctx
      sample_list_mm = Some (Inr (0, c', m')) \<and>
    mm_pin_virtual_address sample_pd 0x1000 m' = 9 \<and> mm_pin_virtual_address sample_pd 0x2000 m' = 7"
proof -
  have "mappable sample_pd sample_list_mm [1, 2, 3, 4] 1 2 0"
    using sample_mappable by (simp add: mappable_def sample_list_mm_def)
  moreover have "page_in_area 1 2 0x1000 = Some 0" "page_in_area 1 2 0x2000 = Some 1"
    by (simp_all add: page_in_area_def vpn_def)
  ultimately show ?thesis
    using map_list_area [OF _ sample_list_rep, of sample_pd 1 2 0]
    by (force simp: page_addr_def)
qed

text \<open>A call that needs a table but carries the bit of \<open>PF_KERNEL_PAGE\<close> fails with
  \<open>-ENOMEM\<close> and changes nothing, however many frames are free: the bit is also that of
  \<open>PAF_DMA_PAGE\<close>, which the page allocator refuses.\<close>

theorem map_kernel_page_enomem:
  assumes "flags AND PF_KERNEL_PAGE \<noteq> 0" and "pd_entries pd \<noteq> 0"
    and "pd_entries pd AND NOT PAGE_ADDR_MASK = 0" and "1 \<le> P" and "1 \<le> n" and "P + n < 2 ^ 52"
    and "e4_present (pml4_decode (kmem m (vaddr_to_pml4 (page_addr P) pd))) = 0"
  shows "mm_map_pages (Some pd) (Some pageaccs_linear_pa) (page_addr P) (of_nat n) flags c m
    = Some (Inr (- ENOMEM, c, m))"
proof -
  have "ensure_entry (populate_pml4_entry (vaddr_to_pml4 (page_addr P) pd) pageaccs_linear_pa flags c m)
      (e4_present (pml4_decode (kmem m (vaddr_to_pml4 (page_addr P) pd))) \<noteq> 0) m = Inr (- ENOMEM, m)"
    using assms(1,7)
    by (simp add: ensure_entry_def populate_pml4_entry_def PF_KERNEL_PAGE_def PAF_DMA_PAGE_def linear_pa.alloc_dma)
  moreover have "ENOMEM \<noteq> 0" by (simp add: errno_defs)
  ultimately show ?thesis
    by (simp only: mm_map_pages_aligned [OF assms(2-6)] obind_simps prod.case) simp
qed

theorem map_kernel_page_enomem_witness:
  "mm_map_pages (Some sample_pd) (Some pageaccs_linear_pa) (page_addr 1) (of_nat 2) PF_KERNEL_PAGE
     \<lparr>lp_start_page = 1, lp_end_page = 3, lp_curr_page = 1\<rparr> sample_mm
   = Some (Inr (- ENOMEM, \<lparr>lp_start_page = 1, lp_end_page = 3, lp_curr_page = 1\<rparr>, sample_mm))"
  by (rule map_kernel_page_enomem) (simp_all add: PF_KERNEL_PAGE_def sample_pd_def page_defs sample_mm_def)

text \<open>With no free frame left, a call that needs a table does not return \<open>-ENOMEM\<close> but
  dereferences the null frame: the allocator cleans the page it did not get.\<close>

theorem map_without_frames_faults:
  assumes "pc_num_free_pages (cpu_cache m) = 0" and "flags AND PAF_DMA_PAGE = 0" and "pd_entries pd \<noteq> 0"
    and "pd_entries pd AND NOT PAGE_ADDR_MASK = 0" and "1 \<le> P" and "1 \<le> n" and "P + n < 2 ^ 52"
    and "e4_present (pml4_decode (kmem m (vaddr_to_pml4 (page_addr P) pd))) = 0"
  shows "mm_map_pages (Some pd) (Some pageaccs_linear_pa) (page_addr P) (of_nat n) flags c m
    = Some (Inl BadAccess)"
proof -
  have "ensure_entry (populate_pml4_entry (vaddr_to_pml4 (page_addr P) pd) pageaccs_linear_pa flags c m)
      (e4_present (pml4_decode (kmem m (vaddr_to_pml4 (page_addr P) pd))) \<noteq> 0) m = Inl BadAccess"
    using alloc_page_empty [OF assms(1,2)] assms(8)
    by (simp add: ensure_entry_def populate_pml4_entry_def pageaccs_linear_pa_def pageaccs_alloc_page_stub_def)
  then show ?thesis
    by (simp only: mm_map_pages_aligned [OF assms(3-7)] obind_simps Let_def)
qed

theorem map_without_frames_faults_witness:
  "mm_map_pages (Some sample_pd) (Some pageaccs_linear_pa) (page_addr 1) (of_nat 2) 0
     \<lparr>lp_start_page = 1, lp_end_page = 3, lp_curr_page = 1\<rparr>
     (sample_mm\<lparr>frame_links := init_list_head 0x500 (frame_links sample_mm),
                cpu_cache := \<lparr>pc_pages = 0x500, pc_num_free_pages = 0, pc_total_pages = 4\<rparr>\<rparr>)
   = Some (Inl BadAccess)"
  by (rule map_without_frames_faults) (simp_all add: sample_pd_def page_defs sample_mm_def)

text \<open>The arguments \<^verbatim>\<open>include/mm/pt.h\<close> calls invalid are refused with \<open>-EINVAL\<close> and change
  nothing: no directory or no table in it, a misaligned one, no accessor, no pages, address zero,
  and an area that runs past the end of the address space.\<close>

theorem map_rejects_invalid:
  assumes "pd = None \<or> pacc = None \<or> pd_entries (the pd) = 0 \<or>
      pd_entries (the pd) AND NOT PAGE_ADDR_MASK \<noteq> 0 \<or> num_pages = 0 \<or> virt_addr = 0 \<or>
      unat num_pages < 2 ^ 52 \<and> 2 ^ 64 \<le> unat virt_addr + 4096 * unat num_pages"
  shows "mm_map_pages pd pacc virt_addr num_pages flags c m = Some (Inr (- EINVAL, c, m))"
proof (cases "unat num_pages < 2 ^ 52 \<and> 2 ^ 64 \<le> unat virt_addr + 4096 * unat num_pages")
  case True
  have "unat (num_pages * PAGE_SIZE) = 4096 * unat num_pages"
    using True by (simp add: page_defs unat_word_ariths)
  then have "virt_addr + num_pages * PAGE_SIZE < virt_addr"
    using conjunct1 [OF True] conjunct2 [OF True] unsigned_less [of virt_addr, where 'a = nat] unsigned_less [of num_pages, where 'a = nat]
    by (simp add: word_less_nat_alt unat_plus_if')
  then show ?thesis by (simp add: mm_map_pages_def Let_def split: option.splits)
next
  case False
  then show ?thesis using assms by (auto simp: mm_map_pages_def split: option.splits)
qed

theorem map_rejects_invalid_witness:
  "mm_map_pages (Some sample_pd) (Some pageaccs_linear_pa) 0xfffffffffffff000 1 0
     \<lparr>lp_start_page = 1, lp_end_page = 3, lp_curr_page = 1\<rparr> sample_mm
   = Some (Inr (- EINVAL, \<lparr>lp_start_page = 1, lp_end_page = 3, lp_curr_page = 1\<rparr>, sample_mm))"
  by (rule map_rejects_invalid) simp

text \<open>C36: An area that crosses into the next 512 GB entry is mapped up to the boundary only: the
  call does exactly what the call for the pages before the boundary does, result included.\<close>

theorem map_stops_at_entry:
  assumes "pd_entries pd \<noteq> 0" and "pd_entries pd AND NOT PAGE_ADDR_MASK = 0" and "1 \<le> P"
    and "P + n < 2 ^ 52" and "P + 2 ^ 27 < 2 ^ 52" and "2 ^ 27 < P mod 2 ^ 27 + n"
  shows "mm_map_pages (Some pd) (Some pacc) (page_addr P) (of_nat n) flags c m =
    mm_map_pages (Some pd) (Some pacc) (page_addr P) (of_nat (2 ^ 27 - P mod 2 ^ 27)) flags c m"
proof -
  let ?k = "2 ^ 27 - P mod 2 ^ 27 :: nat"
  have lt: "P mod 2 ^ 27 < 2 ^ 27" by simp
  then have k: "1 \<le> ?k" "1 \<le> n" "min n ?k = ?k" using assms(6) by simp_all
  have Pk: "P + ?k < 2 ^ 52" using assms(5) by simp
  have L4: "L4_ENTRY_RANGE = of_nat (2 ^ (12 + 27))" "L4_ADDR_MASK = NOT (mask (12 + 27))"
    by (simp_all add: L4_ADDR_MASK_def L4_ENTRY_RANGE_def L3_ENTRY_RANGE_def L2_ENTRY_RANGE_def
        L1_ENTRY_RANGE_def page_defs PTE_ENTRIES_PER_PAGE_def mask_eq_exp_minus_1)
  have "MAX_VIRT_ADDRESS - L4_ENTRY_RANGE = 0xFFFFFF7FFFFFFFFF"
    by (simp add: L4 MAX_VIRT_ADDRESS_def)
  then have low: "page_addr P < MAX_VIRT_ADDRESS - L4_ENTRY_RANGE"
    using unat_page_addr [of P] assms(5) by (simp add: word_less_nat_alt)
  have clips: "clip_to L4_ENTRY_RANGE L4_ADDR_MASK (page_addr P) (page_addr (P + n)) = page_addr (P + ?k)"
    "clip_to L4_ENTRY_RANGE L4_ADDR_MASK (page_addr P) (page_addr (P + ?k)) = page_addr (P + ?k)"
    using page_addr_clip [of 27 P n] page_addr_clip [of 27 P ?k] assms(4,5) Pk k(3)
    unfolding L4 by (simp_all only: min.idem)
  show ?thesis
    by (simp only: mm_map_pages_aligned [OF assms(1-3) k(2) assms(4)]
        mm_map_pages_aligned [OF assms(1-3) k(1) Pk] low if_True clips)
qed

theorem map_stops_at_entry_witness:
  "mm_map_pages (Some sample_pd) (Some pageaccs_linear_pa) (page_addr (2 ^ 27 - 1)) (of_nat 5) 0
     \<lparr>lp_start_page = 1, lp_end_page = 6, lp_curr_page = 1\<rparr> sample_mm =
   mm_map_pages (Some sample_pd) (Some pageaccs_linear_pa) (page_addr (2 ^ 27 - 1)) (of_nat 1) 0
     \<lparr>lp_start_page = 1, lp_end_page = 6, lp_curr_page = 1\<rparr> sample_mm"
  using map_stops_at_entry [of sample_pd "2 ^ 27 - 1" 5 pageaccs_linear_pa 0
      "\<lparr>lp_start_page = 1, lp_end_page = 6, lp_curr_page = 1\<rparr>" sample_mm]
  by (simp add: sample_pd_def page_defs)

text \<open>In the last gigabyte of the address space the end of the current 1 GB region wraps to
  zero, so an area there is cut at address zero, before its start.\<close>

theorem last_gigabyte_wraps:
  assumes "2 ^ 52 - 2 ^ 18 \<le> P" and "P + n < 2 ^ 52" and "1 \<le> n"
  shows "clip_to L3_ENTRY_RANGE L3_ADDR_MASK (page_addr P) (page_addr (P + n)) = 0"
proof -
  have m: "L3_ENTRY_RANGE = 2 ^ 30" "L3_ADDR_MASK = NOT (mask 30)"
    by (simp_all add: L3_ADDR_MASK_def L3_ENTRY_RANGE_def L2_ENTRY_RANGE_def L1_ENTRY_RANGE_def
        page_defs PTE_ENTRIES_PER_PAGE_def mask_eq_exp_minus_1)
  have P: "unat (page_addr P) = 4096 * P" using assms(2) by (intro unat_page_addr) simp
  then have "unat (page_addr P + 2 ^ 30) < 2 ^ 30"
    using assms by (simp add: unat_plus_if')
  then have "(page_addr P + 2 ^ 30) AND NOT (mask 30) = 0"
    by (simp add: word_unat_eq_iff unat_and_not_mask)
  moreover have "page_addr (P + n) > 0"
    using unat_page_addr [OF assms(2)] assms(3) by (simp add: word_less_nat_alt)
  ultimately show ?thesis by (simp add: clip_to_def m)
qed

theorem last_gigabyte_wraps_witness:
  "clip_to L3_ENTRY_RANGE L3_ADDR_MASK (page_addr (2 ^ 52 - 2 ^ 18)) (page_addr (2 ^ 52 - 2 ^ 18 + 16)) = 0"
  by (rule last_gigabyte_wraps) simp_all

end
