(* ===== verification/Mui_Remap.thy ===== *)
theory Mui_Remap
  imports Mui_Mapping
begin

text \<open>
  The remapping of memory at boot, \<^verbatim>\<open>arch_remap_memory\<close> of \<^verbatim>\<open>eza/amd64/mm/mm.c\<close>, with
  \<^verbatim>\<open>load_cr3\<close> of \<^verbatim>\<open>include/eza/amd64/asm.h\<close>. The console messages are not part of the state;
  the value loaded into CR3 is a result.
\<close>

section \<open>Definitions\<close>

definition load_cr3 :: "u64 \<Rightarrow> u8 \<Rightarrow> u8 \<Rightarrow> u64" where
  "load_cr3 phys_addr pcd pwt =
     (let cr3_val = push_bit 3 (ucast (pwt AND 1)) OR push_bit 4 (ucast (pcd AND 1));
          phys_addr = drop_bit 12 phys_addr;
          cr3_val = cr3_val OR push_bit 12 (phys_addr AND 0xfffff)
      in cr3_val OR push_bit 12 (phys_addr AND 0xfffff00000))"

definition initialize_kernel_page_directory :: "addr \<Rightarrow> page_directory \<Rightarrow> page_directory" where
  "initialize_kernel_page_directory k_entries pd =
     (initialize_page_directory pd)\<lparr>pd_entries := k_entries\<rparr>"

fun pages_match :: "nat \<Rightarrow> u64 \<Rightarrow> page_idx \<Rightarrow> page_directory \<Rightarrow> kmm \<Rightarrow> bool" where
  "pages_match 0 ptr start_idx pd m = True"
| "pages_match (Suc n) ptr start_idx pd m =
     (if mm_pin_virtual_address pd ptr m \<noteq> start_idx then False
      else pages_match n (ptr + PAGE_SIZE) (start_idx + 1) pd m)"

definition verify_mapping ::
  "u64 \<Rightarrow> page_idx \<Rightarrow> page_idx \<Rightarrow> page_directory \<Rightarrow> kmm \<Rightarrow> unit res" where
  "verify_mapping start_addr num_pages start_idx pd m =
     (if pages_match (unat num_pages) start_addr start_idx pd m then Inr ()
      else Inl (Panic ''arch_remap_memory(): Can't remap zone !''))"

definition arch_remap_memory ::
  "cpu_id \<Rightarrow> addr \<Rightarrow> page_idx \<Rightarrow> page_directory \<Rightarrow> kmm \<Rightarrow> (u64 \<times> page_directory \<times> kmm) res option" where
  "arch_remap_memory cpu k_entries dma_pages pd m =
     obind
       (if cpu = 0 then
          let pa_ctx = \<lparr>lp_start_page = 1, lp_end_page = mem_total_pages m, lp_curr_page = 0\<rparr>;
              pa_ctx = pa_reset pageaccs_linear_pa pa_ctx;
              pd = initialize_kernel_page_directory k_entries pd
          in obind (mm_map_pages (Some pd) (Some pageaccs_linear_pa) 0x1000 (ucast (dma_pages - 1)) 0
                      pa_ctx m) (\<lambda>(r, pa_ctx, m).
             if r \<noteq> 0 then Some (Inl (Panic
               ''arch_remap_memory(): Can't remap physical pages (DMA identical mapping) !'')) else
             obind (Some (verify_mapping 0x1000 (dma_pages - 1) 1 pd m)) (\<lambda>_.
             let pa_ctx = pa_reset pageaccs_linear_pa (pa_ctx\<lparr>lp_start_page := 0\<rparr>)
             in obind (mm_map_pages (Some pd) (Some pageaccs_linear_pa) KERNEL_BASE
                         (ucast (mem_total_pages m)) 0 pa_ctx m) (\<lambda>(r, pa_ctx, m).
                if r \<noteq> 0 then Some (Inl (Panic
                  ''arch_remap_memory(): Can't remap physical pages !'')) else
                obind (Some (verify_mapping KERNEL_BASE (mem_total_pages m) 0 pd m)) (\<lambda>_.
                Some (Inr (pd, m))))))
        else Some (Inr (pd, m)))
       (\<lambda>(pd, m). Some (Inr (load_cr3 (k2p (pd_entries pd)) 1 1, pd, m)))"

section \<open>Verification of a mapping\<close>

lemma pages_match_iff:
  "pages_match n ptr start pd m \<longleftrightarrow>
    (\<forall>i<n. mm_pin_virtual_address pd (ptr + of_nat i * PAGE_SIZE) m = start + of_nat i)"
proof (induction n arbitrary: ptr start)
  case 0
  then show ?case by simp
next
  case (Suc n)
  have "(\<forall>i<Suc n. Q i) \<longleftrightarrow> Q 0 \<and> (\<forall>i<n. Q (Suc i))" for Q
    by (metis less_Suc_eq_0_disj)
  then show ?case by (simp add: Suc.IH algebra_simps)
qed

text \<open>The linear accessor also leaves \<^verbatim>\<open>swks.mem_total_pages\<close> alone, and the cache never gains a frame.\<close>

interpretation linear_total: frame_source pageaccs_linear_pa
    "\<lambda>c m fs frs. linear_rep c m fs frs \<and> mem_total_pages m = N \<and> set frs \<subseteq> S" for N S
proof (unfold_locales, goal_cases)
  case (1 c m f fs frs)
  then show ?case by (fastforce dest: linear_rep_next simp: pageaccs_linear_pa_def)
next
  case (2 c m fs frs k)
  then show ?case using linear_pa.rep_mem by auto
next
  case (3 c m fs r frs flags)
  then obtain n nodes where "cache_rep m (n # nodes)" "r = frame_idx m n" "frs = map (frame_idx m) nodes"
    by (auto simp: linear_rep_def cache_frames_def)
  with 3 cache_rep_take(1) [of m n nodes] show ?case
    by (auto simp: pageaccs_linear_pa_def pageaccs_alloc_page_stub_def alloc_page_take linear_rep_def
        cache_frames_def)
next
  case (4 flags c m)
  then show ?case by (rule linear_pa.alloc_dma)
qed

lemma page_in_area_page:
  assumes "P mod 2 ^ 27 + n \<le> 2 ^ 27" and "P + n < 2 ^ 52" and "i < n"
  shows "page_in_area P n (page_addr (P + i)) = Some i"
proof -
  have "vpn P mod 2 ^ 27 + n \<le> 2 ^ 27" using assms(1) by (simp only: vpn_mod27)
  then have "vpn P + n \<le> 2 ^ 36" using block_room [of 27 P n] by simp
  then have "vpn (P + i) = vpn P + i" using vpn_add [of P i] assms(3) by simp
  moreover have "unat (page_addr (P + i)) = 4096 * (P + i)" using assms(2,3) by (intro unat_page_addr) simp
  ultimately show ?thesis using assms(3) by (simp add: page_in_area_def)
qed

text \<open>After a linear mapping the verification of the same area passes.\<close>

lemma map_verified:
  assumes "mappable pd m frs P n flags" and "cache_frames m frs"
  shows "\<exists>c' m' frs'. mm_map_pages (Some pd) (Some pageaccs_linear_pa) (page_addr P) (of_nat n) flags c m
      = Some (Inr (0, c', m')) \<and> cache_frames m' frs' \<and> tables_ok (kmem m') (pd_entries pd) frs' \<and>
    mem_total_pages m' = mem_total_pages m \<and> length frs \<le> length frs' + 1 + regions2 (vpn P) n \<and> set frs' \<subseteq> set frs \<and>
    pages_match n (page_addr P) (lp_curr_page c) pd m' \<and>
    (\<forall>va. mm_pin_virtual_address pd va m' =
      (case page_in_area P n va of Some i \<Rightarrow> lp_curr_page c + of_nat i
       | None \<Rightarrow> mm_pin_virtual_address pd va m))"
proof -
  let ?fs = "map (\<lambda>i. lp_curr_page c + of_nat i) [0..<n]"
  have "linear_rep c m ?fs frs \<and> mem_total_pages m = mem_total_pages m \<and> set frs \<subseteq> set frs"
    using assms(2) by (simp add: linear_rep_def)
  from linear_total.map_then_pin [OF assms(1) this]
  obtain c' m' frs' where m': "mm_map_pages (Some pd) (Some pageaccs_linear_pa) (page_addr P)
      (of_nat n) flags c m = Some (Inr (0, c', m'))" "linear_rep c' m' (drop n ?fs) frs'"
      "mem_total_pages m' = mem_total_pages m" "tables_ok (kmem m') (pd_entries pd) frs'"
      "length frs \<le> length frs' + 1 + regions2 (vpn P) n" "set frs' \<subseteq> set frs"
    and pin: "\<And>va. mm_pin_virtual_address pd va m' =
      (case page_in_area P n va of Some i \<Rightarrow> ?fs ! i | None \<Rightarrow> mm_pin_virtual_address pd va m)"
    by auto
  have "?fs ! i = lp_curr_page c + of_nat i" if "page_in_area P n va = Some i" for va i
    using page_in_area_less [OF that] by simp
  then have pins: "\<forall>va. mm_pin_virtual_address pd va m' =
      (case page_in_area P n va of Some i \<Rightarrow> lp_curr_page c + of_nat i
       | None \<Rightarrow> mm_pin_virtual_address pd va m)"
    using pin by (simp split: option.splits)
  have "page_addr P + of_nat i * PAGE_SIZE = page_addr (P + i)" for i
    by (simp add: page_addr_def page_defs)
  moreover have "page_in_area P n (page_addr (P + i)) = Some i" if "i < n" for i
    using assms(1) that by (intro page_in_area_page) (auto simp: mappable_def)
  ultimately have "pages_match n (page_addr P) (lp_curr_page c) pd m'"
    unfolding pages_match_iff using pins by simp
  then show ?thesis using m' pins unfolding linear_rep_def by blast
qed

definition kernel_first_page :: nat where
  "kernel_first_page = 2 ^ 52 - 2 ^ 19"

lemma kernel_page_addr: "page_addr kernel_first_page = KERNEL_BASE"
  by (simp add: page_addr_def kernel_first_page_def KERNEL_BASE_def)

lemma boot_regions:
  "regions2 (vpn 1) 4095 = 9"
  "1 \<le> n \<Longrightarrow> n \<le> 2 ^ 18 \<Longrightarrow> regions2 (vpn kernel_first_page) n \<le> n div 512 + 2"
proof -
  show "regions2 (vpn 1) 4095 = 9" by (simp add: regions2_def regions_def vpn_def)
  assume n: "1 \<le> n" "n \<le> 2 ^ 18"
  have V: "vpn kernel_first_page = 512 * 134216704" "vpn kernel_first_page = 2 ^ 18 * 262142"
    by (simp_all add: vpn_def kernel_first_page_def)
  have "regions 18 (vpn kernel_first_page) n = 1" using n by (intro regions_one) (simp_all add: V(2))
  moreover have "regions 9 (vpn kernel_first_page) n \<le> n div 512 + 1"
  proof -
    have "512 * 134216704 + n - 1 = 512 * 134216704 + (n - 1)" using n by simp
    then have "(vpn kernel_first_page + n - 1) div 2 ^ 9 = 134216704 + (n - 1) div 512"
      unfolding V(1) by simp
    moreover have "(n - 1) div 512 \<le> n div 512" by (intro div_le_mono) simp
    ultimately show ?thesis by (simp add: regions_def V(1))
  qed
  ultimately show "regions2 (vpn kernel_first_page) n \<le> n div 512 + 2" by (simp add: regions2_def)
qed

section \<open>Properties\<close>

lemma arch_remap_memory_ok:
  assumes tabs: "tables_ok (kmem m) k_entries frs" and root: "k_entries \<noteq> 0"
    and cache: "cache_frames m frs" and N: "N = unat (mem_total_pages m)" "1 \<le> N" "N \<le> 2 ^ 18"
    and room: "N div 512 + 13 \<le> length frs"
  shows "\<exists>pd' m' frs'. arch_remap_memory 0 k_entries 4096 pd m
      = Some (Inr (load_cr3 (k2p k_entries) 1 1, pd', m')) \<and> pd_entries pd' = k_entries \<and>
    cache_frames m' frs' \<and> tables_ok (kmem m') k_entries frs' \<and> length frs \<le> length frs' + (N div 512 + 13) \<and>
    (\<forall>va. mm_pin_virtual_address pd' va m' =
      (case page_in_area kernel_first_page N va of
         Some i \<Rightarrow> of_nat i
       | None \<Rightarrow> (case page_in_area 1 4095 va of
                   Some i \<Rightarrow> of_nat (i + 1)
                 | None \<Rightarrow> mm_pin_virtual_address pd' va m)))"
proof -
  let ?pd = "initialize_kernel_page_directory k_entries pd"
  let ?c1 = "\<lparr>lp_start_page = 1, lp_end_page = mem_total_pages m, lp_curr_page = 1\<rparr>"
  have e: "pd_entries ?pd = k_entries" by (simp add: initialize_kernel_page_directory_def)
  have "mappable ?pd m frs 1 4095 0"
    using tabs root room boot_regions(1) by (simp add: mappable_def e)
  from map_verified [OF this cache, of ?c1]
  obtain c1 m1 frs1 where m1: "mm_map_pages (Some ?pd) (Some pageaccs_linear_pa) (page_addr 1)
      (of_nat 4095) 0 ?c1 m = Some (Inr (0, c1, m1))" "cache_frames m1 frs1"
      "tables_ok (kmem m1) (pd_entries ?pd) frs1" "mem_total_pages m1 = mem_total_pages m"
      "length frs \<le> length frs1 + 1 + regions2 (vpn 1) 4095"
      "pages_match 4095 (page_addr 1) (lp_curr_page ?c1) ?pd m1"
    and pin1: "\<And>va. mm_pin_virtual_address ?pd va m1 = (case page_in_area 1 4095 va of
        Some i \<Rightarrow> lp_curr_page ?c1 + of_nat i | None \<Rightarrow> mm_pin_virtual_address ?pd va m)"
    by blast
  let ?c2 = "linear_pa_reset (c1\<lparr>lp_start_page := 0\<rparr>)"
  have "1 + regions2 (vpn kernel_first_page) N \<le> length frs1"
    using boot_regions(2) [OF N(2,3)] room m1(5) unfolding boot_regions(1) by simp
  then have "mappable ?pd m1 frs1 kernel_first_page N 0"
    using m1(3) root N unfolding mappable_def e by (simp add: kernel_first_page_def)
  from map_verified [OF this m1(2), of ?c2]
  obtain c2 m2 frs2 where m2: "mm_map_pages (Some ?pd) (Some pageaccs_linear_pa) KERNEL_BASE
      (of_nat N) 0 ?c2 m1 = Some (Inr (0, c2, m2))" "mem_total_pages m2 = mem_total_pages m1"
      "cache_frames m2 frs2" "tables_ok (kmem m2) (pd_entries ?pd) frs2"
      "length frs1 \<le> length frs2 + 1 + regions2 (vpn kernel_first_page) N"
      "pages_match N KERNEL_BASE (lp_curr_page ?c2) ?pd m2"
    and pin2: "\<And>va. mm_pin_virtual_address ?pd va m2 = (case page_in_area kernel_first_page N va of
        Some i \<Rightarrow> lp_curr_page ?c2 + of_nat i | None \<Rightarrow> mm_pin_virtual_address ?pd va m1)"
    unfolding kernel_page_addr by blast
  have nums: "(ucast (4096 - 1 :: page_idx) :: u64) = of_nat 4095" "unat (4096 - 1 :: page_idx) = 4095"
      "(ucast (mem_total_pages m1) :: u64) = of_nat N" "page_addr 1 = 0x1000"
    by (simp_all add: m1(4) N(1) page_addr_def unsigned_ucast_eq)
  have reset: "pa_reset pageaccs_linear_pa \<lparr>lp_start_page = 1, lp_end_page = mem_total_pages m,
      lp_curr_page = 0\<rparr> = ?c1" "pa_reset pageaccs_linear_pa (c1\<lparr>lp_start_page := 0\<rparr>) = ?c2"
      "lp_curr_page ?c1 = 1" "lp_curr_page ?c2 = 0"
    by (simp_all add: pageaccs_linear_pa_def linear_pa_reset_def)
  have v1: "verify_mapping 0x1000 (4096 - 1) 1 ?pd m1 = Inr ()"
    using m1(6) unfolding verify_mapping_def nums reset by simp
  have v2: "verify_mapping KERNEL_BASE (mem_total_pages m1) 0 ?pd m2 = Inr ()"
    using m2(6) unfolding verify_mapping_def m1(4) N(1) [symmetric] reset by simp
  have "arch_remap_memory 0 k_entries 4096 pd m = Some (Inr (load_cr3 (k2p k_entries) 1 1, ?pd, m2))"
    unfolding arch_remap_memory_def Let_def reset nums m1(1) [unfolded nums] simp_thms if_True
    by (simp only: obind_simps prod.case simp_thms if_False v1 reset nums m1(1) [unfolded nums] m2(1)
        m2(2) v2 e)
  moreover have "mm_pin_virtual_address ?pd va m2 = (case page_in_area kernel_first_page N va of
      Some i \<Rightarrow> of_nat i | None \<Rightarrow> (case page_in_area 1 4095 va of Some i \<Rightarrow> of_nat (i + 1)
        | None \<Rightarrow> mm_pin_virtual_address ?pd va m))" for va
    unfolding pin2 pin1 reset by (simp split: option.splits)
  moreover have "length frs \<le> length frs2 + (N div 512 + 13)"
    using m1(5) m2(5) boot_regions(2) [OF N(2,3)] unfolding boot_regions(1) by simp
  ultimately show ?thesis using e m2(3,4) by fastforce
qed

text \<open>C13: On a machine with at most 1 GB of memory and a page cache large enough for the tables,
  the boot processor's remapping ends without a panic, its own verification included. After it
  the first 16 MB less page zero are mapped one to one, the \<open>N\<close> pages of memory are mapped from
  \<open>KERNEL_BASE\<close> on, and every other address is as it was.\<close>

theorem remap_establishes_mappings:
  assumes tabs: "tables_ok (kmem m) k_entries frs" and root: "k_entries \<noteq> 0"
    and cache: "cache_frames m frs" and N: "N = unat (mem_total_pages m)" "1 \<le> N" "N \<le> 2 ^ 18"
    and room: "N div 512 + 13 \<le> length frs"
  shows "\<exists>pd' m'. arch_remap_memory 0 k_entries 4096 pd m
      = Some (Inr (load_cr3 (k2p k_entries) 1 1, pd', m')) \<and> pd_entries pd' = k_entries \<and>
    (\<forall>va. mm_pin_virtual_address pd' va m' =
      (case page_in_area kernel_first_page N va of
         Some i \<Rightarrow> of_nat i
       | None \<Rightarrow> (case page_in_area 1 4095 va of
                   Some i \<Rightarrow> of_nat (i + 1)
                 | None \<Rightarrow> mm_pin_virtual_address pd' va m)))"
  using arch_remap_memory_ok [OF assms] by blast

definition boot_nodes :: "addr list" where
  "boot_nodes = [0x10000, 0x20000, 0x30000, 0x40000, 0x50000, 0x60000, 0x70000, 0x80000, 0x90000,
     0xa0000, 0xb0000, 0xc0000, 0xd0000]"

definition boot_mm :: kmm where
  "boot_mm = \<lparr>kmem = (\<lambda>_. 0),
     frame_links = fold (\<lambda>n. list_add_tail n 0x500) boot_nodes
       (init_list_head 0x500 \<lparr>lh_next = (\<lambda>_. 0), lh_prev = (\<lambda>_. 0)\<rparr>),
     frame_idx = (\<lambda>a. ucast (drop_bit 16 a)),
     cpu_cache = \<lparr>pc_pages = 0x500, pc_num_free_pages = 13, pc_total_pages = 13\<rparr>,
     mem_total_pages = 64\<rparr>"

lemma boot_frames: "cache_frames boot_mm [1, 2, 3, 4, 5, 6, 7, 8, 9, 10, 11, 12, 13]"
proof -
  have "cache_rep boot_mm boot_nodes"
    using ring.build_back [OF init_list_head_empty, of boot_nodes]
    by (simp add: cache_rep_def boot_mm_def boot_nodes_def)
  moreover have "map (frame_idx boot_mm) boot_nodes = [1, 2, 3, 4, 5, 6, 7, 8, 9, 10, 11, 12, 13]"
    by (simp add: boot_mm_def boot_nodes_def drop_bit_eq_div)
  ultimately show ?thesis unfolding cache_frames_def by metis
qed

lemma boot_tables: "tables_ok (kmem boot_mm) 0xffffffff80200000 [1, 2, 3, 4, 5, 6, 7, 8, 9, 10, 11, 12, 13]"
  by (auto simp: tables_ok_def boot_mm_def walk_zero aligned_def pframe_to_virt_def page_defs split: if_splits)

theorem remap_establishes_mappings_witness:
  "\<exists>pd' m'. arch_remap_memory 0 0xffffffff80200000 4096 sample_pd boot_mm
      = Some (Inr (load_cr3 (k2p 0xffffffff80200000) 1 1, pd', m')) \<and>
    mm_pin_virtual_address pd' 0xb8000 m' = 0xb8 \<and>
    mm_pin_virtual_address pd' 0xffffffff80003000 m' = 3"
proof -
  have "page_in_area kernel_first_page 64 0xb8000 = None" "page_in_area 1 4095 0xb8000 = Some 183"
      "page_in_area kernel_first_page 64 0xffffffff80003000 = Some 3"
    by (simp_all add: page_in_area_def vpn_def kernel_first_page_def)
  moreover have "64 = unat (mem_total_pages boot_mm)" by (simp add: boot_mm_def)
  ultimately show ?thesis
    using remap_establishes_mappings [OF boot_tables _ boot_frames, of 64 sample_pd] by fastforce
qed

text \<open>The CR3 value of the remapping is the physical address of the directory with the two
  cache bits set: for a directory in the kernel's window no address bit is lost.\<close>

theorem cr3_points_to_directory:
  assumes "KERNEL_BASE < k_entries" and "k_entries AND 0xfff = 0"
  shows "load_cr3 (k2p k_entries) 1 1 = (k_entries - KERNEL_BASE) OR 0x18"
proof -
  let ?p = "k_entries - KERNEL_BASE"
  have m12: "(0xfff :: u64) = mask 12" and m20: "(0xfffff :: u64) = mask 20"
    by (simp_all add: mask_eq_exp_minus_1)
  have "unat ?p = unat k_entries - unat KERNEL_BASE"
    using assms(1) by (intro unat_sub) simp
  then have "unat ?p < 2 ^ 31"
    using unsigned_less [of k_entries, where 'a = nat] by (simp add: KERNEL_BASE_def)
  then have "take_bit 31 ?p = ?p" by (simp add: word_unat_eq_iff unat_take_bit)
  then have high: "bit ?p n \<Longrightarrow> n < 31" for n by (metis bit_take_bit_iff)
  have "unat k_entries mod 4096 = 0"
    using assms(2) unat_and_mask [of k_entries 12] unfolding m12 by simp
  then have "4096 dvd unat k_entries - unat KERNEL_BASE"
    by (intro dvd_diff_nat) (auto simp: KERNEL_BASE_def)
  then have "take_bit 12 ?p = 0"
    using \<open>unat ?p = _\<close> by (simp add: word_unat_eq_iff unat_take_bit)
  then have low: "12 \<le> n" if "bit ?p n" for n
    using bit_take_bit_iff [of 12 ?p n] that by (cases "n < 12") simp_all
  have range: "12 \<le> n \<and> n - 12 < 20 \<and> 12 + (n - 12) = n" if "bit ?p n" for n
    using high [OF that] low [OF that] by simp
  have "push_bit 12 (drop_bit 12 ?p AND 0xfffff) = ?p" unfolding m20
    by (rule bit_word_eqI) (use range in \<open>auto simp: bit_simps\<close>)
  moreover have "drop_bit 12 ?p AND 0xfffff00000 = 0"
  proof -
    have c: "(0xfffff00000 :: u64) = push_bit 20 0xfffff" by (simp add: push_bit_eq_mult)
    have "20 \<le> n" if "bit (0xfffff00000 :: u64) n" for n
      using that unfolding c bit_push_bit_iff by blast
    then show ?thesis using high by (intro bit_word_eqI) (fastforce simp: bit_simps)
  qed
  moreover have "k2p k_entries = ?p" using assms(1) by (simp add: k2p_def)
  ultimately show ?thesis by (simp add: load_cr3_def Let_def or.commute push_bit_eq_mult)
qed

theorem cr3_points_to_directory_witness:
  "load_cr3 (k2p 0xffffffff80200000) 1 1 = 0x200018"
  using cr3_points_to_directory [of "0xffffffff80200000"] by (simp add: KERNEL_BASE_def)

end
