(* ===== verification/Mui_Zones.thy ===== *)
theory Mui_Zones
  imports Mui_Frames
begin

text \<open>
  The page array and the memory zones of \<^verbatim>\<open>mm/mm.c\<close>: \<^verbatim>\<open>detect_physical_memory\<close> and
  \<^verbatim>\<open>initialize_page_array\<close> over the E820 map, \<^verbatim>\<open>initialize_zones\<close>,
  \<^verbatim>\<open>initialize_percpu_caches\<close>, \<^verbatim>\<open>setup_memory_swks\<close> and \<^verbatim>\<open>build_page_array\<close>. Frame \<open>i\<close> is the
  address \<open>frame_at base i\<close> of its structure in \<^verbatim>\<open>page_frames_array\<close>.
\<close>

section \<open>State\<close>

datatype memory_zone_type = ZONE_DMA | ZONE_NORMAL

primrec zone_code :: "memory_zone_type \<Rightarrow> page_flags" where
  "zone_code ZONE_DMA = 0"
| "zone_code ZONE_NORMAL = 1"

text \<open>The zone types are ordered as their enumeration codes, low memory first.\<close>

instantiation memory_zone_type :: linorder
begin

definition less_eq_memory_zone_type :: "memory_zone_type \<Rightarrow> memory_zone_type \<Rightarrow> bool" where
  "less_eq_memory_zone_type s t \<longleftrightarrow> zone_code s \<le> zone_code t"

definition less_memory_zone_type :: "memory_zone_type \<Rightarrow> memory_zone_type \<Rightarrow> bool" where
  "less_memory_zone_type s t \<longleftrightarrow> zone_code s < zone_code t"

instance
proof
  fix s t u :: memory_zone_type
  show "s < t \<longleftrightarrow> s \<le> t \<and> \<not> t \<le> s"
    by (auto simp: less_eq_memory_zone_type_def less_memory_zone_type_def)
  show "s \<le> s" by (simp add: less_eq_memory_zone_type_def)
  show "s \<le> t \<Longrightarrow> t \<le> u \<Longrightarrow> s \<le> u" by (simp add: less_eq_memory_zone_type_def)
  show "s \<le> t \<Longrightarrow> t \<le> s \<Longrightarrow> s = t"
    by (cases s; cases t) (auto simp: less_eq_memory_zone_type_def)
  show "s \<le> t \<or> t \<le> s" by (auto simp: less_eq_memory_zone_type_def)
qed

end

record memory_zone =
  z_num_total_pages :: page_idx
  z_num_free_pages :: page_idx
  z_num_reserved_pages :: page_idx
  z_pages :: addr
  z_reserved_pages :: addr
  z_type :: memory_zone_type

record e820memmap =
  e8_base_address :: u64
  e8_length_low :: u32
  e8_length_high :: u32
  e8_type :: u32

record mm_state =
  mm_links :: list_heap
  mm_idx :: "addr \<Rightarrow> page_idx"
  mm_flags :: "addr \<Rightarrow> page_flags"
  mm_refcount :: "addr \<Rightarrow> u64"
  min_phys_addr :: u64
  max_phys_addr :: u64
  mm_dma_pages :: page_idx
  page_frames_array :: addr
  memory_zones :: "memory_zone_type \<Rightarrow> memory_zone"
  percpu_caches :: "percpu_page_cache list"
  swks_mem_total_pages :: page_idx

definition PAGE_ZONE_MASK :: page_flags where "PAGE_ZONE_MASK = 0x3"
definition PAGE_RESERVED :: page_flags where "PAGE_RESERVED = push_bit 2 1"
definition PERMANENT_PAGE_FLAG_MASK :: page_flags where
  "PERMANENT_PAGE_FLAG_MASK = PAGE_ZONE_MASK OR PAGE_RESERVED"
definition E820_USABLE :: u32 where "E820_USABLE = 1"
definition NR_CPUS :: page_idx where "NR_CPUS = 2"
definition sizeof_page_frame :: u64 where "sizeof_page_frame = 40"

definition upd_zone :: "memory_zone_type \<Rightarrow> (memory_zone \<Rightarrow> memory_zone) \<Rightarrow> mm_state \<Rightarrow> mm_state" where
  "upd_zone t f s = s\<lparr>memory_zones := (memory_zones s)(t := f (memory_zones s t))\<rparr>"

definition upd_links :: "(list_heap \<Rightarrow> list_heap) \<Rightarrow> mm_state \<Rightarrow> mm_state" where
  "upd_links f s = s\<lparr>mm_links := f (mm_links s)\<rparr>"

section \<open>The E820 map\<close>

definition e820_length :: "e820memmap \<Rightarrow> u64" where
  "e820_length e = push_bit 32 (ucast (e8_length_high e)) OR ucast (e8_length_low e)"

definition e820_end :: "e820memmap \<Rightarrow> u64" where
  "e820_end e = e8_base_address e + e820_length e"

definition main_memory_area :: "e820memmap \<Rightarrow> bool" where
  "main_memory_area e \<longleftrightarrow> e8_base_address e = KERNEL_PHYS_START \<and> e8_type e = 1"

fun scan_e820 :: "e820memmap list \<Rightarrow> nat \<Rightarrow> bool \<Rightarrow> mm_state \<Rightarrow> (bool \<times> mm_state) res" where
  "scan_e820 table 0 found s = Inr (found, s)"
| "scan_e820 [] (Suc n) found s = Inl BadAccess"
| "scan_e820 (e # table) (Suc n) found s =
     (if \<not> found \<and> main_memory_area e
      then scan_e820 table n True (s\<lparr>min_phys_addr := 0, max_phys_addr := e820_end e\<rparr>)
      else scan_e820 table n found s)"

definition detect_physical_memory :: "e820memmap list \<Rightarrow> u8 \<Rightarrow> mm_state \<Rightarrow> mm_state res" where
  "detect_physical_memory e820table e820count s =
     rbind (scan_e820 e820table (unat e820count) False s) (\<lambda>(found, s).
       if \<not> found then Inl (Panic
         ''detect_physical_memory(): No valid E820 memory maps found for main physical memory area !'')
       else if max_phys_addr s \<le> min_phys_addr s \<or>
         min_phys_addr s - max_phys_addr s \<le> MIN_PHYS_MEMORY_REQUIRED then Inl (Panic
         ''detect_physical_memory(): Insufficient E820 memory map found for main physical memory area !'')
       else Inr (s\<lparr>mm_dma_pages := 16 * 1024 * 1024 div ucast PAGE_SIZE\<rparr>))"

section \<open>The page array\<close>

definition frame_at :: "addr \<Rightarrow> page_idx \<Rightarrow> addr" where
  "frame_at base i = base + sizeof_page_frame * ucast i"

definition reset_page_frame :: "addr \<Rightarrow> mm_state \<Rightarrow> mm_state" where
  "reset_page_frame page s =
     (upd_links (init_list_head page) s)
       \<lparr>mm_flags := (mm_flags s)(page := mm_flags s page AND PERMANENT_PAGE_FLAG_MASK),
        mm_refcount := (mm_refcount s)(page := 0)\<rparr>"

text \<open>The body of the loop of \<^verbatim>\<open>initialize_page_array\<close> for a page whose list is settled.\<close>

definition add_page :: "memory_zone_type \<Rightarrow> bool \<Rightarrow> page_idx \<Rightarrow> mm_state \<Rightarrow> mm_state" where
  "add_page t reserved page_idx s =
     (let page = frame_at (page_frames_array s) page_idx;
          flags = zone_code (z_type (memory_zones s t)) OR (if reserved then PAGE_RESERVED else 0);
          page_list = (if reserved then z_reserved_pages (memory_zones s t) else z_pages (memory_zones s t));
          s = reset_page_frame page s;
          s = s\<lparr>mm_idx := (mm_idx s)(page := page_idx), mm_flags := (mm_flags s)(page := flags)\<rparr>;
          s = upd_links (list_add_tail page page_list) s;
          s = upd_zone t (\<lambda>z. z\<lparr>z_num_total_pages := z_num_total_pages z + 1\<rparr>) s
      in if flags AND PAGE_RESERVED \<noteq> 0
         then upd_zone t (\<lambda>z. z\<lparr>z_num_reserved_pages := z_num_reserved_pages z + 1\<rparr>) s
         else upd_zone t (\<lambda>z. z\<lparr>z_num_free_pages := z_num_free_pages z + 1\<rparr>) s)"

record map_window =
  mw_begin :: u64
  mw_end :: u64
  mw_type :: u32

definition next_window :: "e820memmap list \<Rightarrow> nat \<Rightarrow> map_window res" where
  "next_window table i =
     (if i < length table then
        let e = table ! i
        in Inr \<lparr>mw_begin = e8_base_address e AND PAGE_ADDR_MASK, mw_end = e820_end e AND PAGE_ADDR_MASK,
                mw_type = e8_type e\<rparr>
      else Inl BadAccess)"

partial_function (option) page_array_loop ::
  "e820memmap list \<Rightarrow> nat \<Rightarrow> page_idx \<Rightarrow> page_idx \<Rightarrow> u64 \<Rightarrow> page_idx \<Rightarrow> nat \<Rightarrow> map_window \<Rightarrow> bool \<Rightarrow>
   mm_state \<Rightarrow> mm_state res option" where
  "page_array_loop table count kstart kend curr_addr page_idx e820id w just_left s =
     (if curr_addr < max_phys_addr s then
        let t = (if page_idx < mm_dma_pages s then ZONE_DMA else ZONE_NORMAL);
            inside = (curr_addr \<ge> mw_begin w \<and> curr_addr < mw_end w)
        in if \<not> inside \<and> \<not> just_left then
             (if e820id < count
              then obind (Some (next_window table (e820id + 1))) (\<lambda>w'.
                   page_array_loop table count kstart kend curr_addr page_idx (e820id + 1) w' True s)
              else page_array_loop table count kstart kend curr_addr page_idx e820id
                     (w\<lparr>mw_begin := 0, mw_end := 0\<rparr>) True s)
           else
             let just_left' = (if inside then False else just_left);
                 reserved = (if inside then mw_type w \<noteq> E820_USABLE else True);
                 reserved = (reserved \<or> page_idx \<ge> kstart \<and> page_idx \<le> kend)
             in page_array_loop table count kstart kend (curr_addr + PAGE_SIZE) (page_idx + 1) e820id w
                  just_left' (add_page t reserved page_idx s)
      else Some (Inr s))"

definition kernel_pages :: "addr \<Rightarrow> u64 \<Rightarrow> page_idx \<times> page_idx" where
  "kernel_pages kdata_end max_addr =
     (let kernel_end = (ucast ((kdata_end - KERNEL_BASE - KERNEL_PHYS_START) div PAGE_SIZE) :: page_idx);
          kernel_end = ucast (ucast kernel_end + max_addr div PAGE_SIZE * sizeof_page_frame div PAGE_SIZE);
          kernel_start = ucast (KERNEL_PHYS_START div PAGE_SIZE)
      in (kernel_start, kernel_end + kernel_start))"

definition initialize_page_array ::
  "addr \<Rightarrow> e820memmap list \<Rightarrow> u8 \<Rightarrow> mm_state \<Rightarrow> mm_state res option" where
  "initialize_page_array kdata_end e820table e820count s =
     (let s = s\<lparr>page_frames_array := kdata_end\<rparr>;
          (kstart, kend) = kernel_pages kdata_end (max_phys_addr s)
      in case e820table of
           [] \<Rightarrow> Some (Inl BadAccess)
         | e # _ \<Rightarrow>
             page_array_loop e820table (unat e820count) kstart kend 0 0 0
               \<lparr>mw_begin = e8_base_address e, mw_end = e820_end e AND PAGE_ADDR_MASK, mw_type = e8_type e\<rparr>
               False s)"

section \<open>Zones, caches and statistics\<close>

definition initialize_zone :: "memory_zone_type \<Rightarrow> mm_state \<Rightarrow> mm_state" where
  "initialize_zone t s =
     (let s = upd_zone t (\<lambda>z. z\<lparr>z_type := t, z_num_total_pages := 0, z_num_free_pages := 0,
                               z_num_reserved_pages := 0\<rparr>) s;
          s = upd_links (init_list_head (z_pages (memory_zones s t))) s
      in upd_links (init_list_head (z_reserved_pages (memory_zones s t))) s)"

definition initialize_zones :: "mm_state \<Rightarrow> mm_state" where
  "initialize_zones s = initialize_zone ZONE_NORMAL (initialize_zone ZONE_DMA s)"

definition setup_memory_swks :: "mm_state \<Rightarrow> mm_state" where
  "setup_memory_swks s = s\<lparr>swks_mem_total_pages := ucast (max_phys_addr s div PAGE_SIZE)\<rparr>"

text \<open>The loop over one cache counts each page twice: once in its body and once in its head.\<close>

partial_function (option) fill_cache_loop ::
  "addr \<Rightarrow> page_idx \<Rightarrow> page_idx \<Rightarrow> mm_state \<Rightarrow> (page_idx \<times> mm_state) option" where
  "fill_cache_loop cache_pages cpupages p s =
     (let zone = memory_zones s ZONE_NORMAL;
          l = lh_next (mm_links s) (z_pages zone)
      in if p < cpupages \<and> l \<noteq> z_pages zone then
           let s = upd_links (list_del l) s;
               s = upd_links (list_add_tail l cache_pages) s;
               s = upd_zone ZONE_NORMAL (\<lambda>z. z\<lparr>z_num_free_pages := z_num_free_pages z - 1,
                                               z_num_total_pages := z_num_total_pages z - 1\<rparr>) s;
               p = p + 1
           in fill_cache_loop cache_pages cpupages (p + 1) s
         else Some (p, s))"

definition fill_cache ::
  "page_idx \<Rightarrow> percpu_page_cache \<Rightarrow> mm_state \<Rightarrow> (page_idx \<times> percpu_page_cache \<times> mm_state) option" where
  "fill_cache cpupages cache s =
     (let s = upd_links (init_list_head (pc_pages cache)) s;
          total = z_num_total_pages (memory_zones s ZONE_NORMAL);
          cpupages = (if cpupages + NR_CPUS \<ge> total then total else cpupages)
      in map_option (\<lambda>(p, s). (cpupages, cache\<lparr>pc_num_free_pages := p, pc_total_pages := p\<rparr>, s))
           (fill_cache_loop (pc_pages cache) cpupages 0 s))"

fun fill_caches ::
  "page_idx \<Rightarrow> percpu_page_cache list \<Rightarrow> mm_state \<Rightarrow> (percpu_page_cache list \<times> mm_state) option" where
  "fill_caches cpupages [] s = Some ([], s)"
| "fill_caches cpupages (c # cs) s =
     (case fill_cache cpupages c s of
        None \<Rightarrow> None
      | Some (cpupages', c', s') \<Rightarrow> map_option (\<lambda>(cs', s''). (c' # cs', s'')) (fill_caches cpupages' cs s'))"

definition initialize_percpu_caches :: "mm_state \<Rightarrow> mm_state option" where
  "initialize_percpu_caches s =
     map_option (\<lambda>(cs, s). s\<lparr>percpu_caches := cs\<rparr>)
       (fill_caches (z_num_total_pages (memory_zones s ZONE_NORMAL) div NR_CPUS) (percpu_caches s) s)"

definition build_page_array ::
  "addr \<Rightarrow> e820memmap list \<Rightarrow> u8 \<Rightarrow> mm_state \<Rightarrow> mm_state res option" where
  "build_page_array kdata_end e820table e820count s =
     (if e820count < 0xff then
        obind (Some (detect_physical_memory e820table e820count s)) (\<lambda>s.
        obind (initialize_page_array kdata_end e820table e820count (initialize_zones s)) (\<lambda>s.
        map_option (\<lambda>s. Inr (setup_memory_swks s)) (initialize_percpu_caches s)))
      else Some (Inl (Panic ''build_page_array(): No valid E820 memory maps found !'')))"

section \<open>The rings of the zones\<close>

definition ring_head :: "mm_state \<Rightarrow> memory_zone_type \<Rightarrow> bool \<Rightarrow> addr" where
  "ring_head s t r = (if r then z_reserved_pages (memory_zones s t) else z_pages (memory_zones s t))"

definition frame :: "mm_state \<Rightarrow> nat \<Rightarrow> addr" where
  "frame s i = frame_at (page_frames_array s) (of_nat i)"

text \<open>The four list heads and the first \<open>n\<close> frames are different nodes.\<close>

definition zone_layout :: "mm_state \<Rightarrow> nat \<Rightarrow> bool" where
  "zone_layout s n \<longleftrightarrow>
     (\<forall>t r t' r'. ring_head s t r = ring_head s t' r' \<longrightarrow> t = t' \<and> r = r') \<and>
     (\<forall>i<n. \<forall>t r. frame s i \<noteq> ring_head s t r) \<and>
     (\<forall>i<n. \<forall>j<n. frame s i = frame s j \<longrightarrow> i = j)"

definition count_page :: "bool \<Rightarrow> memory_zone \<Rightarrow> memory_zone" where
  "count_page r z =
     (if r then z\<lparr>z_num_total_pages := z_num_total_pages z + 1,
                   z_num_reserved_pages := z_num_reserved_pages z + 1\<rparr>
      else z\<lparr>z_num_total_pages := z_num_total_pages z + 1, z_num_free_pages := z_num_free_pages z + 1\<rparr>)"

lemma zone_code_flags:
  "(zone_code t OR PAGE_RESERVED) AND PAGE_RESERVED \<noteq> 0" "zone_code t AND PAGE_RESERVED = 0"
  "PAGE_RESERVED \<noteq> 0"
  by (cases t; simp add: PAGE_RESERVED_def)+

lemma add_page_eq:
  "add_page t r i s =
    (let page = frame_at (page_frames_array s) i
     in s\<lparr>mm_links := list_add_tail page (ring_head s t r) (init_list_head page (mm_links s)),
          mm_idx := (mm_idx s)(page := i),
          mm_flags := (mm_flags s)(page := zone_code (z_type (memory_zones s t)) OR
                                            (if r then PAGE_RESERVED else 0)),
          mm_refcount := (mm_refcount s)(page := 0),
          memory_zones := (memory_zones s)(t := count_page r (memory_zones s t))\<rparr>)"
  by (cases r) (simp_all add: add_page_def Let_def reset_page_frame_def upd_links_def upd_zone_def
      count_page_def zone_code_flags ring_head_def)

lemma count_page_heads [simp]:
  "z_pages (count_page r z) = z_pages z" "z_reserved_pages (count_page r z) = z_reserved_pages z"
  "z_type (count_page r z) = z_type z"
  by (simp_all add: count_page_def)

lemma add_page_fields [simp]:
  "page_frames_array (add_page t r i s) = page_frames_array s"
  "max_phys_addr (add_page t r i s) = max_phys_addr s"
  "mm_dma_pages (add_page t r i s) = mm_dma_pages s"
  "ring_head (add_page t r i s) t' r' = ring_head s t' r'"
  "frame (add_page t r i s) j = frame s j"
  "percpu_caches (add_page t r i s) = percpu_caches s"
  by (simp_all add: add_page_eq Let_def ring_head_def frame_def)

lemma zone_layout_cong:
  assumes "\<And>t r. ring_head s' t r = ring_head s t r" and "\<And>i. frame s' i = frame s i"
  shows "zone_layout s' n = zone_layout s n"
  using assms by (simp add: zone_layout_def)

definition page_lists :: "(nat \<Rightarrow> memory_zone_type) \<Rightarrow> (nat \<Rightarrow> bool) \<Rightarrow> nat \<Rightarrow> memory_zone_type \<Rightarrow> bool \<Rightarrow> nat list"
  where "page_lists zone cls p t r = filter (\<lambda>i. zone i = t \<and> cls i = r) [0..<p]"

lemma page_lists_cong:
  "(\<And>i. i < p \<Longrightarrow> cls' i = cls i) \<Longrightarrow> page_lists zone cls' p t r = page_lists zone cls p t r"
  by (auto simp: page_lists_def intro: filter_cong)

lemma page_lists_Suc:
  "page_lists zone (cls(p := r)) (Suc p) t' r' =
    (if t' = zone p \<and> r' = r then page_lists zone cls p t' r' @ [p] else page_lists zone cls p t' r')"
proof -
  have "page_lists zone (cls(p := r)) p t' r' = page_lists zone cls p t' r'"
    by (rule page_lists_cong) simp
  then show ?thesis by (auto simp: page_lists_def)
qed

text \<open>\<open>array_inv s L p\<close>: the first \<open>p\<close> frames are numbered and hang on the rings as \<open>L\<close> says, and
  the counters of the zones agree with the rings.\<close>

definition array_inv :: "mm_state \<Rightarrow> (memory_zone_type \<Rightarrow> bool \<Rightarrow> nat list) \<Rightarrow> nat \<Rightarrow> bool" where
  "array_inv s L p \<longleftrightarrow>
     (\<forall>t r. dlist (mm_links s) (ring_head s t r) (map (frame s) (L t r))) \<and>
     (\<forall>i<p. mm_idx s (frame s i) = of_nat i) \<and>
     (\<forall>t. z_num_free_pages (memory_zones s t) = of_nat (length (L t False)) \<and>
          z_num_reserved_pages (memory_zones s t) = of_nat (length (L t True)) \<and>
          z_num_total_pages (memory_zones s t) = of_nat (length (L t False) + length (L t True)))"

lemma dlist_init_other:
  assumes "dlist h l xs" and "n \<notin> insert l (set xs)"
  shows "dlist (init_list_head n h) l xs"
  using assms by (subst dlist_cong [of l xs _ h]) (auto simp: init_list_head_def)

lemma add_page_inv:
  assumes inv: "array_inv s (page_lists zone cls p) p" and lay: "zone_layout s n" and p: "p < n"
    and t: "t = zone p"
  shows "array_inv (add_page t r (of_nat p) s) (page_lists zone (cls(p := r)) (Suc p)) (Suc p)"
proof -
  let ?L = "page_lists zone cls p" and ?x = "frame s p"
  let ?h = "init_list_head ?x (mm_links s)"
  have old: "i < p" if "i \<in> set (?L t' r')" for i t' r' using that by (auto simp: page_lists_def)
  have x: "?x \<notin> insert (ring_head s t' r') (set (map (frame s) (?L t' r')))" for t' r'
  proof -
    have "frame s i \<noteq> ?x" if "i \<in> set (?L t' r')" for i
      using lay p old [OF that] unfolding zone_layout_def by (metis less_trans nat_neq_iff)
    moreover have "?x \<noteq> ring_head s t' r'" using lay p by (auto simp: zone_layout_def)
    ultimately show ?thesis by (auto simp: image_iff) metis
  qed
  have d: "dlist ?h (ring_head s t' r') (map (frame s) (?L t' r'))" for t' r'
    using inv x [of t' r'] by (intro dlist_init_other) (auto simp: array_inv_def)
  have disj: "insert (ring_head s t r) (set (map (frame s) (?L t r))) \<inter>
      insert (ring_head s t' r') (set (map (frame s) (?L t' r'))) = {}" if "\<not> (t' = t \<and> r' = r)" for t' r'
  proof -
    have "frame s i \<noteq> frame s j" if "i \<in> set (?L t r)" "j \<in> set (?L t' r')" for i j
    proof
      assume "frame s i = frame s j"
      moreover have "i < n" "j < n" using old [OF that(1)] old [OF that(2)] p by simp_all
      ultimately have "i = j" using lay by (auto simp: zone_layout_def)
      then show False using that \<open>\<not> (t' = t \<and> r' = r)\<close> by (auto simp: page_lists_def)
    qed
    moreover have "ring_head s t r \<noteq> ring_head s t' r'" using lay that by (auto simp: zone_layout_def)
    moreover have "frame s i \<noteq> ring_head s t'' r''" if "i \<in> set (?L t3 r3)" for i t'' r'' t3 r3
      using lay old [OF that] p by (auto simp: zone_layout_def)
    ultimately show ?thesis by (auto simp: image_iff) metis+
  qed
  have links: "mm_links (add_page t r (of_nat p) s) = list_add_tail ?x (ring_head s t r) ?h"
    by (simp add: add_page_eq Let_def frame_def)
  have "dlist (list_add_tail ?x (ring_head s t r) ?h) (ring_head s t' r')
      (map (frame s) (page_lists zone (cls(p := r)) (Suc p) t' r'))" for t' r'
  proof (cases "t' = t \<and> r' = r")
    case True
    then show ?thesis using list_add_tail_dlist [OF d x, of t r] t by (simp add: page_lists_Suc)
  next
    case False
    then show ?thesis
      using dlist_add_tail_other [OF d [of t r] d [of t' r'] disj [OF False] x [of t' r']] t
      by (auto simp: page_lists_Suc)
  qed
  moreover have "mm_idx (add_page t r (of_nat p) s) (frame s i) = of_nat i" if "i < Suc p" for i
  proof (cases "i = p")
    case True
    then show ?thesis by (simp add: add_page_eq Let_def frame_def)
  next
    case False
    then have "i < p" using that by simp
    then have "frame s i \<noteq> ?x" using lay p unfolding zone_layout_def by (metis less_trans nat_neq_iff)
    then show ?thesis using inv \<open>i < p\<close> by (simp add: add_page_eq Let_def frame_def array_inv_def)
  qed
  moreover have "memory_zones (add_page t r (of_nat p) s) =
      (memory_zones s)(t := count_page r (memory_zones s t))"
    by (simp add: add_page_eq Let_def)
  ultimately show ?thesis
    using inv t unfolding array_inv_def add_page_fields links
    by (cases r) (auto simp: page_lists_Suc count_page_def)
qed

section \<open>The loop over the physical pages\<close>

definition page_address :: "nat \<Rightarrow> u64" where
  "page_address i = of_nat (4096 * i)"

lemma unat_page_address: "i < 2 ^ 52 \<Longrightarrow> unat (page_address i) = 4096 * i"
  unfolding page_address_def by (intro unat_of_nat_small) simp

text \<open>What the loop tests of a page: it starts in a usable area of the map, whose bounds are rounded down to pages, and is
  not in the interval that the code computes for the kernel. Which pages image and array really touch is said apart from
  the code below, with \<open>image_page\<close>.\<close>

definition usable_page :: "e820memmap list \<Rightarrow> nat \<Rightarrow> page_idx \<Rightarrow> page_idx \<Rightarrow> nat \<Rightarrow> bool" where
  "usable_page table count kstart kend i \<longleftrightarrow>
     (\<exists>k\<le>count. k < length table \<and> e8_type (table ! k) = E820_USABLE \<and>
        e8_base_address (table ! k) AND PAGE_ADDR_MASK \<le> page_address i \<and>
        page_address i < e820_end (table ! k) AND PAGE_ADDR_MASK) \<and>
     \<not> (kstart \<le> of_nat i \<and> of_nat i \<le> kend)"

definition window_ok :: "e820memmap list \<Rightarrow> nat \<Rightarrow> map_window \<Rightarrow> bool" where
  "window_ok table count w \<longleftrightarrow> mw_end w = 0 \<or>
     (\<exists>k\<le>count. k < length table \<and> mw_type w = e8_type (table ! k) \<and>
        e8_base_address (table ! k) AND PAGE_ADDR_MASK \<le> mw_begin w \<and>
        mw_end w = e820_end (table ! k) AND PAGE_ADDR_MASK)"

definition zone_of :: "mm_state \<Rightarrow> nat \<Rightarrow> memory_zone_type" where
  "zone_of s i = (if of_nat i < mm_dma_pages s then ZONE_DMA else ZONE_NORMAL)"

definition same_layout :: "mm_state \<Rightarrow> mm_state \<Rightarrow> bool" where
  "same_layout s' s \<longleftrightarrow> ring_head s' = ring_head s \<and> frame s' = frame s \<and>
     max_phys_addr s' = max_phys_addr s \<and> mm_dma_pages s' = mm_dma_pages s \<and>
     percpu_caches s' = percpu_caches s"

lemma same_layout_add_page: "same_layout (add_page t r i s) s"
  by (simp add: same_layout_def fun_eq_iff)

lemma next_window_ok:
  "i < count \<Longrightarrow> count < length table \<Longrightarrow>
   \<exists>w. next_window table (i + 1) = Inr w \<and> window_ok table count w"
  by (auto simp: next_window_def Let_def window_ok_def intro!: exI [of _ "Suc i"])

lemma page_array_loop_ok:
  assumes "count < length table" and "n < 2 ^ 32" and "zone_layout s n" and "p \<le> n"
    and "n = (unat (max_phys_addr s) + 4095) div 4096"
    and "array_inv s (page_lists (zone_of s) cls p) p" and "window_ok table count w"
    and "\<forall>i<p. \<not> cls i \<longrightarrow> usable_page table count kstart kend i"
  shows "\<exists>s' cls'. page_array_loop table count kstart kend (page_address p) (of_nat p) e820id w jl s
      = Some (Inr s') \<and> same_layout s' s \<and> array_inv s' (page_lists (zone_of s) cls' n) n \<and>
    (\<forall>i<n. \<not> cls' i \<longrightarrow> usable_page table count kstart kend i)"
  using assms
proof (induction "2 * (n - p) + (if jl then 0 else 1)" arbitrary: p e820id w jl s cls rule: less_induct)
  case less
  note a = less.prems
  have p64: "unat (page_address p) = 4096 * p" using a(2,4) by (intro unat_page_address) simp
  have run: "page_address p < max_phys_addr s \<longleftrightarrow> p < n"
    unfolding word_less_nat_alt p64 a(5) by (auto simp: less_eq_div_iff_mult_less_eq Suc_le_eq [symmetric])
  let ?in = "page_address p \<ge> mw_begin w \<and> page_address p < mw_end w"
  show ?case
  proof (cases "p < n")
    case False
    then have "page_array_loop table count kstart kend (page_address p) (of_nat p) e820id w jl s = Some (Inr s)"
      using run by (subst page_array_loop.simps) simp
    moreover have "p = n" using False a(4) by simp
    ultimately show ?thesis using a(6,8) by (auto simp: same_layout_def)
  next
    case True
    show ?thesis
    proof (cases "\<not> ?in \<and> \<not> jl")
      case True
      note sw = True
      define w' e' where "w' = (if e820id < count then projr (next_window table (e820id + 1))
          else w\<lparr>mw_begin := 0, mw_end := 0\<rparr>)" and "e' = (if e820id < count then e820id + 1 else e820id)"
      have w': "window_ok table count w'" "e820id < count \<Longrightarrow> next_window table (e820id + 1) = Inr w'"
      proof -
        show w'1: "next_window table (e820id + 1) = Inr w'" if "e820id < count"
          using next_window_ok [OF that a(1)] that by (auto simp: w'_def)
        show "window_ok table count w'"
        proof (cases "e820id < count")
          case True
          then show ?thesis using next_window_ok [OF True a(1)] w'1 by auto
        qed (simp add: w'_def window_ok_def)
      qed
      have "page_array_loop table count kstart kend (page_address p) (of_nat p) e820id w jl s =
          page_array_loop table count kstart kend (page_address p) (of_nat p) e' w' True s"
      proof (cases "e820id < count")
        case True
        then show ?thesis
          using sw w'(2) [OF True] \<open>p < n\<close> run
          by (subst page_array_loop.simps) (auto simp: Let_def e'_def)
      next
        case False
        then show ?thesis
          using sw \<open>p < n\<close> run by (subst page_array_loop.simps) (auto simp: Let_def e'_def w'_def)
      qed
      moreover have "2 * (n - p) + (if True then 0 else 1) < 2 * (n - p) + (if jl then 0 else 1)"
        using sw by simp
      ultimately show ?thesis
        using less.hyps [of p True s cls w' e'] a w'(1) by simp
    next
      case False
      let ?r = "(if ?in then mw_type w \<noteq> E820_USABLE else True) \<or>
          (of_nat p \<ge> kstart \<and> of_nat p \<le> kend)"
      let ?s = "add_page (zone_of s p) ?r (of_nat p) s"
      have nxt: "page_address p + PAGE_SIZE = page_address (Suc p)" "(of_nat p :: page_idx) + 1 = of_nat (Suc p)"
        by (simp_all add: page_address_def page_defs)
      have step: "page_array_loop table count kstart kend (page_address p) (of_nat p) e820id w jl s =
          page_array_loop table count kstart kend (page_address (Suc p)) (of_nat (Suc p)) e820id w
            (if ?in then False else jl) ?s"
        using False \<open>p < n\<close> run
        by (subst page_array_loop.simps) (simp only: Let_def if_True if_False zone_of_def nxt simp_thms)
      have lay: "same_layout ?s s" by (rule same_layout_add_page)
      then have eqs: "zone_of ?s = zone_of s" "max_phys_addr ?s = max_phys_addr s"
        by (auto simp: same_layout_def zone_of_def fun_eq_iff)
      have zl: "zone_layout ?s n" using a(3) zone_layout_cong [of ?s s n] by simp
      have inv: "array_inv ?s (page_lists (zone_of s) (cls(p := ?r)) (Suc p)) (Suc p)"
        using a(3,6) \<open>p < n\<close> by (intro add_page_inv) simp_all
      have "usable_page table count kstart kend p" if "\<not> ?r"
      proof -
        have w: "?in" "mw_type w = E820_USABLE" "\<not> (kstart \<le> of_nat p \<and> of_nat p \<le> kend)"
          using that by (auto split: if_splits)
        then have "mw_end w \<noteq> 0" by auto
        then obtain k where k: "k \<le> count" "k < length table" "mw_type w = e8_type (table ! k)"
          "e8_base_address (table ! k) AND PAGE_ADDR_MASK \<le> mw_begin w"
          "mw_end w = e820_end (table ! k) AND PAGE_ADDR_MASK"
          using a(7) unfolding window_ok_def by blast
        have "e8_base_address (table ! k) AND PAGE_ADDR_MASK \<le> page_address p"
          using k(4) conjunct1 [OF w(1)] by (rule order_trans)
        moreover have "page_address p < e820_end (table ! k) AND PAGE_ADDR_MASK"
          using w(1) k(5) by simp
        moreover have "e8_type (table ! k) = E820_USABLE" using w(2) k(3) by simp
        ultimately show ?thesis using w(3) k(1,2) unfolding usable_page_def by blast
      qed
      then have us: "\<forall>i<Suc p. \<not> (cls(p := ?r)) i \<longrightarrow> usable_page table count kstart kend i"
        using a(8) by (auto simp: less_Suc_eq)
      have sp: "Suc p \<le> n" using \<open>p < n\<close> by simp
      have nn: "n = (unat (max_phys_addr ?s) + 4095) div 4096" unfolding eqs by (rule a(5))
      have inv': "array_inv ?s (page_lists (zone_of ?s) (cls(p := ?r)) (Suc p)) (Suc p)"
        unfolding eqs(1) by (rule inv)
      have "2 * (n - Suc p) + (if (if ?in then False else jl) then 0 else 1)
          < 2 * (n - p) + (if jl then 0 else 1)" using \<open>p < n\<close> by auto
      from less.hyps [OF this a(1,2) zl sp nn inv' a(7) us, of e820id]
      obtain s' cls' where "page_array_loop table count kstart kend (page_address (Suc p)) (of_nat (Suc p))
            e820id w (if ?in then False else jl) ?s = Some (Inr s')" "same_layout s' ?s"
          "array_inv s' (page_lists (zone_of s) cls' n) n"
          "\<forall>i<n. \<not> cls' i \<longrightarrow> usable_page table count kstart kend i"
        unfolding eqs by blast
      then show ?thesis using step lay by (auto simp: same_layout_def)
    qed
  qed
qed

lemma initialize_zones_fields [simp]:
  "ring_head (initialize_zones s) t r = ring_head s t r"
  "page_frames_array (initialize_zones s) = page_frames_array s"
  "max_phys_addr (initialize_zones s) = max_phys_addr s"
  "mm_dma_pages (initialize_zones s) = mm_dma_pages s"
  "percpu_caches (initialize_zones s) = percpu_caches s"
  by (simp_all add: initialize_zones_def initialize_zone_def Let_def upd_zone_def upd_links_def
      ring_head_def)

lemma initialize_zones_inv:
  assumes "zone_layout s n"
  shows "array_inv (initialize_zones s) (page_lists zone cls 0) 0"
proof -
  have links: "mm_links (initialize_zones s) =
      init_list_head (ring_head s ZONE_NORMAL True) (init_list_head (ring_head s ZONE_NORMAL False)
       (init_list_head (ring_head s ZONE_DMA True) (init_list_head (ring_head s ZONE_DMA False) (mm_links s))))"
    by (simp add: initialize_zones_def initialize_zone_def Let_def upd_zone_def upd_links_def ring_head_def)
  have ne: "ring_head s t r \<noteq> ring_head s t' r'" if "\<not> (t = t' \<and> r = r')" for t r t' r'
    using assms that by (auto simp: zone_layout_def)
  have "dlist (mm_links (initialize_zones s)) (ring_head s t r) []" for t r
    unfolding links by (cases t; cases r) (simp_all add: dlist_def init_list_head_def ne ne [symmetric])
  moreover have "z_num_free_pages (memory_zones (initialize_zones s) t) = 0"
      "z_num_reserved_pages (memory_zones (initialize_zones s) t) = 0"
      "z_num_total_pages (memory_zones (initialize_zones s) t) = 0" for t
    by (cases t; simp add: initialize_zones_def initialize_zone_def Let_def upd_zone_def upd_links_def)+
  ultimately show ?thesis by (simp add: array_inv_def page_lists_def)
qed

lemma zone_layout_intro:
  assumes "\<And>t r t' r'. ring_head s t r = ring_head s t' r' \<Longrightarrow> t = t' \<and> r = r'"
    and "\<And>t r. ring_head s t r < page_frames_array s"
    and "unat (page_frames_array s) + 40 * n < 2 ^ 64" and "n < 2 ^ 32"
  shows "zone_layout s n"
proof -
  have a: "unat (frame s i) = unat (page_frames_array s) + 40 * i" if "i < n" for i
  proof -
    have "unat (of_nat i :: page_idx) = i" using that assms(4) by (intro unat_of_nat_small) simp
    then have "unat (ucast (of_nat i :: page_idx) :: u64) = i" by (simp add: unat_ucast_up)
    then have u: "(ucast (of_nat i :: page_idx) :: u64) = of_nat i" by (metis of_nat_unat ucast_id)
    have "frame s i = of_nat (unat (page_frames_array s) + 40 * i)"
      unfolding frame_def frame_at_def u sizeof_page_frame_def by simp
    moreover have "unat (of_nat (unat (page_frames_array s) + 40 * i) :: u64)
        = unat (page_frames_array s) + 40 * i"
      using that assms(3) by (intro unat_of_nat_small) simp
    ultimately show ?thesis by metis
  qed
  have "frame s i \<noteq> ring_head s t r" if "i < n" for i t r
    using a [OF that] assms(2) [of t r] by (auto simp: word_less_nat_alt)
  moreover have "i = j" if "i < n" "j < n" "frame s i = frame s j" for i j
  proof -
    have "unat (page_frames_array s) + 40 * i = unat (page_frames_array s) + 40 * j"
      unfolding a [OF that(1), symmetric] a [OF that(2), symmetric] that(3) ..
    then show ?thesis unfolding add_left_cancel by linarith
  qed
  ultimately show ?thesis using assms(1) unfolding zone_layout_def by blast
qed

lemma masked_le: "x AND PAGE_ADDR_MASK \<le> (x :: u64)"
proof -
  have m: "PAGE_ADDR_MASK = NOT (mask 12)" by (simp add: page_defs mask_eq_exp_minus_1)
  show ?thesis unfolding m word_le_nat_alt unat_and_not_mask by simp
qed

section \<open>Properties\<close>

lemma page_array_by_interval:
  assumes lay: "zone_layout (s\<lparr>page_frames_array := kdata_end\<rparr>) n"
    and count: "unat e820count < length e820table"
    and n: "n = (unat (max_phys_addr s) + 4095) div 4096" "n < 2 ^ 32"
    and kern: "(kstart, kend) = kernel_pages kdata_end (max_phys_addr s)"
  shows "\<exists>s' cls. initialize_page_array kdata_end e820table e820count (initialize_zones s) = Some (Inr s') \<and>
    array_inv s' (page_lists (zone_of s) cls n) n \<and>
    (\<forall>i<n. \<not> cls i \<longrightarrow> usable_page e820table (unat e820count) kstart kend i)"
proof -
  let ?s = "(initialize_zones s)\<lparr>page_frames_array := kdata_end\<rparr>"
  let ?t = "s\<lparr>page_frames_array := kdata_end\<rparr>"
  have comm: "?s = initialize_zones ?t"
    by (simp add: initialize_zones_def initialize_zone_def Let_def upd_zone_def upd_links_def)
  obtain e es where tab: "e820table = e # es" using count by (cases e820table) auto
  let ?w = "\<lparr>mw_begin = e8_base_address e, mw_end = e820_end e AND PAGE_ADDR_MASK, mw_type = e8_type e\<rparr>"
  have w: "window_ok e820table (unat e820count) ?w"
    using masked_le [of "e8_base_address e"] tab by (auto simp: window_ok_def intro!: exI [of _ 0])
  have lay': "zone_layout ?s n" using lay zone_layout_cong [of ?s ?t n] unfolding comm by (simp add: frame_def)
  have n': "n = (unat (max_phys_addr ?s) + 4095) div 4096" using n(1) by simp
  have inv: "array_inv ?s (page_lists (zone_of ?s) (\<lambda>_. True) 0) 0"
    unfolding comm by (rule initialize_zones_inv [OF lay])
  have z: "zone_of ?s = zone_of s" by (simp add: zone_of_def fun_eq_iff)
  have run: "initialize_page_array kdata_end e820table e820count (initialize_zones s) =
      page_array_loop e820table (unat e820count) kstart kend (page_address 0) (of_nat 0) 0 ?w False ?s"
    using kern [symmetric] by (simp add: initialize_page_array_def Let_def tab page_address_def)
  from page_array_loop_ok [OF count n(2) lay' _ n' inv w, of kstart kend 0 False]
  show ?thesis unfolding run z by auto
qed

text \<open>What the kernel occupies: its image from 1 MB on and behind it the page array with \<open>n\<close> frames. The pages
  from the first one to the one that holds the first byte behind the array are the pages of the image.\<close>

definition image_end :: "addr \<Rightarrow> nat \<Rightarrow> nat" where
  "image_end kdata_end n = unat (kdata_end - KERNEL_BASE) + unat sizeof_page_frame * n"

definition image_page :: "addr \<Rightarrow> nat \<Rightarrow> nat \<Rightarrow> bool" where
  "image_page kdata_end n i \<longleftrightarrow> unat KERNEL_PHYS_START \<le> 4096 * i \<and> 4096 * i \<le> image_end kdata_end n"

definition usable_area :: "e820memmap list \<Rightarrow> nat \<Rightarrow> nat \<Rightarrow> bool" where
  "usable_area table count i \<longleftrightarrow> (\<exists>k\<le>count. k < length table \<and> e8_type (table ! k) = E820_USABLE \<and>
     e8_base_address (table ! k) AND PAGE_ADDR_MASK \<le> page_address i \<and>
     page_address i < e820_end (table ! k) AND PAGE_ADDR_MASK)"

text \<open>The kernel is linked above 1 MB of its window, and the parts of a page that the image and the array take of
  their last pages fit into one page; so it is for every image that ends at a page boundary.\<close>

definition image_fits :: "addr \<Rightarrow> nat \<Rightarrow> bool" where
  "image_fits kdata_end n \<longleftrightarrow> KERNEL_BASE + KERNEL_PHYS_START \<le> kdata_end \<and>
     unat (kdata_end - KERNEL_BASE) mod 4096 + unat sizeof_page_frame * n mod 4096 < 4096"

lemma kernel_pages_nat:
  assumes "KERNEL_BASE + KERNEL_PHYS_START \<le> kdata_end" and "unat m = 4096 * n" and "n < 2 ^ 32"
  shows "\<exists>kend. kernel_pages kdata_end m = (256, kend) \<and>
    unat kend = unat (kdata_end - KERNEL_BASE) div 4096 + 40 * n div 4096"
proof -
  let ?d = "kdata_end - KERNEL_BASE"
  have base: "unat (KERNEL_BASE + KERNEL_PHYS_START) = 0xffffffff80100000" by (simp add: KERNEL_BASE_def KERNEL_PHYS_START_def)
  have k: "0xffffffff80100000 \<le> unat kdata_end" "unat kdata_end < 2 ^ 64"
    using assms(1) unsigned_less [of kdata_end, where 'a = nat] unfolding word_le_nat_alt base by simp_all
  have d: "unat ?d = unat kdata_end - 0xffffffff80000000"
    using k by (subst unat_sub) (simp_all add: word_le_nat_alt KERNEL_BASE_def)
  then have dr: "0x100000 \<le> unat ?d" "unat ?d < 2 ^ 31" using k by simp_all
  have off: "unat (?d - KERNEL_PHYS_START) = unat ?d - 0x100000"
    using dr(1) by (subst unat_sub) (simp_all add: word_le_nat_alt KERNEL_PHYS_START_def)
  define e1 where "e1 = (ucast ((?d - KERNEL_PHYS_START) div PAGE_SIZE) :: page_idx)"
  have "unat ((?d - KERNEL_PHYS_START) div PAGE_SIZE) = (unat ?d - 0x100000) div 4096"
    by (simp add: unat_div off PAGE_SIZE_def)
  then have e1: "unat e1 = unat ?d div 4096 - 256"
    using dr by (simp add: e1_def unsigned_ucast_eq take_bit_eq_mod)
  have arr: "unat (m div PAGE_SIZE * sizeof_page_frame div PAGE_SIZE) = 40 * n div 4096"
    using assms(2,3) by (simp add: unat_div unat_word_ariths page_defs sizeof_page_frame_def mult.commute)
  have small: "unat ?d div 4096 < 2 ^ 19" "40 * n div 4096 < 2 ^ 26" using dr(2) assms(3) by simp_all
  have ge: "256 \<le> unat ?d div 4096" using dr(1) by (simp add: less_eq_div_iff_mult_less_eq)
  define a where "a = m div PAGE_SIZE * sizeof_page_frame div PAGE_SIZE"
  define e2 where "e2 = (ucast (ucast e1 + a) :: page_idx)"
  have sum: "unat e1 + unat a < 2 ^ 20 + 2 ^ 26" unfolding a_def e1 arr
    by (rule add_strict_mono) (rule le_less_trans [OF diff_le_self], use small in simp, rule small(2))
  then have "unat (ucast e1 + a) = unat e1 + unat a" by (simp add: unat_word_ariths(1) unat_ucast_up)
  then have "unat e2 = unat e1 + unat a" using sum by (simp add: e2_def unsigned_ucast_eq take_bit_eq_mod)
  then have e2: "unat e2 = unat ?d div 4096 - 256 + 40 * n div 4096" using e1 arr by (simp only: a_def)
  have "unat (e2 + 256) = unat ?d div 4096 + 40 * n div 4096"
    using e2 small ge by (simp add: unat_word_ariths)
  moreover have "kernel_pages kdata_end m = (256, e2 + 256)"
    by (simp add: kernel_pages_def Let_def e1_def [symmetric] a_def [symmetric] e2_def [symmetric])
      (simp add: KERNEL_PHYS_START_def PAGE_SIZE_def)
  ultimately show ?thesis by blast
qed

lemma kernel_pages_image:
  assumes "image_fits kdata_end n" and "unat m = 4096 * n" and "n < 2 ^ 32"
  shows "\<exists>kend. kernel_pages kdata_end m = (256, kend) \<and>
    (\<forall>i<n. 256 \<le> (of_nat i :: page_idx) \<and> of_nat i \<le> kend \<longleftrightarrow> image_page kdata_end n i)"
proof -
  let ?P = "unat (kdata_end - KERNEL_BASE)"
  have f: "KERNEL_BASE + KERNEL_PHYS_START \<le> kdata_end" "?P mod 4096 + 40 * n mod 4096 < 4096"
    using assms(1) by (simp_all add: image_fits_def sizeof_page_frame_def)
  obtain kend where k: "kernel_pages kdata_end m = (256, kend)" "unat kend = ?P div 4096 + 40 * n div 4096"
    using kernel_pages_nat [OF f(1) assms(2,3)] by blast
  have "(?P + 40 * n) div 4096 = ?P div 4096 + 40 * n div 4096" using f(2) div_add1_eq [of ?P "40 * n" 4096] by simp
  then have kend: "unat kend = image_end kdata_end n div 4096" by (simp add: k(2) image_end_def sizeof_page_frame_def)
  have "256 \<le> (of_nat i :: page_idx) \<and> of_nat i \<le> kend \<longleftrightarrow> image_page kdata_end n i" if "i < n" for i
  proof -
    have "unat (of_nat i :: page_idx) = i" using that assms(3) by (intro unat_of_nat_small) simp
    then show ?thesis
      by (auto simp: word_le_nat_alt kend image_page_def KERNEL_PHYS_START_def less_eq_div_iff_mult_less_eq mult.commute)
  qed
  with k(1) show ?thesis by blast
qed


definition sample_e820 :: "e820memmap list" where
  "sample_e820 = [\<lparr>e8_base_address = 0, e8_length_low = 0x9f000, e8_length_high = 0, e8_type = 1\<rparr>,
     \<lparr>e8_base_address = 0x100000, e8_length_low = 0x1f00000, e8_length_high = 0, e8_type = 1\<rparr>,
     \<lparr>e8_base_address = 0, e8_length_low = 0, e8_length_high = 0, e8_type = 0\<rparr>]"

definition sample_zone :: "addr \<Rightarrow> memory_zone_type \<Rightarrow> memory_zone" where
  "sample_zone a t = \<lparr>z_num_total_pages = 0, z_num_free_pages = 0, z_num_reserved_pages = 0,
     z_pages = a, z_reserved_pages = a + 16, z_type = t\<rparr>"

definition sample_state :: mm_state where
  "sample_state = \<lparr>mm_links = \<lparr>lh_next = (\<lambda>_. 0), lh_prev = (\<lambda>_. 0)\<rparr>, mm_idx = (\<lambda>_. 0),
     mm_flags = (\<lambda>_. 0), mm_refcount = (\<lambda>_. 0), min_phys_addr = 0, max_phys_addr = 0x2000000,
     mm_dma_pages = 4096, page_frames_array = 0,
     memory_zones = (\<lambda>t. sample_zone (if t = ZONE_DMA then 0x1000 else 0x2000) t),
     percpu_caches = [\<lparr>pc_pages = 0x3000, pc_num_free_pages = 0, pc_total_pages = 0\<rparr>,
                      \<lparr>pc_pages = 0x4000, pc_num_free_pages = 0, pc_total_pages = 0\<rparr>],
     swks_mem_total_pages = 0\<rparr>"

lemma sample_layout: "zone_layout (sample_state\<lparr>page_frames_array := 0xffffffff80200000\<rparr>) 8192"
proof (rule zone_layout_intro)
  show "t = t' \<and> r = r'" if "ring_head (sample_state\<lparr>page_frames_array := 0xffffffff80200000\<rparr>) t r =
      ring_head (sample_state\<lparr>page_frames_array := 0xffffffff80200000\<rparr>) t' r'" for t r t' r'
    using that by (cases t; cases t'; cases r; cases r')
      (simp_all add: ring_head_def sample_state_def sample_zone_def)
qed (simp_all add: ring_head_def sample_state_def sample_zone_def)

lemma sample_image_fits: "image_fits 0xffffffff80200000 8192"
  by (simp add: image_fits_def KERNEL_BASE_def KERNEL_PHYS_START_def sizeof_page_frame_def)


text \<open>The memory detection takes any usable area that starts at 1 MB, however small: the check
  against \<open>MIN_PHYS_MEMORY_REQUIRED\<close> subtracts the wrong way round and never fires below
  the last 24 MB of the 64-bit address space.\<close>

theorem detection_accepts_small_memory:
  assumes "main_memory_area e" and "\<forall>x\<in>set before. \<not> main_memory_area x"
    and "length before < unat e820count" and "unat e820count \<le> length (before @ e # after)"
    and "0 < e820_end e" and "e820_end e < - (MIN_PHYS_MEMORY_REQUIRED)"
  shows "\<exists>s'. detect_physical_memory (before @ e # after) e820count s = Inr s' \<and>
    max_phys_addr s' = e820_end e \<and> mm_dma_pages s' = 4096"
proof -
  have found: "scan_e820 t n True s = Inr (True, s)" if "n \<le> length t" for t n s
    using that by (induction t n True s rule: scan_e820.induct) auto
  have "scan_e820 (before @ e # after) (unat e820count) False s
      = Inr (True, s\<lparr>min_phys_addr := 0, max_phys_addr := e820_end e\<rparr>)"
    using assms(1-4)
  proof (induction before arbitrary: e820count)
    case Nil
    then obtain k where k: "unat e820count = Suc k" "k \<le> length after" by (cases "unat e820count") auto
    show ?case unfolding k(1) using Nil(1) found [OF k(2)] by simp
  next
    case (Cons x before)
    define k where "k = unat e820count - 1"
    have k: "unat e820count = Suc k" "k < 2 ^ 8"
      using Cons.prems unsigned_less [of e820count, where 'a = nat] by (simp_all add: k_def)
    then have "unat (of_nat k :: u8) = k" by (intro unat_of_nat_small) simp
    then show ?case
      using Cons.IH [of "of_nat k"] Cons.prems unfolding k(1) by simp
  qed
  moreover have "\<not> - e820_end e \<le> MIN_PHYS_MEMORY_REQUIRED"
  proof -
    have "unat (- e820_end e) = 2 ^ 64 - unat (e820_end e)"
      using assms(5) unat_sub_if_size [of 0 "e820_end e"] by (simp add: word_size word_less_nat_alt)
    moreover have "unat (e820_end e) < 2 ^ 64 - 0x1800000"
      using assms(6) by (simp add: word_less_nat_alt MIN_PHYS_MEMORY_REQUIRED_def)
    ultimately show ?thesis by (simp add: word_le_nat_alt MIN_PHYS_MEMORY_REQUIRED_def)
  qed
  ultimately show ?thesis
    using assms(5) by (simp add: detect_physical_memory_def not_le page_defs)
qed

theorem detection_accepts_small_memory_witness:
  "\<exists>s'. detect_physical_memory
      [\<lparr>e8_base_address = 0, e8_length_low = 0x9f000, e8_length_high = 0, e8_type = 1\<rparr>,
       \<lparr>e8_base_address = 0x100000, e8_length_low = 0x1000, e8_length_high = 0, e8_type = 1\<rparr>] 2 sample_state
    = Inr s' \<and> max_phys_addr s' = 0x101000"
  using detection_accepts_small_memory
    [of "\<lparr>e8_base_address = 0x100000, e8_length_low = 0x1000, e8_length_high = 0, e8_type = 1\<rparr>"
      "[\<lparr>e8_base_address = 0, e8_length_low = 0x9f000, e8_length_high = 0, e8_type = 1\<rparr>]" 2 "[]" sample_state]
  by (auto simp: main_memory_area_def KERNEL_PHYS_START_def e820_end_def e820_length_def
      MIN_PHYS_MEMORY_REQUIRED_def)

text \<open>The loop over one cache moves a page per two counts; it leaves the other rings and the numbers of the frames
  alone.\<close>

definition same_frames :: "mm_state \<Rightarrow> mm_state \<Rightarrow> bool" where
  "same_frames s' s \<longleftrightarrow> mm_idx s' = mm_idx s \<and> percpu_caches s' = percpu_caches s \<and> max_phys_addr s' = max_phys_addr s \<and>
     z_pages (memory_zones s' ZONE_NORMAL) = z_pages (memory_zones s ZONE_NORMAL) \<and>
     memory_zones s' ZONE_DMA = memory_zones s ZONE_DMA"

lemma fill_cache_loop_ok:
  assumes "dlist (mm_links s) (z_pages (memory_zones s ZONE_NORMAL)) xs"
    and "dlist (mm_links s) ch ys"
    and "insert (z_pages (memory_zones s ZONE_NORMAL)) (set xs) \<inter> insert ch (set ys) = {}"
    and "2 * (length ys + length xs) < 2 ^ 32" and "p = of_nat (2 * length ys)"
    and "k = min (length xs) ((unat cpupages + 1) div 2 - length ys)"
  shows "\<exists>s'. fill_cache_loop ch cpupages p s = Some (of_nat (2 * (length ys + k)), s') \<and>
    dlist (mm_links s') (z_pages (memory_zones s' ZONE_NORMAL)) (drop k xs) \<and>
    dlist (mm_links s') ch (ys @ take k xs) \<and> same_frames s' s \<and>
    (\<forall>q qs. dlist (mm_links s) q qs \<and>
       insert q (set qs) \<inter> (insert (z_pages (memory_zones s ZONE_NORMAL)) (set xs) \<union> insert ch (set ys)) = {} \<longrightarrow>
       dlist (mm_links s') q qs)"
  using assms
proof (induction xs arbitrary: s ys p k)
  case Nil
  have "lh_next (mm_links s) (z_pages (memory_zones s ZONE_NORMAL)) = z_pages (memory_zones s ZONE_NORMAL)"
    using dlist_next_head [OF Nil.prems(1)] by simp
  then have "fill_cache_loop ch cpupages p s = Some (p, s)"
    by (subst fill_cache_loop.simps) (simp add: Let_def)
  then show ?case using Nil.prems by (auto simp: same_frames_def)
next
  case (Cons x xs)
  let ?Z = "z_pages (memory_zones s ZONE_NORMAL)"
  note a = Cons.prems
  have p: "unat p = 2 * length ys" unfolding a(5) using a(4) by (intro unat_of_nat_small) simp
  have first: "lh_next (mm_links s) ?Z = x" and xZ: "x \<noteq> ?Z"
    using dlist_next_head [OF a(1)] a(1) by (auto simp: dlist_def)
  show ?case
  proof (cases "p < cpupages")
    case False
    then have "fill_cache_loop ch cpupages p s = Some (p, s)"
      by (subst fill_cache_loop.simps) (simp add: Let_def)
    moreover have "k = 0" using False a(6) p by (simp add: word_less_nat_alt)
    ultimately show ?thesis using a by (auto simp: same_frames_def)
  next
    case True
    define s1 where "s1 = upd_zone ZONE_NORMAL (\<lambda>z. z\<lparr>z_num_free_pages := z_num_free_pages z - 1,
        z_num_total_pages := z_num_total_pages z - 1\<rparr>) (upd_links (list_add_tail x ch) (upd_links (list_del x) s))"
    have links: "mm_links s1 = list_add_tail x ch (list_del x (mm_links s))"
      and Z: "z_pages (memory_zones s1 ZONE_NORMAL) = ?Z"
      by (simp_all add: s1_def upd_zone_def upd_links_def)
    have "dlist (list_del x (mm_links s)) ?Z xs" using ring.pop_front [OF a(1)] first by simp
    moreover have "dlist (list_del x (mm_links s)) ch ys"
      using ring.rep_delete_other [of "mm_links s" ?Z "[]" x xs ch ys] a(1-3) by simp
    moreover have nin: "x \<notin> insert ?Z (set xs)" "insert ch (set ys) \<inter> insert ?Z (set xs) = {}"
      using a(1,3) by (auto simp: dlist_def)
    ultimately have d1: "dlist (mm_links s1) ?Z xs"
      unfolding links by (intro dlist_add_tail_other) auto
    have d2: "dlist (mm_links s1) ch (ys @ [x])"
      unfolding links using ring.move_front [OF a(1,2,3)] .
    have p2: "p + 1 + 1 = of_nat (2 * length (ys @ [x]))" using a(5) by simp
    have disj: "insert ?Z (set xs) \<inter> insert ch (set (ys @ [x])) = {}" using nin a(3) by auto
    have len: "2 * (length (ys @ [x]) + length xs) < 2 ^ 32" using a(4) by simp
    have step: "fill_cache_loop ch cpupages p s = fill_cache_loop ch cpupages (p + 1 + 1) s1"
      using True first xZ by (subst fill_cache_loop.simps) (simp add: Let_def s1_def)
    have "length ys < (unat cpupages + 1) div 2" using True p by (simp add: word_less_nat_alt)
    then have k: "k = Suc (min (length xs) ((unat cpupages + 1) div 2 - length (ys @ [x])))"
      using a(6) by (simp add: min_def) linarith
    have other: "dlist (mm_links s1) q qs"
      if "dlist (mm_links s) q qs" "insert q (set qs) \<inter> (insert ?Z (set (x # xs)) \<union> insert ch (set ys)) = {}" for q qs
    proof -
      have "dlist (list_del x (mm_links s)) q qs"
        using ring.rep_delete_other [of "mm_links s" ?Z "[]" x xs q qs] a(1) that by auto
      then show ?thesis
        unfolding links using \<open>dlist (list_del x (mm_links s)) ch ys\<close> that(2) by (intro dlist_add_tail_other) auto
    qed
    have s1: "same_frames s1 s" by (simp add: same_frames_def s1_def upd_zone_def upd_links_def)
    obtain s' where s': "fill_cache_loop ch cpupages (p + 1 + 1) s1 = Some (of_nat (2 * (length (ys @ [x]) + (k - 1))), s')"
      "dlist (mm_links s') (z_pages (memory_zones s' ZONE_NORMAL)) (drop (k - 1) xs)"
      "dlist (mm_links s') ch ((ys @ [x]) @ take (k - 1) xs)" "same_frames s' s1"
      "\<And>q qs. dlist (mm_links s1) q qs \<Longrightarrow> insert q (set qs) \<inter> (insert ?Z (set xs) \<union> insert ch (set (ys @ [x]))) = {} \<Longrightarrow>
        dlist (mm_links s') q qs"
      using Cons.IH [of s1 "ys @ [x]" "p + 1 + 1" "k - 1", unfolded Z, OF d1 d2 disj len p2] k by auto
    have "dlist (mm_links s') q qs"
      if "dlist (mm_links s) q qs" "insert q (set qs) \<inter> (insert ?Z (set (x # xs)) \<union> insert ch (set ys)) = {}" for q qs
      using other [OF that] that(2) by (intro s'(5)) auto
    moreover have "same_frames s' s" using s'(4) s1 by (simp add: same_frames_def)
    ultimately show ?thesis using s'(1-3) k step by auto
  qed
qed

lemma fill_cache_ok:
  assumes "dlist (mm_links s) (z_pages (memory_zones s ZONE_NORMAL)) xs"
    and "pc_pages cache \<notin> insert (z_pages (memory_zones s ZONE_NORMAL)) (set xs)"
    and "2 * length xs < 2 ^ 32"
  defines "tot \<equiv> z_num_total_pages (memory_zones s ZONE_NORMAL)"
  defines "c \<equiv> \<lambda>cpupages. if cpupages + NR_CPUS \<ge> tot then tot else cpupages"
  defines "k \<equiv> \<lambda>cpupages. min (length xs) ((unat (c cpupages) + 1) div 2)"
  shows "\<exists>s'. fill_cache cpupages cache s = Some (c cpupages,
      cache\<lparr>pc_num_free_pages := of_nat (2 * k cpupages), pc_total_pages := of_nat (2 * k cpupages)\<rparr>, s') \<and>
    dlist (mm_links s') (pc_pages cache) (take (k cpupages) xs) \<and>
    dlist (mm_links s') (z_pages (memory_zones s' ZONE_NORMAL)) (drop (k cpupages) xs) \<and> same_frames s' s \<and>
    (\<forall>q qs. dlist (mm_links s) q qs \<and>
       insert q (set qs) \<inter> (insert (z_pages (memory_zones s ZONE_NORMAL)) (set xs) \<union> {pc_pages cache}) = {} \<longrightarrow>
       dlist (mm_links s') q qs)"
proof -
  let ?s = "upd_links (init_list_head (pc_pages cache)) s"
  let ?Z = "z_pages (memory_zones s ZONE_NORMAL)"
  have Z: "dlist (mm_links ?s) ?Z xs"
    using dlist_init_other [OF assms(1,2)] by (simp add: upd_links_def)
  have C: "dlist (mm_links ?s) (pc_pages cache) []"
    by (simp add: upd_links_def init_list_head_empty)
  have other: "dlist (mm_links ?s) q qs" if "dlist (mm_links s) q qs" "pc_pages cache \<notin> insert q (set qs)" for q qs
    using dlist_init_other [OF that] by (simp add: upd_links_def)
  have Zs: "memory_zones ?s = memory_zones s" "same_frames ?s s" by (simp_all add: upd_links_def same_frames_def)
  have disj: "insert ?Z (set xs) \<inter> insert (pc_pages cache) (set []) = {}" using assms(2) by auto
  have len: "2 * (length [] + length xs) < 2 ^ 32" using assms(3) by simp
  obtain s' where s': "fill_cache_loop (pc_pages cache) (c cpupages) 0 ?s = Some (of_nat (2 * k cpupages), s')"
      "dlist (mm_links s') (z_pages (memory_zones s' ZONE_NORMAL)) (drop (k cpupages) xs)"
      "dlist (mm_links s') (pc_pages cache) (take (k cpupages) xs)" "same_frames s' ?s"
      "\<And>q qs. dlist (mm_links ?s) q qs \<Longrightarrow> insert q (set qs) \<inter> (insert ?Z (set xs) \<union> {pc_pages cache}) = {} \<Longrightarrow>
        dlist (mm_links s') q qs"
    using fill_cache_loop_ok [of ?s xs "pc_pages cache" "[]" 0 "k cpupages" "c cpupages", unfolded Zs, OF Z C disj len]
    by (auto simp: k_def)
  have "dlist (mm_links s') q qs"
    if "dlist (mm_links s) q qs" "insert q (set qs) \<inter> (insert ?Z (set xs) \<union> {pc_pages cache}) = {}" for q qs
    using other [OF that(1)] that(2) by (intro s'(5)) auto
  moreover have "same_frames s' s" using s'(4) Zs(2) by (simp add: same_frames_def)
  moreover have "fill_cache cpupages cache s =
      map_option (\<lambda>(p, s). (c cpupages, cache\<lparr>pc_num_free_pages := p, pc_total_pages := p\<rparr>, s))
        (fill_cache_loop (pc_pages cache) (c cpupages) 0 ?s)"
    by (simp add: fill_cache_def Let_def c_def tot_def upd_links_def)
  ultimately show ?thesis using s'(1-3) by auto
qed

text \<open>Filling a per-CPU cache moves a prefix of the free pages of the zone to it, in order, and
  sets its counter to twice the number of pages it holds.\<close>

theorem percpu_cache_count_doubled:
  assumes "dlist (mm_links s) (z_pages (memory_zones s ZONE_NORMAL)) xs"
    and "pc_pages cache \<notin> insert (z_pages (memory_zones s ZONE_NORMAL)) (set xs)"
    and "2 * length xs < 2 ^ 32"
  shows "\<exists>cpupages' s' k. fill_cache cpupages cache s =
      Some (cpupages', cache\<lparr>pc_num_free_pages := of_nat (2 * k), pc_total_pages := of_nat (2 * k)\<rparr>, s') \<and>
    k = min (length xs) ((unat cpupages' + 1) div 2) \<and>
    dlist (mm_links s') (pc_pages cache) (take k xs) \<and>
    dlist (mm_links s') (z_pages (memory_zones s' ZONE_NORMAL)) (drop k xs)"
  using fill_cache_ok [OF assms, of cpupages] by blast

definition zone_sample :: mm_state where
  "zone_sample = sample_state
     \<lparr>mm_links := list_add_tail 0x60 0x2000 (list_add_tail 0x50 0x2000
        (init_list_head 0x2000 (mm_links sample_state))),
      memory_zones := (\<lambda>t. (memory_zones sample_state t)\<lparr>z_num_total_pages := 2, z_num_free_pages := 2\<rparr>)\<rparr>"

theorem percpu_cache_count_doubled_witness:
  "\<exists>cpupages' c s'. fill_cache 1 \<lparr>pc_pages = 0x3000, pc_num_free_pages = 0, pc_total_pages = 0\<rparr> zone_sample
      = Some (cpupages', c, s') \<and>
    pc_num_free_pages c = of_nat (2 * length (take ((unat cpupages' + 1) div 2) [0x50 :: addr, 0x60]))"
proof -
  have heads: "z_pages (memory_zones zone_sample ZONE_NORMAL) = 0x2000"
    by (simp add: zone_sample_def sample_state_def sample_zone_def)
  have "dlist (mm_links zone_sample) 0x2000 [0x50, 0x60]"
    using list_add_tail_dlist [OF list_add_tail_dlist [OF init_list_head_empty]]
    by (simp add: zone_sample_def)
  then show ?thesis
    using percpu_cache_count_doubled [of zone_sample "[0x50, 0x60]"
        "\<lparr>pc_pages = 0x3000, pc_num_free_pages = 0, pc_total_pages = 0\<rparr>" 1]
    by (auto simp: heads)
qed

end
