(* ===== verification/Mui_E820.thy ===== *)
theory Mui_E820
  imports Mui_Zones
begin

text \<open>
  The page array for an ordered E820 map: which pages end up free, which pages the per-CPU caches
  get, and the page cache that the rest of the kernel starts with after \<^verbatim>\<open>build_page_array\<close>.
\<close>

section \<open>Ordered maps\<close>

definition first_page :: "e820memmap \<Rightarrow> nat" where
  "first_page e = unat (e8_base_address e) div 4096"

definition end_page :: "e820memmap \<Rightarrow> nat" where
  "end_page e = unat (e820_end e) div 4096"

definition window_of :: "e820memmap \<Rightarrow> map_window" where
  "window_of e = \<lparr>mw_begin = e8_base_address e AND PAGE_ADDR_MASK, mw_end = e820_end e AND PAGE_ADDR_MASK,
     mw_type = e8_type e\<rparr>"

text \<open>The areas ascend, start at address 0 and hold a page each, and the entry behind the last one is empty.\<close>

definition ordered_map :: "e820memmap list \<Rightarrow> nat \<Rightarrow> bool" where
  "ordered_map table count \<longleftrightarrow> 0 < count \<and> count < length table \<and> e8_base_address (table ! 0) = 0 \<and>
     end_page (table ! count) = 0 \<and> (\<forall>k<count. first_page (table ! k) < end_page (table ! k)) \<and>
     (\<forall>k. Suc k < count \<longrightarrow> end_page (table ! k) \<le> first_page (table ! Suc k))"

lemma unat_masked: "unat (x AND PAGE_ADDR_MASK) = unat (x :: u64) div 4096 * 4096"
proof -
  have m: "PAGE_ADDR_MASK = NOT (mask 12)" by (simp add: page_defs mask_eq_exp_minus_1)
  show ?thesis unfolding m unat_and_not_mask by simp
qed

lemma in_window:
  assumes "p < 2 ^ 52"
  shows "page_address p \<ge> mw_begin (window_of e) \<longleftrightarrow> first_page e \<le> p"
    and "page_address p < mw_end (window_of e) \<longleftrightarrow> p < end_page e"
  by (simp_all add: window_of_def word_le_nat_alt word_less_nat_alt unat_masked unat_page_address [OF assms]
      first_page_def end_page_def)

lemma ordered_le:
  assumes "ordered_map table count" and "j < k" and "k < count"
  shows "end_page (table ! j) \<le> first_page (table ! k)"
  using assms(2,3)
proof (induction k)
  case (Suc k)
  have step: "end_page (table ! k) \<le> first_page (table ! Suc k)" using assms(1) Suc.prems by (simp add: ordered_map_def)
  show ?case
  proof (cases "j = k")
    case False
    then have "end_page (table ! j) \<le> first_page (table ! k)" using Suc by simp
    moreover have "first_page (table ! k) < end_page (table ! k)" using assms(1) Suc.prems by (simp add: ordered_map_def)
    ultimately show ?thesis using step by simp
  qed (use step in simp)
qed simp

lemma usable_page_nat:
  assumes "p < 2 ^ 52"
  shows "usable_page table count kstart kend p \<longleftrightarrow>
    (\<exists>k\<le>count. k < length table \<and> e8_type (table ! k) = E820_USABLE \<and> first_page (table ! k) \<le> p \<and>
       p < end_page (table ! k)) \<and> \<not> (kstart \<le> of_nat p \<and> of_nat p \<le> kend)"
  using in_window [OF assms] by (simp add: usable_page_def window_of_def)

text \<open>Where the scan of the map stands at page \<open>p\<close>.\<close>

definition scan_at :: "e820memmap list \<Rightarrow> nat \<Rightarrow> nat \<Rightarrow> nat \<Rightarrow> map_window \<Rightarrow> bool \<Rightarrow> bool" where
  "scan_at table count p e w jl \<longleftrightarrow> e \<le> count \<and> w = window_of (table ! e) \<and> (\<forall>k<e. end_page (table ! k) \<le> p) \<and>
     (if e < count then if jl then p \<le> first_page (table ! e) else first_page (table ! e) \<le> p \<and> p \<le> end_page (table ! e)
      else jl)"

lemma scan_switch:
  assumes "ordered_map table count" and "scan_at table count p e w jl" and "p < 2 ^ 52"
    and "\<not> (page_address p \<ge> mw_begin w \<and> page_address p < mw_end w)" and "\<not> jl"
  shows "e < count" and "next_window table (e + 1) = Inr (window_of (table ! Suc e))"
    and "scan_at table count p (Suc e) (window_of (table ! Suc e)) True"
proof -
  have s: "w = window_of (table ! e)" "\<forall>k<e. end_page (table ! k) \<le> p" "e \<le> count"
    "if e < count then first_page (table ! e) \<le> p \<and> p \<le> end_page (table ! e) else jl"
    using assms(2,5) by (auto simp: scan_at_def split: if_splits)
  show e: "e < count" using s(3,4) assms(5) by (auto split: if_splits)
  have "\<not> p < end_page (table ! e)" using assms(4) s(4) e unfolding s(1) in_window [OF assms(3)] by simp
  then have p: "end_page (table ! e) = p" using s(4) e by simp
  have len: "count < length table" using assms(1) by (simp add: ordered_map_def)
  show "next_window table (e + 1) = Inr (window_of (table ! Suc e))"
    using e len by (simp add: next_window_def window_of_def Let_def)
  have "\<forall>k<Suc e. end_page (table ! k) \<le> p" using s(2) p by (auto simp: less_Suc_eq)
  moreover have "p \<le> first_page (table ! Suc e)" if "Suc e < count" using assms(1) that p by (auto simp: ordered_map_def)
  ultimately show "scan_at table count p (Suc e) (window_of (table ! Suc e)) True" using e by (simp add: scan_at_def)
qed

lemma scan_page:
  assumes ord: "ordered_map table count" and at: "scan_at table count p e w jl" and p: "p < 2 ^ 52"
    and stay: "(page_address p \<ge> mw_begin w \<and> page_address p < mw_end w) \<or> jl"
  defines "inside \<equiv> page_address p \<ge> mw_begin w \<and> page_address p < mw_end w"
  shows "scan_at table count (Suc p) e w (if inside then False else jl)"
    and "(if inside then mw_type w \<noteq> E820_USABLE else True) \<or> (of_nat p \<ge> kstart \<and> of_nat p \<le> kend) \<longleftrightarrow>
      \<not> usable_page table count kstart kend p"
proof -
  have s: "w = window_of (table ! e)" "\<forall>k<e. end_page (table ! k) \<le> p" "e \<le> count"
    "if e < count then if jl then p \<le> first_page (table ! e) else first_page (table ! e) \<le> p \<and> p \<le> end_page (table ! e) else jl"
    using at by (auto simp: scan_at_def)
  have ord': "end_page (table ! count) = 0" "count < length table" "\<And>k. k < count \<Longrightarrow> first_page (table ! k) < end_page (table ! k)"
    using ord by (auto simp: ordered_map_def)
  have i: "inside \<longleftrightarrow> first_page (table ! e) \<le> p \<and> p < end_page (table ! e)"
    unfolding inside_def s(1) in_window [OF p] ..
  have e: "e < count" if inside
    using that i s(3) ord'(1) by (cases "e = count") auto
  have out: "p < first_page (table ! e)" if "\<not> inside" "e < count"
    using that i s(4) stay ord'(3) [OF that(2)] by (auto simp: inside_def split: if_splits)
  have jl: jl if "\<not> inside" using stay that unfolding inside_def by blast
  show "scan_at table count (Suc p) e w (if inside then False else jl)"
  proof (cases inside)
    case True
    then show ?thesis using s(1-3) e [OF True] i by (simp add: scan_at_def le_SucI)
  next
    case False
    then show ?thesis using s(1-3) jl [OF False] out [OF False] by (simp add: scan_at_def le_SucI Suc_le_eq)
  qed
  have only: "k = e" if "k \<le> count" "first_page (table ! k) \<le> p" "p < end_page (table ! k)" for k
  proof (rule ccontr)
    assume "k \<noteq> e"
    moreover have "k \<noteq> count" using that(3) ord'(1) by auto
    moreover have "\<not> k < e" using s(2) that(3) by auto
    ultimately have k: "e < k" "k < count" using that(1) by simp_all
    then have "p < end_page (table ! e)" using out i ord'(3) [of e] by (cases inside) auto
    then show False using ordered_le [OF ord k] that(2) by simp
  qed
  have "(\<exists>k\<le>count. k < length table \<and> e8_type (table ! k) = E820_USABLE \<and> first_page (table ! k) \<le> p \<and> p < end_page (table ! k))
      \<longleftrightarrow> inside \<and> mw_type w = E820_USABLE" (is "?L \<longleftrightarrow> ?R")
  proof
    assume ?L
    then obtain k where k: "k \<le> count" "e8_type (table ! k) = E820_USABLE" "first_page (table ! k) \<le> p"
      "p < end_page (table ! k)" by blast
    then have "k = e" using only by blast
    then show ?R using k i by (simp add: s(1) window_of_def)
  next
    assume ?R
    then show ?L using i s(3) ord'(2) by (intro exI [of _ e]) (simp add: s(1) window_of_def)
  qed
  then show "(if inside then mw_type w \<noteq> E820_USABLE else True) \<or> (of_nat p \<ge> kstart \<and> of_nat p \<le> kend) \<longleftrightarrow>
      \<not> usable_page table count kstart kend p"
    unfolding usable_page_nat [OF p] by auto
qed

section \<open>The loop on an ordered map\<close>

lemma page_array_exact_loop:
  assumes "ordered_map table count" and "n < 2 ^ 32" and "zone_layout s n" and "p \<le> n"
    and "n = (unat (max_phys_addr s) + 4095) div 4096"
    and "array_inv s (page_lists (zone_of s) (\<lambda>i. \<not> usable_page table count kstart kend i) p) p"
    and "scan_at table count p e w jl"
  shows "\<exists>s'. page_array_loop table count kstart kend (page_address p) (of_nat p) e w jl s = Some (Inr s') \<and>
    same_layout s' s \<and> array_inv s' (page_lists (zone_of s) (\<lambda>i. \<not> usable_page table count kstart kend i) n) n"
  using assms
proof (induction "2 * (n - p) + (if jl then 0 else 1)" arbitrary: p e w jl s rule: less_induct)
  case less
  note a = less.prems
  have p52: "p < 2 ^ 52" using a(2,4) by simp
  have run: "page_address p < max_phys_addr s \<longleftrightarrow> p < n"
    unfolding word_less_nat_alt unat_page_address [OF p52] a(5)
    by (auto simp: less_eq_div_iff_mult_less_eq Suc_le_eq [symmetric])
  let ?in = "page_address p \<ge> mw_begin w \<and> page_address p < mw_end w"
  let ?cls = "\<lambda>i. \<not> usable_page table count kstart kend i"
  show ?case
  proof (cases "p < n")
    case False
    then have "page_array_loop table count kstart kend (page_address p) (of_nat p) e w jl s = Some (Inr s)"
      using run by (subst page_array_loop.simps) simp
    moreover have "p = n" using False a(4) by simp
    ultimately show ?thesis using a(6) by (auto simp: same_layout_def)
  next
    case True
    show ?thesis
    proof (cases "\<not> ?in \<and> \<not> jl")
      case True
      note sw = scan_switch [OF a(1,7) p52 conjunct1 [OF True] conjunct2 [OF True]]
      have "page_array_loop table count kstart kend (page_address p) (of_nat p) e w jl s =
          page_array_loop table count kstart kend (page_address p) (of_nat p) (Suc e) (window_of (table ! Suc e)) True s"
        using True sw(1,2) \<open>p < n\<close> run by (subst page_array_loop.simps) (auto simp: Let_def)
      moreover have "2 * (n - p) + (if True then 0 else 1) < 2 * (n - p) + (if jl then 0 else 1)" using True by simp
      ultimately show ?thesis using less.hyps [OF _ a(1-6) sw(3)] by simp
    next
      case False
      then have stay: "?in \<or> jl" by blast
      note page = scan_page [OF a(1,7) p52 stay]
      let ?r = "(if ?in then mw_type w \<noteq> E820_USABLE else True) \<or> (of_nat p \<ge> kstart \<and> of_nat p \<le> kend)"
      let ?s = "add_page (zone_of s p) ?r (of_nat p) s"
      have nxt: "page_address p + PAGE_SIZE = page_address (Suc p)" "(of_nat p :: page_idx) + 1 = of_nat (Suc p)"
        by (simp_all add: page_address_def page_defs)
      have step: "page_array_loop table count kstart kend (page_address p) (of_nat p) e w jl s =
          page_array_loop table count kstart kend (page_address (Suc p)) (of_nat (Suc p)) e w (if ?in then False else jl) ?s"
        using False \<open>p < n\<close> run
        by (subst page_array_loop.simps) (simp only: Let_def if_True if_False zone_of_def nxt simp_thms)
      have lay: "same_layout ?s s" by (rule same_layout_add_page)
      then have eqs: "zone_of ?s = zone_of s" "max_phys_addr ?s = max_phys_addr s"
        by (auto simp: same_layout_def zone_of_def fun_eq_iff)
      have zl: "zone_layout ?s n" using a(3) zone_layout_cong [of ?s s n] by simp
      have "array_inv ?s (page_lists (zone_of s) (?cls(p := ?r)) (Suc p)) (Suc p)"
        using a(3,6) \<open>p < n\<close> by (intro add_page_inv) simp_all
      moreover have "?cls(p := ?r) = ?cls" unfolding page(2) by (rule fun_upd_triv)
      ultimately have inv: "array_inv ?s (page_lists (zone_of ?s) ?cls (Suc p)) (Suc p)" unfolding eqs by simp
      have "2 * (n - Suc p) + (if (if ?in then False else jl) then 0 else 1) < 2 * (n - p) + (if jl then 0 else 1)"
        using \<open>p < n\<close> by auto
      moreover have "Suc p \<le> n" "n = (unat (max_phys_addr ?s) + 4095) div 4096" using \<open>p < n\<close> a(5) eqs by simp_all
      ultimately show ?thesis using less.hyps [OF _ a(1,2) zl _ _ inv page(1)] step lay eqs(1)
        by (auto simp: same_layout_def)
    qed
  qed
qed

lemma page_array_exact_init:
  assumes "zone_layout (s\<lparr>page_frames_array := kdata_end\<rparr>) n" and "ordered_map table (unat e820count)"
    and "n = (unat (max_phys_addr s) + 4095) div 4096" and "n < 2 ^ 32"
    and "(kstart, kend) = kernel_pages kdata_end (max_phys_addr s)"
  shows "\<exists>s'. initialize_page_array kdata_end table e820count (initialize_zones s) = Some (Inr s') \<and>
    same_layout s' (s\<lparr>page_frames_array := kdata_end\<rparr>) \<and>
    array_inv s' (page_lists (zone_of s) (\<lambda>i. \<not> usable_page table (unat e820count) kstart kend i) n) n"
proof -
  let ?s = "(initialize_zones s)\<lparr>page_frames_array := kdata_end\<rparr>"
  let ?t = "s\<lparr>page_frames_array := kdata_end\<rparr>"
  let ?cls = "\<lambda>i. \<not> usable_page table (unat e820count) kstart kend i"
  have comm: "?s = initialize_zones ?t"
    by (simp add: initialize_zones_def initialize_zone_def Let_def upd_zone_def upd_links_def)
  have "table \<noteq> []" using assms(2) by (auto simp: ordered_map_def)
  then obtain e es where tab: "table = e # es" by (cases table) auto
  have "e8_base_address e = 0" using assms(2) tab by (simp add: ordered_map_def)
  then have w: "\<lparr>mw_begin = e8_base_address e, mw_end = e820_end e AND PAGE_ADDR_MASK, mw_type = e8_type e\<rparr> = window_of (table ! 0)"
    by (simp add: window_of_def tab)
  have scan: "scan_at table (unat e820count) 0 0 (window_of (table ! 0)) False"
    using assms(2) by (auto simp: scan_at_def ordered_map_def first_page_def)
  have lay': "zone_layout ?s n" using assms(1) zone_layout_cong [of ?s ?t n] unfolding comm by (simp add: frame_def)
  have n': "n = (unat (max_phys_addr ?s) + 4095) div 4096" using assms(3) by simp
  have inv: "array_inv ?s (page_lists (zone_of ?s) ?cls 0) 0"
    unfolding comm by (rule initialize_zones_inv [OF assms(1)])
  have z: "zone_of ?s = zone_of s" by (simp add: zone_of_def fun_eq_iff)
  have run: "initialize_page_array kdata_end table e820count (initialize_zones s) =
      page_array_loop table (unat e820count) kstart kend (page_address 0) (of_nat 0) 0 (window_of (table ! 0)) False ?s"
    using assms(5) [symmetric] w tab by (simp add: initialize_page_array_def Let_def page_address_def)
  have same: "same_layout ?s ?t" unfolding comm by (simp add: same_layout_def fun_eq_iff frame_def)
  from page_array_exact_loop [OF assms(2,4) lay' _ n' inv scan]
  show ?thesis unfolding run z using same by (auto simp: same_layout_def)
qed

lemma usable_page_split:
  "usable_page table count kstart kend i \<longleftrightarrow> usable_area table count i \<and> \<not> (kstart \<le> of_nat i \<and> of_nat i \<le> kend)"
  by (simp add: usable_page_def usable_area_def)


lemma sample_ordered: "ordered_map sample_e820 2"
proof -
  have k: "(\<forall>k<2. P k) \<longleftrightarrow> P 0 \<and> P (1 :: nat)" "(\<forall>k. Suc k < 2 \<longrightarrow> P k) \<longleftrightarrow> P 0" for P
    by (auto simp: less_Suc_eq numeral_2_eq_2)
  show ?thesis unfolding ordered_map_def k
    by (simp add: sample_e820_def first_page_def end_page_def e820_end_def e820_length_def)
qed


lemma page_carry:
  fixes a b :: nat
  assumes "4096 < a mod 4096 + b mod 4096"
  shows "(a + b) div 4096 = a div 4096 + b div 4096 + 1" and "4096 * ((a + b) div 4096) < a + b"
proof -
  have bounds: "4096 * (x + y + 1) < a + b \<and> a + b < 4096 * Suc (x + y + 1)"
    if "4096 < r + t" "4096 * x + r = a" "4096 * y + t = b" "r < 4096" "t < 4096" for x y r t
    using that unfolding that(2) [symmetric] that(3) [symmetric] by simp
  have "4096 * (a div 4096) + a mod 4096 = a" "4096 * (b div 4096) + b mod 4096 = b" "a mod 4096 < 4096" "b mod 4096 < 4096"
    by simp_all
  from bounds [OF assms this] have lo: "4096 * (a div 4096 + b div 4096 + 1) < a + b"
    and hi: "a + b < 4096 * Suc (a div 4096 + b div 4096 + 1)" by blast+
  then show q: "(a + b) div 4096 = a div 4096 + b div 4096 + 1" by (intro div_nat_eqI) (simp_all add: mult.commute)
  show "4096 * ((a + b) div 4096) < a + b" unfolding q by (rule lo)
qed


text \<open>A kernel that ends half a page behind its last page boundary, on a machine with 8256 pages.\<close>

definition uneven_state :: mm_state where
  "uneven_state = sample_state\<lparr>max_phys_addr := 0x2040000\<rparr>"

definition uneven_e820 :: "e820memmap list" where
  "uneven_e820 = [\<lparr>e8_base_address = 0, e8_length_low = 0x9f000, e8_length_high = 0, e8_type = 1\<rparr>,
     \<lparr>e8_base_address = 0x100000, e8_length_low = 0x1f40000, e8_length_high = 0, e8_type = 1\<rparr>,
     \<lparr>e8_base_address = 0, e8_length_low = 0, e8_length_high = 0, e8_type = 0\<rparr>]"


section \<open>The caches\<close>

text \<open>The first of the two caches keeps its pages while the second one is filled.\<close>

lemma two_caches_ok:
  assumes "dlist (mm_links s) (z_pages (memory_zones s ZONE_NORMAL)) xs" and "2 * length xs < 2 ^ 32"
    and "percpu_caches s = [c0, c1]" and "pc_pages c0 \<noteq> pc_pages c1"
    and "{pc_pages c0, pc_pages c1} \<inter> insert (z_pages (memory_zones s ZONE_NORMAL)) (set xs) = {}"
  defines "tot \<equiv> z_num_total_pages (memory_zones s ZONE_NORMAL)"
  defines "c \<equiv> if tot div NR_CPUS + NR_CPUS \<ge> tot then tot else tot div NR_CPUS"
  defines "k \<equiv> min (length xs) ((unat c + 1) div 2)"
  shows "\<exists>s' c1'. initialize_percpu_caches s = Some s' \<and>
    percpu_caches s' = [c0\<lparr>pc_num_free_pages := of_nat (2 * k), pc_total_pages := of_nat (2 * k)\<rparr>, c1'] \<and>
    dlist (mm_links s') (pc_pages c0) (take k xs) \<and> mm_idx s' = mm_idx s \<and> max_phys_addr s' = max_phys_addr s \<and>
    memory_zones s' ZONE_DMA = memory_zones s ZONE_DMA"
proof -
  let ?Z = "z_pages (memory_zones s ZONE_NORMAL)"
  have "pc_pages c0 \<notin> insert ?Z (set xs)" using assms(5) by auto
  from fill_cache_ok [OF assms(1) this assms(2), of "tot div NR_CPUS", folded tot_def, folded c_def, folded k_def]
  obtain s1 where s1: "fill_cache (tot div NR_CPUS) c0 s =
      Some (c, c0\<lparr>pc_num_free_pages := of_nat (2 * k), pc_total_pages := of_nat (2 * k)\<rparr>, s1)"
    "dlist (mm_links s1) (pc_pages c0) (take k xs)"
    "dlist (mm_links s1) (z_pages (memory_zones s1 ZONE_NORMAL)) (drop k xs)" "same_frames s1 s" by blast
  have Z1: "z_pages (memory_zones s1 ZONE_NORMAL) = ?Z" using s1(4) by (simp add: same_frames_def)
  have "set (drop k xs) \<subseteq> set xs" "set (take k xs) \<subseteq> set xs" by (simp_all add: set_drop_subset set_take_subset)
  then have disj: "pc_pages c1 \<notin> insert (z_pages (memory_zones s1 ZONE_NORMAL)) (set (drop k xs))"
    using assms(5) unfolding Z1 by auto
  have len: "2 * length (drop k xs) < 2 ^ 32" using assms(2) by simp
  have dx: "distinct xs" "?Z \<notin> set xs" using assms(1) by (auto simp: dlist_def)
  from fill_cache_ok [OF s1(3) disj len, of c]
  obtain c' cc k' s2 where s2: "fill_cache c c1 s1 = Some (c', cc, s2)" "same_frames s2 s1"
    "\<And>q qs. dlist (mm_links s1) q qs \<Longrightarrow>
      insert q (set qs) \<inter> (insert (z_pages (memory_zones s1 ZONE_NORMAL)) (set (drop k xs)) \<union> {pc_pages c1}) = {} \<Longrightarrow>
      dlist (mm_links s2) q qs" by blast
  have "set (take k xs) \<inter> set (drop k xs) = {}" using dx(1) by (metis append_take_drop_id distinct_append)
  then have "insert (pc_pages c0) (set (take k xs)) \<inter> (insert ?Z (set (drop k xs)) \<union> {pc_pages c1}) = {}"
    using assms(4,5) dx(2) \<open>set (drop k xs) \<subseteq> set xs\<close> \<open>set (take k xs) \<subseteq> set xs\<close> by auto
  then have "dlist (mm_links s2) (pc_pages c0) (take k xs)" using s2(3) [OF s1(2)] Z1 by simp
  moreover have "mm_idx s2 = mm_idx s" "max_phys_addr s2 = max_phys_addr s" "memory_zones s2 ZONE_DMA = memory_zones s ZONE_DMA"
    using s1(4) s2(2) by (simp_all add: same_frames_def)
  ultimately show ?thesis
    using s1(1) s2(1) by (simp add: initialize_percpu_caches_def tot_def assms(3))
qed

text \<open>The view that \<^verbatim>\<open>mm/pagealloc.c\<close> has of the state on CPU 0.\<close>

definition kmm_of :: "(u64 \<Rightarrow> u64) \<Rightarrow> mm_state \<Rightarrow> kmm" where
  "kmm_of mem s = \<lparr>kmem = mem, frame_links = mm_links s, frame_idx = mm_idx s, cpu_cache = percpu_caches s ! 0,
     mem_total_pages = swks_mem_total_pages s\<rparr>"

section \<open>Building the page array\<close>

lemma scan_e820_found: "n \<le> length t \<Longrightarrow> scan_e820 t n True s = Inr (True, s)"
  by (induction t n True s rule: scan_e820.induct) auto

lemma detect_main_area:
  assumes "j < unat e820count" and "unat e820count \<le> length table" and "main_memory_area (table ! j)"
    and "\<forall>i<j. \<not> main_memory_area (table ! i)"
    and "0 < e820_end (table ! j)" and "e820_end (table ! j) < - (MIN_PHYS_MEMORY_REQUIRED)"
  shows "detect_physical_memory table e820count s =
    Inr (s\<lparr>min_phys_addr := 0, max_phys_addr := e820_end (table ! j), mm_dma_pages := 4096\<rparr>)"
proof -
  have scan: "scan_e820 t n False s = Inr (True, s\<lparr>min_phys_addr := 0, max_phys_addr := e820_end (t ! j)\<rparr>)"
    if "j < n" "n \<le> length t" "main_memory_area (t ! j)" "\<forall>i<j. \<not> main_memory_area (t ! i)" for t n j
    using that
  proof (induction t arbitrary: n j)
    case (Cons x t)
    then obtain n' where n: "n = Suc n'" by (cases n) auto
    show ?case
    proof (cases j)
      case 0
      then show ?thesis using Cons.prems n scan_e820_found by simp
    next
      case (Suc i)
      then have "\<not> main_memory_area x" using spec [OF Cons.prems(4), of 0] by simp
      moreover have "\<forall>l<i. \<not> main_memory_area (t ! l)" using Cons.prems(4) Suc by auto
      ultimately show ?thesis using Cons.IH [of i n'] Cons.prems Suc n by simp
    qed
  qed simp
  let ?e = "e820_end (table ! j)"
  have "unat (- ?e) = 2 ^ 64 - unat ?e"
    using assms(5) unat_sub_if_size [of 0 ?e] by (simp add: word_size word_less_nat_alt)
  moreover have "unat ?e < 2 ^ 64 - 0x1800000"
    using assms(6) by (simp add: word_less_nat_alt MIN_PHYS_MEMORY_REQUIRED_def)
  ultimately have "\<not> - ?e \<le> MIN_PHYS_MEMORY_REQUIRED" by (simp add: word_le_nat_alt MIN_PHYS_MEMORY_REQUIRED_def)
  then show ?thesis
    using scan [OF assms(1-4)] assms(5) by (simp add: detect_physical_memory_def not_le page_defs)
qed

text \<open>A map whose first main area is entry \<open>j\<close> and ends with page \<open>N\<close>. The lemmas ask for 4608 to \<open>2 ^ 18\<close> pages, 18 MB to
  1 GB: enough behind the 16 MB of the DMA zone for a cache, and a direct mapping that ends with the address space.\<close>

definition boot_map :: "e820memmap list \<Rightarrow> u8 \<Rightarrow> nat \<Rightarrow> nat \<Rightarrow> bool" where
  "boot_map table e820count j N \<longleftrightarrow>
     ordered_map table (unat e820count) \<and> e820count < 0xff \<and> j < unat e820count \<and> main_memory_area (table ! j) \<and>
     (\<forall>i<j. \<not> main_memory_area (table ! i)) \<and> unat (e820_end (table ! j)) = 4096 * N"

text \<open>Where the linker and the loader put the kernel: its image and the page array end below 16 MB, and the list
  heads and the page array do not overlap.\<close>

definition boot_layout :: "addr \<Rightarrow> nat \<Rightarrow> mm_state \<Rightarrow> percpu_page_cache \<Rightarrow> percpu_page_cache \<Rightarrow> bool" where
  "boot_layout kdata_end N s c0 c1 \<longleftrightarrow>
     zone_layout (s\<lparr>page_frames_array := kdata_end\<rparr>) N \<and> KERNEL_BASE + KERNEL_PHYS_START \<le> kdata_end \<and>
     image_end kdata_end N < 0x1000000 \<and>
     percpu_caches s = [c0, c1] \<and> pc_pages c0 \<noteq> pc_pages c1 \<and>
     (\<forall>c \<in> {c0, c1}. pc_pages c \<noteq> ring_head s ZONE_NORMAL False \<and> (\<forall>i<N. pc_pages c \<noteq> frame_at kdata_end (of_nat i)))"

definition first_cache :: "nat \<Rightarrow> nat" where
  "first_cache N = ((N - 4096) div 2 + 1) div 2"

lemma normal_pages:
  assumes "boot_map table e820count j N" and "mm_dma_pages s = 4096" and "kend < 4096"
    and N: "4608 \<le> N" "N \<le> 2 ^ 18"
  shows "page_lists (zone_of s) (\<lambda>i. \<not> usable_page table (unat e820count) kstart kend i) N ZONE_NORMAL False = [4096..<N]"
    and "page_lists (zone_of s) (\<lambda>i. \<not> usable_page table (unat e820count) kstart kend i) N ZONE_NORMAL True = []"
proof -
  have b: "j < unat e820count" "unat e820count < length table" "main_memory_area (table ! j)"
    "unat (e820_end (table ! j)) = 4096 * N" "N \<le> 2 ^ 18" "4608 \<le> N"
    using assms(1) N by (simp_all add: boot_map_def ordered_map_def)
  have zone: "zone_of s i = ZONE_NORMAL \<longleftrightarrow> 4096 \<le> i" if "i < N" for i
    using that b(5) unat_of_nat_small [where 'a = 32, of i] by (simp add: zone_of_def assms(2) word_less_nat_alt not_less)
  have usable: "usable_page table (unat e820count) kstart kend i" if "4096 \<le> i" "i < N" for i
  proof -
    have "first_page (table ! j) = 256" "end_page (table ! j) = N" "e8_type (table ! j) = E820_USABLE"
      using b(3,4) by (simp_all add: main_memory_area_def KERNEL_PHYS_START_def first_page_def end_page_def E820_USABLE_def)
    moreover have "\<not> of_nat i \<le> kend"
      using that b(5) assms(3) unat_of_nat_small [where 'a = 32, of i] by (simp add: word_less_nat_alt word_le_nat_alt)
    ultimately show ?thesis
      using that b(1,2,5) by (subst usable_page_nat) (auto intro!: exI [of _ j])
  qed
  have "page_lists (zone_of s) (\<lambda>i. \<not> usable_page table (unat e820count) kstart kend i) N ZONE_NORMAL r =
      (if r then [] else [4096..<N])" for r
  proof -
    have split: "[0..<N] = [0..<4096] @ [4096..<N]" using b(6) upt_add_eq_append [of 0 4096 "N - 4096"] by simp
    have "filter Q [0..<4096] = []" if "\<And>i. i < 4096 \<Longrightarrow> \<not> Q i" for Q :: "nat \<Rightarrow> bool"
      using that by (simp add: filter_empty_conv)
    moreover have "filter Q [4096..<N] = (if r then [] else [4096..<N])" if "\<And>i. 4096 \<le> i \<Longrightarrow> i < N \<Longrightarrow> Q i = (\<not> r)" for Q
      using that by (cases r) (simp_all add: filter_empty_conv filter_id_conv)
    ultimately show ?thesis unfolding page_lists_def split filter_append
      using zone usable b(6) by auto
  qed
  then show "page_lists (zone_of s) (\<lambda>i. \<not> usable_page table (unat e820count) kstart kend i) N ZONE_NORMAL False = [4096..<N]"
    "page_lists (zone_of s) (\<lambda>i. \<not> usable_page table (unat e820count) kstart kend i) N ZONE_NORMAL True = []" by simp_all
qed

text \<open>Building the page array on a machine with an ordered map gives the first CPU the first pages of normal memory, a
  quarter of them in order from page 4096 on, and counts the pages of the machine.\<close>

lemma dma_pages:
  assumes "N \<le> 2 ^ 18" and "4096 \<le> N" and "mm_dma_pages s = 4096"
  shows "length (page_lists (zone_of s) cls N ZONE_DMA False) + length (page_lists (zone_of s) cls N ZONE_DMA True) = 4096"
proof -
  have zone: "zone_of s i = ZONE_DMA \<longleftrightarrow> i < 4096" if "i < N" for i
    using that assms unat_of_nat_small [where 'a = 32, of i] by (simp add: zone_of_def word_less_nat_alt)
  have split: "[0..<N] = [0..<4096] @ [4096..<N]" using assms(2) upt_add_eq_append [of 0 4096 "N - 4096"] by simp
  have low: "filter (\<lambda>i. zone_of s i = ZONE_DMA) [0..<N] = [0..<4096]"
    unfolding split filter_append using zone assms(2) by (simp add: filter_empty_conv filter_id_conv)
  have "page_lists (zone_of s) cls N ZONE_DMA r = filter (\<lambda>i. cls i = r) [0..<4096]" for r
    unfolding page_lists_def low [symmetric] filter_filter by (simp add: conj_commute)
  then show ?thesis using sum_length_filter_compl [of cls "[0..<4096]"] by (simp add: add.commute)
qed

lemma build_page_array_ok:
  assumes map: "boot_map table e820count j N" and lay: "boot_layout kdata_end N s c0 c1" and N: "4608 \<le> N" "N \<le> 2 ^ 18"
  shows "\<exists>s'. build_page_array kdata_end table e820count s = Some (Inr s') \<and>
    cache_frames (kmm_of mem s') (map of_nat [4096..<4096 + first_cache N]) \<and> swks_mem_total_pages s' = of_nat N \<and>
    z_num_total_pages (memory_zones s' ZONE_DMA) = 4096"
proof -
  have b: "ordered_map table (unat e820count)" "e820count < 0xff" "j < unat e820count" "unat e820count < length table"
    "main_memory_area (table ! j)" "\<forall>i<j. \<not> main_memory_area (table ! i)"
    "unat (e820_end (table ! j)) = 4096 * N" "4608 \<le> N" "N \<le> 2 ^ 18"
    using map N by (simp_all add: boot_map_def ordered_map_def)
  have l: "zone_layout (s\<lparr>page_frames_array := kdata_end\<rparr>) N"
    "KERNEL_BASE + KERNEL_PHYS_START \<le> kdata_end \<and> image_end kdata_end N < 0x1000000"
    "percpu_caches s = [c0, c1]" "pc_pages c0 \<noteq> pc_pages c1"
    "\<And>c. c \<in> {c0, c1} \<Longrightarrow> pc_pages c \<noteq> ring_head s ZONE_NORMAL False \<and> (\<forall>i<N. pc_pages c \<noteq> frame_at kdata_end (of_nat i))"
    using lay by (auto simp: boot_layout_def)
  have e: "e820_end (table ! j) = of_nat (4096 * N)" using b(7) by (metis of_nat_unat ucast_id)
  define s1 where "s1 = s\<lparr>min_phys_addr := 0, max_phys_addr := e820_end (table ! j), mm_dma_pages := 4096\<rparr>"
  have detect: "detect_physical_memory table e820count s = Inr s1"
    unfolding s1_def using b(3-9) by (intro detect_main_area) (simp_all add: word_less_nat_alt MIN_PHYS_MEMORY_REQUIRED_def)
  have "unat (max_phys_addr s1) = 4096 * N" "N < 2 ^ 32" using b(7,9) by (simp_all add: s1_def)
  from kernel_pages_nat [OF conjunct1 [OF l(2)] this]
  obtain kstart kend where k: "(kstart, kend) = kernel_pages kdata_end (max_phys_addr s1)"
    "unat kend = unat (kdata_end - KERNEL_BASE) div 4096 + 40 * N div 4096" by metis
  have "unat kend \<le> image_end kdata_end N div 4096"
    unfolding k(2) image_end_def sizeof_page_frame_def by (simp add: div_add1_eq [of "unat (kdata_end - KERNEL_BASE)"])
  also have "\<dots> < 4096" using l(2) by (simp add: div_less_iff_less_mult)
  finally have kend: "kend < 4096" by (simp add: word_less_nat_alt)
  have lay1: "zone_layout (s1\<lparr>page_frames_array := kdata_end\<rparr>) N"
    using l(1) zone_layout_cong [of "s1\<lparr>page_frames_array := kdata_end\<rparr>" "s\<lparr>page_frames_array := kdata_end\<rparr>" N]
    by (simp add: s1_def ring_head_def frame_def)
  have n: "N = (unat (max_phys_addr s1) + 4095) div 4096" using b(7) by (simp add: s1_def)
  have "N < 2 ^ 32" using b(9) by simp
  from page_array_exact_init [OF lay1 b(1) n this k(1)]
  obtain s2 where s2: "initialize_page_array kdata_end table e820count (initialize_zones s1) = Some (Inr s2)"
    "same_layout s2 (s1\<lparr>page_frames_array := kdata_end\<rparr>)"
    "array_inv s2 (page_lists (zone_of s1) (\<lambda>i. \<not> usable_page table (unat e820count) kstart kend i) N) N" by blast
  have dma: "mm_dma_pages s1 = 4096" by (simp add: s1_def)
  note lists = normal_pages [OF map dma kend N]
  define xs where "xs = map (frame s2) [4096..<N]"
  have fr: "frame s2 i = frame_at kdata_end (of_nat i)" for i using s2(2) by (simp add: same_layout_def frame_def fun_eq_iff)
  have head: "z_pages (memory_zones s2 ZONE_NORMAL) = ring_head s ZONE_NORMAL False"
  proof -
    have "ring_head s2 ZONE_NORMAL False = ring_head (s1\<lparr>page_frames_array := kdata_end\<rparr>) ZONE_NORMAL False"
      using s2(2) by (simp add: same_layout_def)
    then show ?thesis by (simp add: ring_head_def s1_def)
  qed
  have idx: "mm_idx s2 (frame s2 i) = of_nat i" if "i < N" for i using s2(3) that by (simp add: array_inv_def)
  have ring: "dlist (mm_links s2) (z_pages (memory_zones s2 ZONE_NORMAL)) xs"
    using s2(3) lists(1) unfolding array_inv_def xs_def by (metis ring_head_def)
  have tot: "z_num_total_pages (memory_zones s2 ZONE_NORMAL) = of_nat (N - 4096)"
    using s2(3) lists unfolding array_inv_def by simp
  have len: "2 * length xs < 2 ^ 32" "length xs = N - 4096" using b(9) by (simp_all add: xs_def)
  have pcs: "percpu_caches s2 = [c0, c1]" using s2(2) l(3) by (simp add: same_layout_def s1_def)
  have disj: "{pc_pages c0, pc_pages c1} \<inter> insert (z_pages (memory_zones s2 ZONE_NORMAL)) (set xs) = {}"
    using l(5) [of c0] l(5) [of c1] unfolding head xs_def by (auto simp: fr)
  have nat: "unat (of_nat (N - 4096) :: u32) = N - 4096" using b(9) by (intro unat_of_nat_small) simp
  let ?half = "of_nat (N - 4096) div NR_CPUS :: u32"
  have half: "unat ?half = (N - 4096) div 2" by (simp add: NR_CPUS_def unat_div nat)
  have "unat (?half + NR_CPUS) = (N - 4096) div 2 + 2"
    using half b(9) by (simp add: unat_word_ariths NR_CPUS_def)
  then have "\<not> ?half + NR_CPUS \<ge> of_nat (N - 4096)" using b(8) nat by (simp add: word_le_nat_alt)
  then have k0: "min (length xs) ((unat (if ?half + NR_CPUS \<ge> of_nat (N - 4096) then of_nat (N - 4096) else ?half) + 1) div 2) = first_cache N"
    using half b(8) by (simp add: len(2) first_cache_def)
  from two_caches_ok [OF ring len(1) pcs l(4) disj, unfolded tot k0]
  obtain s3 c1' where s3: "initialize_percpu_caches s2 = Some s3"
    "percpu_caches s3 = [c0\<lparr>pc_num_free_pages := of_nat (2 * first_cache N), pc_total_pages := of_nat (2 * first_cache N)\<rparr>, c1']"
    "dlist (mm_links s3) (pc_pages c0) (take (first_cache N) xs)" "mm_idx s3 = mm_idx s2" "max_phys_addr s3 = max_phys_addr s2"
    "memory_zones s3 ZONE_DMA = memory_zones s2 ZONE_DMA" by blast
  have "z_num_total_pages (memory_zones s2 ZONE_DMA) = of_nat 4096"
    using s2(3) dma_pages [OF b(9) _ dma] b(8) unfolding array_inv_def by (simp del: of_nat_add)
  then have dmat: "z_num_total_pages (memory_zones s3 ZONE_DMA) = 4096" using s3(6) by simp
  define s4 where "s4 = setup_memory_swks s3"
  have fc: "first_cache N \<le> N - 4096" "2 * first_cache N < 2 ^ 32" using b(9) by (simp_all add: first_cache_def)
  have tk: "take (first_cache N) xs = map (frame s2) [4096..<4096 + first_cache N]"
    using fc(1) b(8) by (simp add: xs_def take_map take_upt)
  have "unat (of_nat (2 * first_cache N) :: u32) = 2 * first_cache N" using fc(2) by (intro unat_of_nat_small) simp
  then have "cache_rep (kmm_of mem s4) (map (frame s2) [4096..<4096 + first_cache N])"
    using s3(2,3) by (simp add: cache_rep_def kmm_of_def s4_def setup_memory_swks_def tk)
  moreover have "map (frame_idx (kmm_of mem s4)) (map (frame s2) [4096..<4096 + first_cache N]) = map of_nat [4096..<4096 + first_cache N]"
  proof -
    have "mm_idx s2 (frame s2 x) = of_nat x" if "x < 4096 + first_cache N" for x
      using that fc(1) b(8) by (intro idx) linarith
    then show ?thesis using s3(4) by (simp add: kmm_of_def s4_def setup_memory_swks_def)
  qed
  ultimately have cache: "cache_frames (kmm_of mem s4) (map of_nat [4096..<4096 + first_cache N])"
    unfolding cache_frames_def by metis
  have "max_phys_addr s3 = of_nat (4096 * N)" using s3(5) s2(2) e by (simp add: same_layout_def s1_def)
  then have "swks_mem_total_pages s4 = ucast (of_nat (4096 * N) div PAGE_SIZE :: u64)"
    by (simp add: s4_def setup_memory_swks_def)
  moreover have "unat (of_nat (4096 * N) :: u64) = 4096 * N" using b(9) by (intro unat_of_nat_small) simp
  then have "unat (of_nat (4096 * N) div PAGE_SIZE :: u64) = N" by (simp add: page_defs unat_div)
  then have "ucast (of_nat (4096 * N) div PAGE_SIZE :: u64) = (of_nat N :: u32)" by (metis of_nat_unat)
  ultimately have "swks_mem_total_pages s4 = of_nat N" by simp
  moreover have "build_page_array kdata_end table e820count s = Some (Inr s4)"
    using b(2) detect s2(1) s3(1) by (simp add: build_page_array_def obind_def s4_def)
  moreover have "z_num_total_pages (memory_zones s4 ZONE_DMA) = 4096" using dmat by (simp add: s4_def setup_memory_swks_def)
  ultimately show ?thesis using cache by - (rule exI [of _ s4], intro conjI)
qed

end
