(* ===== verification/Mui_CString.thy ===== *)
theory Mui_CString
  imports Mui_Prelude
begin

text \<open>
  The memory and string routines of \<^verbatim>\<open>include/mlibc/string.h\<close> on a byte-addressed memory, and
  the buffer of kernel messages of \<^verbatim>\<open>mlibc/kprintf.c\<close> that uses them. A scan for the end of a
  string may never end, so the routines that scan are partial functions: the value \<open>None\<close> is a
  scan that does not return. Characters are signed where the code compares or subtracts them.
\<close>

section \<open>Memory\<close>

type_synonym bytes = "addr \<Rightarrow> u8"

definition store16 :: "addr \<Rightarrow> u16 \<Rightarrow> bytes \<Rightarrow> bytes" where
  "store16 p v m = m(p := ucast v, p + 1 := ucast (drop_bit 8 v))"

fun load_bytes :: "bytes \<Rightarrow> addr \<Rightarrow> nat \<Rightarrow> u64" where
  "load_bytes m p 0 = 0"
| "load_bytes m p (Suc n) = ucast (m p) OR push_bit 8 (load_bytes m (p + 1) n)"

fun store_bytes :: "addr \<Rightarrow> nat \<Rightarrow> u64 \<Rightarrow> bytes \<Rightarrow> bytes" where
  "store_bytes p 0 v m = m"
| "store_bytes p (Suc n) v m = store_bytes (p + 1) n (drop_bit 8 v) (m(p := ucast v))"

section \<open>Blocks of memory\<close>

text \<open>The loops \<^verbatim>\<open>while (n-- > 0)\<close> recurse on the number of rounds left.\<close>

fun fill_chars :: "u32 \<Rightarrow> addr \<Rightarrow> nat \<Rightarrow> bytes \<Rightarrow> bytes" where
  "fill_chars c to 0 m = m"
| "fill_chars c to (Suc n) m = fill_chars c (to + 1) n (m(to := ucast c))"

fun fill_halves :: "u16 \<Rightarrow> addr \<Rightarrow> nat \<Rightarrow> bytes \<Rightarrow> addr \<times> bytes" where
  "fill_halves tmp to 0 m = (to, m)"
| "fill_halves tmp to (Suc len) m = fill_halves tmp (to + 2) len (store16 to tmp m)"

definition memset :: "addr \<Rightarrow> u32 \<Rightarrow> u64 \<Rightarrow> bytes \<Rightarrow> bytes" where
  "memset s c n m =
     (if s AND 1 \<noteq> 0 then fill_chars c s (unat n) m
      else let tmp = ucast ((c AND 0xff) OR push_bit 8 (c AND 0xff));
               (to, m) = fill_halves tmp s (unat (drop_bit 1 n)) m
           in if n AND 1 \<noteq> 0 then m(to := ucast c) else m)"

fun copy_chars :: "addr \<Rightarrow> addr \<Rightarrow> nat \<Rightarrow> bytes \<Rightarrow> bytes" where
  "copy_chars to from 0 m = m"
| "copy_chars to from (Suc n) m = copy_chars (to + 1) (from + 1) n (m(to := m from))"

definition memcpy :: "addr \<Rightarrow> addr \<Rightarrow> u64 \<Rightarrow> bytes \<Rightarrow> bytes" where
  "memcpy dst src n m = copy_chars dst src (unat n) m"

definition char_diff :: "u8 \<Rightarrow> u8 \<Rightarrow> int" where
  "char_diff a b = sint a - sint b"

fun compare_chars :: "bytes \<Rightarrow> addr \<Rightarrow> addr \<Rightarrow> nat \<Rightarrow> int" where
  "compare_chars m p1 p2 0 = 0"
| "compare_chars m p1 p2 (Suc n) =
     (if m p1 \<noteq> m p2 then char_diff (m p1) (m p2) else compare_chars m (p1 + 1) (p2 + 1) n)"

definition memcmp :: "bytes \<Rightarrow> addr \<Rightarrow> addr \<Rightarrow> u64 \<Rightarrow> int" where
  "memcmp m s1 s2 n = compare_chars m s1 s2 (unat n)"

section \<open>Strings\<close>

text \<open>\<open>skip_while m stop p\<close>: the loop \<^verbatim>\<open>for (; !stop(*p); p++)\<close>.\<close>

partial_function (option) skip_until :: "bytes \<Rightarrow> (u8 \<Rightarrow> bool) \<Rightarrow> addr \<Rightarrow> addr option" where
  "skip_until m stop p = (if stop (m p) then Some p else skip_until m stop (p + 1))"

partial_function (option) strlen_loop :: "bytes \<Rightarrow> addr \<Rightarrow> u64 \<Rightarrow> u64 option" where
  "strlen_loop m p n = (if m p = 0 then Some n else strlen_loop m (p + 1) (n + 1))"

definition strlen :: "bytes \<Rightarrow> addr \<Rightarrow> u64 option" where
  "strlen m s = strlen_loop m s 0"

definition strncpy :: "addr \<Rightarrow> addr \<Rightarrow> u64 \<Rightarrow> bytes \<Rightarrow> bytes" where
  "strncpy dst src n m = (copy_chars dst src (unat n) m)(dst + n := 0)"

partial_function (option) copy_string :: "addr \<Rightarrow> addr \<Rightarrow> bytes \<Rightarrow> bytes option" where
  "copy_string to from m =
     (if m from \<noteq> 0 then copy_string (to + 1) (from + 1) (m(to := m from)) else Some (m(to := 0)))"

definition strcpy :: "addr \<Rightarrow> addr \<Rightarrow> bytes \<Rightarrow> bytes option" where
  "strcpy dst src m = copy_string dst src m"

definition strncat :: "addr \<Rightarrow> addr \<Rightarrow> u64 \<Rightarrow> bytes \<Rightarrow> bytes option" where
  "strncat dst src n m = map_option (\<lambda>to. (copy_chars to src (unat n) m)(to + n := 0))
     (skip_until m (\<lambda>c. c = 0) dst)"

definition strcat :: "addr \<Rightarrow> addr \<Rightarrow> bytes \<Rightarrow> bytes option" where
  "strcat dst src m = Option.bind (skip_until m (\<lambda>c. c = 0) dst) (\<lambda>to. copy_string to src m)"

definition strncmp :: "bytes \<Rightarrow> addr \<Rightarrow> addr \<Rightarrow> u64 \<Rightarrow> int" where
  "strncmp m s1 s2 n = compare_chars m s1 s2 (unat n)"

partial_function (option) strcmp :: "bytes \<Rightarrow> addr \<Rightarrow> addr \<Rightarrow> int option" where
  "strcmp m p1 p2 =
     (if m p1 \<noteq> 0 \<and> m p2 \<noteq> 0 then
        if m p1 \<noteq> m p2 then Some (char_diff (m p1) (m p2)) else strcmp m (p1 + 1) (p2 + 1)
      else if m p1 = 0 then Some (- 1)
      else if m p2 = 0 then Some 1
      else Some 0)"

text \<open>\<^verbatim>\<open>*p != c\<close> compares the sign-extended character with the \<^verbatim>\<open>int\<close> argument.\<close>

definition char_is :: "int \<Rightarrow> u8 \<Rightarrow> bool" where
  "char_is c x \<longleftrightarrow> sint x = c"

definition strchr :: "bytes \<Rightarrow> addr \<Rightarrow> int \<Rightarrow> addr option" where
  "strchr m s c = map_option (\<lambda>p. if m p = 0 then 0 else p)
     (skip_until m (\<lambda>x. x = 0 \<or> char_is c x) s)"

definition strrchr :: "bytes \<Rightarrow> addr \<Rightarrow> int \<Rightarrow> addr option" where
  "strrchr m s c = Option.bind (skip_until m (\<lambda>x. x = 0 \<or> char_is c x) s)
     (\<lambda>p. if m p = 0 then Some 0
           else map_option (\<lambda>p. p + 1) (skip_until m (\<lambda>x. \<not> char_is c x) p))"

partial_function (option) match_needle :: "bytes \<Rightarrow> addr \<Rightarrow> addr \<Rightarrow> (addr \<times> addr) option" where
  "match_needle m s1 s2 =
     (if m s1 \<noteq> 0 \<and> m s1 \<noteq> 0 then
        if m s1 = m s2 then match_needle m (s1 + 1) (s2 + 1) else Some (s1 + 1, s2 + 1)
      else Some (s1, s2))"

definition strstr :: "bytes \<Rightarrow> addr \<Rightarrow> addr \<Rightarrow> addr option" where
  "strstr m haystack needle =
     Option.bind (skip_until m (\<lambda>x. x = 0 \<or> x = m needle) haystack) (\<lambda>s1.
       map_option (\<lambda>(s1, s2). if m s1 = 0 \<or> m s2 = 0 then 0 else s1) (match_needle m s1 needle))"

declare skip_until.simps [code] strlen_loop.simps [code] copy_string.simps [code]
  strcmp.simps [code] match_needle.simps [code]

section \<open>The buffer of kernel messages\<close>

text \<open>\<^verbatim>\<open>__kbuf\<close> at address \<open>kbuf\<close>: \<^verbatim>\<open>cur_size\<close>, \<^verbatim>\<open>size\<close> and then \<^verbatim>\<open>space\<close>.\<close>

definition kbuf_cur_size :: "addr \<Rightarrow> bytes \<Rightarrow> u64" where
  "kbuf_cur_size kbuf m = load_bytes m kbuf 8"

definition kbuf_size :: "addr \<Rightarrow> bytes \<Rightarrow> u64" where
  "kbuf_size kbuf m = load_bytes m (kbuf + 8) 8"

definition kbuf_space :: "addr \<Rightarrow> addr" where
  "kbuf_space kbuf = kbuf + 16"

definition kbuf_insert :: "addr \<Rightarrow> addr \<Rightarrow> u64 \<Rightarrow> bytes \<Rightarrow> u64 \<times> bytes" where
  "kbuf_insert kbuf s slen m =
     (if slen > kbuf_size kbuf m then (- 1, m)
      else
        let m = (if slen > kbuf_size kbuf m - kbuf_cur_size kbuf m
                 then store_bytes kbuf 8 0 (memset kbuf 0 (kbuf_cur_size kbuf m) m) else m);
            m = strncpy (kbuf_space kbuf + kbuf_cur_size kbuf m) s slen m;
            m = store_bytes kbuf 8 (kbuf_cur_size kbuf m + slen) m
        in (slen, m))"

definition kbuf_get :: "addr \<Rightarrow> bytes \<Rightarrow> addr" where
  "kbuf_get kbuf m =
     (if kbuf_cur_size kbuf m = 0 then 0 else kbuf_space kbuf + kbuf_cur_size kbuf m)"

section \<open>What the loops do\<close>

text \<open>\<open>in_block a s n\<close>: the address \<open>a\<close> is one of the \<open>n\<close> bytes from \<open>s\<close>, the block being allowed
  to run over the end of the address space.\<close>

definition in_block :: "addr \<Rightarrow> addr \<Rightarrow> nat \<Rightarrow> bool" where
  "in_block a s n \<longleftrightarrow> unat (a - s) < n"

lemma offset_step: "a \<noteq> s \<Longrightarrow> unat (a - s) = Suc (unat (a - (s + 1 :: addr)))"
proof -
  assume "a \<noteq> s"
  then have "a - s \<noteq> 0" by simp
  then have "unat (a - s) = Suc (unat (a - s - 1))"
    by (metis Suc_pred' unat_minus_one unat_gt_0)
  then show ?thesis by (simp add: algebra_simps)
qed

lemma in_block_Suc:
  assumes "n < 2 ^ 64"
  shows "in_block a s (Suc n) \<longleftrightarrow> a = s \<or> in_block a (s + 1) n"
  using offset_step [of a s] assms by (cases "a = s") (auto simp: in_block_def)

lemma not_in_next_block: "n < 2 ^ 64 \<Longrightarrow> \<not> in_block s (s + 1) n"
  by (simp add: in_block_def unsigned_minus_1_eq_mask mask_eq_exp_minus_1)

lemma fill_chars_eq:
  "n < 2 ^ 64 \<Longrightarrow> fill_chars c s n m = (\<lambda>a. if in_block a s n then ucast c else m a)"
proof (induction n arbitrary: s m)
  case 0
  then show ?case by (simp add: in_block_def)
next
  case (Suc n)
  then show ?case
    using in_block_Suc [of n _ s] not_in_next_block [of n s] by (auto simp: fun_eq_iff)
qed

lemma halves_bytes:
  "ucast (ucast ((c AND 0xff) OR push_bit 8 (c AND 0xff) :: u32) :: u16) = (ucast c :: u8)"
  "ucast (drop_bit 8 (ucast ((c AND 0xff) OR push_bit 8 (c AND 0xff) :: u32) :: u16)) = (ucast c :: u8)"
proof -
  have m: "(0xff :: u32) = mask 8" by (simp add: mask_eq_exp_minus_1)
  show "ucast (ucast ((c AND 0xff) OR push_bit 8 (c AND 0xff) :: u32) :: u16) = (ucast c :: u8)"
    "ucast (drop_bit 8 (ucast ((c AND 0xff) OR push_bit 8 (c AND 0xff) :: u32) :: u16)) = (ucast c :: u8)"
    unfolding m by (rule bit_word_eqI, auto simp: bit_simps)+
qed

lemma fill_halves_eq:
  assumes "2 * len < 2 ^ 64" and "ucast tmp = v" and "ucast (drop_bit 8 tmp) = v"
  shows "fill_halves tmp s len m = (s + of_nat (2 * len), \<lambda>a. if in_block a s (2 * len) then v else m a)"
  using assms(1)
proof (induction len arbitrary: s m)
  case 0
  then show ?case by (simp add: in_block_def)
next
  case (Suc len)
  have "in_block a s (2 * Suc len) \<longleftrightarrow> a = s \<or> a = s + 1 \<or> in_block a (s + 2) (2 * len)" for a
    using in_block_Suc [of "Suc (2 * len)" a s] in_block_Suc [of "2 * len" a "s + 1"] Suc.prems
    by (auto simp: add.assoc)
  then show ?case
    using Suc assms(2,3) by (auto simp: fun_eq_iff store16_def algebra_simps)
qed

lemma copy_chars_eq:
  assumes "n < 2 ^ 64" and "dst = src \<or> n \<le> unat (dst - src)"
  shows "copy_chars dst src n m = (\<lambda>a. if in_block a dst n then m (src + (a - dst)) else m a)"
  using assms
proof (induction n arbitrary: dst src m)
  case 0
  then show ?case by (simp add: in_block_def)
next
  case (Suc n)
  have read: "src + (a - dst) \<noteq> dst" if "in_block a (dst + 1) n" "dst \<noteq> src" for a
  proof
    assume "src + (a - dst) = dst"
    then have "a - dst = dst - src" by (simp add: algebra_simps)
    moreover have "unat (a - dst) < Suc n"
      using that in_block_Suc [of n a dst] Suc.prems by (simp add: in_block_def)
    ultimately show False using Suc.prems that by simp
  qed
  have "a \<noteq> dst" if "in_block a (dst + 1) n" for a
    using that not_in_next_block [of n dst] Suc.prems by auto
  moreover have "copy_chars (dst + 1) (src + 1) n (m(dst := m src)) =
      (\<lambda>a. if in_block a (dst + 1) n then (m(dst := m src)) (src + (a - dst)) else (m(dst := m src)) a)"
    using Suc by (subst Suc.IH) (auto simp: algebra_simps)
  ultimately have "copy_chars (dst + 1) (src + 1) n (m(dst := m src)) a =
      (if in_block a dst (Suc n) then m (src + (a - dst)) else m a)" for a
    using read [of a] in_block_Suc [of n a dst] Suc.prems(1)
    by (cases "a = dst"; cases "dst = src"; cases "in_block a (dst + 1) n") (simp_all only: fun_upd_apply if_True if_False refl simp_thms diff_self add_0_right, simp_all)
  then show ?case by (simp add: fun_eq_iff)
qed

text \<open>\<open>cstr m s xs\<close>: the string \<open>xs\<close>, without a null inside, stands at \<open>s\<close> with its terminator.\<close>

fun cstr :: "bytes \<Rightarrow> addr \<Rightarrow> u8 list \<Rightarrow> bool" where
  "cstr m s [] \<longleftrightarrow> m s = 0"
| "cstr m s (x # xs) \<longleftrightarrow> m s = x \<and> x \<noteq> 0 \<and> cstr m (s + 1) xs"

lemma strlen_loop_cstr: "cstr m p xs \<Longrightarrow> strlen_loop m p n = Some (n + of_nat (length xs))"
proof (induction xs arbitrary: p n)
  case Nil
  then show ?case by (simp add: strlen_loop.simps)
next
  case (Cons x xs)
  then show ?case by (subst strlen_loop.simps) (auto simp: algebra_simps)
qed

lemma strlen_cstr: "cstr m s xs \<Longrightarrow> strlen m s = Some (of_nat (length xs))"
  by (simp add: strlen_def strlen_loop_cstr)

lemma skip_to_end: "cstr m s xs \<Longrightarrow> skip_until m (\<lambda>c. c = 0) s = Some (s + of_nat (length xs))"
proof (induction xs arbitrary: s)
  case Nil
  then show ?case by (simp add: skip_until.simps)
next
  case (Cons x xs)
  then show ?case by (subst skip_until.simps) (auto simp: algebra_simps)
qed

lemma cstr_outside:
  assumes "length xs < 2 ^ 64" and "\<not> in_block a s (Suc (length xs))"
  shows "cstr (m(a := v)) s xs = cstr m s xs"
  using assms
proof (induction xs arbitrary: s)
  case Nil
  then show ?case by (auto simp: in_block_def)
next
  case (Cons x xs)
  then show ?case using in_block_Suc [of "Suc (length xs)" a s] by auto
qed

lemma copy_string_eq:
  assumes "cstr m from xs" and "length xs < unat (to - from)"
  shows "copy_string to from m = Some ((copy_chars to from (length xs) m)(to + of_nat (length xs) := 0))"
  using assms
proof (induction xs arbitrary: "from" to m)
  case Nil
  then show ?case by (simp add: copy_string.simps fun_upd_def)
next
  case (Cons x xs)
  have off: "unat (to + 1 - (from + 1)) = unat (to - from)" by simp
  have len: "Suc (Suc (length xs)) < 2 ^ 64"
    using Cons.prems(2) unsigned_less [of "to - from", where 'a = nat] by simp
  have "to \<noteq> from" using Cons.prems(2) by auto
  then have "unat (to - from) = Suc (unat (to - (from + 1)))" by (rule offset_step)
  then have "\<not> in_block to (from + 1) (Suc (length xs))"
    using Cons.prems(2) by (simp add: in_block_def)
  then have c: "cstr (m(to := m from)) (from + 1) xs"
    using Cons.prems(1) len cstr_outside [of xs to "from + 1" m] by auto
  have "copy_string (to + 1) (from + 1) (m(to := m from)) =
      Some ((copy_chars (to + 1) (from + 1) (length xs) (m(to := m from)))(to + 1 + of_nat (length xs) := 0))"
    by (rule Cons.IH [OF c]) (use Cons.prems(2) in simp)
  then show ?case
    using Cons.prems(1) by (subst copy_string.simps) (simp add: add.assoc)
qed

lemma cstr_nth: "cstr m s xs \<Longrightarrow> i < length xs \<Longrightarrow> m (s + of_nat i) = xs ! i"
proof (induction xs arbitrary: s i)
  case Nil
  then show ?case by simp
next
  case (Cons x xs)
  then show ?case
    using Cons.IH [of "s + 1" "i - 1"] by (cases i) (auto simp: add.assoc)
qed

lemma cstr_iff:
  "cstr m s xs \<longleftrightarrow> (\<forall>i<length xs. m (s + of_nat i) = xs ! i \<and> xs ! i \<noteq> 0) \<and> m (s + of_nat (length xs)) = 0"
proof (induction xs arbitrary: s)
  case Nil
  then show ?case by simp
next
  case (Cons x xs)
  have "(\<forall>i<length (x # xs). m (s + of_nat i) = (x # xs) ! i \<and> (x # xs) ! i \<noteq> 0) \<longleftrightarrow>
      m s = x \<and> x \<noteq> 0 \<and> (\<forall>i<length xs. m (s + 1 + of_nat i) = xs ! i \<and> xs ! i \<noteq> 0)"
    by (auto simp: less_Suc_eq_0_disj add.assoc nth_Cons' dest: spec [of _ "Suc _"])
  then show ?case using Cons [of "s + 1"] by (simp add: add.assoc)
qed

lemma in_block_offset: "i < n \<Longrightarrow> n \<le> 2 ^ 64 \<Longrightarrow> in_block (s + of_nat i) s n"
  by (simp add: in_block_def unat_of_nat_small)

lemma compare_chars_diff:
  assumes "\<forall>i<k. m (p1 + of_nat i) = m (p2 + of_nat i)" and "k < n"
    and "m (p1 + of_nat k) \<noteq> m (p2 + of_nat k)"
  shows "compare_chars m p1 p2 n = char_diff (m (p1 + of_nat k)) (m (p2 + of_nat k))"
  using assms
proof (induction n arbitrary: k p1 p2)
  case 0
  then show ?case by simp
next
  case (Suc n)
  show ?case
  proof (cases k)
    case 0
    then show ?thesis using Suc.prems by simp
  next
    case (Suc j)
    have "m p1 = m p2" using Suc.prems(1) Suc by force
    moreover have "\<forall>i<j. m (p1 + 1 + of_nat i) = m (p2 + 1 + of_nat i)"
      using Suc.prems(1) Suc by (auto simp: add.assoc dest: spec [of _ "Suc _"])
    ultimately show ?thesis using Suc.IH [of j "p1 + 1" "p2 + 1"] Suc.prems Suc
      by (simp add: add.assoc)
  qed
qed

lemma compare_chars_equal:
  "compare_chars m p1 p2 n = 0 \<longleftrightarrow> (\<forall>i<n. m (p1 + of_nat i) = m (p2 + of_nat i))"
proof (induction n arbitrary: p1 p2)
  case 0
  then show ?case by simp
next
  case (Suc n)
  have "char_diff a b = 0 \<longleftrightarrow> a = b" for a b
    using signed_word_eqI [of a b] by (auto simp: char_diff_def)
  then show ?case using Suc by (auto simp: add.assoc less_Suc_eq_0_disj)
qed

section \<open>Properties\<close>

text \<open>Filling a block of memory sets exactly its bytes to the low byte of the value, whichever
  of the two loops runs: the loop over bytes for an odd address, the loop over 16-bit units with
  the odd last byte for an even one.\<close>

theorem memset_fills:
  "memset s c n m = (\<lambda>a. if in_block a s (unat n) then ucast c else m a)"
proof (cases "s AND 1 \<noteq> 0")
  case True
  then show ?thesis using unsigned_less [of n, where 'a = nat] by (simp add: memset_def fill_chars_eq)
next
  case False
  let ?h = "unat n div 2" and ?tmp = "ucast ((c AND 0xff) OR push_bit 8 (c AND 0xff)) :: u16"
  have n: "unat n < 2 ^ 64" using unsigned_less [of n, where 'a = nat] by simp
  have half: "unat (drop_bit 1 n) = ?h" by (simp add: unat_drop_bit)
  have odd: "n AND 1 \<noteq> 0 \<longleftrightarrow> unat n mod 2 = 1"
    using unat_and_mask [of n 1] by (simp add: mask_eq_exp_minus_1 unat_eq_0 [symmetric])
  have fill: "fill_halves ?tmp s ?h m =
      (s + of_nat (2 * ?h), \<lambda>a. if in_block a s (2 * ?h) then ucast c else m a)"
    using n halves_bytes [of c] by (intro fill_halves_eq) auto
  have small: "unat (of_nat (2 * ?h) :: addr) = 2 * ?h"
    using n by (intro unat_of_nat_small) simp
  have last: "in_block a s (Suc (2 * ?h)) \<longleftrightarrow> in_block a s (2 * ?h) \<or> a = s + of_nat (2 * ?h)" for a
  proof -
    have "unat (a - s) = 2 * ?h \<longleftrightarrow> a - s = of_nat (2 * ?h)"
      by (simp only: word_unat_eq_iff small)
    then show ?thesis by (auto simp: in_block_def less_Suc_eq algebra_simps)
  qed
  have run: "memset s c n m = (let (to, m) = (s + of_nat (2 * ?h), \<lambda>a. if in_block a s (2 * ?h) then ucast c else m a)
      in if n AND 1 \<noteq> 0 then m(to := ucast c) else m)"
    using False unfolding memset_def half Let_def fill by simp
  show ?thesis
  proof (cases "n AND 1 \<noteq> 0")
    case True
    then have "unat n = Suc (2 * ?h)" using odd by presburger
    then show ?thesis using last True unfolding run by (auto simp: fun_eq_iff)
  next
    case False
    then have "unat n = 2 * ?h" using odd by presburger
    then show ?thesis using False unfolding run by simp
  qed
qed

text \<open>Copying a string to a place that does not start inside it puts the string and its
  terminator there and changes nothing else.\<close>

theorem strcpy_copies:
  assumes "cstr m src xs" and "length xs < unat (dst - src)"
  shows "\<exists>m'. strcpy dst src m = Some m' \<and> cstr m' dst xs \<and>
    (\<forall>a. \<not> in_block a dst (Suc (length xs)) \<longrightarrow> m' a = m a)"
proof -
  let ?m = "copy_chars dst src (length xs) m"
  have len: "length xs < 2 ^ 64"
    using assms(2) unsigned_less [of "dst - src", where 'a = nat] by simp
  have copy: "?m = (\<lambda>a. if in_block a dst (length xs) then m (src + (a - dst)) else m a)"
    using assms(2) len by (intro copy_chars_eq) auto
  have "unat (of_nat i :: addr) = i" if "i \<le> length xs" for i
    using that len by (intro unat_of_nat_small) simp
  then have "cstr (?m(dst + of_nat (length xs) := 0)) dst xs"
    using assms(1) unfolding copy cstr_iff [of _ dst] cstr_iff [of m]
    by (auto simp: in_block_def dest: arg_cong [where f = unat])
  moreover have "(?m(dst + of_nat (length xs) := 0)) a = m a" if "\<not> in_block a dst (Suc (length xs))" for a
    using that in_block_offset [of "length xs" "Suc (length xs)" dst] len unfolding copy
    by (auto simp: in_block_def)
  ultimately show ?thesis
    using copy_string_eq [OF assms] by (simp add: strcpy_def)
qed

text \<open>Two equal strings do not compare as equal: \<^verbatim>\<open>strcmp\<close> answers that the first is
  smaller.\<close>

theorem strcmp_equal_strings:
  assumes "cstr m s1 xs" and "cstr m s2 xs"
  shows "strcmp m s1 s2 = Some (- 1)"
  using assms
proof (induction xs arbitrary: s1 s2)
  case Nil
  then show ?case by (simp add: strcmp.simps)
next
  case (Cons x xs)
  then show ?case by (subst strcmp.simps) auto
qed

text \<open>A copy of \<open>n\<close> characters writes \<open>n + 1\<close>: the terminator goes past the \<open>n\<close> bytes.\<close>

lemma strncpy_writes_past:
  "strncpy dst src n m (dst + n) = 0"
  by (simp add: strncpy_def)

section \<open>Witnesses\<close>

definition sample_bytes :: bytes where
  "sample_bytes = (\<lambda>_. 0)(0x100 := 109, 0x101 := 117, 0x102 := 105, 0x200 := 109, 0x201 := 117, 0x202 := 105)"

theorem strcpy_copies_witness:
  "\<exists>m'. strcpy 0x300 0x100 sample_bytes = Some m' \<and> cstr m' 0x300 [109, 117, 105]"
  using strcpy_copies [of sample_bytes "0x100" "[109, 117, 105]" "0x300"]
  by (auto simp: sample_bytes_def)

theorem strcmp_equal_strings_witness: "strcmp sample_bytes 0x100 0x200 = Some (- 1)"
  by (rule strcmp_equal_strings [of _ _ "[109, 117, 105]"]) (simp_all add: sample_bytes_def)

end
