(* ===== verification/Mui_Printf.thy ===== *)
theory Mui_Printf
  imports Mui_CString
begin

text \<open>
  Formatted output: \<^verbatim>\<open>mlibc/kprintf.c\<close> and \<^verbatim>\<open>mlibc/ctype.c\<close>. The text written so far is a
  list of characters; every write of the code is at \<^verbatim>\<open>dest + cs\<close>, the end of what is written.
  The arguments are the 64-bit slots of the \<^verbatim>\<open>va_list\<close>; the value \<open>None\<close> is a call that takes an
  argument that was not passed, a string that does not end, or a rewind out of the format.
\<close>

section \<open>Characters and flags\<close>

definition chr :: "char \<Rightarrow> u8" where
  "chr c = of_char c"

definition chrs :: "string \<Rightarrow> u8 list" where
  "chrs = map chr"

definition isdigit :: "u8 \<Rightarrow> bool" where
  "isdigit c \<longleftrightarrow> c <=s chr CHR ''9'' \<and> chr CHR ''0'' <=s c"

definition isxdigit :: "u8 \<Rightarrow> bool" where
  "isxdigit c \<longleftrightarrow> isdigit c \<or> chr CHR ''a'' <=s c \<and> c <=s chr CHR ''f'' \<or>
     chr CHR ''A'' <=s c \<and> c <=s chr CHR ''F''"

definition FMT_TNUM :: u32 where "FMT_TNUM = 0x00001"
definition FMT_TSTR :: u32 where "FMT_TSTR = 0x00002"
definition FMT_TCHAR :: u32 where "FMT_TCHAR = 0x00004"
definition FMT_FLJ :: u32 where "FMT_FLJ = 0x00008"
definition FMT_FZERO :: u32 where "FMT_FZERO = 0x00010"
definition FMT_FSIG :: u32 where "FMT_FSIG = 0x00020"
definition FMT_FSPACE :: u32 where "FMT_FSPACE = 0x00040"
definition FMT_FPREF :: u32 where "FMT_FPREF = 0x00080"
definition FMT_DOT :: u32 where "FMT_DOT = 0x00100"
definition FMT_LCHAR :: u32 where "FMT_LCHAR = 0x00200"
definition FMT_LSHORT :: u32 where "FMT_LSHORT = 0x00400"
definition FMT_LLONG :: u32 where "FMT_LLONG = 0x00800"
definition FMT_LDLONG :: u32 where "FMT_LDLONG = 0x01000"
definition FMT_LSIZET :: u32 where "FMT_LSIZET = 0x02000"
definition FMT_DOCT :: u32 where "FMT_DOCT = 0x04000"
definition FMT_DDEC :: u32 where "FMT_DDEC = 0x08000"
definition FMT_DHEX :: u32 where "FMT_DHEX = 0x10000"
definition FMT_DHEX_UP :: u32 where "FMT_DHEX_UP = 0x20000"
definition FMT_DUNSIG :: u32 where "FMT_DUNSIG = 0x40000"
definition FMT_FMASK :: u32 where "FMT_FMASK = 0x00F8"
definition FMT_LMASK :: u32 where "FMT_LMASK = 0x3E00"
definition FMT_DBUF_SIZE :: nat where "FMT_DBUF_SIZE = 64"
definition TMPBUF_SIZE :: nat where "TMPBUF_SIZE = 1024"

named_theorems fmt_defs \<open>the format flags\<close>
declare FMT_TNUM_def [fmt_defs] FMT_TSTR_def [fmt_defs] FMT_TCHAR_def [fmt_defs]
  FMT_FLJ_def [fmt_defs] FMT_FZERO_def [fmt_defs] FMT_FSIG_def [fmt_defs]
  FMT_FSPACE_def [fmt_defs] FMT_FPREF_def [fmt_defs] FMT_DOT_def [fmt_defs]
  FMT_LCHAR_def [fmt_defs] FMT_LSHORT_def [fmt_defs] FMT_LLONG_def [fmt_defs]
  FMT_LDLONG_def [fmt_defs] FMT_LSIZET_def [fmt_defs] FMT_DOCT_def [fmt_defs]
  FMT_DDEC_def [fmt_defs] FMT_DHEX_def [fmt_defs] FMT_DHEX_UP_def [fmt_defs]
  FMT_DUNSIG_def [fmt_defs] FMT_FMASK_def [fmt_defs] FMT_LMASK_def [fmt_defs]

text \<open>\<^verbatim>\<open>struct fattrs\<close>: the three \<^verbatim>\<open>int\<close> fields are 32-bit words that are read as signed.\<close>

record fattrs =
  fa_width :: u32
  fa_presiction :: u32
  fa_cinf :: u32
  fa_flags :: u32

definition no_attrs :: fattrs where
  "no_attrs = \<lparr>fa_width = 0, fa_presiction = 0, fa_cinf = 0, fa_flags = 0\<rparr>"

definition has :: "fattrs \<Rightarrow> u32 \<Rightarrow> bool" where
  "has fa f \<longleftrightarrow> fa_flags fa AND f \<noteq> 0"

definition with_flags :: "u32 \<Rightarrow> fattrs \<Rightarrow> fattrs" where
  "with_flags f fa = fa\<lparr>fa_flags := fa_flags fa OR f\<rparr>"

definition without_flags :: "u32 \<Rightarrow> fattrs \<Rightarrow> fattrs" where
  "without_flags f fa = fa\<lparr>fa_flags := fa_flags fa AND NOT f\<rparr>"

section \<open>Pieces of output\<close>

type_synonym piece = "u64 \<times> u8 list"

text \<open>A character at the end of a piece, if the \<open>dsize\<close> bytes of the destination have room.\<close>

definition copy_byte_ip :: "u64 \<Rightarrow> u8 \<Rightarrow> piece \<Rightarrow> piece option" where
  "copy_byte_ip dsize c = (\<lambda>(cs, out). if dsize - cs = 0 then None else Some (cs + 1, out @ [c]))"

definition make_width :: "u64 \<Rightarrow> u8 \<Rightarrow> fattrs \<Rightarrow> piece \<Rightarrow> piece" where
  "make_width dsize c fa = (\<lambda>(cs, out).
     let width = scast (fa_width fa) :: u64
     in if fa_width fa = 0 \<or> width > dsize - cs then (cs, out)
        else (cs + width, out @ replicate (unat width) c))"

definition fields_inc :: "u32 \<Rightarrow> u32 \<Rightarrow> u32" where
  "fields_inc num incr = num * 10 + incr"

definition ident_num_size :: "u64 list \<Rightarrow> fattrs \<Rightarrow> (u64 \<times> u64 list) option" where
  "ident_num_size ap fa =
     (case ap of [] \<Rightarrow> None
      | a # ap \<Rightarrow>
          if has fa FMT_LLONG then Some (a, ap)
          else if has fa FMT_LDLONG then Some (a, ap)
          else if has fa FMT_LSIZET then Some (a, ap)
          else let d = scast (ucast a :: u32) :: u64
               in Some (if has fa FMT_DUNSIG then ucast (ucast d :: u32) else d, ap))"

section \<open>Numbers\<close>

definition nums_table :: "fattrs \<Rightarrow> u8 list" where
  "nums_table fa =
     (if has fa FMT_DHEX_UP \<and> \<not> has fa FMT_DOCT \<and> \<not> has fa FMT_DDEC
      then chrs ''0123456789'' @ map (\<lambda>c. c - 32) (chrs ''abcdef'')
      else chrs ''0123456789abcdef'')"

definition number_base :: "fattrs \<Rightarrow> u64" where
  "number_base fa =
     (if has fa FMT_DOCT then 8
      else if has fa FMT_DDEC then 10
      else if has fa FMT_DHEX \<or> has fa FMT_DHEX_UP then 0x10
      else 1)"

text \<open>The digits, the lowest first, in the buffer of 64; \<open>None\<close> when they do not fit.\<close>

function digit_loop :: "u8 list \<Rightarrow> u64 \<Rightarrow> u64 \<Rightarrow> u8 list \<Rightarrow> u8 list option" where
  "digit_loop nums base d buf =
     (if length buf \<ge> FMT_DBUF_SIZE then None
      else let i = d mod base; d = d div base; buf = buf @ [nums ! unat i]
           in if d \<noteq> 0 then digit_loop nums base d buf else Some buf)"
  by pat_completeness auto
termination
  by (relation "measure (\<lambda>(nums, base, d, buf). FMT_DBUF_SIZE - length buf)") auto

declare digit_loop.simps [simp del]

text \<open>The sign or the prefix of a number: \<open>Inl\<close> is the early return of a full destination.\<close>

definition put_byte :: "u64 \<Rightarrow> u8 \<Rightarrow> piece \<Rightarrow> piece + piece" where
  "put_byte dsize c p = (case copy_byte_ip dsize c p of None \<Rightarrow> Inl p | Some p \<Rightarrow> Inr p)"

definition number_prefix :: "u64 \<Rightarrow> bool \<Rightarrow> fattrs \<Rightarrow> piece \<Rightarrow> piece + piece" where
  "number_prefix dsize neg fa p =
     (if has fa FMT_DHEX \<or> has fa FMT_DHEX_UP then
        if has fa FMT_FPREF then
          case put_byte dsize (chr CHR ''0'') p of Inl p \<Rightarrow> Inl p
          | Inr p \<Rightarrow> put_byte dsize (if has fa FMT_DHEX_UP then chr CHR ''X'' else chr CHR ''x'') p
        else Inr p
      else if has fa FMT_DDEC then
        let c = (if neg then chr CHR ''-'' else if has fa FMT_FSIG then chr CHR ''+'' else 0)
        in if c \<noteq> 0 then put_byte dsize c p else Inr p
      else if has fa FMT_DOCT then
        if has fa FMT_FPREF then put_byte dsize (chr CHR ''0'') p else Inr p
      else Inr p)"

definition number_body :: "u64 \<Rightarrow> fattrs \<Rightarrow> u8 list \<Rightarrow> piece \<Rightarrow> piece" where
  "number_body dsize fa tmp_buf = (\<lambda>(cs, out).
     let (cs, out) = (if 0 <s fa_presiction fa \<and> scast (fa_presiction fa) \<le> dsize - cs
                      then (cs + scast (fa_presiction fa),
                            out @ replicate (unat (scast (fa_presiction fa) :: u64)) (chr CHR ''0''))
                      else (cs, out));
         j = of_nat (length tmp_buf) :: u64;
         j = (if j > dsize - cs then dsize - cs else j);
         (cs, out) = (cs + j, out @ rev (take (unat j) tmp_buf))
     in if has fa FMT_FLJ then make_width dsize (chr CHR '' '') fa (cs, out) else (cs, out))"

text \<open>
  \<^verbatim>\<open>__digit\<close>. The sign is tested on \<^verbatim>\<open>d\<close>, an \<^verbatim>\<open>unsigned long long\<close> that has no value yet, and
  not on \<^verbatim>\<open>number\<close>: whatever value \<open>d0\<close> it holds, the test is false. A full destination returns
  \<^verbatim>\<open>dsize\<close>.
\<close>

definition unset_d :: u64 where
  "unset_d = 0"

definition less_or_zero :: "u32 \<Rightarrow> u64 \<Rightarrow> u32" where
  "less_or_zero w j = (if scast w \<le> j then 0 else ucast (scast w - j))"

definition digit_fields :: "u64 \<Rightarrow> fattrs \<Rightarrow> fattrs" where
  "digit_fields j fa =
     (let fa = fa\<lparr>fa_width := less_or_zero (fa_width fa) j,
                 fa_presiction := less_or_zero (fa_presiction fa) j\<rparr>
      in fa\<lparr>fa_width := (if fa_width fa <=s fa_presiction fa then 0
                       else fa_width fa - fa_presiction fa)\<rparr>)"

definition digit_write :: "u64 \<Rightarrow> bool \<Rightarrow> fattrs \<Rightarrow> u8 list \<Rightarrow> piece" where
  "digit_write dsize neg fa tmp_buf =
     (case (if has fa FMT_FSPACE then put_byte dsize (chr CHR '' '') (0, []) else Inr (0, [])) of
        Inl (cs, out) \<Rightarrow> (dsize, out)
      | Inr p \<Rightarrow>
          let c = (if has fa FMT_FZERO then chr CHR ''0'' else chr CHR '' '');
              p = (if has fa FMT_FLJ then p else make_width dsize c fa p)
          in case number_prefix dsize neg fa p of
               Inl (cs, out) \<Rightarrow> (dsize, out)
             | Inr p \<Rightarrow> number_body dsize fa tmp_buf p)"

definition digit :: "u64 \<Rightarrow> u64 \<Rightarrow> fattrs \<Rightarrow> piece option" where
  "digit dsize number fa =
     (let neg = (unset_d < 0 \<and> \<not> has fa FMT_DUNSIG);
          d = (if neg then - number else number);
          fa = (if neg then without_flags FMT_FSPACE fa else fa)
      in map_option (\<lambda>tmp_buf. digit_write dsize neg (digit_fields (of_nat (length tmp_buf)) fa) tmp_buf)
           (digit_loop (nums_table fa) (number_base fa) d []))"

text \<open>What the three pieces leave of the destination.\<close>

definition room :: "u64 \<Rightarrow> piece \<Rightarrow> nat" where
  "room dsize p = unat (dsize - fst p)"

definition piece_ok :: "u64 \<Rightarrow> piece \<Rightarrow> bool" where
  "piece_ok dsize p \<longleftrightarrow> fst p \<le> dsize \<and> length (snd p) = unat (fst p)"

lemma advance_room: "w \<le> dsize - cs \<Longrightarrow> unat (dsize - (cs + w)) = unat (dsize - cs) - unat (w :: u64)"
proof -
  assume "w \<le> dsize - cs"
  then have "unat (dsize - cs - w) = unat (dsize - cs) - unat w" by (rule unat_sub)
  then show ?thesis by (simp add: algebra_simps)
qed

lemma advance_ok:
  assumes "w \<le> dsize - cs" and "(cs :: u64) \<le> dsize"
  shows "cs + w \<le> dsize" and "unat (cs + w) = unat cs + unat w"
proof -
  have "unat (dsize - cs) = unat dsize - unat cs" using assms(2) by (rule unat_sub)
  then have le: "unat cs + unat w \<le> unat dsize"
    using assms by (simp add: word_le_nat_alt)
  then show "unat (cs + w) = unat cs + unat w"
    using unsigned_less [of dsize, where 'a = nat] by (simp add: unat_word_ariths)
  then show "cs + w \<le> dsize" using le by (simp add: word_le_nat_alt)
qed

lemma copy_byte_ip_Some:
  assumes "copy_byte_ip dsize c p = Some q"
  shows "room dsize q < room dsize p" and "piece_ok dsize p \<Longrightarrow> piece_ok dsize q"
    and "snd q = snd p @ [c]" and "fst q = fst p + 1"
proof -
  obtain cs out where p: "p = (cs, out)" by (cases p)
  have q: "dsize - cs \<noteq> 0" "q = (cs + 1, out @ [c])"
    using assms by (auto simp: copy_byte_ip_def p split: if_splits)
  then have one: "1 \<le> dsize - cs" by (metis word_less_1 linorder_not_less)
  have "unat (dsize - cs) \<noteq> 0" using q(1) by (simp add: unat_eq_0)
  then show "room dsize q < room dsize p"
    using advance_room [OF one] q(2) by (simp add: room_def p)
  show "piece_ok dsize p \<Longrightarrow> piece_ok dsize q"
    using advance_ok [OF one] q(2) by (simp add: piece_ok_def p)
  show "snd q = snd p @ [c]" "fst q = fst p + 1" using q p by simp_all
qed

lemma make_width_ok:
  "room dsize (make_width dsize c fa p) \<le> room dsize p"
  "piece_ok dsize p \<Longrightarrow> piece_ok dsize (make_width dsize c fa p)"
  using advance_room [of "scast (fa_width fa)" dsize "fst p"] advance_ok [of "scast (fa_width fa)" dsize "fst p"]
  by (auto simp: make_width_def room_def piece_ok_def Let_def split_beta)

lemma copy_byte_ip_piece: "copy_byte_ip dsize c p = Some q \<Longrightarrow> piece_ok dsize p \<Longrightarrow> piece_ok dsize q"
  by (rule copy_byte_ip_Some)

lemma put_byte_ok:
  assumes "piece_ok dsize p"
  shows "put_byte dsize c p = Inr q \<Longrightarrow> piece_ok dsize q"
    and "put_byte dsize c p = Inl q \<Longrightarrow> piece_ok dsize q \<and> fst q = dsize"
  using assms copy_byte_ip_piece [of dsize c p q]
  by (auto simp: put_byte_def copy_byte_ip_def split: option.splits prod.splits if_splits)

lemma put_byte_okD:
  "put_byte dsize c p = Inr q \<Longrightarrow> piece_ok dsize p \<Longrightarrow> piece_ok dsize q"
  "put_byte dsize c p = Inl q \<Longrightarrow> piece_ok dsize p \<Longrightarrow> piece_ok dsize q \<and> fst q = dsize"
  by (blast dest: put_byte_ok)+

lemma number_prefix_ok:
  "number_prefix dsize neg fa p = Inr q \<Longrightarrow> piece_ok dsize p \<Longrightarrow> piece_ok dsize q"
  "number_prefix dsize neg fa p = Inl q \<Longrightarrow> piece_ok dsize p \<Longrightarrow> piece_ok dsize q \<and> fst q = dsize"
  by (auto simp: number_prefix_def Let_def split: if_splits sum.splits dest: put_byte_okD)

lemma number_body_ok:
  assumes "piece_ok dsize p" and "length tmp \<le> FMT_DBUF_SIZE"
  shows "piece_ok dsize (number_body dsize fa tmp p)"
proof -
  obtain cs out where p: "p = (cs, out)" by (cases p)
  let ?w = "scast (fa_presiction fa) :: u64"
  define q where "q = (if 0 <s fa_presiction fa \<and> ?w \<le> dsize - cs
    then (cs + ?w, out @ replicate (unat ?w) (chr CHR ''0'')) else (cs, out))"
  have q: "piece_ok dsize q"
    using assms(1) advance_ok [of ?w dsize cs] by (auto simp: q_def piece_ok_def p)
  define j where "j = (let j = of_nat (length tmp) :: u64 in if j > dsize - fst q then dsize - fst q else j)"
  have j: "j \<le> dsize - fst q" "unat j \<le> length tmp"
    using unat_of_nat_small [of "length tmp", where 'a = 64] assms(2)
    by (auto simp: j_def Let_def FMT_DBUF_SIZE_def word_less_nat_alt word_le_nat_alt)
  define r where "r = (fst q + j, snd q @ rev (take (unat j) tmp))"
  have "piece_ok dsize r"
    using q j advance_ok [OF j(1)] by (simp add: r_def piece_ok_def)
  moreover have "number_body dsize fa tmp p =
      (if has fa FMT_FLJ then make_width dsize (chr CHR '' '') fa r else r)"
    unfolding number_body_def p r_def j_def q_def by (simp add: Let_def split_beta)
  ultimately show ?thesis using make_width_ok(2) by simp
qed

lemma digit_loop_length: "digit_loop nums base d buf = Some tmp \<Longrightarrow> length tmp \<le> FMT_DBUF_SIZE \<and> length buf < length tmp"
proof (induction nums base d buf rule: digit_loop.induct)
  case (1 nums base d buf)
  then show ?case
    by (subst (asm) (2) digit_loop.simps) (fastforce simp: Let_def split: if_splits)
qed

lemma empty_piece_ok [simp]: "piece_ok dsize (0, [])"
  by (simp add: piece_ok_def)

lemma digit_write_ok:
  assumes "length tmp \<le> FMT_DBUF_SIZE"
  shows "piece_ok dsize (digit_write dsize neg fa tmp)"
proof (cases "if has fa FMT_FSPACE then put_byte dsize (chr CHR '' '') (0, []) else Inr (0, [])")
  case (Inl p)
  then have "piece_ok dsize p \<and> fst p = dsize"
    by (auto split: if_splits dest: put_byte_okD)
  then show ?thesis by (simp add: digit_write_def Inl split_beta piece_ok_def)
next
  case (Inr p)
  let ?p = "if has fa FMT_FLJ then p else make_width dsize (if has fa FMT_FZERO then chr CHR ''0'' else chr CHR '' '') fa p"
  have "piece_ok dsize p" using Inr by (auto split: if_splits dest: put_byte_okD)
  then have p: "piece_ok dsize ?p" using make_width_ok(2) by simp
  show ?thesis
  proof (cases "number_prefix dsize neg fa ?p")
    case (Inl q)
    then have "piece_ok dsize q \<and> fst q = dsize" using p by (rule number_prefix_ok)
    then show ?thesis using Inl \<open>_ = Inr p\<close>
      by (simp add: digit_write_def Let_def split_beta piece_ok_def)
  next
    case (Inr q)
    then have "piece_ok dsize q" using p by (rule number_prefix_ok)
    then show ?thesis using Inr \<open>_ = Inr p\<close> assms number_body_ok
      by (simp add: digit_write_def Let_def)
  qed
qed

lemma digit_ok:
  assumes "digit dsize number fa = Some (ret, out)"
  shows "ret \<le> dsize" and "length out = unat ret"
proof -
  obtain tmp neg fb where "length tmp \<le> FMT_DBUF_SIZE" "digit_write dsize neg fb tmp = (ret, out)"
    using assms digit_loop_length unfolding digit_def Let_def by fastforce
  then have "piece_ok dsize (ret, out)" using digit_write_ok by metis
  then show "ret \<le> dsize" "length out = unat ret" by (simp_all add: piece_ok_def)
qed

section \<open>The format\<close>

text \<open>
  What one character after a \<^verbatim>\<open>%\<close> does: go on in the specification (\<open>More\<close>, with the number of
  further characters skipped), jump to the conversion (\<open>Number\<close>, \<open>Chr\<close>, \<open>Str\<close>: the label \<^verbatim>\<open>BC\<close>),
  leave the \<^verbatim>\<open>switch\<close> to print a character as it is (\<open>Plain\<close>, with the value of \<^verbatim>\<open>pers\<close>), or
  leave the loop (\<open>Stop\<close>).
\<close>

datatype fmt_act =
    More fattrs nat "u64 list"
  | Number u64 fattrs "u64 list"
  | Chr u8 fattrs "u64 list"
  | Str u64 fattrs "u64 list"
  | Plain bool fattrs "u64 list"
  | Stop

definition number_conv :: "u32 \<Rightarrow> fattrs \<Rightarrow> u64 list \<Rightarrow> fmt_act option" where
  "number_conv flags fa ap =
     (let fa = with_flags flags fa
      in map_option (\<lambda>(d, ap). Number d fa ap) (ident_num_size ap fa))"

text \<open>The character \<open>c\<close>, with \<open>c1\<close> the one after it.\<close>

definition scan_char :: "u8 \<Rightarrow> u8 \<Rightarrow> fattrs \<Rightarrow> u64 list \<Rightarrow> fmt_act option" where
  "scan_char c c1 fa ap =
    (let fa = fa\<lparr>fa_cinf := fa_cinf fa + 1\<rparr>;
         pers = isdigit c;
         late = has fa FMT_LMASK \<or> has fa FMT_DOT \<or> 0 <s fa_width fa
     in if pers \<and> has fa FMT_LMASK then Some Stop
        else if pers \<and> has fa FMT_DOT then
          Some (More (fa\<lparr>fa_presiction := fields_inc (fa_presiction fa) (ucast (c - chr CHR ''0''))\<rparr>) 0 ap)
        else if pers \<and> chr CHR ''0'' <s c then
          Some (More (fa\<lparr>fa_width := fields_inc (fa_width fa) (ucast (c - chr CHR ''0''))\<rparr>) 0 ap)
        else if c = chr CHR ''i'' \<or> c = chr CHR ''d'' then number_conv (FMT_TNUM OR FMT_DDEC) fa ap
        else if c = chr CHR ''c'' then
          (case ap of [] \<Rightarrow> None | a # ap \<Rightarrow> Some (Chr (ucast a) (with_flags FMT_TCHAR fa) ap))
        else if c = chr CHR ''s'' then
          (case ap of [] \<Rightarrow> None | a # ap \<Rightarrow> Some (Str a (with_flags FMT_TSTR fa) ap))
        else if c = chr CHR ''x'' then number_conv (FMT_TNUM OR FMT_DHEX OR FMT_DUNSIG) fa ap
        else if c = chr CHR ''X'' then number_conv (FMT_TNUM OR FMT_DHEX_UP OR FMT_DUNSIG) fa ap
        else if c = chr CHR ''p'' then
          number_conv (FMT_TNUM OR FMT_DHEX OR FMT_FPREF OR FMT_LLONG OR FMT_DUNSIG) fa ap
        else if c = chr CHR ''o'' then number_conv (FMT_TNUM OR FMT_DOCT OR FMT_DUNSIG) fa ap
        else if c = chr CHR ''u'' then number_conv (FMT_TNUM OR FMT_DDEC OR FMT_DUNSIG) fa ap
        else if c = chr CHR ''#'' then
          if late then Some (Plain pers fa ap) else Some (More (with_flags FMT_FPREF fa) 0 ap)
        else if c = chr CHR ''+'' then
          if late then Some (Plain pers fa ap)
          else Some (More (with_flags FMT_FSIG (without_flags FMT_FSPACE fa)) 0 ap)
        else if c = chr CHR ''-'' then
          if late \<or> has fa FMT_FSPACE then Some (Plain pers fa ap)
          else Some (More (with_flags FMT_FLJ (without_flags FMT_FZERO fa)) 0 ap)
        else if c = chr CHR ''0'' then
          if late then Some (Plain pers fa ap)
          else Some (More (if has fa FMT_FLJ then fa else with_flags FMT_FZERO fa) 0 ap)
        else if c = chr CHR '' '' then
          if late \<or> has fa FMT_FLJ then Some (Plain pers fa ap)
          else Some (More (if has fa FMT_FSIG then fa else with_flags FMT_FSPACE fa) 0 ap)
        else if c = chr CHR ''.'' then
          Some (More (with_flags FMT_DOT (without_flags FMT_FZERO fa)) 0 ap)
        else if c = chr CHR ''h'' then
          if c1 = chr CHR ''h'' then Some (More (with_flags FMT_LCHAR fa) 1 ap)
          else Some (More (with_flags FMT_LSHORT fa) 0 ap)
        else if c = chr CHR ''l'' then
          if c1 = chr CHR ''l'' then Some (More (with_flags FMT_LDLONG fa) 1 ap)
          else Some (More (with_flags FMT_LLONG fa) 0 ap)
        else if c = chr CHR ''z'' then Some (More (with_flags FMT_LSIZET fa) 0 ap)
        else if c = chr CHR ''*'' then
          if has fa FMT_FMASK \<or> has fa FMT_LMASK then Some (Plain pers fa ap)
          else if has fa FMT_DOT then
            if 0 <s fa_presiction fa then Some (Plain pers fa ap)
            else map_option (\<lambda>(d, ap). More (fa\<lparr>fa_presiction := ucast d, fa_cinf := ucast (drop_bit 32 d)\<rparr>) 0 ap)
                   (ident_num_size ap fa)
          else if 0 <s fa_width fa then Some (Plain pers fa ap)
          else map_option (\<lambda>(d, ap). More (fa\<lparr>fa_width := ucast d, fa_presiction := ucast (drop_bit 32 d)\<rparr>) 0 ap)
                 (ident_num_size ap fa)
        else if c = chr CHR ''%'' then Some (Plain pers (fa\<lparr>fa_cinf := 0\<rparr>) ap)
        else Some (Plain pers fa ap))"

definition pad_left :: "u64 \<Rightarrow> fattrs \<Rightarrow> piece \<Rightarrow> piece" where
  "pad_left dsize fa p = (if has fa FMT_FLJ then p else make_width dsize (chr CHR '' '') fa p)"

definition pad_right :: "u64 \<Rightarrow> fattrs \<Rightarrow> piece \<Rightarrow> piece" where
  "pad_right dsize fa p = (if has fa FMT_FLJ then make_width dsize (chr CHR '' '') fa p else p)"

definition copy_piece :: "bytes \<Rightarrow> addr \<Rightarrow> u64 \<Rightarrow> u64 \<Rightarrow> piece \<Rightarrow> piece" where
  "copy_piece m s dsize len p =
     (if len \<le> dsize - fst p
      then (fst p + len, snd p @ map (\<lambda>k. m (s + of_nat k)) [0..<unat len]) else p)"

definition str_piece :: "bytes \<Rightarrow> addr \<Rightarrow> u64 \<Rightarrow> addr \<Rightarrow> fattrs \<Rightarrow> piece \<Rightarrow> piece option" where
  "str_piece m null_str dsize s fa p =
     (let s = (if s = 0 then null_str else s)
      in map_option (\<lambda>len.
           let len = (if 0 <s fa_presiction fa \<and> len < scast (fa_presiction fa)
                      then scast (fa_presiction fa) else len);
               fa = fa\<lparr>fa_width := less_or_zero (fa_width fa) len\<rparr>
           in pad_right dsize fa (copy_piece m s dsize len (pad_left dsize fa p)))
         (strlen m s))"

definition chr_piece :: "u64 \<Rightarrow> u8 \<Rightarrow> fattrs \<Rightarrow> piece \<Rightarrow> piece + piece" where
  "chr_piece dsize c fa p =
     (let fa = fa\<lparr>fa_width := (if fa_width fa <=s 1 then 0 else fa_width fa - 1)\<rparr>
      in map_sum (\<lambda>p. p) (pad_right dsize fa) (put_byte dsize c (pad_left dsize fa p)))"

definition fmt_at :: "u8 list \<Rightarrow> nat \<Rightarrow> u8" where
  "fmt_at fmt i = (if i < length fmt then fmt ! i else 0)"

lemma pad_ok:
  "room dsize (pad_left dsize fa p) \<le> room dsize p" "room dsize (pad_right dsize fa p) \<le> room dsize p"
  "piece_ok dsize p \<Longrightarrow> piece_ok dsize (pad_left dsize fa p)"
  "piece_ok dsize p \<Longrightarrow> piece_ok dsize (pad_right dsize fa p)"
  by (simp_all add: pad_left_def pad_right_def make_width_ok)

lemma copy_piece_ok:
  "room dsize (copy_piece m s dsize len p) \<le> room dsize p"
  "piece_ok dsize p \<Longrightarrow> piece_ok dsize (copy_piece m s dsize len p)"
  using advance_room [of len dsize "fst p"] advance_ok [of len dsize "fst p"]
  by (auto simp: copy_piece_def room_def piece_ok_def)

lemma str_piece_ok:
  assumes "str_piece m null_str dsize s fa p = Some q"
  shows "room dsize q \<le> room dsize p" and "piece_ok dsize p \<Longrightarrow> piece_ok dsize q"
proof -
  obtain len fb s' where q: "q = pad_right dsize fb (copy_piece m s' dsize len (pad_left dsize fb p))"
    using assms unfolding str_piece_def Let_def by blast
  show "room dsize q \<le> room dsize p"
    unfolding q by (rule order_trans [OF pad_ok(2) order_trans [OF copy_piece_ok(1) pad_ok(1)]])
  show "piece_ok dsize p \<Longrightarrow> piece_ok dsize q"
    unfolding q by (intro pad_ok copy_piece_ok)
qed

lemma put_byte_room: "put_byte dsize c p = Inr q \<Longrightarrow> room dsize q < room dsize p"
  using copy_byte_ip_Some(1) [of dsize c p q] by (auto simp: put_byte_def split: option.splits)

lemma chr_piece_ok:
  "chr_piece dsize c fa p = Inr q \<Longrightarrow> room dsize q \<le> room dsize p"
  "chr_piece dsize c fa p = Inr q \<Longrightarrow> piece_ok dsize p \<Longrightarrow> piece_ok dsize q"
  "chr_piece dsize c fa p = Inl q \<Longrightarrow> piece_ok dsize p \<Longrightarrow> piece_ok dsize q \<and> fst q = dsize"
proof -
  let ?f = "fa\<lparr>fa_width := (if fa_width fa <=s 1 then 0 else fa_width fa - 1)\<rparr>"
  let ?l = "pad_left dsize ?f p"
  show "room dsize q \<le> room dsize p" if run: "chr_piece dsize c fa p = Inr q"
  proof -
    obtain r where "put_byte dsize c ?l = Inr r" "q = pad_right dsize ?f r"
      using run by (cases "put_byte dsize c ?l") (auto simp: chr_piece_def Let_def)
    then show ?thesis
      using put_byte_room [of dsize c ?l r] pad_ok(1) [of dsize ?f p] pad_ok(2) [of dsize ?f r] by auto
  qed
  show "piece_ok dsize q" if "chr_piece dsize c fa p = Inr q" "piece_ok dsize p"
    using that(1) pad_ok(3) [OF that(2), of ?f] pad_ok(4) put_byte_okD(1) [of dsize c ?l]
    by (cases "put_byte dsize c ?l") (auto simp: chr_piece_def Let_def simp del: split_paired_All)
  show "piece_ok dsize q \<and> fst q = dsize" if "chr_piece dsize c fa p = Inl q" "piece_ok dsize p"
    using that pad_ok(3) put_byte_okD(2) [of dsize c ?l q]
    by (cases "put_byte dsize c ?l") (auto simp: chr_piece_def Let_def)
qed

text \<open>
  The loop of \<^verbatim>\<open>vsnprintf\<close>, the format being the characters before its terminator and \<open>i\<close> the
  index of \<^verbatim>\<open>*fmt\<close>. \<^verbatim>\<open>fmt -= fa.cinf\<close> moves back, but then a character is written: the room
  left in the destination and the rest of the format are the measure of the recursion. A precision given as
  \<^verbatim>\<open>*\<close> overwrites \<^verbatim>\<open>cinf\<close>, so that the move can leave the format; what the code reads there is not known,
  and the result is \<open>None\<close>.
\<close>

lemma fmt_at_nonzero: "fmt_at fmt i \<noteq> 0 \<Longrightarrow> i < length fmt"
  by (auto simp: fmt_at_def split: if_splits)

lemma digit_room:
  assumes "digit (dsize - cs) d fa = Some (ret, o1)"
  shows "unat (dsize - (cs + ret)) \<le> unat (dsize - cs)"
  using advance_room [of ret dsize cs] digit_ok(1) [OF assms] by simp

function vsn_loop :: "bytes \<Rightarrow> addr \<Rightarrow> u64 \<Rightarrow> u8 list \<Rightarrow> nat \<Rightarrow> bool \<Rightarrow> fattrs \<Rightarrow> piece \<Rightarrow> u64 list \<Rightarrow> piece option" where
  "vsn_loop m ns dsize fmt i pers fa p ap =
    (let c = fmt_at fmt i in
     if c = 0 then Some p
     else if c = chr CHR ''%'' \<and> \<not> pers then vsn_loop m ns dsize fmt (i + 1) True fa p ap
     else case (if pers then scan_char c (fmt_at fmt (i + 1)) fa ap else Some (Plain False fa ap)) of
       None \<Rightarrow> None
     | Some Stop \<Rightarrow> Some p
     | Some (More fa skip ap) \<Rightarrow> vsn_loop m ns dsize fmt (i + 1 + skip) True fa p ap
     | Some (Plain pers fa ap) \<Rightarrow>
         let j = int i - sint (fa_cinf fa)
         in if j < 0 \<or> int (length fmt) \<le> j then None
            else (case copy_byte_ip dsize (fmt_at fmt (nat j)) p of
                    None \<Rightarrow> Some (dsize, snd p)
                  | Some q \<Rightarrow> vsn_loop m ns dsize fmt (nat j + 1) pers no_attrs q ap)
     | Some (Number d fa ap) \<Rightarrow>
         (case digit (dsize - fst p) d fa of
            None \<Rightarrow> None
          | Some (ret, o1) \<Rightarrow>
              if ret = 0 then Some (dsize, snd p @ o1)
              else vsn_loop m ns dsize fmt (i + 1) False no_attrs (fst p + ret, snd p @ o1) ap)
     | Some (Str s fa ap) \<Rightarrow>
         (case str_piece m ns dsize s fa p of
            None \<Rightarrow> None
          | Some q \<Rightarrow> vsn_loop m ns dsize fmt (i + 1) False no_attrs q ap)
     | Some (Chr c fa ap) \<Rightarrow>
         (case chr_piece dsize c fa p of
            Inl q \<Rightarrow> Some (dsize, snd q)
          | Inr q \<Rightarrow> vsn_loop m ns dsize fmt (i + 1) False no_attrs q ap))"
  by pat_completeness auto
termination
proof (relation "measures [\<lambda>(m, ns, dsize, fmt, i, pers, fa, p, ap). room dsize p,
    \<lambda>(m, ns, dsize, fmt, i, pers, fa, p, ap). length fmt - i]", goal_cases)
  case 1
  show ?case by simp
next
  case (2 m ns dsize fmt i pers fa p ap c)
  then show ?case using fmt_at_nonzero [of fmt i] by auto
next
  case (3 m ns dsize fmt i pers fa p ap c x x1 n x2)
  then show ?case using fmt_at_nonzero [of fmt i] by auto
next
  case (4 m ns dsize fmt i pers fa p ap c)
  then show ?case
    using fmt_at_nonzero [of fmt i] digit_room [of dsize "fst p"] by (fastforce simp: room_def)
next
  case (5 m ns dsize fmt i pers fa p ap c)
  then show ?case using chr_piece_ok(1) fmt_at_nonzero [of fmt i] by fastforce
next
  case (6 m ns dsize fmt i pers fa p ap c)
  then show ?case using str_piece_ok(1) fmt_at_nonzero [of fmt i] by fastforce
next
  case (7 m ns dsize fmt i pers fa p ap c)
  then show ?case using copy_byte_ip_Some(1) by fastforce
qed

declare vsn_loop.simps [simp del]

definition vsnprintf :: "bytes \<Rightarrow> addr \<Rightarrow> u64 \<Rightarrow> u8 list \<Rightarrow> u64 list \<Rightarrow> piece option" where
  "vsnprintf m ns dsize fmt ap = vsn_loop m ns dsize fmt 0 False no_attrs (0, []) ap"

definition vsprintf :: "bytes \<Rightarrow> addr \<Rightarrow> u8 list \<Rightarrow> u64 list \<Rightarrow> piece option" where
  "vsprintf m ns fmt ap = vsnprintf m ns (ucast (drop_bit 1 (NOT 0 :: u32))) fmt ap"

text \<open>
  \<^verbatim>\<open>vkprintf\<close> hands to the console the characters up to the first null of its buffer, which it
  cleared. A text that fills the \<open>1024\<close> bytes leaves no null inside the buffer, and a longer one has
  been written past its end by the time its length is tested: both are \<open>Inl\<close>.
\<close>

definition display_text :: "u8 list \<Rightarrow> u8 list" where
  "display_text buf = takeWhile (\<lambda>c. c \<noteq> 0) buf"

definition vkprintf :: "bool \<Rightarrow> bytes \<Rightarrow> addr \<Rightarrow> u8 list \<Rightarrow> u64 list \<Rightarrow> u8 list option res option" where
  "vkprintf is_enabled m ns fmt ap =
     map_option (\<lambda>(sl, out).
       if TMPBUF_SIZE \<le> length out then Inl BadAccess
       else let tmp_buf = out @ replicate (TMPBUF_SIZE - length out) 0
            in Inr (if is_enabled then Some (display_text tmp_buf) else None))
     (vsprintf m ns fmt ap)"

section \<open>Bounds\<close>

lemma make_width_grows: "piece_ok dsize p \<Longrightarrow> fst p \<le> fst (make_width dsize c fa p)"
proof (cases p)
  case (Pair cs out)
  assume "piece_ok dsize p"
  then show ?thesis
    using advance_ok(2) [of "scast (fa_width fa)" dsize cs]
    by (auto simp: make_width_def Let_def Pair piece_ok_def not_less) (simp add: word_le_nat_alt)
qed

lemma number_body_pos:
  assumes "piece_ok dsize p" and "tmp \<noteq> []" and "length tmp \<le> FMT_DBUF_SIZE" and "dsize \<noteq> 0"
  shows "fst (number_body dsize fa tmp p) \<noteq> 0"
proof -
  obtain cs out where p: "p = (cs, out)" by (cases p)
  let ?w = "scast (fa_presiction fa) :: u64"
  define q where "q = (if 0 <s fa_presiction fa \<and> ?w \<le> dsize - cs
    then (cs + ?w, out @ replicate (unat ?w) (chr CHR ''0'')) else (cs, out))"
  have q: "piece_ok dsize q"
    using assms(1) advance_ok [of ?w dsize cs] by (auto simp: q_def piece_ok_def p)
  define j where "j = (let j = of_nat (length tmp) :: u64 in if j > dsize - fst q then dsize - fst q else j)"
  have len: "unat (of_nat (length tmp) :: u64) = length tmp"
    using assms(3) by (intro unat_of_nat_small) (simp add: FMT_DBUF_SIZE_def)
  have j: "j \<le> dsize - fst q" "unat j \<le> length tmp"
    using len by (auto simp: j_def Let_def word_less_nat_alt word_le_nat_alt)
  define r where "r = (fst q + j, snd q @ rev (take (unat j) tmp))"
  have r: "piece_ok dsize r"
    using q j advance_ok [OF j(1)] by (simp add: r_def piece_ok_def)
  have "unat (fst r) \<noteq> 0"
  proof (cases "dsize - fst q = 0")
    case True
    then show ?thesis using assms(4) advance_ok(2) [OF j(1)] q by (auto simp: r_def piece_ok_def unat_eq_0)
  next
    case False
    then have "j \<noteq> 0" using len assms(2) by (auto simp: j_def Let_def)
    then show ?thesis using advance_ok(2) [OF j(1)] q by (simp add: r_def piece_ok_def unat_eq_0)
  qed
  moreover have "number_body dsize fa tmp p =
      (if has fa FMT_FLJ then make_width dsize (chr CHR '' '') fa r else r)"
    unfolding number_body_def p r_def j_def q_def by (simp add: Let_def split_beta)
  ultimately show ?thesis using make_width_grows [OF r, of "chr CHR '' ''" fa]
    by (auto simp: word_le_nat_alt)
qed

lemma digit_pos:
  assumes "digit dsize number fa = Some (0, out)"
  shows "dsize = 0"
proof (rule ccontr)
  assume "dsize \<noteq> 0"
  obtain tmp neg fb where tmp: "length tmp \<le> FMT_DBUF_SIZE" "tmp \<noteq> []"
    and run: "digit_write dsize neg fb tmp = (0, out)"
    using assms digit_loop_length unfolding digit_def Let_def by fastforce
  have "fst (digit_write dsize neg fb tmp) \<noteq> 0"
  proof (cases "if has fb FMT_FSPACE then put_byte dsize (chr CHR '' '') (0, []) else Inr (0, [])")
    case (Inl p)
    then show ?thesis using \<open>dsize \<noteq> 0\<close> by (simp add: digit_write_def split_beta)
  next
    case (Inr p)
    let ?p = "if has fb FMT_FLJ then p else make_width dsize (if has fb FMT_FZERO then chr CHR ''0'' else chr CHR '' '') fb p"
    have "piece_ok dsize p" using Inr by (auto split: if_splits dest: put_byte_okD)
    then have p: "piece_ok dsize ?p" using make_width_ok(2) by simp
    show ?thesis
    proof (cases "number_prefix dsize neg fb ?p")
      case (Inl q)
      then show ?thesis using \<open>_ = Inr p\<close> \<open>dsize \<noteq> 0\<close> by (simp add: digit_write_def Let_def split_beta)
    next
      case (Inr q)
      then have "piece_ok dsize q" using p by (rule number_prefix_ok)
      then show ?thesis using Inr \<open>_ = Inr p\<close> tmp \<open>dsize \<noteq> 0\<close> number_body_pos [of dsize q tmp fb]
        by (simp add: digit_write_def Let_def)
    qed
  qed
  then show False using run by simp
qed

lemma digit_piece_ok:
  assumes "digit (dsize - fst p) d fa = Some (ret, o1)" and "piece_ok dsize p"
  shows "piece_ok dsize (fst p + ret, snd p @ o1)"
  using digit_ok [OF assms(1)] assms(2) advance_ok [of ret dsize "fst p"] by (simp add: piece_ok_def)

lemma full_ok:
  "copy_byte_ip dsize c p = None \<Longrightarrow> piece_ok dsize p \<Longrightarrow> piece_ok dsize (dsize, snd p)"
  "chr_piece dsize c fa p = Inl q \<Longrightarrow> piece_ok dsize p \<Longrightarrow> piece_ok dsize (dsize, snd q)"
  using chr_piece_ok(3) [of dsize c fa p q]
  by (auto simp: copy_byte_ip_def piece_ok_def split: prod.splits if_splits)

lemma vsn_loop_ok:
  "vsn_loop m ns dsize fmt i pers fa p ap = Some q \<Longrightarrow> piece_ok dsize p \<Longrightarrow> piece_ok dsize q"
proof (induction m ns dsize fmt i pers fa p ap rule: vsn_loop.induct)
  case (1 m ns dsize fmt i pers fa p ap)
  let ?c = "fmt_at fmt i"
  consider "?c = 0" | "?c \<noteq> 0" "?c = chr CHR ''%'' \<and> \<not> pers" | "?c \<noteq> 0" "\<not> (?c = chr CHR ''%'' \<and> \<not> pers)" by blast
  then show ?case
  proof cases
    case 1
    then show ?thesis using "1.prems" by (subst (asm) vsn_loop.simps) (simp add: Let_def)
  next
    case 2
    then show ?thesis using "1.prems" "1.IH"(1) by (subst (asm) vsn_loop.simps) (simp add: Let_def)
  next
    case 3
    let ?act = "if pers then scan_char ?c (fmt_at fmt (i + 1)) fa ap else Some (Plain False fa ap)"
    obtain act where act: "?act = Some act"
      using "1.prems" 3 by (subst (asm) vsn_loop.simps) (auto simp: Let_def split: option.splits)
    have run: "vsn_loop m ns dsize fmt i pers fa p ap = Some q" by (rule "1.prems")
    note unfold = run [unfolded vsn_loop.simps [of m ns dsize fmt i pers fa p ap] Let_def if_not_P [OF 3(1)] if_not_P [OF 3(2)] act option.case]
    show ?thesis
    proof (cases act)
      case (Number d fb as)
      then show ?thesis
        using unfold "1.IH"(3) [OF refl 3 act Number] "1.prems"(2) digit_pos [of "dsize - fst p" d fb]
          digit_piece_ok [of dsize p d fb]
        by (fastforce simp: piece_ok_def split: option.splits if_splits dest: digit_ok)
    qed (use unfold "1.IH"(2,4,5,6) [OF refl 3 act] "1.prems"(2) in
        \<open>auto split: option.splits sum.splits if_splits
           dest: str_piece_ok(2) chr_piece_ok(2) copy_byte_ip_Some(2) full_ok\<close>)
  qed
qed

section \<open>The text of a number\<close>

text \<open>Reference: the digits of a number, the highest first, and the number that digits denote.\<close>

fun radix :: "nat \<Rightarrow> u8 list \<Rightarrow> nat \<Rightarrow> u8 list" where
  "radix b tab n = (if b < 2 \<or> n < b then [tab ! n] else radix b tab (n div b) @ [tab ! (n mod b)])"

declare radix.simps [simp del]

definition digit_value :: "u8 list \<Rightarrow> u8 \<Rightarrow> nat" where
  "digit_value tab c = length (takeWhile (\<lambda>x. x \<noteq> c) tab)"

definition read_number :: "nat \<Rightarrow> u8 list \<Rightarrow> u8 list \<Rightarrow> nat" where
  "read_number b tab ds = fold (\<lambda>c v. v * b + digit_value tab c) ds 0"

lemma digit_value_nth: "distinct tab \<Longrightarrow> i < length tab \<Longrightarrow> digit_value tab (tab ! i) = i"
  unfolding digit_value_def
  by (subst takeWhile_eq_take_P_nth [of i]) (auto simp: nth_eq_iff_index_eq)

lemma read_radix:
  assumes "distinct tab" and "b \<le> length tab" and "2 \<le> b"
  shows "read_number b tab (radix b tab n) = n"
  using assms
proof (induction b tab n rule: radix.induct)
  case (1 b tab n)
  have "n mod b < length tab" using "1.prems" by (intro order_less_le_trans [OF mod_less_divisor]) auto
  then show ?case
    using 1 digit_value_nth [of tab "n mod b"] digit_value_nth [of tab n]
    by (subst radix.simps) (auto simp: read_number_def mult.commute [of _ b])
qed

lemma radix_chars: "b \<le> length tab \<Longrightarrow> 2 \<le> b \<Longrightarrow> set (radix b tab n) \<subseteq> set tab"
proof (induction b tab n rule: radix.induct)
  case (1 b tab n)
  have "n mod b < length tab" using "1.prems" by (intro order_less_le_trans [OF mod_less_divisor]) auto
  then show ?case using 1 by (subst radix.simps) auto
qed

lemma radix_length: "0 < k \<Longrightarrow> n < b ^ k \<Longrightarrow> 2 \<le> b \<Longrightarrow> 0 < length (radix b tab n) \<and> length (radix b tab n) \<le> k"
proof (induction k arbitrary: n)
  case 0
  then show ?case by simp
next
  case (Suc k)
  show ?case
  proof (cases "n < b")
    case True
    then show ?thesis by (subst (1 2) radix.simps) simp
  next
    case False
    then have "0 < k" using Suc.prems by (cases k) auto
    moreover have "n div b < b ^ k"
      using Suc.prems by (simp add: less_mult_imp_div_less mult.commute)
    ultimately show ?thesis
      using Suc.IH [of "n div b"] Suc.prems False by (subst (1 2) radix.simps) simp
  qed
qed

lemma radix_head:
  assumes "2 \<le> b" and "n \<noteq> 0"
  shows "\<exists>i. 0 < i \<and> i < b \<and> hd (radix b tab n) = tab ! i"
  using assms
proof (induction b tab n rule: radix.induct)
  case (1 b tab n)
  show ?case
  proof (cases "n < b")
    case True
    then show ?thesis using "1.prems" by (subst radix.simps) auto
  next
    case False
    moreover have "radix b tab (n div b) \<noteq> []" by (subst radix.simps) simp
    moreover have "n div b \<noteq> 0" using False "1.prems" by (simp add: div_eq_0_iff)
    ultimately show ?thesis using 1 by (subst radix.simps) auto
  qed
qed

lemma digit_loop_radix:
  assumes "2 \<le> unat base" and "length buf + length (radix (unat base) nums (unat d)) \<le> FMT_DBUF_SIZE"
  shows "digit_loop nums base d buf = Some (buf @ rev (radix (unat base) nums (unat d)))"
  using assms
proof (induction nums base d buf rule: digit_loop.induct)
  case (1 nums base d buf)
  have pos: "0 < length (radix (unat base) nums k)" for k by (subst radix.simps) simp
  have quot: "unat (d div base) = unat d div unat base" "unat (d mod base) = unat d mod unat base"
    by (simp_all add: unat_div unat_mod)
  show ?case
  proof (cases "unat d < unat base")
    case True
    then have "d div base = 0" using quot(1) by (simp add: unat_eq_0)
    moreover have "length buf < FMT_DBUF_SIZE" using "1.prems"(2) pos [of "unat d"] by linarith
    ultimately show ?thesis
      using True quot(2) by (subst digit_loop.simps, subst radix.simps) (simp add: Let_def)
  next
    case False
    then have "unat d div unat base \<noteq> 0" using "1.prems"(1) by (simp add: div_eq_0_iff)
    then have nz: "d div base \<noteq> 0" using quot(1) by (metis unat_0)
    have "radix (unat base) nums (unat d) = radix (unat base) nums (unat d div unat base) @ [nums ! (unat d mod unat base)]"
      using False "1.prems"(1) by (subst radix.simps) simp
    then show ?thesis
      using "1.prems" nz quot "1.IH" pos [of "unat d div unat base"]
      by (subst digit_loop.simps) (simp add: Let_def)
  qed
qed

text \<open>The flags of a conversion without modifiers: only the base and the type are set.\<close>

definition bare :: "fattrs \<Rightarrow> bool" where
  "bare fa \<longleftrightarrow> fa_width fa = 0 \<and> fa_presiction fa = 0 \<and> \<not> has fa FMT_FLJ \<and> \<not> has fa FMT_FSPACE \<and>
     \<not> has fa FMT_FPREF \<and> \<not> has fa FMT_FSIG"

lemma digit_bare:
  assumes bare: "bare fa" and base: "8 \<le> unat (number_base fa)" and fits: "length ds \<le> unat dsize"
    and ds: "ds = radix (unat (number_base fa)) (nums_table fa) (unat d)"
  shows "digit dsize d fa = Some (of_nat (length ds), ds)"
proof -
  have "unat d < 8 ^ 22" using unsigned_less [of d, where 'a = nat] by simp
  also have "\<dots> \<le> unat (number_base fa) ^ 22" using base by (rule power_mono) simp
  finally have len: "0 < length ds" "length ds \<le> 22"
    using radix_length [of 22 "unat d" "unat (number_base fa)" "nums_table fa"] base ds by auto
  have loop: "digit_loop (nums_table fa) (number_base fa) d [] = Some (rev ds)"
    using digit_loop_radix [of "number_base fa" "[]" "nums_table fa" d] base ds len by (simp add: FMT_DBUF_SIZE_def)
  have j: "unat (of_nat (length ds) :: u64) = length ds"
    using len by (intro unat_of_nat_small) simp
  have fields: "digit_fields j fa = fa" for j
    using bare by (simp add: digit_fields_def less_or_zero_def bare_def)
  have start: "make_width dsize c fa p = p" for c p
    using bare by (simp add: make_width_def bare_def split_beta)
  have "number_prefix dsize False fa (0, []) = Inr (0, [])"
    using bare by (simp add: number_prefix_def bare_def)
  moreover have "number_body dsize fa (rev ds) (0, []) = (of_nat (length ds), ds)"
  proof -
    have "\<not> dsize < of_nat (length ds)" using fits j by (simp add: word_less_nat_alt)
    then show ?thesis using bare j by (simp add: number_body_def Let_def bare_def)
  qed
  ultimately have "digit_write dsize False fa (rev ds) = (of_nat (length ds), ds)"
    using bare start by (simp add: digit_write_def Let_def bare_def)
  then show ?thesis
    using loop fields by (simp add: digit_def Let_def unset_d_def)
qed

section \<open>Plain text and conversions\<close>

lemma chr_num:
  "chr CHR ''0'' = 48" "chr CHR ''9'' = 57" "chr CHR ''a'' = 97" "chr CHR ''f'' = 102" "chr CHR ''A'' = 65"
  "chr CHR ''F'' = 70" "chr CHR ''i'' = 105" "chr CHR ''d'' = 100" "chr CHR ''c'' = 99" "chr CHR ''s'' = 115"
  "chr CHR ''x'' = 120" "chr CHR ''X'' = 88" "chr CHR ''p'' = 112" "chr CHR ''o'' = 111" "chr CHR ''u'' = 117"
  "chr CHR ''#'' = 35" "chr CHR ''+'' = 43" "chr CHR ''-'' = 45" "chr CHR '' '' = 32" "chr CHR ''.'' = 46"
  "chr CHR ''h'' = 104" "chr CHR ''l'' = 108" "chr CHR ''z'' = 122" "chr CHR ''*'' = 42" "chr CHR ''%'' = 37"
  "chr CHR ''1'' = 49"
  by (simp_all add: chr_def)

definition lower_digits :: "u8 list" where
  "lower_digits = chrs ''0123456789abcdef''"

definition upper_digits :: "u8 list" where
  "upper_digits = chrs ''0123456789ABCDEF''"

lemma tables:
  "nums_table fa = (if has fa FMT_DHEX_UP \<and> \<not> has fa FMT_DOCT \<and> \<not> has fa FMT_DDEC then upper_digits else lower_digits)"
  "distinct lower_digits" "distinct upper_digits" "length lower_digits = 16" "length upper_digits = 16"
  "lower_digits ! 0 = chr CHR ''0''" "upper_digits ! 0 = chr CHR ''0''"
  by (simp_all add: nums_table_def lower_digits_def upper_digits_def chrs_def chr_def)

lemma no_null_digit: "0 \<notin> set lower_digits" "0 \<notin> set upper_digits"
  by (simp_all add: lower_digits_def upper_digits_def chrs_def chr_def)

text \<open>\<open>number_format c a\<close>: base, digits and value of what the code prints at the conversion \<open>%c\<close> for the slot \<open>a\<close>. The
  value of \<^verbatim>\<open>%d\<close> and \<^verbatim>\<open>%i\<close> is the argument extended to 64 bits with its sign and then taken without one; how it
  relates to the number meant is \<open>printed_value\<close> below.\<close>

definition number_format :: "u8 \<Rightarrow> u64 \<Rightarrow> (nat \<times> u8 list \<times> nat) option" where
  "number_format c a =
     (let u = unat (ucast a :: u32); s = unat (scast (ucast a :: u32) :: u64)
      in if c = chr CHR ''u'' then Some (10, lower_digits, u)
         else if c = chr CHR ''d'' \<or> c = chr CHR ''i'' then Some (10, lower_digits, s)
         else if c = chr CHR ''o'' then Some (8, lower_digits, u)
         else if c = chr CHR ''x'' then Some (16, lower_digits, u)
         else if c = chr CHR ''X'' then Some (16, upper_digits, u)
         else None)"

lemma scan_number:
  assumes "number_format c a = Some (b, tab, v)"
  shows "\<exists>d fa. scan_char c c1 no_attrs (a # ap) = Some (Number d fa ap) \<and> bare fa \<and>
    unat (number_base fa) = b \<and> nums_table fa = tab \<and> unat d = v"
proof -
  have "c = 117 \<or> c = 100 \<or> c = 105 \<or> c = 111 \<or> c = 120 \<or> c = 88"
    using assms by (auto simp: number_format_def Let_def chr_num split: if_splits)
  moreover have up: "ucast (scast x :: u64) = x" for x :: u32
    by (rule bit_word_eqI) (auto simp: bit_simps)
  ultimately show ?thesis
    using assms
    by (elim disjE) (simp_all add: number_format_def Let_def chr_num scan_char_def isdigit_def number_conv_def
        no_attrs_def has_def with_flags_def ident_num_size_def bare_def number_base_def tables fmt_defs
        word_sle_eq word_sless_alt up unat_ucast_up)
qed

definition plain_text :: "u8 list \<Rightarrow> bool" where
  "plain_text xs \<longleftrightarrow> (\<forall>c\<in>set xs. c \<noteq> 0 \<and> c \<noteq> chr CHR ''%'')"

lemma fmt_at_mid: "fmt_at (ys @ x # zs) (length ys) = x"
  by (simp add: fmt_at_def)

lemma plain_step:
  assumes "fmt_at fmt i = c" and "c \<noteq> 0" and "c \<noteq> chr CHR ''%''"
  shows "vsn_loop m ns dsize fmt i False no_attrs p ap =
    (case copy_byte_ip dsize c p of None \<Rightarrow> Some (dsize, snd p)
     | Some q \<Rightarrow> vsn_loop m ns dsize fmt (i + 1) False no_attrs q ap)"
proof -
  have "int i - sint (fa_cinf no_attrs) = int i" by (simp add: no_attrs_def)
  moreover have "i < length fmt" using fmt_at_nonzero [of fmt i] assms(1,2) by simp
  ultimately show ?thesis using assms by (subst vsn_loop.simps) (simp add: Let_def split: option.split)
qed

lemma plain_run:
  assumes "plain_text xs" and "fmt = ys @ xs @ zs" and "unat cs + length xs \<le> unat dsize"
  shows "vsn_loop m ns dsize fmt (length ys) False no_attrs (cs, out) ap =
    vsn_loop m ns dsize fmt (length ys + length xs) False no_attrs (cs + of_nat (length xs), out @ xs) ap"
  using assms
proof (induction xs arbitrary: ys cs out)
  case Nil
  then show ?case by simp
next
  case (Cons x xs)
  have "dsize - cs \<noteq> 0" using Cons.prems(3) by auto
  then have "copy_byte_ip dsize x (cs, out) = Some (cs + 1, out @ [x])" by (simp add: copy_byte_ip_def)
  then have "vsn_loop m ns dsize fmt (length ys) False no_attrs (cs, out) ap =
      vsn_loop m ns dsize fmt (length (ys @ [x])) False no_attrs (cs + 1, out @ [x]) ap"
    using Cons.prems fmt_at_mid [of ys x "xs @ zs"]
    by (subst plain_step [of _ _ x]) (simp_all add: plain_text_def)
  also have "\<dots> = vsn_loop m ns dsize fmt (length (ys @ [x]) + length xs) False no_attrs
      (cs + 1 + of_nat (length xs), (out @ [x]) @ xs) ap"
  proof (rule Cons.IH)
    have "cs + 1 \<le> dsize \<and> unat (cs + 1) = unat cs + 1"
      using Cons.prems(3) advance_ok [of 1 dsize cs] \<open>dsize - cs \<noteq> 0\<close>
      by (metis add_leE linorder_not_less unat_1 word_le_nat_alt word_less_1)
    then show "unat (cs + 1) + length xs \<le> unat dsize" using Cons.prems(3) by simp
  qed (use Cons.prems in \<open>simp_all add: plain_text_def\<close>)
  finally show ?case by (simp add: add.assoc)
qed

text \<open>One conversion: \<open>%c\<close> on the first argument.\<close>

lemma conversion_run:
  assumes "number_format c a = Some (b, tab, v)" and "fmt = ys @ chr CHR ''%'' # c # zs"
    and "unat cs + 22 \<le> unat dsize" and "ds = radix b tab v"
  shows "length ds \<le> 22 \<and> vsn_loop m ns dsize fmt (length ys) False no_attrs (cs, out) (a # ap) =
    vsn_loop m ns dsize fmt (length ys + 2) False no_attrs (cs + of_nat (length ds), out @ ds) ap"
proof -
  obtain d fa where scan: "scan_char c (fmt_at fmt (length ys + 2)) no_attrs (a # ap) = Some (Number d fa ap)"
    and fa: "bare fa" "unat (number_base fa) = b" "nums_table fa = tab" "unat d = v"
    using scan_number [OF assms(1)] by blast
  have base: "8 \<le> b" using assms(1) by (auto simp: number_format_def Let_def split: if_splits)
  have nz: "c \<noteq> 0" using assms(1) by (auto simp: number_format_def Let_def chr_num split: if_splits)
  have "v < 8 ^ 22" using unsigned_less [of d, where 'a = nat] fa(4) by simp
  also have "(8 :: nat) ^ 22 \<le> b ^ 22" using base by (rule power_mono) simp
  finally have len: "0 < length ds" "length ds \<le> 22"
    using radix_length [of 22 v b tab] base assms(4) by auto
  have "cs \<le> dsize" using assms(3) by (simp add: word_le_nat_alt)
  then have "unat (dsize - cs) = unat dsize - unat cs" by (rule unat_sub)
  then have dig: "digit (dsize - cs) d fa = Some (of_nat (length ds), ds)"
    using digit_bare [OF fa(1), of ds "dsize - cs" d] fa base len assms(3,4) by simp
  have "of_nat (length ds) \<noteq> (0 :: u64)"
    using len unat_of_nat_small [where 'a = 64, of "length ds"] by (auto dest: arg_cong [where f = unat])
  moreover have "fmt_at fmt (length ys) = chr CHR ''%''" "fmt_at fmt (Suc (length ys)) = c"
    by (simp_all add: fmt_at_def assms(2) nth_append)
  moreover have "chr CHR ''%'' \<noteq> 0" by (simp add: chr_num)
  ultimately have "vsn_loop m ns dsize fmt (length ys) False no_attrs (cs, out) (a # ap) =
    vsn_loop m ns dsize fmt (length ys + 2) False no_attrs (cs + of_nat (length ds), out @ ds) ap"
    using scan dig nz
    by (subst vsn_loop.simps, simp add: Let_def, subst vsn_loop.simps) (simp add: Let_def)
  then show ?thesis using len by simp
qed

lemma end_run: "length fmt \<le> i \<Longrightarrow> vsn_loop m ns dsize fmt i pers fa p ap = Some p"
  by (subst vsn_loop.simps) (simp add: fmt_at_def)

text \<open>A number between two plain texts.\<close>

lemma number_run_short:
  assumes "plain_text pre" and "plain_text post" and "number_format c a = Some (b, tab, v)"
    and "length pre + 22 + length post \<le> unat dsize"
  shows "\<exists>ds. vsnprintf m ns dsize (pre @ chr CHR ''%'' # c # post) [a] =
      Some (of_nat (length (pre @ ds @ post)), pre @ ds @ post) \<and>
    read_number b tab ds = v \<and> (v \<noteq> 0 \<longrightarrow> hd ds \<noteq> chr CHR ''0'') \<and> length ds \<le> 22 \<and> 0 \<notin> set ds"
proof -
  let ?fmt = "pre @ chr CHR ''%'' # c # post" and ?ds = "radix b tab v"
  have tab: "distinct tab" "b \<le> length tab" "2 \<le> b" "tab ! 0 = chr CHR ''0''"
    using assms(3) tables(2-) by (auto simp: number_format_def Let_def split: if_splits)
  have pre: "unat (of_nat (length pre) :: u64) = length pre"
    using assms(4) unsigned_less [of dsize, where 'a = nat] by (intro unat_of_nat_small) simp
  have len: "length ?ds \<le> 22" and mid: "vsn_loop m ns dsize ?fmt (length pre) False no_attrs (of_nat (length pre), pre) [a] =
      vsn_loop m ns dsize ?fmt (length pre + 2) False no_attrs (of_nat (length pre) + of_nat (length ?ds), pre @ ?ds) []"
    using conversion_run [OF assms(3), of ?fmt pre post "of_nat (length pre)" dsize ?ds m ns pre "[]"] pre assms(4)
    by simp_all
  have sum: "unat (of_nat (length pre) + of_nat (length ?ds) :: u64) = length pre + length ?ds"
    unfolding of_nat_add [symmetric] using len assms(4) unsigned_less [of dsize, where 'a = nat]
    by (intro unat_of_nat_small) simp
  have "vsn_loop m ns dsize ?fmt 0 False no_attrs (0, []) [a] =
      vsn_loop m ns dsize ?fmt (length pre) False no_attrs (of_nat (length pre), pre) [a]"
    using plain_run [OF assms(1), of ?fmt "[]" _ 0 dsize m ns "[]" "[a]"] assms(4) by simp
  also have "\<dots> = vsn_loop m ns dsize ?fmt (length (pre @ [chr CHR ''%'', c])) False no_attrs
      (of_nat (length pre) + of_nat (length ?ds), pre @ ?ds) []"
    unfolding mid by simp
  also have "\<dots> = vsn_loop m ns dsize ?fmt (length ?fmt) False no_attrs
      (of_nat (length pre) + of_nat (length ?ds) + of_nat (length post), (pre @ ?ds) @ post) []"
    by (subst plain_run [OF assms(2), of _ _ "[]"]) (use sum len assms(4) in simp_all)
  finally have "vsnprintf m ns dsize ?fmt [a] = Some (of_nat (length (pre @ ?ds @ post)), pre @ ?ds @ post)"
    by (simp add: vsnprintf_def end_run add.assoc)
  moreover have "hd ?ds \<noteq> chr CHR ''0''" if nz: "v \<noteq> 0"
  proof -
    obtain i where i: "0 < i" "i < b" "hd ?ds = tab ! i" using radix_head [OF tab(3) nz] by blast
    then have "tab ! i \<noteq> tab ! 0" using tab by (subst nth_eq_iff_index_eq) auto
    then show ?thesis using i tab(4) by simp
  qed
  moreover have "0 \<notin> set ?ds"
    using radix_chars [OF tab(2,3), of v] assms(3) no_null_digit by (auto simp: number_format_def Let_def split: if_splits)
  ultimately show ?thesis using read_radix [OF tab(1-3)] len by blast
qed

lemma number_run:
  assumes "plain_text pre" and "plain_text post" and "number_format c a = Some (b, tab, v)"
    and "length pre + 22 + length post \<le> unat dsize"
  shows "\<exists>ds. vsnprintf m ns dsize (pre @ chr CHR ''%'' # c # post) [a] =
      Some (of_nat (length (pre @ ds @ post)), pre @ ds @ post) \<and>
    read_number b tab ds = v \<and> (v \<noteq> 0 \<longrightarrow> hd ds \<noteq> chr CHR ''0'')"
  using number_run_short [OF assms] by blast

text \<open>A width of nonzero digits, and the flood that a zero digit behind it starts: each turn writes the \<^verbatim>\<open>%\<close> and is
  again behind it.\<close>

definition width_digits :: "u8 list \<Rightarrow> bool" where
  "width_digits ds \<longleftrightarrow> (\<forall>c\<in>set ds. chr CHR ''0'' < c \<and> c \<le> chr CHR ''9'')"

fun width_value :: "nat \<Rightarrow> u8 list \<Rightarrow> nat" where
  "width_value w [] = w"
| "width_value w (c # ds) = width_value (w * 10 + (unat c - 48)) ds"

definition width_attrs :: "nat \<Rightarrow> nat \<Rightarrow> fattrs" where
  "width_attrs k w = no_attrs\<lparr>fa_cinf := of_nat k, fa_width := of_nat w\<rparr>"

lemma sint_small:
  fixes c :: "'a::len word"
  assumes "unat c < 2 ^ (LENGTH('a) - 1)"
  shows "sint c = int (unat c)"
proof -
  have "int (unat c) < int (2 ^ (LENGTH('a) - 1))" using assms by (simp only: of_nat_less_iff)
  moreover have "- (2 ^ (LENGTH('a) - 1)) \<le> int (unat c)" by (rule order_trans [of _ 0]) simp_all
  ultimately show ?thesis unfolding sint_uint uint_nat by (intro signed_take_bit_int_eq_self) simp_all
qed

lemma width_digit:
  assumes "chr CHR ''0'' < c" and "c \<le> chr CHR ''9''"
  shows "scan_char c c1 (width_attrs k w) ap = Some (More (width_attrs (Suc k) (w * 10 + (unat c - 48))) 0 ap)" and "c \<noteq> 0"
    and "c \<noteq> chr CHR ''%''"
proof -
  have c: "48 < unat c" "unat c \<le> 57" using assms by (simp_all add: chr_num word_less_nat_alt word_le_nat_alt)
  then have "sint c = int (unat c)" by (intro sint_small) simp
  moreover have "48 < uint c" "uint c \<le> 57" using c unfolding uint_nat by linarith+
  ultimately have num: "isdigit c" "48 <s c" by (simp_all add: isdigit_def chr_num word_sle_eq word_sless_alt)
  have "(ucast (c - 48) :: u32) = of_nat (unat c - 48)"
  proof -
    have "48 \<le> c" using c(1) by (simp add: word_le_nat_alt)
    then have "unat (c - 48) = unat c - 48" by (subst unat_sub) simp_all
    then show ?thesis by (simp add: word_unat_eq_iff unsigned_ucast_eq unsigned_of_nat)
  qed
  moreover have "(of_nat k :: u32) + 1 = of_nat (Suc k)" by simp
  ultimately show "scan_char c c1 (width_attrs k w) ap = Some (More (width_attrs (Suc k) (w * 10 + (unat c - 48))) 0 ap)"
    using num by (simp add: scan_char_def width_attrs_def no_attrs_def has_def chr_num fields_inc_def del: of_nat_diff)
  show "c \<noteq> 0" "c \<noteq> chr CHR ''%''" using c by (auto simp: chr_num)
qed

lemma width_run:
  assumes "width_digits ds" and "fmt = ys @ ds @ zs"
  shows "vsn_loop m ns dsize fmt (length ys) True (width_attrs k w) p ap =
    vsn_loop m ns dsize fmt (length ys + length ds) True (width_attrs (k + length ds) (width_value w ds)) p ap"
  using assms
proof (induction ds arbitrary: ys k w)
  case (Cons c ds)
  have c: "chr CHR ''0'' < c" "c \<le> chr CHR ''9''" using Cons.prems(1) by (simp_all add: width_digits_def)
  have "fmt_at fmt (length ys) = c" using fmt_at_mid [of ys c "ds @ zs"] Cons.prems(2) by simp
  then have "vsn_loop m ns dsize fmt (length ys) True (width_attrs k w) p ap =
      vsn_loop m ns dsize fmt (length (ys @ [c])) True (width_attrs (Suc k) (w * 10 + (unat c - 48))) p ap"
    using width_digit [OF c] by (subst vsn_loop.simps) (simp add: Let_def)
  also have "\<dots> = vsn_loop m ns dsize fmt (length (ys @ [c]) + length ds) True
      (width_attrs (Suc k + length ds) (width_value (w * 10 + (unat c - 48)) ds)) p ap"
    using Cons.prems by (intro Cons.IH) (simp_all add: width_digits_def)
  finally show ?case by simp
qed simp

lemma width_value_bounds:
  assumes "width_digits ds"
  shows "w * 10 ^ length ds + length ds \<le> width_value w ds \<and> width_value w ds < (w + 1) * 10 ^ length ds"
  using assms
proof (induction ds arbitrary: w)
  case (Cons c ds)
  have c: "48 < unat c" "unat c \<le> 57"
    using Cons.prems by (simp_all add: width_digits_def chr_num word_less_nat_alt word_le_nat_alt)
  let ?w = "w * 10 + (unat c - 48)"
  have ds: "width_digits ds" using Cons.prems by (simp add: width_digits_def)
  have low: "(w * 10 + 1) * 10 ^ length ds \<le> ?w * 10 ^ length ds" using c by (intro mult_le_mono1) simp
  have high: "(?w + 1) * 10 ^ length ds \<le> ((w + 1) * 10) * 10 ^ length ds" using c by (intro mult_le_mono1) simp
  have "1 \<le> (10 :: nat) ^ length ds" by simp
  then show ?case using Cons.IH [OF ds, of ?w] low high by (simp add: algebra_simps)
qed simp

lemma flood_turn:
  assumes ds: "width_digits ds" "ds \<noteq> []" "length ds \<le> 9" and fmt: "fmt = pre @ chr CHR ''%'' # ds @ chr CHR ''0'' # rest"
  shows "vsn_loop m ns dsize fmt (Suc (length pre)) True no_attrs (cs, out) ap =
    (case copy_byte_ip dsize (chr CHR ''%'') (cs, out) of None \<Rightarrow> Some (dsize, out)
     | Some q \<Rightarrow> vsn_loop m ns dsize fmt (Suc (length pre)) True no_attrs q ap)"
proof -
  let ?k = "length ds" and ?w = "width_value 0 ds"
  have "?w < 10 ^ ?k" "?k \<le> ?w" using width_value_bounds [OF ds(1), of 0] by simp_all
  moreover have "(10 :: nat) ^ ?k \<le> 10 ^ 9" using ds(3) by (intro power_increasing) simp_all
  ultimately have w: "0 < ?w" "?w < 2 ^ 31" using ds(2) by (cases ds; simp)+
  have sint: "sint (of_nat n :: u32) = int n" if "n < 2 ^ 31" for n
  proof -
    have "unat (of_nat n :: u32) = n" using that by (intro unat_of_nat_small) simp
    then show ?thesis using that by (subst sint_small) simp_all
  qed
  have at: "fmt_at fmt (length pre + 1 + ?k) = 48" "fmt_at fmt (length pre) = chr CHR ''%''"
    by (simp_all add: fmt_at_def fmt nth_append chr_num)
  have s: "scan_char 48 c1 (width_attrs ?k ?w) ap = Some (Plain True (width_attrs (Suc ?k) ?w) ap)" for c1
    using w sint [OF w(2)] by (simp add: scan_char_def isdigit_def chr_num width_attrs_def no_attrs_def has_def word_sle_eq word_sless_alt)
  have j: "sint (fa_cinf (width_attrs (Suc ?k) ?w)) = 1 + int ?k"
    using sint [of "Suc ?k"] ds(3) by (simp add: width_attrs_def del: of_nat_Suc)
  have len: "length pre < length fmt" by (simp add: fmt)
  have "vsn_loop m ns dsize fmt (Suc (length pre)) True no_attrs (cs, out) ap =
      vsn_loop m ns dsize fmt (length pre + 1 + ?k) True (width_attrs ?k ?w) (cs, out) ap"
    using width_run [OF ds(1), of fmt "pre @ [chr CHR ''%'']" "chr CHR ''0'' # rest" m ns dsize 0 0 "(cs, out)" ap]
    by (simp add: fmt width_attrs_def no_attrs_def)
  also have "\<dots> = (case copy_byte_ip dsize (chr CHR ''%'') (cs, out) of None \<Rightarrow> Some (dsize, out)
     | Some q \<Rightarrow> vsn_loop m ns dsize fmt (Suc (length pre)) True no_attrs q ap)"
    using at s j len by (subst vsn_loop.simps) (simp add: Let_def split: option.split)
  finally show ?thesis .
qed

lemma flood_run:
  assumes ds: "width_digits ds" "ds \<noteq> []" "length ds \<le> 9" and fmt: "fmt = pre @ chr CHR ''%'' # ds @ chr CHR ''0'' # rest"
  shows "vsn_loop m ns dsize fmt (Suc (length pre)) True no_attrs (cs, out) ap =
    Some (dsize, out @ replicate (unat (dsize - cs)) (chr CHR ''%''))"
proof (induction "unat (dsize - cs)" arbitrary: cs out)
  case (0 cs out)
  then show ?case using flood_turn [OF ds fmt, of m ns dsize cs out ap]
    by (simp add: copy_byte_ip_def unat_eq_0)
next
  case (Suc n cs out)
  then have "dsize - cs \<noteq> 0" by auto
  then have "unat (dsize - (cs + 1)) = n"
    using advance_room [of 1 dsize cs] Suc.hyps(2) by (metis diff_Suc_1 unat_1 linorder_not_less word_less_1)
  then show ?case
    using flood_turn [OF ds fmt, of m ns dsize cs out ap] Suc.hyps(1) [of "cs + 1"] Suc.hyps(2) [symmetric] \<open>dsize - cs \<noteq> 0\<close>
    by (simp add: copy_byte_ip_def)
qed

section \<open>Properties\<close>

text \<open>C23: Whatever the format, the text never exceeds the given size, and the value returned is the
  number of characters written.\<close>

theorem vsnprintf_bounded:
  assumes "vsnprintf m ns dsize fmt ap = Some (ret, out)"
  shows "ret \<le> dsize \<and> length out = unat ret"
  using vsn_loop_ok [OF assms [unfolded vsnprintf_def]] by (simp add: piece_ok_def)

text \<open>Text without conversions is copied as it is, cut at the size of the destination.\<close>

theorem vsnprintf_plain:
  assumes "plain_text fmt"
  shows "vsnprintf m ns dsize fmt ap =
    Some (of_nat (min (length fmt) (unat dsize)), take (unat dsize) fmt)"
proof (cases "length fmt \<le> unat dsize")
  case True
  then show ?thesis
    using plain_run [OF assms, of fmt "[]" "[]" 0 dsize m ns "[]" ap] end_run [of fmt "length fmt"]
    by (simp add: vsnprintf_def)
next
  case False
  let ?n = "unat dsize"
  have split: "fmt = [] @ take ?n fmt @ fmt ! ?n # drop (Suc ?n) fmt"
    using False id_take_nth_drop [of ?n fmt] by simp
  have "plain_text (take ?n fmt)" using assms by (auto simp: plain_text_def dest: in_set_takeD)
  from plain_run [OF this split, of 0 dsize m ns "[]" ap] False
  have "vsn_loop m ns dsize fmt 0 False no_attrs (0, []) ap =
      vsn_loop m ns dsize fmt ?n False no_attrs (dsize, take ?n fmt) ap"
    by simp
  also have "\<dots> = Some (dsize, take ?n fmt)"
  proof -
    have "fmt ! ?n \<in> set fmt" using False by simp
    then have "fmt ! ?n \<noteq> 0" "fmt ! ?n \<noteq> chr CHR ''%''"
      using assms unfolding plain_text_def by blast+
    moreover have "fmt_at fmt ?n = fmt ! ?n" using False by (simp add: fmt_at_def)
    ultimately show ?thesis by (subst plain_step [of _ _ "fmt ! ?n"]) (simp_all add: copy_byte_ip_def)
  qed
  finally show ?thesis using False by (simp add: vsnprintf_def)
qed

text \<open>The value that the argument stands for: \<^verbatim>\<open>%d\<close> and \<^verbatim>\<open>%i\<close> take an \<^verbatim>\<open>int\<close>, the other conversions an
  \<^verbatim>\<open>unsigned int\<close>.\<close>

definition argument_value :: "u8 \<Rightarrow> u64 \<Rightarrow> int" where
  "argument_value c a = (if c = chr CHR ''d'' \<or> c = chr CHR ''i'' then sint (ucast a :: u32) else uint (ucast a :: u32))"

lemma printed_value:
  assumes "number_format c a = Some (b, tab, v)"
  shows "int v = (if argument_value c a < 0 then 2 ^ 64 + argument_value c a else argument_value c a)"
proof -
  let ?n = "ucast a :: u32"
  let ?s = "scast ?n :: u64"
  have "- (2 ^ 31) \<le> sint ?n" "sint ?n < 2 ^ 31" using sint_ge [of ?n] sint_lt [of ?n] by simp_all
  then have m: "sint ?n mod 2 ^ 64 = (if sint ?n < 0 then 2 ^ 64 + sint ?n else sint ?n)"
    using mod_pos_pos_trivial [of "sint ?n + 2 ^ 64" "2 ^ 64"] by (auto simp: add.commute)
  have "int (unat ?s) = uint ?s" by (rule uint_nat [symmetric])
  also have "\<dots> = sint ?n mod 2 ^ 64" unfolding scast_eq uint_word_of_int by simp
  finally have "int (unat ?s) = (if sint ?n < 0 then 2 ^ 64 + sint ?n else sint ?n)" using m by (rule trans)
  moreover have "int (unat ?n) = uint ?n" by (rule uint_nat [symmetric])
  ultimately show ?thesis using assms by (auto simp: number_format_def Let_def argument_value_def chr_num split: if_splits)
qed

text \<open>C22: A conversion of a number between two plain texts prints digits without a leading zero. They read back as
  the argument where it is not negative; a negative argument of \<^verbatim>\<open>%d\<close> or \<^verbatim>\<open>%i\<close>, which should be printed with
  its sign, comes out as the unsigned number \<open>2 ^ 64\<close> above it.\<close>

theorem vsnprintf_number:
  assumes "plain_text pre" and "plain_text post" and "number_format c a = Some (b, tab, v)"
    and "length pre + 22 + length post \<le> unat dsize"
  shows "\<exists>ds. vsnprintf m ns dsize (pre @ chr CHR ''%'' # c # post) [a] =
      Some (of_nat (length (pre @ ds @ post)), pre @ ds @ post) \<and>
    int (read_number b tab ds) = (if argument_value c a < 0 then 2 ^ 64 + argument_value c a else argument_value c a) \<and>
    (argument_value c a \<noteq> 0 \<longrightarrow> hd ds \<noteq> chr CHR ''0'')"
proof -
  have "- (2 ^ 31) \<le> uint (ucast a :: u32)" by (rule order_trans [of _ 0]) simp_all
  then have "- (2 ^ 31) \<le> argument_value c a" using sint_ge [of "ucast a :: u32"] by (simp add: argument_value_def)
  then have nz: "argument_value c a \<noteq> 0 \<Longrightarrow> v \<noteq> 0" using printed_value [OF assms(3)]
    by (cases "argument_value c a < 0") auto
  show ?thesis using number_run [OF assms, of m ns] nz unfolding printed_value [OF assms(3), symmetric] by auto
qed

text \<open>A negative number does not get its sign: \<^verbatim>\<open>%d\<close> prints it as an unsigned 64-bit number.\<close>

theorem negative_printed_unsigned:
  assumes "sint (ucast a :: u32) < 0" and "22 \<le> unat dsize"
  shows "\<exists>ds. vsnprintf m ns dsize (chrs ''%d'') [a] = Some (of_nat (length ds), ds) \<and>
    int (read_number 10 lower_digits ds) = 2 ^ 64 + sint (ucast a :: u32)"
proof -
  let ?s = "scast (ucast a :: u32) :: u64"
  have fmt: "number_format (chr CHR ''d'') a = Some (10, lower_digits, unat ?s)"
    by (simp add: number_format_def Let_def chr_num)
  have val: "int (unat ?s) = 2 ^ 64 + sint (ucast a :: u32)"
    using printed_value [OF fmt] assms(1) by (simp add: argument_value_def)
  from fmt obtain ds where ds: "vsnprintf m ns dsize (chrs ''%d'') [a] = Some (of_nat (length ds), ds)"
    and read: "read_number 10 lower_digits ds = unat ?s"
    using number_run [of "[]" "[]" "chr CHR ''d''" a 10 lower_digits "unat ?s" dsize m ns] assms(2)
    by (auto simp: plain_text_def chrs_def)
  show ?thesis using ds val unfolding read [symmetric] by blast
qed

text \<open>C40: A width of up to nine digits with its first zero digit behind nonzero ones, such as \<^verbatim>\<open>%10d\<close> or
  \<^verbatim>\<open>%120x\<close>, floods the destination: the format is rewound to its \<^verbatim>\<open>%\<close> while the specification stays open, so
  that all room behind the text before it is filled with \<^verbatim>\<open>%\<close>, and only then the function returns.\<close>

theorem width_with_zero_floods:
  assumes "plain_text pre" and "length pre \<le> unat dsize"
    and "ds \<noteq> []" and "length ds \<le> 9" and "width_digits ds"
  shows "vsnprintf m ns dsize (pre @ chr CHR ''%'' # ds @ chr CHR ''0'' # rest) ap =
    Some (dsize, pre @ replicate (unat dsize - length pre) (chr CHR ''%''))"
proof -
  let ?fmt = "pre @ chr CHR ''%'' # ds @ chr CHR ''0'' # rest" and ?cs = "of_nat (length pre) :: u64"
  have cs: "unat ?cs = length pre" using assms(2) unsigned_less [of dsize, where 'a = nat] by (intro unat_of_nat_small) simp
  then have room: "unat (dsize - ?cs) = unat dsize - length pre" using assms(2) by (subst unat_sub) (simp_all add: word_le_nat_alt)
  have "vsn_loop m ns dsize ?fmt 0 False no_attrs (0, []) ap = vsn_loop m ns dsize ?fmt (length pre) False no_attrs (?cs, pre) ap"
    using plain_run [OF assms(1), of ?fmt "[]" _ 0 dsize m ns "[]" ap] assms(2) by simp
  also have "\<dots> = vsn_loop m ns dsize ?fmt (Suc (length pre)) True no_attrs (?cs, pre) ap"
    using fmt_at_mid [of pre "chr CHR ''%''" "ds @ chr CHR ''0'' # rest"] by (subst vsn_loop.simps) (simp add: chr_num)
  finally show ?thesis
    using flood_run [OF assms(5,3,4) refl, of m ns dsize pre rest ?cs pre ap] by (simp add: vsnprintf_def room)
qed

section \<open>Witnesses\<close>

text \<open>A text that is cut.\<close>

theorem vsnprintf_bounded_witness:
  "\<exists>ret out. vsnprintf (\<lambda>_. 0) 0 2 (chrs ''mui'') [] = Some (ret, out) \<and> out = chrs ''mu'' \<and> ret \<le> 2 \<and> length out = unat ret"
proof -
  have "vsnprintf (\<lambda>_. 0) 0 2 (chrs ''mui'') [] = Some (2, chrs ''mu'')"
    by (simp add: vsnprintf_def vsn_loop.simps fmt_at_def chrs_def chr_def copy_byte_ip_def no_attrs_def)
  then show ?thesis using vsnprintf_bounded [of "\<lambda>_. 0" 0 2 "chrs ''mui''" "[]" 2 "chrs ''mu''"] by blast
qed

theorem vsnprintf_plain_witness:
  "vsnprintf (\<lambda>_. 0) 0 2 (chrs ''mui'') [] = Some (2, chrs ''mu'')"
  using vsnprintf_plain [of "chrs ''mui''" "\<lambda>_. 0" 0 2 "[]"]
  by (simp add: plain_text_def chrs_def chr_def)

theorem vsnprintf_number_witness:
  "\<exists>ds. vsnprintf (\<lambda>_. 0) 0 64 (chrs ''n=%d'') [0xbeef] = Some (of_nat (length (chrs ''n='' @ ds)), chrs ''n='' @ ds) \<and>
    int (read_number 10 lower_digits ds) = 0xbeef"
  using vsnprintf_number [of "chrs ''n=''" "[]" "chr CHR ''d''" "0xbeef" 10 lower_digits "0xbeef" 64 "\<lambda>_. 0" 0]
  by (auto simp: plain_text_def chrs_def number_format_def argument_value_def Let_def chr_num) (auto simp: chr_def)

theorem negative_printed_unsigned_witness:
  "\<exists>ds. vsnprintf (\<lambda>_. 0) 0 64 (chrs ''%d'') [- 5] = Some (of_nat (length ds), ds) \<and>
    int (read_number 10 lower_digits ds) = 18446744073709551611"
  using negative_printed_unsigned [of "- 5" 64 "\<lambda>_. 0" 0] by simp

theorem width_with_zero_floods_witness:
  "vsnprintf (\<lambda>_. 0) 0 8 (chrs ''n=%120x'') [5] = Some (8, chrs ''n=%%%%%%'')"
proof -
  have "replicate 6 x = [x, x, x, x, x, x]" for x :: u8 by (simp add: eval_nat_numeral)
  then show ?thesis
    using width_with_zero_floods [of "chrs ''n=''" 8 "chrs ''12''" "\<lambda>_. 0" 0 "chrs ''x''" "[5]"]
    by (simp add: plain_text_def width_digits_def chrs_def chr_def)
qed

end
