(* ===== verification/Mui_Itoa.thy ===== *)
theory Mui_Itoa
  imports Mui_Printf
begin

text \<open>
  \<^verbatim>\<open>mlibc/stdlib.c\<close>: \<^verbatim>\<open>itoa\<close>. The result is the list of bytes it leaves at \<^verbatim>\<open>buf\<close>; the digits
  are written from the lowest up and then reversed in place.
\<close>

section \<open>The function\<close>

definition itoa_table :: "u32 \<Rightarrow> u8 list option" where
  "itoa_table radix' =
     (if radix' = 10 \<or> radix' = 8 then Some (chrs ''0123456789'')
      else if radix' = 16 then Some (chrs ''0123456789ABCDEF'')
      else None)"

text \<open>\<^verbatim>\<open>num < radix\<close> and the divisions are unsigned: \<^verbatim>\<open>radix\<close> is an \<^verbatim>\<open>unsigned int\<close>.\<close>

fun itoa_loop :: "u8 list \<Rightarrow> u32 \<Rightarrow> nat \<Rightarrow> u32 \<Rightarrow> u8 list \<Rightarrow> nat \<times> u8 list" where
  "itoa_loop table radix' 0 num buf = (0, buf)"
| "itoa_loop table radix' (Suc buflen) num buf =
     (if num < radix' then (Suc buflen, buf @ [table ! unat num])
      else itoa_loop table radix' buflen (num div radix') (buf @ [table ! unat (num mod radix')]))"

text \<open>The reversal between the first character and \<^verbatim>\<open>buf - 1\<close>.\<close>

function swap_ends :: "nat \<Rightarrow> nat \<Rightarrow> u8 list \<Rightarrow> u8 list" where
  "swap_ends i j xs = (if i < j then swap_ends (i + 1) (j - 1) (xs[i := xs ! j, j := xs ! i]) else xs)"
  by pat_completeness auto
termination by (relation "measure (\<lambda>(i, j, xs). j - i)") auto

declare swap_ends.simps [simp del]

definition itoa :: "u32 \<Rightarrow> u64 \<Rightarrow> u32 \<Rightarrow> u8 list" where
  "itoa num buflen radix' =
     (case itoa_table radix' of
        None \<Rightarrow> []
      | Some table \<Rightarrow>
          if buflen = 0 then []
          else let sign = num <s 0 \<and> radix' = 10;
                   buf = (if sign then [chr CHR ''-''] else []);
                   buflen = (if sign then unat buflen - 1 else unat buflen);
                   (buflen, buf) = itoa_loop table radix' buflen num buf;
                   end = (if buflen > 0 then [0] else [])
               in swap_ends 0 (length buf - 1) (buf @ end))"

section \<open>Lemmas\<close>

lemma itoa_loop_radix:
  assumes "2 \<le> unat r" and "length (radix (unat r) tab (unat num)) \<le> n"
  shows "\<exists>k>0. itoa_loop tab r n num buf = (k, buf @ rev (radix (unat r) tab (unat num)))"
  using assms
proof (induction n arbitrary: num buf)
  case 0
  then show ?case by (subst (asm) radix.simps) (auto split: if_splits)
next
  case (Suc n)
  have q: "unat (num div r) = unat num div unat r" "unat (num mod r) = unat num mod unat r"
    by (simp_all add: unat_div unat_mod)
  show ?case
  proof (cases "unat num < unat r")
    case True
    then show ?thesis by (subst radix.simps) (simp add: word_less_nat_alt)
  next
    case False
    then have rad: "radix (unat r) tab (unat num) = radix (unat r) tab (unat num div unat r) @ [tab ! (unat num mod unat r)]"
      using Suc.prems(1) by (subst radix.simps) simp
    then have "\<exists>k>0. itoa_loop tab r n (num div r) (buf @ [tab ! unat (num mod r)]) =
        (k, (buf @ [tab ! unat (num mod r)]) @ rev (radix (unat r) tab (unat (num div r))))"
      using Suc.prems q by (intro Suc.IH) simp_all
    then show ?thesis using False rad q by (simp add: word_less_nat_alt)
  qed
qed

lemma swap_ends_nth:
  assumes "j < length xs" and "k < length xs"
  shows "length (swap_ends i j xs) = length xs"
    and "swap_ends i j xs ! k = (if i \<le> k \<and> k \<le> j then xs ! (i + j - k) else xs ! k)"
  using assms
proof (induction i j xs rule: swap_ends.induct)
  case (1 i j xs)
  let ?ys = "xs[i := xs ! j, j := xs ! i]"
  {
    case 1
    then show ?case using "1.IH"(1) by (subst swap_ends.simps) auto
  next
    case 2
    show ?case
    proof (cases "i < j")
      case False
      moreover from False have "i + j - k = k" if "i \<le> k" "k \<le> j" using that by simp
      ultimately show ?thesis by (subst swap_ends.simps) auto
    next
      case True
      then have "swap_ends i j xs ! k = (if i + 1 \<le> k \<and> k \<le> j - 1 then ?ys ! (i + 1 + (j - 1) - k) else ?ys ! k)"
        using "1.IH"(2) 2 by (subst swap_ends.simps) simp
      moreover have "i + 1 + (j - 1) = i + j" using True by simp
      ultimately show ?thesis using True 2
        by (cases "k = i"; cases "k = j"; cases "i + 1 \<le> k \<and> k \<le> j - 1") (auto simp: nth_list_update)
    qed
  }
qed

lemma swap_whole: "swap_ends 0 (length xs - 1) (xs @ zs) = rev xs @ zs"
proof (cases "xs = []")
  case True
  then show ?thesis by (subst swap_ends.simps) simp
next
  case False
  then have j: "length xs - 1 < length (xs @ zs)" by (cases xs) auto
  show ?thesis
  proof (rule nth_equalityI)
    show len: "length (swap_ends 0 (length xs - 1) (xs @ zs)) = length (rev xs @ zs)"
      using swap_ends_nth(1) [OF j j] by simp
    fix k
    assume "k < length (swap_ends 0 (length xs - 1) (xs @ zs))"
    then have k: "k < length (xs @ zs)" using len by simp
    have in_xs: "k \<le> length xs - 1 \<longleftrightarrow> k < length xs" using False by (cases xs) auto
    then show "swap_ends 0 (length xs - 1) (xs @ zs) ! k = (rev xs @ zs) ! k"
      using swap_ends_nth(2) [OF j k, of 0] in_xs k by (auto simp: nth_append rev_nth)
  qed
qed

section \<open>Properties\<close>

text \<open>A number that is not negative in base 10 is converted to its digits, the highest first,
  when the buffer has room for the digits; the terminator then follows, even when the digits fill
  the buffer and it goes one byte past the end.\<close>

theorem itoa_digits:
  assumes "itoa_table r = Some tab" and "\<not> (num <s 0 \<and> r = 10)"
    and "length (radix (unat r) tab (unat num)) \<le> unat buflen"
  shows "itoa num buflen r = radix (unat r) tab (unat num) @ [0]"
proof -
  have r: "2 \<le> unat r" using assms(1) by (auto simp: itoa_table_def split: if_splits)
  have pos: "0 < length (radix (unat r) tab (unat num))" by (subst radix.simps) simp
  then have "buflen \<noteq> 0" using assms(3) by auto
  moreover obtain k where "k > 0" "itoa_loop tab r (unat buflen) num [] = (k, rev (radix (unat r) tab (unat num)))"
    using itoa_loop_radix [OF r assms(3), of "[]"] by auto
  ultimately show ?thesis
    using assms(1,2) swap_whole [of "rev (radix (unat r) tab (unat num))" "[0]"]
    by (auto simp: itoa_def Let_def)
qed

text \<open>A negative number in base 10: the sign ends up behind the digits of the number as an
  unsigned 32-bit value.\<close>

lemma itoa_negative:
  assumes "num <s 0" and "length (radix 10 (chrs ''0123456789'') (unat num)) < unat buflen"
  shows "itoa num buflen 10 = radix 10 (chrs ''0123456789'') (unat num) @ [chr CHR ''-'', 0]"
proof -
  let ?ds = "radix 10 (chrs ''0123456789'') (unat num)"
  have le: "length ?ds \<le> unat buflen - 1" using assms(2) by linarith
  have "buflen \<noteq> 0" using assms(2) by auto
  moreover obtain k where "k > 0" "itoa_loop (chrs ''0123456789'') 10 (unat buflen - 1) num [chr CHR ''-''] =
      (k, [chr CHR ''-''] @ rev ?ds)"
    using itoa_loop_radix [of 10 "chrs ''0123456789''" num "unat buflen - 1" "[chr CHR ''-'']"] le by auto
  ultimately show ?thesis
    using assms(1) swap_whole [of "[chr CHR ''-''] @ rev ?ds" "[0]"]
    by (auto simp: itoa_def itoa_table_def Let_def)
qed

theorem itoa_digits_witness: "itoa 255 2 16 = chrs ''FF'' @ [0]"
  using itoa_digits [of 16 "chrs ''0123456789ABCDEF''" 255 2]
  by (simp add: itoa_table_def radix.simps chrs_def)

end
