(* ===== verification/Mui_Irq.thy ===== *)
theory Mui_Irq
  imports Mui_List
begin

text \<open>
  The interrupt lines of \<^verbatim>\<open>eza/generic_api/interrupt.c\<close>: registration of controllers and of
  handlers, dispatch of an interrupt, and the switches of a line. An action and a controller are
  named by the address of their list link; handlers and controllers act on a device state \<open>'d\<close>
  through the functions their records hold, as the function pointers of the C structures do. A
  handler changes the devices and the statistics, not the interrupt tables.
\<close>

section \<open>State\<close>

definition NUM_IRQS :: nat where "NUM_IRQS = 16"

record 'd hw_interrupt_controller =
  hc_handles_irq :: "u32 \<Rightarrow> bool"
  hc_enable_all :: "'d \<Rightarrow> 'd"
  hc_disable_all :: "'d \<Rightarrow> 'd"
  hc_enable_irq :: "u32 \<Rightarrow> 'd \<Rightarrow> 'd"
  hc_disable_irq :: "u32 \<Rightarrow> 'd \<Rightarrow> 'd"
  hc_ack_irq :: "u32 \<Rightarrow> 'd \<Rightarrow> 'd"

record irq_action =
  ia_handler :: addr
  ia_flags :: u32
  ia_private_data :: addr

record irq_line =
  il_controller :: "addr option"
  il_flags :: u32

record 'd irq_state =
  irq_links :: list_heap
  known_hw_int_controllers :: addr
  irqs_base :: addr
  descs_base :: addr
  irq_lines :: "irq_line list"
  irq_ctrls :: "addr \<Rightarrow> 'd hw_interrupt_controller"
  irq_actions :: "addr \<Rightarrow> irq_action"
  action_idx :: nat
  irq_stat :: "u64 list"
  irq_dev :: 'd

text \<open>The list head of line \<open>i\<close> in \<^verbatim>\<open>irqs\<close>, and the link of descriptor \<open>i\<close> in \<^verbatim>\<open>descs\<close>.\<close>

definition actions_head :: "'d irq_state \<Rightarrow> nat \<Rightarrow> addr" where
  "actions_head s i = irqs_base s + of_nat (32 * i)"

definition action_link :: "'d irq_state \<Rightarrow> nat \<Rightarrow> addr" where
  "action_link s i = descs_base s + of_nat (40 * i + 24)"

definition upd_irq_links :: "(list_heap \<Rightarrow> list_heap) \<Rightarrow> 'd irq_state \<Rightarrow> 'd irq_state" where
  "upd_irq_links f s = s\<lparr>irq_links := f (irq_links s)\<rparr>"

definition upd_irq_dev :: "('d \<Rightarrow> 'd) \<Rightarrow> 'd irq_state \<Rightarrow> 'd irq_state" where
  "upd_irq_dev f s = s\<lparr>irq_dev := f (irq_dev s)\<rparr>"

definition controller_of :: "'d irq_state \<Rightarrow> nat \<Rightarrow> 'd hw_interrupt_controller option" where
  "controller_of s i = map_option (irq_ctrls s) (il_controller (irq_lines s ! i))"

section \<open>Operations\<close>

definition allocate_irq_action :: "'d irq_state \<Rightarrow> (addr \<times> 'd irq_state) res" where
  "allocate_irq_action s =
     (if action_idx s < 128 then
        let desc = action_link s (action_idx s)
        in Inr (desc, (upd_irq_links (init_list_head desc) s)\<lparr>action_idx := action_idx s + 1\<rparr>)
      else Inl BadAccess)"

definition install_irq_action :: "nat \<Rightarrow> addr \<Rightarrow> 'd irq_state \<Rightarrow> 'd irq_state" where
  "install_irq_action irq desc s = upd_irq_links (list_add_tail desc (actions_head s irq)) s"

definition remove_irq_action :: "addr \<Rightarrow> 'd irq_state \<Rightarrow> 'd irq_state" where
  "remove_irq_action desc s = upd_irq_links (list_del desc) s"

definition claim_line :: "addr \<Rightarrow> 'd hw_interrupt_controller \<Rightarrow> nat \<Rightarrow> irq_line \<Rightarrow> irq_line" where
  "claim_line ctrl c idx line =
     (if il_controller line = None \<and> hc_handles_irq c (of_nat idx)
      then line\<lparr>il_controller := Some ctrl\<rparr> else line)"

definition register_hw_interrupt_controller :: "addr \<Rightarrow> 'd irq_state \<Rightarrow> 'd irq_state" where
  "register_hw_interrupt_controller ctrl s =
     (let s = upd_irq_links (list_add ctrl (known_hw_int_controllers s)) s
      in s\<lparr>irq_lines := map (\<lambda>idx. claim_line ctrl (irq_ctrls s ctrl) idx (irq_lines s ! idx))
             [0..<NUM_IRQS]\<rparr>)"

definition disable_hw_irq :: "u64 \<Rightarrow> 'd irq_state \<Rightarrow> int \<times> 'd irq_state" where
  "disable_hw_irq irq s =
     (if unat irq \<ge> NUM_IRQS then (- EINVAL, s)
      else case controller_of s (unat irq) of
             Some c \<Rightarrow> (0, upd_irq_dev (hc_disable_irq c (ucast irq)) s)
           | None \<Rightarrow> (- EINVAL, s))"

definition enable_hw_irq :: "u64 \<Rightarrow> 'd irq_state \<Rightarrow> int \<times> 'd irq_state" where
  "enable_hw_irq irq s =
     (if unat irq \<ge> NUM_IRQS then (- EINVAL, s)
      else case controller_of s (unat irq) of
             Some c \<Rightarrow> (0, upd_irq_dev (hc_enable_irq c (ucast irq)) s)
           | None \<Rightarrow> (- EINVAL, s))"

definition register_irq ::
  "u64 \<Rightarrow> addr \<Rightarrow> addr \<Rightarrow> u32 \<Rightarrow> 'd irq_state \<Rightarrow> (int \<times> 'd irq_state) res" where
  "register_irq irq handler data flags s =
     (if unat irq < NUM_IRQS \<and> handler \<noteq> 0 then
        rbind (allocate_irq_action s) (\<lambda>(desc, s).
          let s = s\<lparr>irq_actions := (irq_actions s)(desc :=
                     \<lparr>ia_handler = handler, ia_flags = flags, ia_private_data = data\<rparr>)\<rparr>;
              s = install_irq_action (unat irq) desc s
          in case controller_of s (unat irq) of
               None \<Rightarrow> Inl BadAccess
             | Some c \<Rightarrow> Inr (0, upd_irq_dev (hc_enable_irq c (ucast irq)) s))
      else Inr (- EINVAL, s))"

definition unregister_step :: "addr \<Rightarrow> addr \<Rightarrow> 'd irq_state \<Rightarrow> 'd irq_state" where
  "unregister_step data desc s =
     (if ia_private_data (irq_actions s desc) = data then remove_irq_action desc s else s)"

definition unregister_irq :: "u64 \<Rightarrow> addr \<Rightarrow> 'd irq_state \<Rightarrow> (int \<times> 'd irq_state) option" where
  "unregister_irq irq data s =
     (if unat irq < NUM_IRQS then
        let head = actions_head s (unat irq)
        in map_option (\<lambda>s. (- EINVAL, s))
             (list_for_each irq_links (unregister_step data) head (lh_next (irq_links s) head) s)
      else Some (- EINVAL, s))"

definition initialize_irqs :: "'d irq_state \<Rightarrow> 'd irq_state" where
  "initialize_irqs s =
     (fold (\<lambda>i. upd_irq_links (init_list_head (actions_head s i))) [0..<NUM_IRQS] s)
       \<lparr>irq_lines := replicate NUM_IRQS \<lparr>il_controller = None, il_flags = 0\<rparr>\<rparr>"

definition disable_all_irqs :: "'d irq_state \<Rightarrow> 'd irq_state option" where
  "disable_all_irqs s =
     list_for_each irq_links (\<lambda>p s. upd_irq_dev (hc_disable_all (irq_ctrls s p)) s)
       (known_hw_int_controllers s) (lh_next (irq_links s) (known_hw_int_controllers s)) s"

definition enable_all_irqs :: "'d irq_state \<Rightarrow> 'd irq_state option" where
  "enable_all_irqs s =
     list_for_each irq_links (\<lambda>p s. upd_irq_dev (hc_enable_all (irq_ctrls s p)) s)
       (known_hw_int_controllers s) (lh_next (irq_links s) (known_hw_int_controllers s)) s"

text \<open>
  \<^verbatim>\<open>do_irq\<close>: \<open>call handler data\<close> is the effect of a handler on the devices and \<open>spurious\<close> that of
  enabling the interrupts and reporting a spurious one. The count of handlers is in the state of
  the walk.
\<close>

definition run_action ::
  "(addr \<Rightarrow> addr \<Rightarrow> 'd \<Rightarrow> 'd) \<Rightarrow> addr \<Rightarrow> nat \<times> 'd irq_state \<Rightarrow> nat \<times> 'd irq_state" where
  "run_action call action = (\<lambda>(handlers, s).
     (handlers + 1,
      upd_irq_dev (call (ia_handler (irq_actions s action)) (ia_private_data (irq_actions s action))) s))"

definition do_irq ::
  "(addr \<Rightarrow> addr \<Rightarrow> 'd \<Rightarrow> 'd) \<Rightarrow> ('d \<Rightarrow> 'd) \<Rightarrow> u64 \<Rightarrow> 'd irq_state \<Rightarrow> 'd irq_state res option" where
  "do_irq call spurious irq s =
     (if unat irq < NUM_IRQS then
        let i = unat irq;
            s = s\<lparr>irq_stat := (irq_stat s)[i := irq_stat s ! i + 1]\<rparr>;
            head = actions_head s i
        in Option.bind
             (list_for_each (irq_links \<circ> snd) (run_action call) head (lh_next (irq_links s) head) (0, s))
             (\<lambda>(handlers, s).
                case controller_of s i of
                  None \<Rightarrow> Some (Inl BadAccess)
                | Some c \<Rightarrow>
                    let s = upd_irq_dev (hc_ack_irq c (ucast irq)) s
                    in Some (Inr (if handlers > 0 then s else upd_irq_dev spurious s)))
      else Some (Inr (upd_irq_dev spurious s)))"

section \<open>Lemmas\<close>

lemma upd_simps [simp]:
  "irq_links (upd_irq_links f s) = f (irq_links s)" "irq_lines (upd_irq_links f s) = irq_lines s"
  "irq_ctrls (upd_irq_links f s) = irq_ctrls s" "irq_actions (upd_irq_links f s) = irq_actions s"
  "irq_dev (upd_irq_links f s) = irq_dev s" "action_idx (upd_irq_links f s) = action_idx s"
  "irqs_base (upd_irq_links f s) = irqs_base s" "descs_base (upd_irq_links f s) = descs_base s"
  "known_hw_int_controllers (upd_irq_links f s) = known_hw_int_controllers s"
  "irq_stat (upd_irq_links f s) = irq_stat s"
  "irq_links (upd_irq_dev g s) = irq_links s" "irq_lines (upd_irq_dev g s) = irq_lines s"
  "irq_ctrls (upd_irq_dev g s) = irq_ctrls s" "irq_actions (upd_irq_dev g s) = irq_actions s"
  "irq_dev (upd_irq_dev g s) = g (irq_dev s)" "irq_stat (upd_irq_dev g s) = irq_stat s"
  "irqs_base (upd_irq_dev g s) = irqs_base s" "known_hw_int_controllers (upd_irq_dev g s) = known_hw_int_controllers s"
  by (simp_all add: upd_irq_links_def upd_irq_dev_def)

text \<open>\<open>line_rep s i as\<close>: line \<open>i\<close> holds exactly the actions \<open>as\<close>, in the order of registration.\<close>

definition line_rep :: "'d irq_state \<Rightarrow> nat \<Rightarrow> addr list \<Rightarrow> bool" where
  "line_rep s i as \<longleftrightarrow> dlist (irq_links s) (actions_head s i) as"

lemma fold_run_action:
  "fold (run_action call) as (k, s) =
    (k + length as, upd_irq_dev (fold (\<lambda>a. call (ia_handler (irq_actions s a)) (ia_private_data (irq_actions s a))) as) s)"
proof (induction as arbitrary: k s)
  case Nil
  then show ?case by (simp add: upd_irq_dev_def)
next
  case (Cons a as)
  then show ?case by (simp add: run_action_def upd_irq_dev_def)
qed

text \<open>\<open>lines_ok s L\<close>: every line \<open>i\<close> holds the actions \<open>L i\<close>; lines share no node; the actions are
  descriptors already handed out, and no descriptor is a list head.\<close>

definition lines_ok :: "'d irq_state \<Rightarrow> (nat \<Rightarrow> addr list) \<Rightarrow> bool" where
  "lines_ok s L \<longleftrightarrow>
     (\<forall>i<NUM_IRQS. line_rep s i (L i) \<and> set (L i) \<subseteq> action_link s ` {..<action_idx s}) \<and>
     (\<forall>i<NUM_IRQS. \<forall>j<NUM_IRQS. i \<noteq> j \<longrightarrow> set (L i) \<inter> set (L j) = {}) \<and>
     (\<forall>i<NUM_IRQS. \<forall>k<128. actions_head s i \<noteq> action_link s k)"

lemma lines_okD: "lines_ok s L \<Longrightarrow> i < NUM_IRQS \<Longrightarrow> line_rep s i (L i)"
  by (simp add: lines_ok_def)

lemma actions_head_inject: "i < NUM_IRQS \<Longrightarrow> j < NUM_IRQS \<Longrightarrow> actions_head s i = actions_head s j \<Longrightarrow> i = j"
  using of_nat_eq_iff_small [where 'a = 64, of "32 * i" "32 * j"]
  by (simp add: actions_head_def NUM_IRQS_def del: of_nat_mult)

lemma action_link_inject: "i < 128 \<Longrightarrow> j < 128 \<Longrightarrow> action_link s i = action_link s j \<Longrightarrow> i = j"
  using of_nat_eq_iff_small [where 'a = 64, of "40 * i + 24" "40 * j + 24"]
  by (simp add: action_link_def del: of_nat_mult of_nat_add)

lemma dlist_init_fresh:
  assumes "dlist h l xs" and "n \<notin> insert l (set xs)"
  shows "dlist (init_list_head n h) l xs"
  using assms by (subst dlist_cong [of l xs _ h]) (auto simp: init_list_head_def)

lemma install_lines_ok:
  assumes ok: "lines_ok s L" and i: "i < NUM_IRQS" and idx: "action_idx s < 128"
    and s': "irqs_base s' = irqs_base s" "descs_base s' = descs_base s" "action_idx s' = action_idx s + 1"
      "irq_links s' = list_add_tail (action_link s (action_idx s)) (actions_head s i)
         (init_list_head (action_link s (action_idx s)) (irq_links s))"
  shows "lines_ok s' (L(i := L i @ [action_link s (action_idx s)]))"
proof -
  let ?d = "action_link s (action_idx s)" and ?h = "init_list_head (action_link s (action_idx s)) (irq_links s)"
  have eqs: "actions_head s' = actions_head s" "action_link s' = action_link s"
    by (simp_all add: fun_eq_iff actions_head_def action_link_def s')
  have sub: "set (L j) \<subseteq> action_link s ` {..<action_idx s}" if "j < NUM_IRQS" for j
    using ok that by (simp add: lines_ok_def)
  have fresh: "?d \<notin> insert (actions_head s j) (set (L j))" if "j < NUM_IRQS" for j
  proof -
    have "?d \<noteq> action_link s k" if "k < action_idx s" for k
      using action_link_inject [of "action_idx s" k s] idx that by auto
    then have "?d \<notin> set (L j)" using sub [OF that] by auto
    moreover have "actions_head s j \<noteq> ?d" using ok that idx by (simp add: lines_ok_def)
    ultimately show ?thesis by auto
  qed
  have d: "dlist ?h (actions_head s j) (L j)" if "j < NUM_IRQS" for j
    using ok that dlist_init_fresh [OF _ fresh [OF that]] by (simp add: lines_ok_def line_rep_def)
  have disj: "insert (actions_head s i) (set (L i)) \<inter> insert (actions_head s j) (set (L j)) = {}"
    if "j < NUM_IRQS" "j \<noteq> i" for j
  proof -
    have "actions_head s i \<noteq> actions_head s j" using actions_head_inject [OF i that(1)] that(2) by auto
    moreover have "set (L i) \<inter> set (L j) = {}" using ok i that by (auto simp: lines_ok_def)
    moreover have "actions_head s k \<notin> set (L k')" if kk: "k < NUM_IRQS" "k' < NUM_IRQS" for k k'
    proof
      assume "actions_head s k \<in> set (L k')"
      then obtain q where "actions_head s k = action_link s q" "q < action_idx s"
        using sub [OF kk(2)] by auto
      then show False using ok kk(1) idx by (simp add: lines_ok_def)
    qed
    ultimately show ?thesis using i that(1) by blast
  qed
  have "dlist (irq_links s') (actions_head s j) ((L(i := L i @ [?d])) j)" if "j < NUM_IRQS" for j
  proof (cases "j = i")
    case True
    then show ?thesis using ring.rep_push_back [OF d [OF i] fresh [OF i]] by (simp add: s'(4))
  next
    case False
    then show ?thesis
      using dlist_add_tail_other [OF d [OF i] d [OF that] disj [OF that False] fresh [OF that]]
      by (simp add: s'(4))
  qed
  moreover have "set ((L(i := L i @ [?d])) j) \<subseteq> action_link s ` {..<action_idx s'}" if "j < NUM_IRQS" for j
    using sub [OF that] sub [OF i] by (auto simp: s'(3) less_Suc_eq)
  moreover have "set ((L(i := L i @ [?d])) j) \<inter> set ((L(i := L i @ [?d])) k) = {}"
    if "j < NUM_IRQS" "k < NUM_IRQS" "j \<noteq> k" for j k
    using ok fresh that by (auto simp: lines_ok_def)
  ultimately show ?thesis
    using ok unfolding lines_ok_def line_rep_def eqs by auto
qed

text \<open>After \<^verbatim>\<open>initialize_irqs\<close> every line is empty.\<close>

lemma links_after_inits:
  "fold (\<lambda>i. upd_irq_links (init_list_head (f i))) is s =
    s\<lparr>irq_links := fold (\<lambda>i. init_list_head (f i)) is (irq_links s)\<rparr>"
  by (induction "is" arbitrary: s) (simp_all add: upd_irq_links_def)

lemma init_heads_dlist:
  assumes "i \<in> set is" and "set is \<subseteq> {..<NUM_IRQS}" and "distinct is"
  shows "dlist (fold (\<lambda>i. init_list_head (actions_head s i)) is h) (actions_head s i) []"
  using assms
proof (induction "is" arbitrary: h)
  case Nil
  then show ?case by simp
next
  case (Cons j js)
  show ?case
  proof (cases "i = j")
    case True
    have "dlist (fold (\<lambda>i. init_list_head (actions_head s i)) js h) (actions_head s i) []"
      if "dlist h (actions_head s i) []" "i \<notin> set js" "set js \<subseteq> {..<NUM_IRQS}" "i < NUM_IRQS" for h js
      using that
    proof (induction js arbitrary: h)
      case (Cons k ks)
      then have "actions_head s k \<noteq> actions_head s i"
        using actions_head_inject [of k i s] by auto
      then show ?case using Cons dlist_init_fresh [OF Cons.prems(1), of "actions_head s k"] by simp
    qed simp
    moreover have "dlist (init_list_head (actions_head s i) h) (actions_head s i) []"
      by (rule ring.rep_make)
    ultimately show ?thesis using True Cons.prems by simp
  next
    case False
    then show ?thesis using Cons by simp
  qed
qed

lemma initialize_irqs_lines_ok:
  assumes "\<forall>i<NUM_IRQS. \<forall>k<128. actions_head s i \<noteq> action_link s k"
  shows "lines_ok (initialize_irqs s) (\<lambda>_. [])"
proof -
  have "actions_head (initialize_irqs s) = actions_head s" "action_link (initialize_irqs s) = action_link s"
    by (simp_all add: fun_eq_iff actions_head_def action_link_def initialize_irqs_def links_after_inits)
  moreover have "irq_links (initialize_irqs s) =
      fold (\<lambda>i. init_list_head (actions_head s i)) [0..<NUM_IRQS] (irq_links s)"
    by (simp add: initialize_irqs_def links_after_inits)
  ultimately show ?thesis
    using assms init_heads_dlist [of _ "[0..<NUM_IRQS]" s "irq_links s"]
    by (simp add: lines_ok_def line_rep_def atLeast0LessThan)
qed

text \<open>A registration on a claimed line, with everything it leaves alone.\<close>

lemma register_irq_run:
  assumes "lines_ok s L" and "unat irq < NUM_IRQS" and "handler \<noteq> 0" and "action_idx s < 128"
    and "controller_of s (unat irq) = Some c"
  obtains s' where "register_irq irq handler data flags s = Inr (0, s')"
    and "lines_ok s' (L(unat irq := L (unat irq) @ [action_link s (action_idx s)]))"
    and "irq_actions s' = (irq_actions s)(action_link s (action_idx s) :=
      \<lparr>ia_handler = handler, ia_flags = flags, ia_private_data = data\<rparr>)"
    and "irq_dev s' = hc_enable_irq c (ucast irq) (irq_dev s)"
    and "controller_of s' = controller_of s" and "irq_stat s' = irq_stat s"
proof -
  let ?d = "action_link s (action_idx s)"
  let ?a = "(upd_irq_links (init_list_head ?d) s)\<lparr>action_idx := action_idx s + 1\<rparr>"
  let ?b = "?a\<lparr>irq_actions := (irq_actions ?a)(?d := \<lparr>ia_handler = handler, ia_flags = flags, ia_private_data = data\<rparr>)\<rparr>"
  let ?c = "install_irq_action (unat irq) ?d ?b"
  let ?s = "upd_irq_dev (hc_enable_irq c (ucast irq)) ?c"
  have "controller_of ?c (unat irq) = Some c"
    using assms(5) by (simp add: controller_of_def install_irq_action_def)
  then have run: "register_irq irq handler data flags s = Inr (0, ?s)"
    using assms(2-4) by (simp add: register_irq_def allocate_irq_action_def Let_def)
  have "lines_ok ?s (L(unat irq := L (unat irq) @ [?d]))"
    by (rule install_lines_ok [OF assms(1,2,4)])
      (simp_all add: install_irq_action_def actions_head_def upd_irq_links_def upd_irq_dev_def)
  then show ?thesis using that [OF run] by (simp add: install_irq_action_def controller_of_def fun_eq_iff)
qed


text \<open>The controllers are on a ring of their own, so registering one leaves the lines alone.\<close>

lemma register_controller_lines_ok:
  assumes ok: "lines_ok s L" and cs: "dlist (irq_links s) (known_hw_int_controllers s) cs"
    and new: "ctrl \<notin> insert (known_hw_int_controllers s) (set cs)"
    and apart: "\<forall>i<NUM_IRQS. insert ctrl (insert (known_hw_int_controllers s) (set cs)) \<inter>
      insert (actions_head s i) (set (L i)) = {}"
  shows "lines_ok (register_hw_interrupt_controller ctrl s) L"
proof -
  let ?t = "register_hw_interrupt_controller ctrl s"
  have eqs: "actions_head ?t = actions_head s" "action_link ?t = action_link s"
    "action_idx ?t = action_idx s"
    "irq_links ?t = list_add ctrl (known_hw_int_controllers s) (irq_links s)"
    by (simp_all add: fun_eq_iff register_hw_interrupt_controller_def actions_head_def
        action_link_def Let_def)
  have "dlist (irq_links ?t) (actions_head s i) (L i)" if "i < NUM_IRQS" for i
  proof -
    have out: "y \<notin> insert ctrl (insert (known_hw_int_controllers s) (set cs))"
      if "y \<in> insert (actions_head s i) (set (L i))" for y
      using apart \<open>i < NUM_IRQS\<close> that by blast
    have "dlist (irq_links ?t) (actions_head s i) (L i) = dlist (irq_links s) (actions_head s i) (L i)"
      unfolding eqs(4) by (rule dlist_cong) (use list_add_frame [OF cs out] in simp)
    then show ?thesis using lines_okD [OF ok that] by (simp add: line_rep_def)
  qed
  then show ?thesis using ok by (simp add: lines_ok_def line_rep_def eqs)
qed

text \<open>One interrupt on a claimed line: what it does to the devices and to the count, and that it
  changes nothing else.\<close>

lemma do_irq_run:
  assumes "line_rep s (unat irq) as" and "unat irq < NUM_IRQS"
    and "controller_of s (unat irq) = Some c"
  shows "do_irq call spurious irq s = Some (Inr (upd_irq_dev
      (\<lambda>d. (if as = [] then spurious else id) (hc_ack_irq c (ucast irq)
        (fold (\<lambda>a. call (ia_handler (irq_actions s a)) (ia_private_data (irq_actions s a))) as d)))
      (s\<lparr>irq_stat := (irq_stat s)[unat irq := irq_stat s ! unat irq + 1]\<rparr>)))"
proof -
  let ?s = "s\<lparr>irq_stat := (irq_stat s)[unat irq := irq_stat s ! unat irq + 1]\<rparr>"
  let ?head = "actions_head s (unat irq)"
  have h: "actions_head ?s (unat irq) = ?head" by (simp add: actions_head_def)
  have "dlist ((irq_links \<circ> snd) (0, ?s)) ?head as" using assms(1) by (simp add: line_rep_def)
  then have walk: "list_for_each (irq_links \<circ> snd) (run_action call) ?head (lh_next (irq_links s) ?head) (0 :: nat, ?s)
      = Some (fold (run_action call) as (0, ?s))"
    using list_for_each_dlist [of "irq_links \<circ> snd" "(0, ?s)" ?head as "run_action call"]
    by (simp add: run_action_def case_prod_beta)
  have "controller_of (upd_irq_dev g ?s) (unat irq) = Some c" for g
    using assms(3) by (simp add: controller_of_def)
  then show ?thesis
    using assms(2) walk by (simp add: do_irq_def Let_def h fold_run_action upd_irq_dev_def)
qed


text \<open>A boot state: nothing registered, and a controller whose functions log what they do.\<close>

definition sample_ctrl :: "nat list hw_interrupt_controller" where
  "sample_ctrl = \<lparr>hc_handles_irq = (\<lambda>irq. irq < 16), hc_enable_all = id, hc_disable_all = id,
     hc_enable_irq = (\<lambda>irq d. d @ [1, unat irq]), hc_disable_irq = (\<lambda>irq d. d @ [2, unat irq]),
     hc_ack_irq = (\<lambda>irq d. d @ [3, unat irq])\<rparr>"

definition blank_irq :: "'d hw_interrupt_controller \<Rightarrow> 'd \<Rightarrow> 'd irq_state" where
  "blank_irq ctrl d = \<lparr>irq_links = init_list_head 0x400 \<lparr>lh_next = (\<lambda>_. 0), lh_prev = (\<lambda>_. 0)\<rparr>,
     known_hw_int_controllers = 0x400, irqs_base = 0x1000, descs_base = 0x2000, irq_lines = [],
     irq_ctrls = (\<lambda>_. ctrl),
     irq_actions = (\<lambda>_. \<lparr>ia_handler = 0, ia_flags = 0, ia_private_data = 0\<rparr>),
     action_idx = 0, irq_stat = replicate 16 0, irq_dev = d\<rparr>"

definition sample_irq :: "nat list irq_state" where
  "sample_irq = register_hw_interrupt_controller 0x500 (initialize_irqs (blank_irq sample_ctrl []))"

lemma blank_lines: "lines_ok (initialize_irqs (blank_irq ctrl d)) (\<lambda>_. [])"
proof (rule initialize_irqs_lines_ok, intro allI impI)
  fix i k :: nat
  assume "i < NUM_IRQS" "k < 128"
  then show "actions_head (blank_irq ctrl d) i \<noteq> action_link (blank_irq ctrl d) k"
    using of_nat_eq_iff_small [where 'a = 64, of "0x1000 + 32 * i" "0x2018 + 40 * k"]
    by (simp add: actions_head_def action_link_def blank_irq_def NUM_IRQS_def)
qed

lemma sample_base [simp]:
  "irqs_base sample_irq = 0x1000" "descs_base sample_irq = 0x2000" "action_idx sample_irq = 0"
  "irq_dev sample_irq = []" "known_hw_int_controllers sample_irq = 0x400"
  "irq_stat sample_irq = replicate 16 0" "irq_ctrls sample_irq = (\<lambda>_. sample_ctrl)"
  "i < 16 \<Longrightarrow> il_controller (irq_lines sample_irq ! i) = Some 0x500"
  by (simp_all add: sample_irq_def register_hw_interrupt_controller_def initialize_irqs_def
      links_after_inits blank_irq_def Let_def NUM_IRQS_def claim_line_def sample_ctrl_def
      word_less_nat_alt unat_of_nat)

lemma sample_controller: "i < 16 \<Longrightarrow> controller_of sample_irq i = Some sample_ctrl"
  by (simp add: controller_of_def)

lemma blank_controllers:
  "dlist (irq_links (initialize_irqs (blank_irq ctrl d)))
     (known_hw_int_controllers (initialize_irqs (blank_irq ctrl d))) []"
  by (simp add: initialize_irqs_def links_after_inits blank_irq_def dlist_def NUM_IRQS_def
      actions_head_def init_list_head_def upt_rec)

lemma sample_controllers: "dlist (irq_links sample_irq) 0x400 [0x500]"
  using list_add_dlist [OF blank_controllers, of "0x500"]
  by (simp add: sample_irq_def register_hw_interrupt_controller_def Let_def initialize_irqs_def
      links_after_inits) (simp add: blank_irq_def)

lemma blank_apart:
  "\<forall>i<NUM_IRQS. insert 0x500 (insert (known_hw_int_controllers (initialize_irqs (blank_irq ctrl d))) (set [])) \<inter>
     insert (actions_head (initialize_irqs (blank_irq ctrl d)) i) (set []) = {}"
  "0x500 \<notin> insert (known_hw_int_controllers (initialize_irqs (blank_irq ctrl d))) (set [])"
proof -
  have "(0x400 :: addr) \<noteq> 0x1000 + of_nat (32 * i) \<and> (0x500 :: addr) \<noteq> 0x1000 + of_nat (32 * i)"
    if "i < NUM_IRQS" for i
    using that of_nat_eq_iff_small [where 'a = 64, of "0x400" "0x1000 + 32 * i"]
      of_nat_eq_iff_small [where 'a = 64, of "0x500" "0x1000 + 32 * i"]
    by (simp add: NUM_IRQS_def)
  then show "\<forall>i<NUM_IRQS. insert 0x500 (insert (known_hw_int_controllers (initialize_irqs (blank_irq ctrl d))) (set [])) \<inter>
      insert (actions_head (initialize_irqs (blank_irq ctrl d)) i) (set []) = {}"
    by (simp add: initialize_irqs_def links_after_inits blank_irq_def actions_head_def)
qed (simp add: initialize_irqs_def links_after_inits blank_irq_def)

lemma sample_lines: "lines_ok sample_irq (\<lambda>_. [])"
  unfolding sample_irq_def
  by (rule register_controller_lines_ok [OF blank_lines blank_controllers blank_apart(2,1)])

lemma sample_registered:
  obtains s where "register_irq 4 0x9000 0x70 0 sample_irq = Inr (0, s)"
    and "lines_ok s ((\<lambda>_. [])(4 := [0x2018]))" and "line_rep s 4 [0x2018]"
    and "irq_actions s 0x2018 = \<lparr>ia_handler = 0x9000, ia_flags = 0, ia_private_data = 0x70\<rparr>"
    and "irq_dev s = [1, 4]" and "controller_of s 4 = Some sample_ctrl"
    and "irq_stat s = replicate 16 0"
proof -
  have link: "action_link sample_irq (action_idx sample_irq) = 0x2018" by (simp add: action_link_def)
  have irq: "unat (4 :: u64) < NUM_IRQS" "(0x9000 :: addr) \<noteq> 0" "action_idx sample_irq < 128"
    "controller_of sample_irq (unat (4 :: u64)) = Some sample_ctrl"
    by (simp_all add: NUM_IRQS_def sample_controller)
  show ?thesis
  proof (rule register_irq_run [OF sample_lines irq, where data = "0x70" and flags = 0], unfold link, goal_cases)
    case (1 s)
    moreover from this have "line_rep s 4 [0x2018]"
      using lines_okD [of s "(\<lambda>_. [])(4 := [0x2018])" 4] irq(1) by simp
    ultimately show thesis
      by (intro that [of s]) (simp_all add: sample_controller, simp_all add: sample_ctrl_def)
  qed
qed

section \<open>Properties\<close>

text \<open>C18: Registering a handler on a line that has a controller succeeds: the new action goes to
  the end of the line, holds what was passed, the other lines keep their actions, and the line is
  enabled at its controller.\<close>

theorem register_irq_appends:
  assumes "lines_ok s L" and "unat irq < NUM_IRQS" and "handler \<noteq> 0" and "action_idx s < 128"
    and "controller_of s (unat irq) = Some c"
  shows "\<exists>s'. register_irq irq handler data flags s = Inr (0, s') \<and>
    lines_ok s' (L(unat irq := L (unat irq) @ [action_link s (action_idx s)])) \<and>
    irq_actions s' (action_link s (action_idx s)) =
      \<lparr>ia_handler = handler, ia_flags = flags, ia_private_data = data\<rparr> \<and>
    irq_dev s' = hc_enable_irq c (ucast irq) (irq_dev s)"
proof -
  from assms obtain s' where "register_irq irq handler data flags s = Inr (0, s')"
    "lines_ok s' (L(unat irq := L (unat irq) @ [action_link s (action_idx s)]))"
    "irq_actions s' = (irq_actions s)(action_link s (action_idx s) :=
      \<lparr>ia_handler = handler, ia_flags = flags, ia_private_data = data\<rparr>)"
    "irq_dev s' = hc_enable_irq c (ucast irq) (irq_dev s)"
    by (rule register_irq_run)
  then show ?thesis by simp
qed

theorem register_irq_appends_witness:
  "\<exists>s'. register_irq 4 0x9000 0x70 0 sample_irq = Inr (0, s') \<and> line_rep s' 4 [0x2018] \<and>
    irq_dev s' = [1, 4]"
proof -
  have link: "action_link sample_irq (action_idx sample_irq) = 0x2018" by (simp add: action_link_def)
  have "(4 :: nat) < NUM_IRQS" by (simp add: NUM_IRQS_def)
  then obtain s' where "register_irq 4 0x9000 0x70 0 sample_irq = Inr (0, s')"
    "lines_ok s' ((\<lambda>_. [])(4 := [0x2018]))" "irq_dev s' = [1, 4]"
    using register_irq_appends [OF sample_lines, of 4 "0x9000" sample_ctrl "0x70" 0]
    unfolding link by (auto simp: sample_controller) (auto simp: sample_ctrl_def)
  then show ?thesis using lines_okD [of s' "(\<lambda>_. [])(4 := [0x2018])" 4] \<open>4 < NUM_IRQS\<close>
    by (intro exI [of _ s']) simp
qed

text \<open>C16: An interrupt on a line with a controller is counted, its handlers run once each in the
  order of their registration with the data they were registered with, and it is acknowledged
  after them; a line without a handler is reported as spurious. The links do not change.\<close>

theorem do_irq_runs_handlers:
  assumes "line_rep s (unat irq) as" and "unat irq < NUM_IRQS"
    and "controller_of s (unat irq) = Some c"
  shows "\<exists>s'. do_irq call spurious irq s = Some (Inr s') \<and>
    irq_dev s' = (if as = [] then spurious else id) (hc_ack_irq c (ucast irq)
      (fold (\<lambda>a. call (ia_handler (irq_actions s a)) (ia_private_data (irq_actions s a))) as (irq_dev s))) \<and>
    irq_stat s' = (irq_stat s)[unat irq := irq_stat s ! unat irq + 1] \<and>
    irq_links s' = irq_links s \<and> irq_lines s' = irq_lines s"
  unfolding do_irq_run [OF assms] by (intro exI conjI, rule refl) simp_all

theorem do_irq_runs_handlers_witness:
  "\<exists>s s'. register_irq 4 0x9000 0x70 0 sample_irq = Inr (0, s) \<and>
    do_irq (\<lambda>h d dev. dev @ [unat d]) id 4 s = Some (Inr s') \<and> irq_dev s' = [1, 4, 0x70, 3, 4] \<and>
    irq_stat s' ! 4 = 1"
proof -
  let ?c = "\<lambda>(h :: addr) (d :: addr) dev. dev @ [unat d]"
  obtain s where s: "register_irq 4 0x9000 0x70 0 sample_irq = Inr (0, s)"
    "lines_ok s ((\<lambda>_. [])(4 := [0x2018]))" "line_rep s 4 [0x2018]"
    "irq_actions s 0x2018 = \<lparr>ia_handler = 0x9000, ia_flags = 0, ia_private_data = 0x70\<rparr>"
    "irq_dev s = [1, 4]" "controller_of s 4 = Some sample_ctrl" "irq_stat s = replicate 16 0"
    by (rule sample_registered)
  then have "line_rep s (unat (4 :: u64)) [0x2018]" by simp
  then obtain s' where "do_irq ?c id 4 s = Some (Inr s')" "irq_dev s' = [1, 4, 0x70, 3, 4]" "irq_stat s' ! 4 = 1"
    using do_irq_runs_handlers [of s 4 "[0x2018]" sample_ctrl ?c id] s
    by (auto simp: NUM_IRQS_def sample_ctrl_def)
  then show ?thesis using s(1) by blast
qed

text \<open>Registering a handler on a line that no controller claimed dereferences the null
  controller, after the action was put on the line.\<close>

theorem register_irq_without_controller:
  assumes "unat irq < NUM_IRQS" and "handler \<noteq> 0" and "action_idx s < 128"
    and "controller_of s (unat irq) = None"
  shows "register_irq irq handler data flags s = Inl BadAccess"
  using assms by (simp add: register_irq_def allocate_irq_action_def Let_def install_irq_action_def
      controller_of_def)

theorem register_irq_without_controller_witness:
  "register_irq 4 0x9000 0x70 0 (initialize_irqs sample_irq) = Inl BadAccess"
  by (rule register_irq_without_controller)
    (simp_all add: NUM_IRQS_def initialize_irqs_def links_after_inits sample_base controller_of_def)

text \<open>C39: Unregistering never reports success. When an action of the line carries the data, the
  first such action is taken off the line, and the walk goes on from the poisoned link of the
  removed node instead of the rest of the line.\<close>

theorem unregister_walks_into_poison:
  assumes "line_rep s (unat irq) (xs @ a # ys)" and "unat irq < NUM_IRQS"
    and "\<forall>x\<in>set xs. ia_private_data (irq_actions s x) \<noteq> data"
    and "ia_private_data (irq_actions s a) = data"
  shows "unregister_irq irq data s = map_option (\<lambda>s'. (- EINVAL, s'))
      (list_for_each irq_links (unregister_step data) (actions_head s (unat irq)) LIST_POISON1
        (remove_irq_action a s)) \<and>
    line_rep (remove_irq_action a s) (unat irq) (xs @ ys)"
proof -
  let ?l = "actions_head s (unat irq)" and ?f = "unregister_step data"
  have d: "dlist (irq_links s) ?l (xs @ a # ys)" using assms(1) by (simp add: line_rep_def)
  have go: "list_for_each irq_links ?f ?l (lh_next (irq_links s) p) s =
      list_for_each irq_links ?f ?l LIST_POISON1 (remove_irq_action a s)"
    if "seg (irq_links s) p (us @ a # ys) ?l" "?l \<notin> set (us @ a # ys)" "set us \<subseteq> set xs" for p us
    using that
  proof (induction us arbitrary: p)
    case Nil
    then have "lh_next (irq_links s) p = a" "a \<noteq> ?l" by auto
    then show ?case
      using assms(4) by (subst list_for_each.simps)
        (simp add: unregister_step_def remove_irq_action_def list_del_poisons Let_def)
  next
    case (Cons u us)
    then have "lh_next (irq_links s) p = u" "u \<noteq> ?l" "?f u s = s"
      using assms(3) by (auto simp: unregister_step_def)
    then show ?case
      using Cons.IH [of u] Cons.prems by (subst list_for_each.simps) (simp add: Let_def)
  qed
  have "list_for_each irq_links ?f ?l (lh_next (irq_links s) ?l) s =
      list_for_each irq_links ?f ?l LIST_POISON1 (remove_irq_action a s)"
    using d by (intro go [of ?l xs]) (auto simp: dlist_def)
  moreover have "dlist (list_del a (irq_links s)) ?l (xs @ ys)" using ring.rep_delete [OF d] .
  ultimately show ?thesis
    using assms(2) by (simp add: unregister_irq_def Let_def line_rep_def remove_irq_action_def
        actions_head_def)
qed

theorem unregister_walks_into_poison_witness:
  "\<exists>s. register_irq 4 0x9000 0x70 0 sample_irq = Inr (0, s) \<and>
    line_rep (remove_irq_action 0x2018 s) 4 []"
proof -
  obtain s where s: "register_irq 4 0x9000 0x70 0 sample_irq = Inr (0, s)"
    "lines_ok s ((\<lambda>_. [])(4 := [0x2018]))" "line_rep s 4 [0x2018]"
    "irq_actions s 0x2018 = \<lparr>ia_handler = 0x9000, ia_flags = 0, ia_private_data = 0x70\<rparr>"
    by (rule sample_registered)
  then have "line_rep s (unat (4 :: u64)) ([] @ 0x2018 # [])" by simp
  from unregister_walks_into_poison [OF this, of "0x70"] s show ?thesis
    by (auto simp: NUM_IRQS_def)
qed

text \<open>A controller takes exactly the lines it handles that no earlier controller took, and goes
  to the front of the list of controllers.\<close>

theorem register_controller_claims:
  assumes "dlist (irq_links s) (known_hw_int_controllers s) cs"
    and "ctrl \<notin> insert (known_hw_int_controllers s) (set cs)" and "i < NUM_IRQS"
  shows "il_controller (irq_lines (register_hw_interrupt_controller ctrl s) ! i) =
      (case il_controller (irq_lines s ! i) of
         Some c \<Rightarrow> Some c
       | None \<Rightarrow> if hc_handles_irq (irq_ctrls s ctrl) (of_nat i) then Some ctrl else None) \<and>
    dlist (irq_links (register_hw_interrupt_controller ctrl s)) (known_hw_int_controllers s) (ctrl # cs)"
  using assms list_add_dlist [OF assms(1,2)]
  by (auto simp: register_hw_interrupt_controller_def Let_def claim_line_def split: option.splits)

theorem register_controller_claims_witness:
  "il_controller (irq_lines (register_hw_interrupt_controller 0x700 sample_irq) ! 5) = Some 0x500 \<and>
   dlist (irq_links (register_hw_interrupt_controller 0x700 sample_irq)) 0x400 [0x700, 0x500]"
  using register_controller_claims [of sample_irq "[0x500]" "0x700" 5] sample_controllers
  by (simp add: sample_base NUM_IRQS_def)

end
