(* ===== verification/Mui_Pic.thy ===== *)
theory Mui_Pic
  imports Mui_Irq
begin

text \<open>
  The driver of the two 8259A interrupt controllers, \<^verbatim>\<open>eza/amd64/i8259.c\<close>, on the port
  instructions of \<^verbatim>\<open>asm.h\<close>. The devices behind the ports are a parameter, the bus; what the
  driver relies on is stated as \<open>pic_chips\<close>: once the chips are programmed, the ports 0x21 and
  0xa1 read and write their interrupt mask registers, and an end of interrupt keeps the masks.
\<close>

section \<open>Ports\<close>

record 'd bus =
  bus_in :: "u16 \<Rightarrow> 'd \<Rightarrow> u8 \<times> 'd"
  bus_out :: "u16 \<Rightarrow> u8 \<Rightarrow> 'd \<Rightarrow> 'd"

definition inb :: "'d bus \<Rightarrow> u16 \<Rightarrow> 'd \<Rightarrow> u8 \<times> 'd" where
  "inb bus port d = bus_in bus port d"

definition outb :: "'d bus \<Rightarrow> u16 \<Rightarrow> u8 \<Rightarrow> 'd \<Rightarrow> 'd" where
  "outb bus port v d = bus_out bus port v d"

definition I8259PIC0_BASE :: u16 where "I8259PIC0_BASE = 0x20"
definition I8259PIC1_BASE :: u16 where "I8259PIC1_BASE = 0xa0"
definition MAX_IRQ_NUM :: u32 where "MAX_IRQ_NUM = 16"
definition PIC_EOI :: u8 where "PIC_EOI = 0x20"
definition TIMER_IRQ_LINE :: u64 where "TIMER_IRQ_LINE = 0"

named_theorems pic_defs \<open>the constants of the controllers\<close>
declare I8259PIC0_BASE_def [pic_defs] I8259PIC1_BASE_def [pic_defs] MAX_IRQ_NUM_def [pic_defs]
  PIC_EOI_def [pic_defs]

section \<open>The driver\<close>

definition i8259a_enable_all :: "'d bus \<Rightarrow> 'd \<Rightarrow> 'd" where
  "i8259a_enable_all bus d = outb bus (I8259PIC1_BASE + 1) 0 (outb bus (I8259PIC0_BASE + 1) 0 d)"

definition i8259a_disable_all :: "'d bus \<Rightarrow> 'd \<Rightarrow> 'd" where
  "i8259a_disable_all bus d = outb bus (I8259PIC1_BASE + 1) 0xff (outb bus (I8259PIC0_BASE + 1) 0xff d)"

text \<open>The mask is an 8-bit variable: \<^verbatim>\<open>1 << irq\<close> is an \<^verbatim>\<open>int\<close> cut to its low byte.\<close>

definition irq_bit :: "u32 \<Rightarrow> u8" where
  "irq_bit irq = ucast (push_bit (unat irq) 1 :: u32)"

definition i8259a_enable_irq :: "'d bus \<Rightarrow> u32 \<Rightarrow> 'd \<Rightarrow> 'd" where
  "i8259a_enable_irq bus irq d =
     (if irq < 8 then
        let (mask, d) = inb bus (I8259PIC0_BASE + 1) d;
            mask = mask AND NOT (irq_bit irq)
        in outb bus (I8259PIC0_BASE + 1) mask d
      else
        let (mask, d) = inb bus (I8259PIC1_BASE + 1) d;
            mask = mask AND NOT (irq_bit irq)
        in outb bus (I8259PIC1_BASE + 1) mask d)"

definition i8259a_disable_irq :: "'d bus \<Rightarrow> u32 \<Rightarrow> 'd \<Rightarrow> 'd" where
  "i8259a_disable_irq bus irq d =
     (if irq < 8 then
        let (mask, d) = inb bus (I8259PIC0_BASE + 1) d;
            mask = mask OR irq_bit irq
        in outb bus (I8259PIC0_BASE + 1) mask d
      else
        let (mask, d) = inb bus (I8259PIC1_BASE + 1) d;
            mask = mask OR irq_bit irq
        in outb bus (I8259PIC1_BASE + 1) mask d)"

definition i8259a_ack_irq :: "'d bus \<Rightarrow> u32 \<Rightarrow> 'd \<Rightarrow> 'd" where
  "i8259a_ack_irq bus irq d =
     (let d = (if irq \<ge> 8 then outb bus I8259PIC1_BASE PIC_EOI d else d)
      in outb bus I8259PIC0_BASE PIC_EOI d)"

definition i8259a_handles_irq :: "u32 \<Rightarrow> bool" where
  "i8259a_handles_irq irq \<longleftrightarrow> irq < MAX_IRQ_NUM"

definition i8259A_pic :: "'d bus \<Rightarrow> 'd hw_interrupt_controller" where
  "i8259A_pic bus = \<lparr>hc_handles_irq = i8259a_handles_irq, hc_enable_all = i8259a_enable_all bus,
     hc_disable_all = i8259a_disable_all bus, hc_enable_irq = i8259a_enable_irq bus,
     hc_disable_irq = i8259a_disable_irq bus, hc_ack_irq = i8259a_ack_irq bus\<rparr>"

definition initialize_pic :: "'d bus \<Rightarrow> 'd \<Rightarrow> 'd" where
  "initialize_pic bus d =
     (let d = outb bus I8259PIC0_BASE 0x11 d;
          d = outb bus (I8259PIC0_BASE + 1) 0x20 d;
          d = outb bus (I8259PIC0_BASE + 1) 0x4 d;
          d = outb bus (I8259PIC0_BASE + 1) 0x01 d;
          d = outb bus I8259PIC1_BASE 0x11 d;
          d = outb bus (I8259PIC1_BASE + 1) 0x28 d;
          d = outb bus (I8259PIC1_BASE + 1) 0x02 d;
          d = outb bus (I8259PIC1_BASE + 1) 0x01 d
      in i8259a_disable_all bus d)"

text \<open>\<open>pic\<close> is the address of the list link of \<^verbatim>\<open>i8259A_pic\<close>.\<close>

definition i8259a_init :: "'d bus \<Rightarrow> addr \<Rightarrow> 'd irq_state \<Rightarrow> 'd irq_state" where
  "i8259a_init bus pic s =
     (let s = upd_irq_dev (initialize_pic bus) s
      in register_hw_interrupt_controller pic
           (s\<lparr>irq_ctrls := (irq_ctrls s)(pic := i8259A_pic bus)\<rparr>))"

section \<open>The chips\<close>

definition pic_chips :: "'d bus \<Rightarrow> ('d \<Rightarrow> bool) \<Rightarrow> ('d \<Rightarrow> u8) \<Rightarrow> ('d \<Rightarrow> u8) \<Rightarrow> bool" where
  "pic_chips bus ready imr0 imr1 \<longleftrightarrow> (\<forall>d v. ready d \<longrightarrow>
     bus_in bus 0x21 d = (imr0 d, d) \<and> bus_in bus 0xa1 d = (imr1 d, d) \<and>
     ready (bus_out bus 0x21 v d) \<and> imr0 (bus_out bus 0x21 v d) = v \<and> imr1 (bus_out bus 0x21 v d) = imr1 d \<and>
     ready (bus_out bus 0xa1 v d) \<and> imr0 (bus_out bus 0xa1 v d) = imr0 d \<and> imr1 (bus_out bus 0xa1 v d) = v \<and>
     ready (bus_out bus 0x20 0x20 d) \<and> imr0 (bus_out bus 0x20 0x20 d) = imr0 d \<and> imr1 (bus_out bus 0x20 0x20 d) = imr1 d \<and>
     ready (bus_out bus 0xa0 0x20 d) \<and> imr0 (bus_out bus 0xa0 0x20 d) = imr0 d \<and> imr1 (bus_out bus 0xa0 0x20 d) = imr1 d)"

lemma irq_bit_low: "irq < 8 \<Longrightarrow> bit (irq_bit irq) j \<longleftrightarrow> j = unat irq"
  by (auto simp: irq_bit_def bit_simps word_less_nat_alt)

lemma irq_bit_high: "8 \<le> irq \<Longrightarrow> irq_bit irq = 0"
  by (rule bit_word_eqI) (auto simp: irq_bit_def bit_simps word_le_nat_alt)

lemma enable_irq_masks:
  assumes "pic_chips bus ready imr0 imr1" and "ready d"
  shows "ready (i8259a_enable_irq bus irq d)"
    and "imr0 (i8259a_enable_irq bus irq d) = (if irq < 8 then imr0 d AND NOT (irq_bit irq) else imr0 d)"
    and "imr1 (i8259a_enable_irq bus irq d) = imr1 d"
  using assms irq_bit_high [of irq]
  by (auto simp: i8259a_enable_irq_def inb_def outb_def pic_defs pic_chips_def not_less)

lemma disable_irq_masks:
  assumes "pic_chips bus ready imr0 imr1" and "ready d"
  shows "ready (i8259a_disable_irq bus irq d)"
    and "imr0 (i8259a_disable_irq bus irq d) = (if irq < 8 then imr0 d OR irq_bit irq else imr0 d)"
    and "imr1 (i8259a_disable_irq bus irq d) = imr1 d"
  using assms irq_bit_high [of irq]
  by (auto simp: i8259a_disable_irq_def inb_def outb_def pic_defs pic_chips_def not_less)

lemma all_masks:
  assumes "pic_chips bus ready imr0 imr1" and "ready d"
  shows "ready (i8259a_enable_all bus d) \<and> imr0 (i8259a_enable_all bus d) = 0 \<and> imr1 (i8259a_enable_all bus d) = 0"
    and "ready (i8259a_disable_all bus d) \<and> imr0 (i8259a_disable_all bus d) = 0xff \<and> imr1 (i8259a_disable_all bus d) = 0xff"
  using assms by (simp_all add: i8259a_enable_all_def i8259a_disable_all_def outb_def pic_defs pic_chips_def)

lemma ack_irq_masks:
  assumes "pic_chips bus ready imr0 imr1" and "ready d"
  shows "ready (i8259a_ack_irq bus irq d) \<and> imr0 (i8259a_ack_irq bus irq d) = imr0 d \<and>
    imr1 (i8259a_ack_irq bus irq d) = imr1 d"
  using assms by (simp add: i8259a_ack_irq_def outb_def pic_defs pic_chips_def)

text \<open>A line above the first chip is acknowledged at the slave before the master.\<close>

lemma ack_order:
  "i8259a_ack_irq bus irq d =
    (if irq < 8 then bus_out bus 0x20 0x20 d else bus_out bus 0x20 0x20 (bus_out bus 0xa0 0x20 d))"
  by (auto simp: i8259a_ack_irq_def outb_def pic_defs not_less)

text \<open>Installing the PIC on free lines: it takes all sixteen, and the lines keep their actions.\<close>

lemma lines_ok_cong:
  assumes "irq_links t = irq_links s" "irqs_base t = irqs_base s" "descs_base t = descs_base s"
    "action_idx t = action_idx s"
  shows "lines_ok t L \<longleftrightarrow> lines_ok s L"
proof -
  have "actions_head t = actions_head s" "action_link t = action_link s"
    by (simp_all add: fun_eq_iff actions_head_def action_link_def assms)
  then show ?thesis by (simp add: lines_ok_def line_rep_def assms)
qed

lemma i8259a_init_lines:
  assumes ok: "lines_ok s L" and cs: "dlist (irq_links s) (known_hw_int_controllers s) cs"
    and new: "pic \<notin> insert (known_hw_int_controllers s) (set cs)"
    and apart: "\<forall>i<NUM_IRQS. insert pic (insert (known_hw_int_controllers s) (set cs)) \<inter>
      insert (actions_head s i) (set (L i)) = {}"
    and free: "\<forall>i<NUM_IRQS. il_controller (irq_lines s ! i) = None"
  shows "lines_ok (i8259a_init bus pic s) L"
    and "\<forall>i<NUM_IRQS. controller_of (i8259a_init bus pic s) i = Some (i8259A_pic bus)"
    and "irq_dev (i8259a_init bus pic s) = initialize_pic bus (irq_dev s)"
    and "action_idx (i8259a_init bus pic s) = action_idx s"
proof -
  let ?t = "(upd_irq_dev (initialize_pic bus) s)\<lparr>irq_ctrls := (irq_ctrls s)(pic := i8259A_pic bus)\<rparr>"
  have run: "i8259a_init bus pic s = register_hw_interrupt_controller pic ?t"
    by (simp add: i8259a_init_def Let_def)
  have same: "irq_links ?t = irq_links s" "irqs_base ?t = irqs_base s" "descs_base ?t = descs_base s"
    "action_idx ?t = action_idx s" "known_hw_int_controllers ?t = known_hw_int_controllers s"
    by (simp_all add: upd_irq_dev_def)
  have "actions_head ?t = actions_head s" by (simp add: fun_eq_iff actions_head_def same)
  then show "lines_ok (i8259a_init bus pic s) L"
    using ok cs new apart same unfolding run
    by (intro register_controller_lines_ok [of _ _ cs]) (simp_all add: lines_ok_cong [OF same(1-4)])
  show "\<forall>i<NUM_IRQS. controller_of (i8259a_init bus pic s) i = Some (i8259A_pic bus)"
    using free
    by (auto simp: run register_hw_interrupt_controller_def Let_def controller_of_def claim_line_def
        i8259A_pic_def i8259a_handles_irq_def MAX_IRQ_NUM_def word_less_nat_alt unat_of_nat NUM_IRQS_def)
  show "irq_dev (i8259a_init bus pic s) = initialize_pic bus (irq_dev s)"
    "action_idx (i8259a_init bus pic s) = action_idx s"
    by (simp_all add: run register_hw_interrupt_controller_def Let_def upd_irq_dev_def upd_irq_links_def)
qed

section \<open>Properties\<close>

text \<open>A handler registered on one of the lines 0 to 7 of the PIC opens exactly that line at the
  chip: its mask bit is cleared, the bits of the other lines of both chips stay.\<close>

theorem register_opens_pic_line:
  assumes "lines_ok s L" and "unat irq < 8" and "handler \<noteq> 0" and "action_idx s < 128"
    and "controller_of s (unat irq) = Some (i8259A_pic bus)"
    and "pic_chips bus ready imr0 imr1" and "ready (irq_dev s)"
  shows "\<exists>s'. register_irq irq handler data flags s = Inr (0, s') \<and> ready (irq_dev s') \<and>
    (\<forall>j<8. bit (imr0 (irq_dev s')) j \<longleftrightarrow> bit (imr0 (irq_dev s)) j \<and> j \<noteq> unat irq) \<and>
    imr1 (irq_dev s') = imr1 (irq_dev s)"
proof -
  have u: "unat (ucast irq :: u32) = unat irq"
    using assms(2) by (simp add: unsigned_ucast_eq take_bit_nat_eq_self)
  then have low: "(ucast irq :: u32) < 8" using assms(2) by (simp add: word_less_nat_alt)
  have "unat irq < NUM_IRQS" using assms(2) by (simp add: NUM_IRQS_def)
  then obtain s' where s': "register_irq irq handler data flags s = Inr (0, s')"
    "irq_dev s' = i8259a_enable_irq bus (ucast irq) (irq_dev s)"
    using register_irq_run [OF assms(1) _ assms(3-5)] by (metis i8259A_pic_def hw_interrupt_controller.select_convs(4))
  then show ?thesis
    using enable_irq_masks [OF assms(6,7), of "ucast irq"] low u irq_bit_low [OF low]
    by (simp add: bit_simps)
qed

text \<open>A line of the second chip cannot be switched: enabling or disabling an interrupt of 8 and
  above leaves the masks of both chips as they are.\<close>

theorem pic_high_lines_stuck:
  assumes "pic_chips bus ready imr0 imr1" and "ready d" and "8 \<le> irq"
  shows "imr0 (i8259a_enable_irq bus irq d) = imr0 d \<and> imr1 (i8259a_enable_irq bus irq d) = imr1 d \<and>
    imr0 (i8259a_disable_irq bus irq d) = imr0 d \<and> imr1 (i8259a_disable_irq bus irq d) = imr1 d"
  using enable_irq_masks [OF assms(1,2)] disable_irq_masks [OF assms(1,2)] assms(3)
  by (simp add: not_less [symmetric])

section \<open>Witnesses\<close>

text \<open>Two mask registers behind their ports.\<close>

definition latch_bus :: "(u8 \<times> u8) bus" where
  "latch_bus = \<lparr>bus_in = (\<lambda>port d. (if port = 0x21 then fst d else if port = 0xa1 then snd d else 0, d)),
     bus_out = (\<lambda>port v d. if port = 0x21 then (v, snd d) else if port = 0xa1 then (fst d, v) else d)\<rparr>"

lemma latch_chips: "pic_chips latch_bus (\<lambda>_. True) fst snd"
  by (simp add: pic_chips_def latch_bus_def)

theorem pic_high_lines_stuck_witness:
  "i8259a_enable_irq latch_bus 12 (0xff, 0xff) = (0xff, 0xff)"
  using pic_high_lines_stuck [OF latch_chips, where d = "(0xff, 0xff)" and irq = 12] by (simp add: prod_eq_iff)

definition pic_irq :: "(u8 \<times> u8) irq_state" where
  "pic_irq = i8259a_init latch_bus 0x500 (initialize_irqs (blank_irq (i8259A_pic latch_bus) (0, 0)))"

lemma pic_irq_facts:
  "lines_ok pic_irq (\<lambda>_. [])" "i < 16 \<Longrightarrow> controller_of pic_irq i = Some (i8259A_pic latch_bus)"
  "irq_dev pic_irq = (0xff, 0xff)" "action_idx pic_irq = 0"
  using i8259a_init_lines [OF blank_lines blank_controllers blank_apart(2,1), of "i8259A_pic latch_bus" "(0, 0)" latch_bus]
  by (auto simp: pic_irq_def initialize_irqs_def links_after_inits NUM_IRQS_def blank_irq_def
      initialize_pic_def i8259a_disable_all_def outb_def latch_bus_def pic_defs)

theorem register_opens_pic_line_witness:
  "\<exists>s'. register_irq 4 0x9000 0x70 0 pic_irq = Inr (0, s') \<and> \<not> bit (fst (irq_dev s')) 4"
  using register_opens_pic_line [OF pic_irq_facts(1) _ _ _ _ latch_chips, of 4 "0x9000" "0x70" 0]
  by (fastforce simp: pic_irq_facts)

end
