(* ===== verification/Mui_Descr.thy ===== *)
theory Mui_Descr
  imports Mui_PageTable Mui_CString
begin

text \<open>
  Segment, task-state and interrupt descriptors: the layouts of \<^verbatim>\<open>eza/amd64/mm_types.h\<close>, the
  table of \<^verbatim>\<open>gdt.h\<close>, and the routines of \<^verbatim>\<open>eza/amd64/pmm.c\<close> and \<^verbatim>\<open>eza/amd64/fault.c\<close> that fill
  them. A GDT is a list of 64-bit words, the IDT a list of descriptors; a handler is the address
  of its entry point.
\<close>

section \<open>Constants\<close>

definition IDT_ITEMS :: nat where "IDT_ITEMS = 64"
definition GDT_ITEMS :: nat where "GDT_ITEMS = 8"
definition KTEXT_DES :: u16 where "KTEXT_DES = 1"
definition KDATA_DES :: u16 where "KDATA_DES = 2"
definition TSS_DES :: u16 where "TSS_DES = 6"
definition AR_TSS :: "4 word" where "AR_TSS = 0x9"
definition AR_INTR :: "5 word" where "AR_INTR = 0xe"
definition AR_TRAP :: "5 word" where "AR_TRAP = 0xf"
definition PROT_RING_0 :: "2 word" where "PROT_RING_0 = 0"
definition TSS_BASIC_SIZE :: u32 where "TSS_BASIC_SIZE = 104"
definition TSS_IOMAP_SIZE :: nat where "TSS_IOMAP_SIZE = 4 * 4096 + 1"

definition gdtselector :: "u16 \<Rightarrow> u16" where
  "gdtselector des = push_bit 3 des"

named_theorems descr_defs \<open>the constants of the descriptor tables\<close>
declare IDT_ITEMS_def [descr_defs] GDT_ITEMS_def [descr_defs] KTEXT_DES_def [descr_defs]
  KDATA_DES_def [descr_defs] TSS_DES_def [descr_defs] AR_TSS_def [descr_defs]
  AR_INTR_def [descr_defs] AR_TRAP_def [descr_defs] PROT_RING_0_def [descr_defs]
  TSS_BASIC_SIZE_def [descr_defs] gdtselector_def [descr_defs]

section \<open>Layouts\<close>

record descriptor =
  ds_limit_0_15 :: "16 word"
  ds_base_0_15 :: "16 word"
  ds_base_16_23 :: "8 word"
  ds_access :: "8 word"
  ds_limit_16_19 :: "4 word"
  ds_available :: "1 word"
  ds_longmode :: "1 word"
  ds_special :: "1 word"
  ds_granularity :: "1 word"
  ds_base_24_31 :: "8 word"

record tss_descriptor =
  td_limit_0_15 :: "16 word"
  td_base_0_15 :: "16 word"
  td_base_16_23 :: "8 word"
  td_type :: "4 word"
  td_reserved_44 :: "1 word"
  td_dpl :: "2 word"
  td_present :: "1 word"
  td_limit_16_19 :: "4 word"
  td_available :: "1 word"
  td_reserved_53 :: "2 word"
  td_granularity :: "1 word"
  td_base_24_31 :: "8 word"
  td_base_32_63 :: "32 word"
  td_reserved_96 :: "32 word"

record idescriptor =
  id_offset_0_15 :: "16 word"
  id_selector :: "16 word"
  id_ist :: "3 word"
  id_unused :: "5 word"
  id_type :: "5 word"
  id_dpl :: "2 word"
  id_present :: "1 word"
  id_offset_16_31 :: "16 word"
  id_offset_32_63 :: "32 word"
  id_reserved_96 :: "32 word"

definition descriptor_encode :: "descriptor \<Rightarrow> u64" where
  "descriptor_encode d = place 0 (ds_limit_0_15 d) OR place 16 (ds_base_0_15 d)
     OR place 32 (ds_base_16_23 d) OR place 40 (ds_access d) OR place 48 (ds_limit_16_19 d)
     OR place 52 (ds_available d) OR place 53 (ds_longmode d) OR place 54 (ds_special d)
     OR place 55 (ds_granularity d) OR place 56 (ds_base_24_31 d)"

definition descriptor_decode :: "u64 \<Rightarrow> descriptor" where
  "descriptor_decode w = \<lparr>ds_limit_0_15 = field 0 w, ds_base_0_15 = field 16 w,
     ds_base_16_23 = field 32 w, ds_access = field 40 w, ds_limit_16_19 = field 48 w,
     ds_available = field 52 w, ds_longmode = field 53 w, ds_special = field 54 w,
     ds_granularity = field 55 w, ds_base_24_31 = field 56 w\<rparr>"

definition tss_encode :: "tss_descriptor \<Rightarrow> u64 \<times> u64" where
  "tss_encode d = (place 0 (td_limit_0_15 d) OR place 16 (td_base_0_15 d) OR place 32 (td_base_16_23 d)
     OR place 40 (td_type d) OR place 44 (td_reserved_44 d) OR place 45 (td_dpl d) OR place 47 (td_present d)
     OR place 48 (td_limit_16_19 d) OR place 52 (td_available d) OR place 53 (td_reserved_53 d)
     OR place 55 (td_granularity d) OR place 56 (td_base_24_31 d),
     place 0 (td_base_32_63 d) OR place 32 (td_reserved_96 d))"

definition tss_decode :: "u64 \<times> u64 \<Rightarrow> tss_descriptor" where
  "tss_decode = (\<lambda>(w, v). \<lparr>td_limit_0_15 = field 0 w, td_base_0_15 = field 16 w, td_base_16_23 = field 32 w,
     td_type = field 40 w, td_reserved_44 = field 44 w, td_dpl = field 45 w, td_present = field 47 w,
     td_limit_16_19 = field 48 w, td_available = field 52 w, td_reserved_53 = field 53 w,
     td_granularity = field 55 w, td_base_24_31 = field 56 w, td_base_32_63 = field 0 v,
     td_reserved_96 = field 32 v\<rparr>)"

definition idesc_encode :: "idescriptor \<Rightarrow> u64 \<times> u64" where
  "idesc_encode d = (place 0 (id_offset_0_15 d) OR place 16 (id_selector d) OR place 32 (id_ist d)
     OR place 35 (id_unused d) OR place 40 (id_type d) OR place 45 (id_dpl d) OR place 47 (id_present d)
     OR place 48 (id_offset_16_31 d),
     place 0 (id_offset_32_63 d) OR place 32 (id_reserved_96 d))"

definition idesc_decode :: "u64 \<times> u64 \<Rightarrow> idescriptor" where
  "idesc_decode = (\<lambda>(w, v). \<lparr>id_offset_0_15 = field 0 w, id_selector = field 16 w, id_ist = field 32 w,
     id_unused = field 35 w, id_type = field 40 w, id_dpl = field 45 w, id_present = field 47 w,
     id_offset_16_31 = field 48 w, id_offset_32_63 = field 0 v, id_reserved_96 = field 32 v\<rparr>)"

lemma descriptor_decode_encode [simp]: "descriptor_decode (descriptor_encode d) = d"
  by (simp add: descriptor_decode_def descriptor_encode_def field_or field_place_same field_place_other)

lemma tss_decode_encode [simp]: "tss_decode (tss_encode d) = d"
  by (simp add: tss_decode_def tss_encode_def field_or field_place_same field_place_other)

lemma idesc_decode_encode [simp]: "idesc_decode (idesc_encode d) = d"
  by (simp add: idesc_decode_def idesc_encode_def field_or field_place_same field_place_other)

text \<open>The entries \<^verbatim>\<open>GDT_CPU_ENTRIES\<close> of \<^verbatim>\<open>gdt.h\<close>; the last two hold the task-state descriptor.\<close>

definition nil_descriptor :: descriptor where
  "nil_descriptor = \<lparr>ds_limit_0_15 = 0, ds_base_0_15 = 0, ds_base_16_23 = 0, ds_access = 0,
     ds_limit_16_19 = 0, ds_available = 0, ds_longmode = 0, ds_special = 0, ds_granularity = 0,
     ds_base_24_31 = 0\<rparr>"

definition flat_segment :: "8 word \<Rightarrow> 1 word \<Rightarrow> 1 word \<Rightarrow> descriptor" where
  "flat_segment access longmode special = \<lparr>ds_limit_0_15 = 0xffff, ds_base_0_15 = 0, ds_base_16_23 = 0,
     ds_access = access, ds_limit_16_19 = 0xf, ds_available = 0, ds_longmode = longmode,
     ds_special = special, ds_granularity = 1, ds_base_24_31 = 0\<rparr>"

definition GDT_CPU_ENTRIES :: "u64 list" where
  "GDT_CPU_ENTRIES = map descriptor_encode
     [nil_descriptor, flat_segment 0x9a 1 0, flat_segment 0x92 1 0, flat_segment 0xf2 1 1,
      flat_segment 0xf8 1 0, flat_segment 0x9a 0 1, nil_descriptor, nil_descriptor]"

section \<open>Filling the descriptors\<close>

definition gdt_tss_setbase :: "u64 \<Rightarrow> tss_descriptor \<Rightarrow> tss_descriptor" where
  "gdt_tss_setbase baddre o1 = o1\<lparr>td_base_0_15 := ucast (baddre AND 0xffff),
     td_base_16_23 := ucast (drop_bit 16 baddre AND 0xff),
     td_base_24_31 := ucast (drop_bit 24 baddre AND 0xff),
     td_base_32_63 := ucast (drop_bit 32 baddre)\<rparr>"

definition gdt_tss_setlim :: "u32 \<Rightarrow> tss_descriptor \<Rightarrow> tss_descriptor" where
  "gdt_tss_setlim lim o1 = o1\<lparr>td_limit_0_15 := ucast (lim AND 0xffff),
     td_limit_16_19 := ucast (drop_bit 16 lim AND 0xf)\<rparr>"

definition idt_set_offset :: "u64 \<Rightarrow> idescriptor \<Rightarrow> idescriptor" where
  "idt_set_offset off p = p\<lparr>id_offset_0_15 := ucast (off AND 0xffff),
     id_offset_16_31 := ucast (drop_bit 16 off AND 0xffff),
     id_offset_32_63 := ucast (drop_bit 32 off)\<rparr>"

definition install_trap_gate ::
  "u32 \<Rightarrow> u64 \<Rightarrow> 2 word \<Rightarrow> 3 word \<Rightarrow> idescriptor list \<Rightarrow> int \<times> idescriptor list" where
  "install_trap_gate slot handler dpl ist idt =
     (if unat slot < IDT_ITEMS \<and> handler \<noteq> 0 then
        let p = idt_set_offset handler (idt ! unat slot)
        in (0, idt[unat slot := p\<lparr>id_selector := gdtselector KTEXT_DES, id_unused := 0,
              id_type := AR_TRAP, id_present := 1, id_dpl := dpl, id_ist := ist\<rparr>])
      else (- EINVAL, idt))"

definition install_interrupt_gate ::
  "u32 \<Rightarrow> u64 \<Rightarrow> 2 word \<Rightarrow> 3 word \<Rightarrow> idescriptor list \<Rightarrow> int \<times> idescriptor list" where
  "install_interrupt_gate slot handler dpl ist idt =
     (if unat slot < IDT_ITEMS then
        let p = idt_set_offset handler (idt ! unat slot)
        in (0, idt[unat slot := p\<lparr>id_selector := gdtselector KTEXT_DES, id_type := AR_INTR,
              id_present := 1, id_dpl := dpl, id_ist := ist\<rparr>])
      else (- EINVAL, idt))"

text \<open>
  The registers that \<^verbatim>\<open>arch_pmm_init\<close> loads, and the tables of one CPU. The state-segment
  structure of the CPU stands at \<open>tss_p\<close> in the memory of bytes.
\<close>

record pmm_state =
  pm_gdt :: "u64 list list"
  pm_mem :: bytes
  pm_gdtr :: "u16 \<times> addr"
  pm_tr :: u16
  pm_idtr :: "u16 \<times> addr"

definition sizeof_tss :: nat where
  "sizeof_tss = 4 + 3 * 8 + 8 + 7 * 8 + 8 + 2 + 2 + TSS_IOMAP_SIZE"

definition tss_init :: "addr \<Rightarrow> bytes \<Rightarrow> bytes" where
  "tss_init tp m = memset tp 0 (of_nat sizeof_tss) m"

definition upd_tss_descr :: "nat \<Rightarrow> (tss_descriptor \<Rightarrow> tss_descriptor) \<Rightarrow> pmm_state \<Rightarrow> pmm_state" where
  "upd_tss_descr cpu f s =
     (let t = pm_gdt s ! cpu; i = unat TSS_DES;
          (w, v) = tss_encode (f (tss_decode (t ! i, t ! (i + 1))))
      in s\<lparr>pm_gdt := (pm_gdt s)[cpu := t[i := w, i + 1 := v]]\<rparr>)"

text \<open>\<open>arch_pmm_init\<close> up to the load of the registers; \<open>gdt_base\<close> and \<open>idt_base\<close> are the addresses
  of the arrays \<^verbatim>\<open>gdt\<close> and \<^verbatim>\<open>idt\<close>.\<close>

definition arch_pmm_tables :: "addr \<Rightarrow> addr \<Rightarrow> (nat \<Rightarrow> addr) \<Rightarrow> nat \<Rightarrow> pmm_state \<Rightarrow> pmm_state" where
  "arch_pmm_tables gdt_base idt_base tss_of cpu s =
     (let tss_p = tss_of cpu;
          s = s\<lparr>pm_mem := tss_init tss_p (pm_mem s)\<rparr>;
          s = upd_tss_descr cpu (\<lambda>d. d\<lparr>td_present := 1, td_type := AR_TSS, td_dpl := 0\<rparr>) s;
          s = upd_tss_descr cpu (gdt_tss_setbase tss_p) s;
          gdtr = (of_nat (8 * GDT_ITEMS), gdt_base + of_nat (8 * GDT_ITEMS * cpu));
          s = upd_tss_descr cpu (gdt_tss_setlim (TSS_BASIC_SIZE - 1)) s
      in s\<lparr>pm_gdtr := gdtr, pm_tr := gdtselector TSS_DES,
           pm_idtr := (of_nat (16 * IDT_ITEMS), idt_base)\<rparr>)"

section \<open>The table of faults\<close>

text \<open>\<^verbatim>\<open>faults_to_install\<close> without its closing entry: the slots, with the handlers as addresses.\<close>

definition fault_slots :: "u32 list" where
  "fault_slots = [0, 1, 2, 3, 4, 5, 6, 7, 8, 10, 11, 12, 13, 14, 16, 17, 18, 19, 30]"

definition faults_to_install :: "addr list \<Rightarrow> (u32 \<times> addr) list" where
  "faults_to_install handlers = zip fault_slots handlers @ [(0, 0)]"

text \<open>The loop runs up to the first entry without a handler.\<close>

fun install_faults :: "(u32 \<times> addr) list \<Rightarrow> idescriptor list \<Rightarrow> idescriptor list res" where
  "install_faults [] idt = Inl BadAccess"
| "install_faults ((slot, handler) # fs) idt =
     (if handler \<noteq> 0 then
        let (r, idt) = install_trap_gate slot handler PROT_RING_0 0 idt
        in if r \<noteq> 0 then Inl (Panic ''Can't install fault handler'') else install_faults fs idt
      else Inr idt)"

definition install_fault_handlers :: "addr list \<Rightarrow> idescriptor list \<Rightarrow> idescriptor list res" where
  "install_fault_handlers handlers idt = install_faults (faults_to_install handlers) idt"

section \<open>Reading the descriptors\<close>

definition gate_offset :: "idescriptor \<Rightarrow> u64" where
  "gate_offset e = place 0 (id_offset_0_15 e) OR place 16 (id_offset_16_31 e) OR place 32 (id_offset_32_63 e)"

definition tss_base :: "tss_descriptor \<Rightarrow> u64" where
  "tss_base d = place 0 (td_base_0_15 d) OR place 16 (td_base_16_23 d) OR place 24 (td_base_24_31 d)
     OR place 32 (td_base_32_63 d)"

definition tss_limit :: "tss_descriptor \<Rightarrow> u32" where
  "tss_limit d = ucast (td_limit_0_15 d) OR push_bit 16 (ucast (td_limit_16_19 d))"

lemma masked_parts:
  "ucast (x AND 0xffff :: u64) = (ucast x :: 16 word)" "ucast (x AND 0xff :: u64) = (ucast x :: 8 word)"
proof -
  have m: "(0xffff :: u64) = mask 16" "(0xff :: u64) = mask 8" by (simp_all add: mask_eq_exp_minus_1)
  show "ucast (x AND 0xffff :: u64) = (ucast x :: 16 word)" "ucast (x AND 0xff :: u64) = (ucast x :: 8 word)"
    unfolding m by (rule bit_word_eqI, auto simp: bit_simps)+
qed

lemma offset_parts:
  "place 0 (ucast x :: 16 word) OR place 16 (ucast (drop_bit 16 x) :: 16 word) OR place 32 (ucast (drop_bit 32 x) :: 32 word) = x"
  "place 0 (ucast x :: 16 word) OR place 16 (ucast (drop_bit 16 x) :: 8 word) OR place 24 (ucast (drop_bit 24 x) :: 8 word)
     OR place 32 (ucast (drop_bit 32 x) :: 32 word) = x"
proof -
  show "place 0 (ucast x :: 16 word) OR place 16 (ucast (drop_bit 16 x) :: 16 word) OR place 32 (ucast (drop_bit 32 x) :: 32 word) = x"
  proof (rule bit_word_eqI)
    fix n
    assume "n < LENGTH(64)"
    then consider "n < 16" | "16 \<le> n" "n < 24" | "24 \<le> n" "n < 32" | "32 \<le> n" "n < 64" by fastforce
    then show "bit (place 0 (ucast x :: 16 word) OR place 16 (ucast (drop_bit 16 x) :: 16 word) OR place 32 (ucast (drop_bit 32 x) :: 32 word)) n = bit x n"
      by cases (simp_all add: place_def bit_simps, linarith+)
  qed
  show "place 0 (ucast x :: 16 word) OR place 16 (ucast (drop_bit 16 x) :: 8 word) OR place 24 (ucast (drop_bit 24 x) :: 8 word)
     OR place 32 (ucast (drop_bit 32 x) :: 32 word) = x"
  proof (rule bit_word_eqI)
    fix n
    assume "n < LENGTH(64)"
    then consider "n < 16" | "16 \<le> n" "n < 24" | "24 \<le> n" "n < 32" | "32 \<le> n" "n < 64" by fastforce
    then show "bit (place 0 (ucast x :: 16 word) OR place 16 (ucast (drop_bit 16 x) :: 8 word) OR place 24 (ucast (drop_bit 24 x) :: 8 word)
     OR place 32 (ucast (drop_bit 32 x) :: 32 word)) n = bit x n"
      by cases (simp_all add: place_def bit_simps, linarith+)
  qed
qed

lemma gate_offset_set: "gate_offset (idt_set_offset off p) = off"
  by (simp add: gate_offset_def idt_set_offset_def masked_parts offset_parts)

lemma tss_base_set: "tss_base (gdt_tss_setbase b d) = b"
  by (simp add: tss_base_def gdt_tss_setbase_def masked_parts offset_parts)

lemma tss_limit_set: "tss_limit (gdt_tss_setlim lim d) = lim AND 0xfffff"
proof -
  have m: "(0xffff :: u32) = mask 16" "(0xf :: u32) = mask 4" "(0xfffff :: u32) = mask 20"
    by (simp_all add: mask_eq_exp_minus_1)
  show ?thesis
    unfolding m tss_limit_def gdt_tss_setlim_def by (rule bit_word_eqI) (auto simp: bit_simps)
qed

lemma set_fields_frame [simp]:
  "tss_base (d\<lparr>td_present := p, td_type := t, td_dpl := l\<rparr>) = tss_base d"
  "tss_base (gdt_tss_setlim lim d) = tss_base d" "tss_limit (gdt_tss_setbase b d) = tss_limit d"
  by (simp_all add: tss_base_def tss_limit_def gdt_tss_setlim_def gdt_tss_setbase_def)

text \<open>The gate through which the vector of a handler is reached.\<close>

definition gate_to :: "addr \<Rightarrow> 5 word \<Rightarrow> idescriptor \<Rightarrow> bool" where
  "gate_to handler type' e \<longleftrightarrow> gate_offset e = handler \<and> id_selector e = gdtselector KTEXT_DES \<and>
     id_type e = type' \<and> id_present e = 1 \<and> id_dpl e = PROT_RING_0 \<and> id_ist e = 0"

lemma gate_offset_frame [simp]:
  "gate_offset (p\<lparr>id_selector := s, id_unused := u, id_type := t, id_present := b, id_dpl := d, id_ist := i\<rparr>) = gate_offset p"
  "gate_offset (p\<lparr>id_selector := s, id_type := t, id_present := b, id_dpl := d, id_ist := i\<rparr>) = gate_offset p"
  by (simp_all add: gate_offset_def)

lemma install_trap_gate_ok:
  assumes "unat slot < IDT_ITEMS" and "handler \<noteq> 0" and "length idt = IDT_ITEMS"
  shows "\<exists>idt'. install_trap_gate slot handler PROT_RING_0 0 idt = (0, idt') \<and> length idt' = IDT_ITEMS \<and>
    gate_to handler AR_TRAP (idt' ! unat slot) \<and> (\<forall>i. i \<noteq> unat slot \<longrightarrow> idt' ! i = idt ! i)"
  using assms by (simp add: install_trap_gate_def Let_def gate_to_def gate_offset_set)

lemma install_interrupt_gate_ok:
  assumes "unat slot < IDT_ITEMS" and "length idt = IDT_ITEMS"
  shows "\<exists>idt'. install_interrupt_gate slot handler PROT_RING_0 0 idt = (0, idt') \<and> length idt' = IDT_ITEMS \<and>
    gate_to handler AR_INTR (idt' ! unat slot) \<and> (\<forall>i. i \<noteq> unat slot \<longrightarrow> idt' ! i = idt ! i)"
  using assms by (simp add: install_interrupt_gate_def Let_def gate_to_def gate_offset_set)

lemma install_faults_ok:
  assumes "\<forall>(s, h)\<in>set fs. unat s < IDT_ITEMS \<and> h \<noteq> 0" and "distinct (map fst fs)" and "length idt = IDT_ITEMS"
  shows "\<exists>idt'. install_faults (fs @ [(0, 0)]) idt = Inr idt' \<and> length idt' = IDT_ITEMS \<and>
    (\<forall>(s, h)\<in>set fs. gate_to h AR_TRAP (idt' ! unat s)) \<and>
    (\<forall>i. i \<notin> unat ` fst ` set fs \<longrightarrow> idt' ! i = idt ! i)"
  using assms
proof (induction fs arbitrary: idt)
  case Nil
  then show ?case by simp
next
  case (Cons f fs)
  obtain s h where f: "f = (s, h)" by (cases f)
  obtain idt1 where run: "install_trap_gate s h PROT_RING_0 0 idt = (0, idt1)" and len: "length idt1 = IDT_ITEMS"
    and gate: "gate_to h AR_TRAP (idt1 ! unat s)" and rest: "\<forall>i. i \<noteq> unat s \<longrightarrow> idt1 ! i = idt ! i"
    using install_trap_gate_ok [of s h idt] Cons.prems by (auto simp: f)
  obtain idt' where idt': "install_faults (fs @ [(0, 0)]) idt1 = Inr idt'" "length idt' = IDT_ITEMS"
    "\<forall>(s, h)\<in>set fs. gate_to h AR_TRAP (idt' ! unat s)" "\<forall>i. i \<notin> unat ` fst ` set fs \<longrightarrow> idt' ! i = idt1 ! i"
    using Cons.IH [of idt1] Cons.prems len by (auto simp: f)
  have "unat s \<notin> unat ` fst ` set fs" using Cons.prems(2) by (auto simp: f dest: unsigned_word_eqI)
  then have "gate_to h AR_TRAP (idt' ! unat s)" using idt'(4) gate by simp
  then show ?case using idt' rest run Cons.prems(1) by (auto simp: f)
qed

section \<open>Properties\<close>

lemma install_fault_handlers_ok:
  assumes "length handlers = length fault_slots" and "0 \<notin> set handlers" and "length idt = IDT_ITEMS"
  shows "\<exists>idt'. install_fault_handlers handlers idt = Inr idt' \<and> length idt' = IDT_ITEMS \<and>
    (\<forall>k<length fault_slots. gate_to (handlers ! k) AR_TRAP (idt' ! unat (fault_slots ! k))) \<and>
    (\<forall>i. i \<notin> unat ` set fault_slots \<longrightarrow> idt' ! i = idt ! i)"
proof -
  let ?fs = "zip fault_slots handlers"
  have slots: "distinct fault_slots" "\<forall>s\<in>set fault_slots. unat s < IDT_ITEMS"
    by (simp_all add: fault_slots_def IDT_ITEMS_def)
  have "\<forall>(s, h)\<in>set ?fs. unat s < IDT_ITEMS \<and> h \<noteq> 0"
    using slots(2) assms(2) by (auto dest: set_zip_leftD set_zip_rightD)
  moreover have "distinct (map fst ?fs)" using slots(1) assms(1) by simp
  ultimately obtain idt' where "install_faults (?fs @ [(0, 0)]) idt = Inr idt'" "length idt' = IDT_ITEMS"
    "\<forall>(s, h)\<in>set ?fs. gate_to h AR_TRAP (idt' ! unat s)" "\<forall>i. i \<notin> unat ` fst ` set ?fs \<longrightarrow> idt' ! i = idt ! i"
    using install_faults_ok assms(3) by blast
  moreover have "(fault_slots ! k, handlers ! k) \<in> set ?fs" if "k < length fault_slots" for k
    using that assms(1) by (auto simp: set_zip)
  moreover have "fst ` set ?fs = set fault_slots" using assms(1) by (simp flip: set_map)
  ultimately show ?thesis by (auto simp: install_fault_handlers_def faults_to_install_def)
qed

text \<open>After the fault handlers are installed, each of the nineteen vectors of the table leads
  through a present trap gate of ring 0 to its own handler, and every other vector keeps its gate.\<close>

theorem fault_gates_complete:
  assumes "length handlers = length fault_slots" and "0 \<notin> set handlers" and "length idt = IDT_ITEMS"
  shows "\<exists>idt'. install_fault_handlers handlers idt = Inr idt' \<and> length idt' = IDT_ITEMS \<and>
    (\<forall>k<length fault_slots. gate_to (handlers ! k) AR_TRAP (idt' ! unat (fault_slots ! k))) \<and>
    (\<forall>i. i \<notin> unat ` set fault_slots \<longrightarrow> idt' ! i = idt ! i)"
  by (rule install_fault_handlers_ok [OF assms])

text \<open>After the descriptor tables of a CPU are set up, its task-state descriptor is present,
  names the task-state structure of the CPU with the limit of its fixed part, and the other
  entries of its table and the tables of the other CPUs are untouched.\<close>

theorem tss_descriptor_set:
  assumes "cpu < length (pm_gdt s)" and "length (pm_gdt s ! cpu) = GDT_ITEMS"
  shows "let s' = arch_pmm_tables gdt_base idt_base tss_of cpu s; t = pm_gdt s' ! cpu; d = tss_decode (t ! 6, t ! 7) in
    tss_base d = tss_of cpu \<and> tss_limit d = 103 \<and> td_present d = 1 \<and> td_type d = AR_TSS \<and> td_dpl d = 0 \<and>
    (\<forall>i<6. t ! i = pm_gdt s ! cpu ! i) \<and> (\<forall>c. c \<noteq> cpu \<longrightarrow> pm_gdt s' ! c = pm_gdt s ! c)"
proof -
  have step: "pm_gdt (upd_tss_descr cpu f u) = (pm_gdt u)[cpu := (pm_gdt u ! cpu)[6 := fst (tss_encode (f (tss_decode (pm_gdt u ! cpu ! 6, pm_gdt u ! cpu ! 7)))),
      7 := snd (tss_encode (f (tss_decode (pm_gdt u ! cpu ! 6, pm_gdt u ! cpu ! 7))))]]" for f and u :: pmm_state
    by (simp add: upd_tss_descr_def Let_def TSS_DES_def split_beta)
  show ?thesis
    using assms
    by (simp add: arch_pmm_tables_def Let_def step GDT_ITEMS_def tss_base_set tss_limit_set TSS_BASIC_SIZE_def)
      (simp add: gdt_tss_setlim_def gdt_tss_setbase_def)
qed

section \<open>Witnesses\<close>

definition blank_gate :: idescriptor where
  "blank_gate = idesc_decode (0, 0)"

theorem fault_gates_complete_witness:
  "\<exists>idt'. install_fault_handlers (map of_nat [1..<20]) (replicate 64 blank_gate) = Inr idt' \<and>
    gate_to 15 AR_TRAP (idt' ! 16)"
proof -
  have "length (map of_nat [1..<20] :: addr list) = length fault_slots"
    "0 \<notin> set (map of_nat [1..<20] :: addr list)" "length (replicate 64 blank_gate) = IDT_ITEMS"
    by (simp_all add: fault_slots_def IDT_ITEMS_def upt_rec)
  from fault_gates_complete [OF this] obtain idt' where
    idt': "install_fault_handlers (map of_nat [1..<20]) (replicate 64 blank_gate) = Inr idt'"
    and gates: "\<forall>k<length fault_slots. gate_to (map of_nat [1..<20] ! k) AR_TRAP (idt' ! unat (fault_slots ! k))"
    by blast
  have "gate_to 15 AR_TRAP (idt' ! 16)"
    using gates [rule_format, of 14] by (simp add: fault_slots_def)
  then show ?thesis using idt' by blast
qed

definition sample_pmm :: pmm_state where
  "sample_pmm = \<lparr>pm_gdt = [GDT_CPU_ENTRIES, GDT_CPU_ENTRIES], pm_mem = (\<lambda>_. 0), pm_gdtr = (0, 0),
     pm_tr = 0, pm_idtr = (0, 0)\<rparr>"

theorem tss_descriptor_set_witness:
  "let t = pm_gdt (arch_pmm_tables 0x1000 0x2000 (\<lambda>cpu. 0xffffffff80123450 + of_nat cpu) 1 sample_pmm) ! 1 in
    tss_base (tss_decode (t ! 6, t ! 7)) = 0xffffffff80123451"
  using tss_descriptor_set [of 1 sample_pmm "0x1000" "0x2000" "\<lambda>cpu. 0xffffffff80123450 + of_nat cpu"]
  by (simp add: sample_pmm_def GDT_CPU_ENTRIES_def GDT_ITEMS_def Let_def)

end
