(* ===== verification/Mui_Clock.thy ===== *)
theory Mui_Clock
  imports Mui_Pic Mui_Descr
begin

text \<open>
  The clock: the i8254 driver (\<^verbatim>\<open>eza/amd64/i8254.c\<close>, \<^verbatim>\<open>eza/amd64/timer.c\<close>), the list of hardware
  timers (\<^verbatim>\<open>eza/generic_api/timer.c\<close>), the ticks (\<^verbatim>\<open>time.c\<close>), the statistics they are kept in
  (\<^verbatim>\<open>swks.c\<close>), and the installation of the interrupt entry points and of the timer handler
  (\<^verbatim>\<open>eza/amd64/interrupt.c\<close>). The delay loops are assembly outside these files: they are
  parameters, the effect of the time they take on the devices.
\<close>

section \<open>The i8254 driver\<close>

definition I8254_BASE :: u16 where "I8254_BASE = 0x40"
definition DCLOCK :: u32 where "DCLOCK = 150000"
definition MAGIC_CLOCKN :: u32 where "MAGIC_CLOCKN = 1194"
definition CLOCK_HZ :: u32 where "CLOCK_HZ = 100"
definition HZ :: u32 where "HZ = 1000"
definition IRQ_BASE :: u32 where "IRQ_BASE = 0x20"

named_theorems clock_defs \<open>the constants of the clock\<close>
declare I8254_BASE_def [clock_defs] DCLOCK_def [clock_defs] MAGIC_CLOCKN_def [clock_defs]
  CLOCK_HZ_def [clock_defs] HZ_def [clock_defs] IRQ_BASE_def [clock_defs]

definition port_out :: "'d bus \<Rightarrow> u16 \<Rightarrow> u8 \<Rightarrow> 'd irq_state \<Rightarrow> 'd irq_state" where
  "port_out bus port v = upd_irq_dev (outb bus port v)"

definition port_in :: "'d bus \<Rightarrow> u16 \<Rightarrow> 'd irq_state \<Rightarrow> u8 \<times> 'd irq_state" where
  "port_in bus port s = (let (v, d) = inb bus port (irq_dev s) in (v, s\<lparr>irq_dev := d\<rparr>))"

text \<open>The divisor is written low byte first; the code keeps only four bits of the low byte.\<close>

definition write_divisor :: "'d bus \<Rightarrow> u32 \<Rightarrow> 'd irq_state \<Rightarrow> 'd irq_state" where
  "write_divisor bus n s =
     (let s = port_out bus I8254_BASE (ucast (n AND 0xf)) s
      in port_out bus I8254_BASE (ucast (drop_bit 8 n)) s)"

definition arch_i8254_init :: "'d bus \<Rightarrow> 'd irq_state \<Rightarrow> 'd irq_state" where
  "arch_i8254_init bus s =
     (let s = port_out bus (I8254_BASE + 3) 0x36 s;
          (_, s) = disable_hw_irq 0 s;
          s = write_divisor bus (DCLOCK div CLOCK_HZ) s;
          (_, s) = enable_hw_irq 0 s
      in s)"

text \<open>A counter value: the low byte and then the high one.\<close>

definition read_counter :: "'d bus \<Rightarrow> 'd irq_state \<Rightarrow> u32 \<times> 'd irq_state" where
  "read_counter bus s =
     (let (lo, s) = port_in bus I8254_BASE s; (hi, s) = port_in bus I8254_BASE s
      in (ucast lo OR push_bit 8 (ucast hi), s))"

definition latch_and_read :: "'d bus \<Rightarrow> 'd irq_state \<Rightarrow> u32 \<times> 'd irq_state" where
  "latch_and_read bus s = read_counter bus (port_out bus (I8254_BASE + 3) 0xd2 s)"

partial_function (option) wait_loaded :: "'d bus \<Rightarrow> 'd irq_state \<Rightarrow> (u32 \<times> 'd irq_state) option" where
  "wait_loaded bus s =
     (let s = port_out bus (I8254_BASE + 3) 0xc2 s;
          (v, s) = port_in bus I8254_BASE s;
          cnt = drop_bit 6 v AND 1;
          (tt1, s) = read_counter bus s
      in if cnt \<noteq> 0 then wait_loaded bus s else Some (tt1, s))"

definition delay_loops :: "u32 \<Rightarrow> u32 \<Rightarrow> u32 \<Rightarrow> u32 \<Rightarrow> u64 res" where
  "delay_loops tt1 tt2 oo1 oo2 =
     (let total = (MAGIC_CLOCKN * DCLOCK) div 1000; k = (tt1 - tt2) - (oo1 - oo2)
      in if k = 0 then Inl DivideError
         else Inr (ucast (total div k + (if total mod k \<noteq> 0 then 1 else 0))))"

definition i8254_calibrate_delay_loop ::
  "'d bus \<Rightarrow> (u32 \<Rightarrow> 'd \<Rightarrow> 'd) \<Rightarrow> (u32 \<Rightarrow> 'd \<Rightarrow> 'd) \<Rightarrow> 'd irq_state \<Rightarrow> (u64 \<times> 'd irq_state) res option" where
  "i8254_calibrate_delay_loop bus arch_delay_loop arch_fake_loop s =
     (let s = port_out bus (I8254_BASE + 3) 0x30 s;
          s = port_out bus I8254_BASE 0xff s;
          s = port_out bus I8254_BASE 0xff s
      in map_option (\<lambda>(tt1, s).
           let s = upd_irq_dev (arch_delay_loop DCLOCK) s;
               (tt2, s) = latch_and_read bus s;
               (oo1, s) = latch_and_read bus s;
               s = upd_irq_dev (arch_fake_loop DCLOCK) s;
               (oo2, s) = latch_and_read bus s;
               s = arch_i8254_init bus s
           in rbind (delay_loops tt1 tt2 oo1 oo2) (\<lambda>r. Inr (r, s)))
         (wait_loaded bus s))"

definition i8254_register_callback :: "u64 \<Rightarrow> addr \<Rightarrow> 'd irq_state \<Rightarrow> (int \<times> 'd irq_state) res" where
  "i8254_register_callback irq handler s = register_irq irq handler 0 0 s"

definition i8254_calibrate :: "'d bus \<Rightarrow> u32 \<Rightarrow> 'd irq_state \<Rightarrow> 'd irq_state res" where
  "i8254_calibrate bus v s =
     (let (_, s) = disable_hw_irq 0 s
      in if v = 0 then Inl DivideError
         else let s = write_divisor bus (DCLOCK div v) s; (_, s) = enable_hw_irq 0 s in Inr s)"

definition i8254_suspend :: "'d bus \<Rightarrow> 'd irq_state \<Rightarrow> 'd irq_state" where
  "i8254_suspend bus s = port_out bus I8254_BASE 0xff
     (port_out bus I8254_BASE 0xff (port_out bus (I8254_BASE + 3) 0x30 s))"

definition i8254_resume :: "'d bus \<Rightarrow> 'd irq_state \<Rightarrow> 'd irq_state" where
  "i8254_resume bus s = port_out bus (I8254_BASE + 3) 0x36 s"

section \<open>The list of timers\<close>

text \<open>The list \<^verbatim>\<open>known_hw_timers\<close> is in the same memory of links as the interrupt lists.\<close>

record 'd hw_timer =
  ht_calibrate :: "u32 \<Rightarrow> 'd irq_state \<Rightarrow> 'd irq_state res"
  ht_resume :: "'d irq_state \<Rightarrow> 'd irq_state"
  ht_suspend :: "'d irq_state \<Rightarrow> 'd irq_state"
  ht_register_callback :: "u64 \<Rightarrow> addr \<Rightarrow> 'd irq_state \<Rightarrow> (int \<times> 'd irq_state) res"

definition init_hw_timers :: "addr \<Rightarrow> list_heap \<Rightarrow> list_heap" where
  "init_hw_timers known_hw_timers h = init_list_head known_hw_timers h"

definition hw_timer_register :: "addr \<Rightarrow> addr \<Rightarrow> list_heap \<Rightarrow> list_heap" where
  "hw_timer_register known_hw_timers ctrl h = list_add ctrl known_hw_timers h"

definition i8254_timer :: "'d bus \<Rightarrow> 'd hw_timer" where
  "i8254_timer bus = \<lparr>ht_calibrate = i8254_calibrate bus, ht_resume = i8254_resume bus,
     ht_suspend = i8254_suspend bus, ht_register_callback = i8254_register_callback\<rparr>"

definition i8254_init :: "'d bus \<Rightarrow> addr \<Rightarrow> addr \<Rightarrow> 'd irq_state \<Rightarrow> 'd hw_timer \<times> 'd irq_state" where
  "i8254_init bus known_hw_timers i8254 s =
     (let s = arch_i8254_init bus s
      in (i8254_timer bus, upd_irq_links (hw_timer_register known_hw_timers i8254) s))"

definition arch_timer_init :: "'d bus \<Rightarrow> addr \<Rightarrow> addr \<Rightarrow> 'd irq_state \<Rightarrow> 'd hw_timer \<times> 'd irq_state" where
  "arch_timer_init bus known_hw_timers i8254 s = i8254_init bus known_hw_timers i8254 s"

definition initialize_timer :: "'d bus \<Rightarrow> addr \<Rightarrow> addr \<Rightarrow> 'd irq_state \<Rightarrow> 'd hw_timer \<times> 'd irq_state" where
  "initialize_timer bus known_hw_timers i8254 s = arch_timer_init bus known_hw_timers i8254 s"

section \<open>Statistics and ticks\<close>

text \<open>\<^verbatim>\<open>swks_t\<close>, less the interrupt counts of the CPUs: those of the running CPU are \<open>irq_stat\<close>.\<close>

record swks =
  sw_system_ticks_64 :: u64
  sw_seconds_since_epoch :: u64
  sw_timer_frequency :: u32
  sw_nr_cpus :: u8
  sw_mem_total_pages :: page_idx
  sw_mem_pages_in_use :: page_idx
  sw_total_processes :: u32
  sw_runnable_processes :: u32
  sw_sleeping_processes :: u32
  sw_zombies :: u32
  sw_delay_loop :: u64

definition zero_swks :: swks where
  "zero_swks = \<lparr>sw_system_ticks_64 = 0, sw_seconds_since_epoch = 0, sw_timer_frequency = 0, sw_nr_cpus = 0,
     sw_mem_total_pages = 0, sw_mem_pages_in_use = 0,
     sw_total_processes = 0, sw_runnable_processes = 0, sw_sleeping_processes = 0, sw_zombies = 0,
     sw_delay_loop = 0\<rparr>"

text \<open>The byte loop clears the whole structure, the counts included.\<close>

definition initialize_swks ::
  "'d bus \<Rightarrow> (u32 \<Rightarrow> 'd \<Rightarrow> 'd) \<Rightarrow> (u32 \<Rightarrow> 'd \<Rightarrow> 'd) \<Rightarrow> swks \<Rightarrow> 'd irq_state \<Rightarrow> (swks \<times> 'd irq_state) res option" where
  "initialize_swks bus arch_delay_loop arch_fake_loop sw s =
     (let sw = zero_swks\<lparr>sw_system_ticks_64 := 0, sw_nr_cpus := 2, sw_timer_frequency := HZ\<rparr>;
          s = s\<lparr>irq_stat := replicate NUM_IRQS 0\<rparr>
      in map_option (\<lambda>r. rbind r (\<lambda>(delay, s). Inr (sw\<lparr>sw_delay_loop := delay\<rparr>, s)))
           (i8254_calibrate_delay_loop bus arch_delay_loop arch_fake_loop s))"

definition timer_tick :: "swks \<Rightarrow> swks" where
  "timer_tick sw = sw\<lparr>sw_system_ticks_64 := sw_system_ticks_64 sw + 1\<rparr>"

definition scheduler_tick :: "swks \<Rightarrow> swks" where
  "scheduler_tick sw = sw"

definition timer_interrupt_handler :: "swks \<Rightarrow> swks" where
  "timer_interrupt_handler sw = scheduler_tick (timer_tick sw)"

section \<open>The entry points of the interrupts\<close>

text \<open>
  The statistics are part of what a handler works on: the devices are pairs of the statistics and
  of the hardware behind the ports.
\<close>

definition with_swks :: "'h bus \<Rightarrow> (swks \<times> 'h) bus" where
  "with_swks bus = \<lparr>bus_in = (\<lambda>port (sw, h). let (v, h) = bus_in bus port h in (v, (sw, h))),
     bus_out = (\<lambda>port v (sw, h). (sw, bus_out bus port v h))\<rparr>"

definition call_handler :: "addr \<Rightarrow> addr \<Rightarrow> addr \<Rightarrow> swks \<times> 'h \<Rightarrow> swks \<times> 'h" where
  "call_handler timer_handler handler data d =
     (if handler = timer_handler then (timer_interrupt_handler (fst d), snd d) else d)"

definition install_irq_handlers :: "addr \<Rightarrow> 'd irq_state \<Rightarrow> (int \<times> 'd irq_state) res" where
  "install_irq_handlers timer_handler s = register_irq TIMER_IRQ_LINE timer_handler 0 0 s"

fun install_irq_gates :: "addr list \<Rightarrow> nat list \<Rightarrow> idescriptor list \<Rightarrow> idescriptor list res" where
  "install_irq_gates entries [] idt = Inr idt"
| "install_irq_gates entries (idx # is) idt =
     (let (r, idt) = install_interrupt_gate (of_nat idx + IRQ_BASE) (entries ! idx) PROT_RING_0 0 idt
      in if r \<noteq> 0 then Inl (Panic ''Can't install IDT slot for IRQ'') else install_irq_gates entries is idt)"

definition arch_initialize_irqs ::
  "'d bus \<Rightarrow> addr \<Rightarrow> addr list \<Rightarrow> addr \<Rightarrow> idescriptor list \<Rightarrow> 'd irq_state \<Rightarrow> (idescriptor list \<times> 'd irq_state) res" where
  "arch_initialize_irqs bus pic entries timer_handler idt s =
     (let s = i8259a_init bus pic s
      in rbind (install_irq_gates entries [0..<NUM_IRQS] idt) (\<lambda>idt.
         rbind (install_irq_handlers timer_handler s) (\<lambda>(r, s). Inr (idt, s))))"

section \<open>Lemmas\<close>

text \<open>Without a controller on line 0 the switches do nothing: the driver only writes its ports.\<close>

lemma i8254_writes:
  assumes "controller_of s 0 = None"
  shows "arch_i8254_init bus s =
    upd_irq_dev (\<lambda>d. outb bus 0x40 0x05 (outb bus 0x40 0x0c (outb bus 0x43 0x36 d))) s"
proof -
  have none: "controller_of (upd_irq_dev f s) 0 = None" for f
    using assms by (simp add: controller_of_def)
  have comp: "upd_irq_dev f (upd_irq_dev g s) = upd_irq_dev (\<lambda>d. f (g d)) s" for f g
    by (simp add: upd_irq_dev_def)
  have "disable_hw_irq 0 (upd_irq_dev f s) = (- EINVAL, upd_irq_dev f s)"
    "enable_hw_irq 0 (upd_irq_dev f s) = (- EINVAL, upd_irq_dev f s)" for f
    by (simp_all add: disable_hw_irq_def enable_hw_irq_def none NUM_IRQS_def)
  then show ?thesis
    by (simp add: arch_i8254_init_def Let_def port_out_def write_divisor_def comp clock_defs)
qed

lemma delay_loops_rounds_up:
  assumes "(tt1 - tt2) - (oo1 - oo2) = k" and "k \<noteq> 0"
  shows "delay_loops tt1 tt2 oo1 oo2 = Inr (of_nat (179100 div unat k + (if 179100 mod unat k \<noteq> 0 then 1 else 0)))"
proof -
  have k: "0 < unat k" using assms(2) by (simp add: unat_gt_0)
  have t: "(MAGIC_CLOCKN * DCLOCK) div 1000 = (179100 :: u32)" by (simp add: clock_defs)
  let ?q = "179100 div k + (if 179100 mod k \<noteq> 0 then 1 else 0)"
  have q: "unat (179100 div k) = 179100 div unat k" "unat (179100 mod k) = 179100 mod unat k"
    by (simp_all add: unat_div unat_mod)
  have "179100 div unat k \<le> 179100" by simp
  then have lt: "179100 div unat k < 4294967296" "Suc (179100 div unat k) < 4294967296" by linarith+
  have "unat ?q = 179100 div unat k + (if 179100 mod unat k \<noteq> 0 then 1 else 0)"
    using q lt by (auto simp: unat_word_ariths unat_eq_0 [symmetric] mod_less)
  then have "(ucast ?q :: u64) = of_nat (179100 div unat k + (if 179100 mod unat k \<noteq> 0 then 1 else 0))"
    by (metis of_nat_unat)
  then show ?thesis using assms by (simp add: delay_loops_def t)
qed

lemma install_irq_gates_ok:
  assumes "distinct is" and "set is \<subseteq> {..<NUM_IRQS}" and "length idt = IDT_ITEMS"
  shows "\<exists>idt'. install_irq_gates entries is idt = Inr idt' \<and> length idt' = IDT_ITEMS \<and>
    (\<forall>i\<in>set is. gate_to (entries ! i) AR_INTR (idt' ! (32 + i))) \<and>
    (\<forall>k. k \<notin> (+) 32 ` set is \<longrightarrow> idt' ! k = idt ! k)"
  using assms
proof (induction "is" arbitrary: idt)
  case Nil
  then show ?case by simp
next
  case (Cons i "is")
  have "i < 16" using Cons.prems(2) by (simp add: NUM_IRQS_def)
  moreover have "of_nat i + IRQ_BASE = (of_nat (32 + i) :: u32)" by (simp add: clock_defs)
  ultimately have slot: "unat (of_nat i + IRQ_BASE) = 32 + i"
    using unat_of_nat_small [where 'a = 32, of "32 + i"] by (simp del: of_nat_add)
  have "unat (of_nat i + IRQ_BASE) < IDT_ITEMS"
    unfolding slot using Cons.prems(2) by (simp add: IDT_ITEMS_def NUM_IRQS_def)
  from install_interrupt_gate_ok [OF this Cons.prems(3), of "entries ! i", unfolded slot]
  obtain idt1 where run: "install_interrupt_gate (of_nat i + IRQ_BASE) (entries ! i) PROT_RING_0 0 idt = (0, idt1)"
    and len: "length idt1 = IDT_ITEMS" and gate: "gate_to (entries ! i) AR_INTR (idt1 ! (32 + i))"
    and rest: "\<forall>k. k \<noteq> 32 + i \<longrightarrow> idt1 ! k = idt ! k"
    by blast
  obtain idt' where idt': "install_irq_gates entries is idt1 = Inr idt'" "length idt' = IDT_ITEMS"
    "\<forall>i\<in>set is. gate_to (entries ! i) AR_INTR (idt' ! (32 + i))" "\<forall>k. k \<notin> (+) 32 ` set is \<longrightarrow> idt' ! k = idt1 ! k"
    using Cons.IH [of idt1] Cons.prems len by auto
  have "32 + i \<notin> (+) 32 ` set is" using Cons.prems(1) by auto
  then have "gate_to (entries ! i) AR_INTR (idt' ! (32 + i))" using idt'(4) gate by simp
  then show ?case using idt' rest run by auto
qed

lemma with_swks_keeps:
  "fst (outb (with_swks bus) port v d) = fst d" "fst (snd (inb (with_swks bus) port d)) = fst d"
  by (simp_all add: with_swks_def inb_def outb_def split_beta)

lemma pic_keeps_swks:
  "fst (i8259a_ack_irq (with_swks bus) irq d) = fst d"
  "fst (i8259a_enable_irq (with_swks bus) irq d) = fst d"
  "fst (initialize_pic (with_swks bus) d) = fst d"
  by (simp_all add: i8259a_ack_irq_def i8259a_enable_irq_def initialize_pic_def i8259a_disable_all_def Let_def
      with_swks_keeps split_beta)

text \<open>\<open>n\<close> timer interrupts in a row.\<close>

fun timer_irqs :: "addr \<Rightarrow> nat \<Rightarrow> (swks \<times> 'h) irq_state \<Rightarrow> (swks \<times> 'h) irq_state res option" where
  "timer_irqs timer_handler 0 s = Some (Inr s)"
| "timer_irqs timer_handler (Suc n) s =
     obind (do_irq (call_handler timer_handler) id TIMER_IRQ_LINE s) (timer_irqs timer_handler n)"

lemma timer_irqs_run:
  assumes "line_rep s 0 [a]" and "ia_handler (irq_actions s a) = timer_handler"
    and "controller_of s 0 = Some (i8259A_pic (with_swks bus))" and "0 < length (irq_stat s)"
  shows "\<exists>s'. timer_irqs timer_handler n s = Some (Inr s') \<and>
    sw_system_ticks_64 (fst (irq_dev s')) = sw_system_ticks_64 (fst (irq_dev s)) + of_nat n \<and>
    irq_stat s' ! 0 = irq_stat s ! 0 + of_nat n"
  using assms
proof (induction n arbitrary: s)
  case 0
  then show ?case by simp
next
  case (Suc n)
  let ?g = "\<lambda>d. i8259a_ack_irq (with_swks bus) 0 (call_handler timer_handler timer_handler (ia_private_data (irq_actions s a)) d)"
  let ?t = "upd_irq_dev ?g (s\<lparr>irq_stat := (irq_stat s)[0 := irq_stat s ! 0 + 1]\<rparr>)"
  have run: "do_irq (call_handler timer_handler) id TIMER_IRQ_LINE s = Some (Inr ?t)"
    using do_irq_run [of s TIMER_IRQ_LINE "[a]" "i8259A_pic (with_swks bus)" "call_handler timer_handler" id] Suc.prems
    by (simp add: TIMER_IRQ_LINE_def NUM_IRQS_def i8259A_pic_def)
  have tick: "sw_system_ticks_64 (fst (irq_dev ?t)) = sw_system_ticks_64 (fst (irq_dev s)) + 1"
    "irq_stat ?t ! 0 = irq_stat s ! 0 + 1"
    using Suc.prems(4)
    by (simp_all add: pic_keeps_swks call_handler_def timer_interrupt_handler_def scheduler_tick_def timer_tick_def)
  have "line_rep ?t 0 [a]" "ia_handler (irq_actions ?t a) = timer_handler"
    "controller_of ?t 0 = Some (i8259A_pic (with_swks bus))" "0 < length (irq_stat ?t)"
    using Suc.prems by (simp_all add: line_rep_def actions_head_def controller_of_def)
  from Suc.IH [OF this] obtain s' where "timer_irqs timer_handler n ?t = Some (Inr s')"
    "sw_system_ticks_64 (fst (irq_dev s')) = sw_system_ticks_64 (fst (irq_dev ?t)) + of_nat n"
    "irq_stat s' ! 0 = irq_stat ?t ! 0 + of_nat n"
    by blast
  then show ?case using run unfolding tick by (simp add: add.assoc)
qed

section \<open>Properties\<close>

text \<open>C17: Once the interrupts are initialized, every interrupt line leads through a gate of its own to
  its entry point, and the clock advances: after any number of timer interrupts the system has
  counted exactly that many ticks more, and so has the statistics of line 0.\<close>

theorem timer_interrupts_advance_clock:
  assumes "lines_ok s (\<lambda>_. [])" and "dlist (irq_links s) (known_hw_int_controllers s) cs"
    and "pic \<notin> insert (known_hw_int_controllers s) (set cs)"
    and "\<forall>i<NUM_IRQS. insert pic (insert (known_hw_int_controllers s) (set cs)) \<inter> {actions_head s i} = {}"
    and "\<forall>i<NUM_IRQS. il_controller (irq_lines s ! i) = None"
    and "action_idx s < 128" and "timer_handler \<noteq> 0" and "0 < length (irq_stat s)"
    and "length idt = IDT_ITEMS"
  shows "\<exists>idt' s1. arch_initialize_irqs (with_swks bus) pic entries timer_handler idt s = Inr (idt', s1) \<and>
    (\<forall>i<NUM_IRQS. gate_to (entries ! i) AR_INTR (idt' ! (32 + i))) \<and>
    (\<forall>n. \<exists>s2. timer_irqs timer_handler n s1 = Some (Inr s2) \<and>
      sw_system_ticks_64 (fst (irq_dev s2)) = sw_system_ticks_64 (fst (irq_dev s)) + of_nat n \<and>
      irq_stat s2 ! 0 = irq_stat s ! 0 + of_nat n)"
proof -
  let ?pic = "i8259A_pic (with_swks bus)" and ?u = "i8259a_init (with_swks bus) pic s"
  have apart: "\<forall>i<NUM_IRQS. insert pic (insert (known_hw_int_controllers s) (set cs)) \<inter>
      insert (actions_head s i) (set []) = {}"
    using assms(4) by simp
  note u = i8259a_init_lines [OF assms(1-3) apart assms(5), of "with_swks bus"]
  have line: "unat TIMER_IRQ_LINE < NUM_IRQS" "controller_of ?u (unat TIMER_IRQ_LINE) = Some ?pic"
    "action_idx ?u < 128"
    using u assms(6) by (simp_all add: TIMER_IRQ_LINE_def NUM_IRQS_def)
  obtain s1 where s1: "register_irq TIMER_IRQ_LINE timer_handler 0 0 ?u = Inr (0, s1)"
    "lines_ok s1 ((\<lambda>_. [])(0 := [action_link ?u (action_idx ?u)]))"
    "irq_actions s1 = (irq_actions ?u)(action_link ?u (action_idx ?u) :=
       \<lparr>ia_handler = timer_handler, ia_flags = 0, ia_private_data = 0\<rparr>)"
    "irq_dev s1 = hc_enable_irq ?pic (ucast TIMER_IRQ_LINE) (irq_dev ?u)"
    "controller_of s1 = controller_of ?u" "irq_stat s1 = irq_stat ?u"
    using register_irq_run [OF u(1) line(1) assms(7) line(3,2), of 0 0]
    by (auto simp: TIMER_IRQ_LINE_def)
  have sw: "fst (irq_dev s1) = fst (irq_dev s)"
    using s1(4) u(3) by (simp add: i8259A_pic_def pic_keeps_swks)
  have stat: "irq_stat ?u = irq_stat s"
    by (simp add: i8259a_init_def register_hw_interrupt_controller_def Let_def)
  have zero: "0 < NUM_IRQS" by (simp add: NUM_IRQS_def)
  have "line_rep s1 0 [action_link ?u (action_idx ?u)]" using lines_okD [OF s1(2) zero] by simp
  moreover have "controller_of s1 0 = Some ?pic" using s1(5) u(2) zero by simp
  ultimately have ticks: "\<exists>s2. timer_irqs timer_handler n s1 = Some (Inr s2) \<and>
      sw_system_ticks_64 (fst (irq_dev s2)) = sw_system_ticks_64 (fst (irq_dev s)) + of_nat n \<and>
      irq_stat s2 ! 0 = irq_stat s ! 0 + of_nat n" for n
    using timer_irqs_run [of s1 "action_link ?u (action_idx ?u)" timer_handler bus n] s1(3,6) assms(8) sw stat
    by simp
  obtain idt' where gates: "install_irq_gates entries [0..<NUM_IRQS] idt = Inr idt'"
    "\<forall>i\<in>set [0..<NUM_IRQS]. gate_to (entries ! i) AR_INTR (idt' ! (32 + i))"
    using install_irq_gates_ok [of "[0..<NUM_IRQS]" idt entries] assms(9) by (auto simp: atLeast0LessThan)
  have "arch_initialize_irqs (with_swks bus) pic entries timer_handler idt s = Inr (idt', s1)"
    using gates(1) s1(1) by (simp add: arch_initialize_irqs_def install_irq_handlers_def)
  then show ?thesis using gates(2) ticks by (intro exI [of _ idt'] exI [of _ s1]) simp
qed

text \<open>The divisor that the i8254 gets at boot is not the one of its comment and constants: of
  150000 / 100 = 1500 = 0x5dc the low byte keeps four bits, and 0x50c = 1292 is written. Line 0
  has no controller yet, so the interrupt is neither closed before nor opened after.\<close>

theorem i8254_divisor_truncated:
  assumes "controller_of s 0 = None"
  shows "unat (DCLOCK div CLOCK_HZ) = 0x5dc \<and>
    irq_dev (arch_i8254_init bus s) = outb bus 0x40 0x05 (outb bus 0x40 0x0c (outb bus 0x43 0x36 (irq_dev s)))"
  unfolding i8254_writes [OF assms] by (simp add: clock_defs)

section \<open>Witnesses\<close>

definition log_bus :: "(u16 \<times> u8) list bus" where
  "log_bus = \<lparr>bus_in = (\<lambda>port d. (0, d)), bus_out = (\<lambda>port v d. d @ [(port, v)])\<rparr>"

theorem i8254_divisor_truncated_witness:
  "irq_dev (arch_i8254_init log_bus (initialize_irqs (blank_irq (i8259A_pic log_bus) []))) =
    [(0x43, 0x36), (0x40, 0x0c), (0x40, 0x05)]"
  using i8254_divisor_truncated [of "initialize_irqs (blank_irq (i8259A_pic log_bus) [])" log_bus]
  by (simp add: controller_of_def initialize_irqs_def links_after_inits blank_irq_def NUM_IRQS_def outb_def log_bus_def)

theorem timer_interrupts_advance_clock_witness:
  "\<exists>idt' s1 s2. arch_initialize_irqs (with_swks log_bus) 0x500 (replicate 16 0x7000) 0x9000 (replicate 64 blank_gate)
      (initialize_irqs (blank_irq (i8259A_pic (with_swks log_bus)) (zero_swks, []))) = Inr (idt', s1) \<and>
    timer_irqs 0x9000 1000 s1 = Some (Inr s2) \<and> sw_system_ticks_64 (fst (irq_dev s2)) = 1000"
proof -
  let ?s = "initialize_irqs (blank_irq (i8259A_pic (with_swks log_bus)) (zero_swks, []))"
  have apart: "\<forall>i<NUM_IRQS. insert 0x500 (insert (known_hw_int_controllers ?s) (set [])) \<inter> {actions_head ?s i} = {}"
    using blank_apart(1) [of "i8259A_pic (with_swks log_bus)" "(zero_swks, [])"] by simp
  have rest: "\<forall>i<NUM_IRQS. il_controller (irq_lines ?s ! i) = None" "action_idx ?s < 128"
    "(0x9000 :: addr) \<noteq> 0" "0 < length (irq_stat ?s)" "length (replicate 64 blank_gate) = IDT_ITEMS"
    "sw_system_ticks_64 (fst (irq_dev ?s)) = 0"
    by (simp_all add: initialize_irqs_def links_after_inits blank_irq_def zero_swks_def IDT_ITEMS_def)
  obtain idt' s1 where run: "arch_initialize_irqs (with_swks log_bus) 0x500 (replicate 16 0x7000) 0x9000
      (replicate 64 blank_gate) ?s = Inr (idt', s1)"
    and ticks: "\<forall>n. \<exists>s2. timer_irqs 0x9000 n s1 = Some (Inr s2) \<and>
      sw_system_ticks_64 (fst (irq_dev s2)) = sw_system_ticks_64 (fst (irq_dev ?s)) + of_nat n \<and>
      irq_stat s2 ! 0 = irq_stat ?s ! 0 + of_nat n"
    using timer_interrupts_advance_clock [OF blank_lines blank_controllers blank_apart(2) apart rest(1-5),
        of log_bus "replicate 16 0x7000"] by blast
  then show ?thesis using ticks [rule_format, of 1000] rest(6) by auto
qed

end
