(* ===== verification/Mui_Vga.thy ===== *)
theory Mui_Vga
  imports Mui_Pic Mui_CString
begin

text \<open>
  The text screen, \<^verbatim>\<open>eza/generic_api/vga.c\<close>, and the console on it, \<^verbatim>\<open>kconsole.c\<close>. The frame
  buffer is part of the memory of bytes; the ports of the CRT and attribute controllers are those
  of the bus.
\<close>

section \<open>Constants and state\<close>

definition VGA_TM_BASE :: addr where "VGA_TM_BASE = 0xB8000"
definition VGA_COLOR :: u16 where "VGA_COLOR = 0x0D0"
definition VDP_CRT :: u16 where "VDP_CRT = 0x305"
definition VAP_CRT :: u16 where "VAP_CRT = 0x304"
definition VDP_ISR1 :: u16 where "VDP_ISR1 = 0x30A"
definition VDP_ATR_RD :: u16 where "VDP_ATR_RD = 0x3C1"
definition VAP_ATR_WR :: u16 where "VAP_ATR_WR = 0x3C0"
definition NCRTCI :: nat where "NCRTCI = 25"
definition NATRI :: nat where "NATRI = 5"
definition CSR :: nat where "CSR = 0x0A"
definition CER :: nat where "CER = 0x0B"
definition CLHR :: nat where "CLHR = 0x0E"
definition CLLR :: nat where "CLLR = 0x0F"
definition AMCR :: nat where "AMCR = 0x10"
definition BACKSPACE :: u16 where "BACKSPACE = 0x08"
definition TAB :: u16 where "TAB = 0x09"
definition SPACE :: u16 where "SPACE = 0x20"
definition VGA_CDISABLE :: u8 where "VGA_CDISABLE = 0x20"
definition VGA_ABLINK_ENABLE :: u8 where "VGA_ABLINK_ENABLE = 0x08"
definition VGA_CRSR_LOW :: u8 where "VGA_CRSR_LOW = 0x01"
definition VGA_CRSR_HIGH :: u8 where "VGA_CRSR_HIGH = 0x02"

definition vga_set_mode :: "u16 \<Rightarrow> u16 \<Rightarrow> u16" where
  "vga_set_mode address type' = address + type'"

datatype vga_color = VC_BLACK | VC_BLUE | VC_GREEN | VC_CYAN | VC_RED | VC_MAGENTA | VC_BROWN
  | VC_WHITE | VC_LIGHT_BLUE | VC_LIGHT_GREEN | VC_LIGHT_RED | VC_LIGHT_BROWN | VC_LIGHT_GREY

fun color_code :: "vga_color \<Rightarrow> u16" where
  "color_code VC_BLACK = 0" | "color_code VC_BLUE = 1" | "color_code VC_GREEN = 2"
| "color_code VC_CYAN = 3" | "color_code VC_RED = 4" | "color_code VC_MAGENTA = 5"
| "color_code VC_BROWN = 6" | "color_code VC_WHITE = 7" | "color_code VC_LIGHT_BLUE = 8"
| "color_code VC_LIGHT_GREEN = 9" | "color_code VC_LIGHT_RED = 10" | "color_code VC_LIGHT_BROWN = 11"
| "color_code VC_LIGHT_GREY = 12"

record vgadev =
  vg_base :: addr
  vg_cols :: u16
  vg_rows :: u16
  vg_x :: u16
  vg_y :: u16
  vg_es_char :: u16
  vg_fg :: vga_color
  vg_bg :: vga_color

record 'd vga_state =
  va_dev :: vgadev
  va_crtc :: "u8 list"
  va_atr :: "u8 list"
  va_mem :: bytes
  va_hw :: 'd
  va_enabled :: bool

section \<open>Cursor and attributes\<close>

definition upd_dev :: "(vgadev \<Rightarrow> vgadev) \<Rightarrow> 'd vga_state \<Rightarrow> 'd vga_state" where
  "upd_dev f s = s\<lparr>va_dev := f (va_dev s)\<rparr>"

definition vga_set_x :: "u16 \<Rightarrow> 'd vga_state \<Rightarrow> 'd vga_state" where
  "vga_set_x x = upd_dev (\<lambda>d. d\<lparr>vg_x := x\<rparr>)"

definition vga_set_y :: "u16 \<Rightarrow> 'd vga_state \<Rightarrow> 'd vga_state" where
  "vga_set_y y = upd_dev (\<lambda>d. d\<lparr>vg_y := y\<rparr>)"

definition vga_set_fg :: "vga_color \<Rightarrow> 'd vga_state \<Rightarrow> 'd vga_state" where
  "vga_set_fg fg = upd_dev (\<lambda>d. d\<lparr>vg_fg := fg\<rparr>)"

definition vga_set_bg :: "vga_color \<Rightarrow> 'd vga_state \<Rightarrow> 'd vga_state" where
  "vga_set_bg bg = upd_dev (\<lambda>d. d\<lparr>vg_bg := bg\<rparr>)"

definition vga_make_attr :: "vgadev \<Rightarrow> u16 \<Rightarrow> u16" where
  "vga_make_attr d out = out OR (push_bit 8 (color_code (vg_fg d)) OR push_bit 12 (color_code (vg_bg d)))"

definition vga_init :: "'d vga_state \<Rightarrow> 'd vga_state" where
  "vga_init s =
     (let s = upd_dev (\<lambda>d. d\<lparr>vg_base := VGA_TM_BASE, vg_cols := 80, vg_rows := 25, vg_x := 0, vg_y := 0\<rparr>) s;
          s = s\<lparr>va_crtc := replicate NCRTCI 0, va_atr := replicate NATRI 0\<rparr>
      in upd_dev (\<lambda>d. d\<lparr>vg_es_char := - 1\<rparr>) s)"

definition vga_out :: "'d bus \<Rightarrow> u16 \<Rightarrow> u8 \<Rightarrow> 'd vga_state \<Rightarrow> 'd vga_state" where
  "vga_out bus port v s = s\<lparr>va_hw := outb bus port v (va_hw s)\<rparr>"

definition vga_in :: "'d bus \<Rightarrow> u16 \<Rightarrow> 'd vga_state \<Rightarrow> u8 \<times> 'd vga_state" where
  "vga_in bus port s = (let (v, d) = inb bus port (va_hw s) in (v, s\<lparr>va_hw := d\<rparr>))"

definition set_crtc :: "nat \<Rightarrow> u8 \<Rightarrow> 'd vga_state \<Rightarrow> 'd vga_state" where
  "set_crtc i v s = s\<lparr>va_crtc := (va_crtc s)[i := v]\<rparr>"

definition vga_update_cursor :: "'d bus \<Rightarrow> 'd vga_state \<Rightarrow> 'd vga_state" where
  "vga_update_cursor bus s =
     (let where' = vg_y (va_dev s) * vg_cols (va_dev s) + vg_x (va_dev s) - 1;
          crt_dp = vga_set_mode VDP_CRT VGA_COLOR;
          crt_ap = vga_set_mode VAP_CRT VGA_COLOR;
          (crt_ar, s) = vga_in bus crt_ap s;
          s = vga_out bus crt_ap (of_nat CLHR) s;
          s = set_crtc CLHR (ucast (drop_bit 8 where')) s;
          s = vga_out bus crt_dp (va_crtc s ! CLHR) s;
          s = vga_out bus crt_ap (of_nat CLLR) s;
          s = set_crtc CLLR (ucast where') s;
          s = vga_out bus crt_dp (va_crtc s ! CLLR) s
      in vga_out bus crt_ap crt_ar s)"

definition vga_cursor :: "'d bus \<Rightarrow> bool \<Rightarrow> 'd vga_state \<Rightarrow> 'd vga_state" where
  "vga_cursor bus action s =
     (let crt_dp = vga_set_mode VDP_CRT VGA_COLOR;
          crt_ap = vga_set_mode VAP_CRT VGA_COLOR;
          (crt_ar, s) = vga_in bus crt_ap s;
          s = vga_out bus crt_ap (of_nat CSR) s;
          (v, s) = vga_in bus crt_dp s;
          s = set_crtc CSR v s;
          s = (if \<not> action \<and> v AND VGA_CDISABLE = 0 then vga_out bus crt_dp (v OR VGA_CDISABLE) s else s);
          s = (if action \<and> v AND VGA_CDISABLE \<noteq> 0 then vga_out bus crt_dp (v AND NOT VGA_CDISABLE) s else s)
      in vga_out bus crt_ap crt_ar s)"

text \<open>\<^verbatim>\<open>__vregs.atr\<close> has five elements, and the code indexes it with 0x10: the write is outside.\<close>

definition vga_blinking :: "'d bus \<Rightarrow> bool \<Rightarrow> 'd vga_state \<Rightarrow> 'd vga_state res" where
  "vga_blinking bus action s =
     (let isr1_dp = vga_set_mode VDP_ISR1 VGA_COLOR;
          (isr1_save, s) = vga_in bus isr1_dp s;
          (atr_save, s) = vga_in bus VDP_ATR_RD s;
          s = vga_out bus VAP_ATR_WR (of_nat AMCR) s;
          (v, s) = vga_in bus VDP_ATR_RD s
      in if AMCR \<ge> length (va_atr s) then Inl BadAccess
         else
           let s = s\<lparr>va_atr := (va_atr s)[AMCR := v]\<rparr>;
               s = (if action \<and> v AND VGA_ABLINK_ENABLE = 0 then vga_out bus VAP_ATR_WR (v OR VGA_ABLINK_ENABLE) s else s);
               s = (if \<not> action \<and> v AND VGA_ABLINK_ENABLE \<noteq> 0 then vga_out bus VAP_ATR_WR (v AND NOT VGA_ABLINK_ENABLE) s else s);
               s = vga_out bus VAP_ATR_WR atr_save s
           in Inr (vga_out bus isr1_dp isr1_save s))"

section \<open>Characters\<close>

text \<open>\<^verbatim>\<open>base + cols * y + x\<close> counts cells of two bytes, in \<^verbatim>\<open>int\<close> arithmetic.\<close>

definition cell_addr :: "vgadev \<Rightarrow> addr" where
  "cell_addr d = vg_base d + 2 * scast (ucast (vg_cols d) * ucast (vg_y d) + ucast (vg_x d) :: u32)"

definition vga_scroll :: "'d vga_state \<Rightarrow> 'd vga_state" where
  "vga_scroll s =
     (let d = va_dev s;
          d = (if vg_x d \<ge> vg_cols d
               then d\<lparr>vg_y := vg_y d + 1, vg_x := (vg_x d - vg_cols d) mod vg_cols d\<rparr> else d);
          s = s\<lparr>va_dev := d\<rparr>
      in if vg_y d \<ge> vg_rows d then
           let cols = ucast (vg_cols d) :: u64; rows = ucast (vg_rows d) :: u64;
               p = vg_base d + 2 * (cols * (rows - 1) * 2);
               out = vga_make_attr d SPACE;
               m = memcpy (vg_base d) (vg_base d + 2 * (2 * cols)) (cols * (rows - 1) * 2) (va_mem s);
               m = fill_chars (ucast out) p (unat (cols * 2 + 1)) m
           in s\<lparr>va_dev := d\<lparr>vg_y := vg_rows d - 2\<rparr>, va_mem := m\<rparr>
         else s)"

definition vga_putch :: "u16 \<Rightarrow> 'd vga_state \<Rightarrow> 'd vga_state" where
  "vga_putch c s =
     (let d = va_dev s
      in if c = BACKSPACE then (if vg_x d \<noteq> 0 then s\<lparr>va_dev := d\<lparr>vg_x := vg_x d - 1\<rparr>\<rparr> else s)
         else if c = TAB then s\<lparr>va_dev := d\<lparr>vg_x := vg_x d + (8 AND NOT (8 - 1))\<rparr>\<rparr>
         else if c = 13 then s\<lparr>va_dev := d\<lparr>vg_x := 0\<rparr>\<rparr>
         else if c = 10 then s\<lparr>va_dev := d\<lparr>vg_x := 0, vg_y := vg_y d + 1\<rparr>\<rparr>
         else if c < 0x20 then s
         else vga_scroll (s\<lparr>va_mem := store16 (cell_addr d) (vga_make_attr d c) (va_mem s),
                            va_dev := d\<lparr>vg_x := vg_x d + 1\<rparr>\<rparr>))"

definition vga_set_cursor_attrs :: "'d bus \<Rightarrow> u8 \<Rightarrow> 'd vga_state \<Rightarrow> 'd vga_state" where
  "vga_set_cursor_attrs bus flags s =
     (let crt_dp = vga_set_mode VDP_CRT VGA_COLOR;
          crt_ap = vga_set_mode VAP_CRT VGA_COLOR;
          (crt_ar, s) = vga_in bus crt_ap s;
          s = (if flags AND VGA_CRSR_LOW \<noteq> 0 then
                 let s = vga_putch 67 s; s = vga_out bus crt_ap (of_nat CSR) s; (v, s) = vga_in bus crt_dp s
                 in vga_out bus crt_dp 0x0A (set_crtc CSR v s)
               else s);
          s = (if flags AND VGA_CRSR_HIGH \<noteq> 0 then
                 let s = vga_putch 71 s; s = vga_out bus crt_ap (of_nat CER) s; (v, s) = vga_in bus crt_dp s
                 in vga_out bus crt_dp 0x0B (set_crtc CER v s)
               else s)
      in vga_out bus crt_ap crt_ar s)"

fun fill_cells :: "u16 \<Rightarrow> addr \<Rightarrow> nat \<Rightarrow> bytes \<Rightarrow> bytes" where
  "fill_cells out p 0 m = m"
| "fill_cells out p (Suc n) m = fill_cells out (p + 2) n (store16 p out m)"

definition vga_cls :: "'d bus \<Rightarrow> 'd vga_state \<Rightarrow> 'd vga_state" where
  "vga_cls bus s =
     (let d = va_dev s;
          lim = unat (vg_cols d) * unat (vg_rows d) * 2;
          out = vga_make_attr d SPACE;
          s = s\<lparr>va_mem := fill_cells out (vg_base d) lim (va_mem s),
                va_dev := d\<lparr>vg_x := 0, vg_y := 0\<rparr>\<rparr>
      in vga_update_cursor bus s)"

section \<open>The console\<close>

definition vga_cons_enable :: "'d bus \<Rightarrow> 'd vga_state \<Rightarrow> 'd vga_state" where
  "vga_cons_enable bus s =
     (let s = vga_init s;
          s = vga_cursor bus True s;
          s = vga_set_cursor_attrs bus VGA_CRSR_LOW s;
          s = vga_set_bg VC_BLACK s;
          s = vga_set_fg VC_WHITE s;
          s = vga_cls bus s
      in s\<lparr>va_enabled := True\<rparr>)"

definition vga_cons_disable :: "'d vga_state \<Rightarrow> 'd vga_state" where
  "vga_cons_disable s = s\<lparr>va_enabled := False\<rparr>"

text \<open>\<open>str\<close> is the string up to its terminator; a character is sign-extended to 16 bits.\<close>

definition vga_cons_display_string :: "'d bus \<Rightarrow> u8 list \<Rightarrow> 'd vga_state \<Rightarrow> 'd vga_state" where
  "vga_cons_display_string bus str s =
     (if \<not> va_enabled s then s
      else vga_update_cursor bus (fold (\<lambda>c. vga_putch (scast c)) str s))"

definition vga_cons_display_char :: "'d bus \<Rightarrow> u8 \<Rightarrow> 'd vga_state \<Rightarrow> 'd vga_state" where
  "vga_cons_display_char bus c s =
     (if va_enabled s then s else vga_update_cursor bus (vga_putch (scast c) s))"

section \<open>The screen as a grid\<close>

definition load16 :: "bytes \<Rightarrow> addr \<Rightarrow> u16" where
  "load16 m p = ucast (m p) OR push_bit 8 (ucast (m (p + 1)))"

definition cell :: "nat \<Rightarrow> addr" where
  "cell i = VGA_TM_BASE + of_nat (2 * i)"

definition text_mode :: "vgadev \<Rightarrow> bool" where
  "text_mode d \<longleftrightarrow> vg_base d = VGA_TM_BASE \<and> vg_cols d = 80 \<and> vg_rows d = 25 \<and> unat (vg_x d) < 80"

lemma load16_store16: "load16 (store16 p v m) p = v"
proof -
  have "p + 1 \<noteq> p" by simp
  then show ?thesis
    unfolding load16_def store16_def by (intro bit_word_eqI) (auto simp: bit_simps)
qed

lemma cell_unat: "i < 8000 \<Longrightarrow> unat (cell i) = 0xB8000 + 2 * i"
  using unat_of_nat_small [where 'a = 64, of "0xB8000 + 2 * i"] by (simp add: cell_def VGA_TM_BASE_def)

lemma cell_apart: "i < 8000 \<Longrightarrow> j < 8000 \<Longrightarrow> i \<noteq> j \<Longrightarrow>
  cell i \<noteq> cell j \<and> cell i \<noteq> cell j + 1 \<and> cell i + 1 \<noteq> cell j \<and> cell i + 1 \<noteq> cell j + 1"
proof -
  assume ij: "i < 8000" "j < 8000" "i \<noteq> j"
  have "cell k + 1 = of_nat (0xB8000 + 2 * k + 1)" "cell k = of_nat (0xB8000 + 2 * k)" for k
    by (simp_all add: cell_def VGA_TM_BASE_def)
  moreover have "(of_nat a :: addr) \<noteq> of_nat b" if "a < 2 ^ 32" "b < 2 ^ 32" "a \<noteq> b" for a b
    using that of_nat_eq_iff_small [where 'a = 64, of a b] by simp
  moreover have "0xB8000 + 2 * i \<noteq> 0xB8000 + 2 * j" "0xB8000 + 2 * i \<noteq> 0xB8000 + 2 * j + 1"
    "0xB8000 + 2 * i + 1 \<noteq> 0xB8000 + 2 * j" "0xB8000 + 2 * i + 1 \<noteq> 0xB8000 + 2 * j + 1"
    using ij(3) by presburger+
  moreover have "0xB8000 + 2 * i + 1 < 2 ^ 32" "0xB8000 + 2 * j + 1 < 2 ^ 32" "0xB8000 + 2 * i < 2 ^ 32" "0xB8000 + 2 * j < 2 ^ 32"
    using ij by simp_all
  ultimately show ?thesis by metis
qed

lemma load16_other: "i < 8000 \<Longrightarrow> j < 8000 \<Longrightarrow> i \<noteq> j \<Longrightarrow> load16 (store16 (cell i) v m) (cell j) = load16 m (cell j)"
  using cell_apart [of i j] by (auto simp: load16_def store16_def)

lemma cell_addr_eq:
  assumes "text_mode d" and "unat (vg_y d) < 50"
  shows "cell_addr d = cell (80 * unat (vg_y d) + unat (vg_x d))"
proof -
  let ?n = "80 * unat (vg_y d) + unat (vg_x d)"
  have n: "?n < 4080" using assms by (simp add: text_mode_def)
  have "(ucast (vg_cols d) * ucast (vg_y d) + ucast (vg_x d) :: u32) = of_nat ?n"
    using assms(1) by (simp add: text_mode_def)
  moreover have "sint (of_nat ?n :: u32) = int ?n"
  proof -
    have "int ?n < 4080" "- 2147483648 \<le> int ?n" using n by linarith+
    then have "signed_take_bit 31 (int ?n) = int ?n"
      by (intro signed_take_bit_int_eq_self) simp_all
    then show ?thesis unfolding signed_of_nat by simp
  qed
  ultimately show ?thesis
    using assms(1) by (simp add: cell_addr_def cell_def text_mode_def scast_eq)
qed

section \<open>A reference terminal\<close>

text \<open>What a console without scrolling does with one character.\<close>

record terminal =
  tm_cells :: "nat \<Rightarrow> u16"
  tm_x :: nat
  tm_y :: nat

definition term_putch :: "u16 \<Rightarrow> u16 \<Rightarrow> terminal \<Rightarrow> terminal" where
  "term_putch attr c t =
     (if c = 8 then t\<lparr>tm_x := tm_x t - 1\<rparr>
      else if c = 13 then t\<lparr>tm_x := 0\<rparr>
      else if c = 10 then t\<lparr>tm_x := 0, tm_y := tm_y t + 1\<rparr>
      else if c < 32 then t
      else t\<lparr>tm_cells := (tm_cells t)(80 * tm_y t + tm_x t := c OR attr),
             tm_x := (if tm_x t = 79 then 0 else tm_x t + 1),
             tm_y := (if tm_x t = 79 then tm_y t + 1 else tm_y t)\<rparr>)"

definition term_abs :: "'d vga_state \<Rightarrow> terminal" where
  "term_abs s = \<lparr>tm_cells = (\<lambda>i. if i < 2000 then load16 (va_mem s) (cell i) else 0),
     tm_x = unat (vg_x (va_dev s)), tm_y = unat (vg_y (va_dev s))\<rparr>"

definition attr_of :: "vgadev \<Rightarrow> u16" where
  "attr_of d = push_bit 8 (color_code (vg_fg d)) OR push_bit 12 (color_code (vg_bg d))"

lemma step_small: "unat (w :: u16) < 1000 \<Longrightarrow> unat (w + 1) = unat w + 1"
  by (simp add: unat_word_ariths)

lemma scroll_above:
  assumes "vg_cols (va_dev s) = 80" and "vg_rows (va_dev s) = 25" and "unat (vg_y (va_dev s)) < 24"
    and "unat (vg_x (va_dev s)) \<le> 80"
  shows "vga_scroll s = s\<lparr>va_dev := (if unat (vg_x (va_dev s)) = 80
    then (va_dev s)\<lparr>vg_x := 0, vg_y := vg_y (va_dev s) + 1\<rparr> else va_dev s)\<rparr>"
proof (cases "unat (vg_x (va_dev s)) = 80")
  case True
  then have "vg_x (va_dev s) = 80" by (simp add: word_unat_eq_iff)
  then show ?thesis
    using assms step_small [of "vg_y (va_dev s)"]
    by (simp add: vga_scroll_def Let_def word_le_nat_alt)
next
  case False
  then show ?thesis
    using assms by (simp add: vga_scroll_def Let_def word_le_nat_alt)
qed

lemma scroll_memory:
  assumes "text_mode (va_dev s)" and "vg_y (va_dev s) = 25"
  shows "va_mem (vga_scroll s) = (\<lambda>a. if in_block a (cell 3840) 161 then 0x20
    else if in_block a (cell 0) 3840 then va_mem s (a + 320) else va_mem s a)"
    and "vg_y (va_dev (vga_scroll s)) = 23"
proof -
  let ?d = "va_dev s"
  have x: "\<not> vg_x ?d \<ge> 80" using assms(1) by (simp add: text_mode_def word_le_nat_alt)
  have blank: "ucast (ucast (vga_make_attr ?d SPACE) :: u32) = (0x20 :: u8)"
    unfolding vga_make_attr_def SPACE_def by (intro bit_word_eqI) (simp add: bit_simps)
  have copy: "copy_chars VGA_TM_BASE (VGA_TM_BASE + 320) 3840 m =
      (\<lambda>a. if in_block a (cell 0) 3840 then m (a + 320) else m a)" for m
  proof -
    have "(3840 :: nat) \<le> unat (VGA_TM_BASE - (VGA_TM_BASE + 320))" by (simp add: VGA_TM_BASE_def)
    moreover have shift: "VGA_TM_BASE + 320 + (a - VGA_TM_BASE) = a + 320" for a by simp
    ultimately show ?thesis
      using copy_chars_eq [of 3840 VGA_TM_BASE "VGA_TM_BASE + 320" m, unfolded shift] by (simp add: cell_def)
  qed
  show "va_mem (vga_scroll s) = (\<lambda>a. if in_block a (cell 3840) 161 then 0x20
      else if in_block a (cell 0) 3840 then va_mem s (a + 320) else va_mem s a)"
    using assms x copy blank fill_chars_eq [of 161]
    by (simp add: vga_scroll_def Let_def text_mode_def memcpy_def cell_def cong: if_cong)
  show "vg_y (va_dev (vga_scroll s)) = 23"
    using assms x by (simp add: vga_scroll_def Let_def text_mode_def)
qed

lemma cell_blocks:
  assumes "i < 2000"
  shows "\<not> in_block (cell i) (cell 3840) 161" and "\<not> in_block (cell i + 1) (cell 3840) 161"
    and "in_block (cell i) (cell 0) 3840 \<longleftrightarrow> i < 1920" and "in_block (cell i + 1) (cell 0) 3840 \<longleftrightarrow> i < 1920"
    and "cell i + 320 = cell (i + 160)" and "cell i + 1 + 320 = cell (i + 160) + 1"
proof -
  have u: "unat (cell j) = 0xB8000 + 2 * j" if "j < 8000" for j
    using that by (rule cell_unat)
  have u1: "unat (cell i + 1) = 0xB8000 + 2 * i + 1"
    using assms u [of i] by (simp add: unat_word_ariths)
  have "2 * i < 3839 \<longleftrightarrow> i < 1920" by presburger
  then show "\<not> in_block (cell i) (cell 3840) 161" "\<not> in_block (cell i + 1) (cell 3840) 161"
    "in_block (cell i) (cell 0) 3840 \<longleftrightarrow> i < 1920" "in_block (cell i + 1) (cell 0) 3840 \<longleftrightarrow> i < 1920"
    using assms u [of i] u [of 3840] u [of 0] u1 by (simp_all add: in_block_def unat_sub_if')
  show "cell i + 320 = cell (i + 160)" "cell i + 1 + 320 = cell (i + 160) + 1"
    by (simp_all add: cell_def algebra_simps)
qed

section \<open>Properties\<close>

text \<open>C21: Above the last row, the screen behaves as a terminal: on every character but a tab,
  \<^verbatim>\<open>vga_putch\<close> refines the reference terminal, and the cursor stays within the columns.\<close>

theorem putch_refines_terminal:
  assumes "text_mode (va_dev s)" and "unat (vg_y (va_dev s)) < 24" and "c \<noteq> TAB"
  shows "term_abs (vga_putch c s) = term_putch (attr_of (va_dev s)) c (term_abs s) \<and>
    text_mode (va_dev (vga_putch c s))"
proof -
  let ?d = "va_dev s" and ?t = "vga_putch c s"
  let ?n = "80 * unat (vg_y ?d) + unat (vg_x ?d)"
  have x: "unat (vg_x ?d) < 80" using assms(1) by (simp add: text_mode_def)
  have ctl: ?thesis if "c = 8 \<or> c = 13 \<or> c = 10 \<or> c < 32"
    using that assms step_small [of "vg_y ?d"] x
    by (auto simp: vga_putch_def Let_def BACKSPACE_def TAB_def term_abs_def term_putch_def text_mode_def
        unat_minus_one unat_eq_0)
  moreover have ?thesis if "\<not> (c = 8 \<or> c = 13 \<or> c = 10 \<or> c < 32)"
  proof -
    let ?m = "store16 (cell ?n) (vga_make_attr ?d c) (va_mem s)"
    let ?u = "s\<lparr>va_mem := ?m, va_dev := ?d\<lparr>vg_x := vg_x ?d + 1\<rparr>\<rparr>"
    have "?t = vga_scroll ?u"
      using that assms cell_addr_eq [OF assms(1)] by (simp add: vga_putch_def Let_def BACKSPACE_def TAB_def)
    also have "\<dots> = ?u\<lparr>va_dev := (if unat (vg_x ?d) = 79 then (va_dev ?u)\<lparr>vg_x := 0, vg_y := vg_y ?d + 1\<rparr> else va_dev ?u)\<rparr>"
      using scroll_above [of ?u] assms step_small [of "vg_x ?d"] x by (simp add: text_mode_def)
    finally have t: "va_mem ?t = ?m"
      "va_dev ?t = (if unat (vg_x ?d) = 79 then ?d\<lparr>vg_x := 0, vg_y := vg_y ?d + 1\<rparr> else ?d\<lparr>vg_x := vg_x ?d + 1\<rparr>)"
      by simp_all
    have n: "?n < 2000" using assms(2) x by simp
    have "load16 ?m (cell i) = (if i = ?n then c OR attr_of ?d else load16 (va_mem s) (cell i))" if "i < 2000" for i
      using that n load16_store16 [of "cell ?n"] load16_other [of ?n i]
      by (simp add: vga_make_attr_def attr_of_def)
    then have "tm_cells (term_abs ?t) = (tm_cells (term_abs s))(?n := c OR attr_of ?d)"
      using n by (auto simp: term_abs_def t(1) fun_eq_iff)
    moreover have "tm_x (term_abs ?t) = (if unat (vg_x ?d) = 79 then 0 else unat (vg_x ?d) + 1)"
      "tm_y (term_abs ?t) = (if unat (vg_x ?d) = 79 then unat (vg_y ?d) + 1 else unat (vg_y ?d))"
      "text_mode (va_dev ?t)"
      using assms x step_small [of "vg_y ?d"] step_small [of "vg_x ?d"] by (simp_all add: term_abs_def t(2) text_mode_def)
    ultimately show ?thesis
      using that by (simp add: term_putch_def) (simp add: term_abs_def)
  qed
  ultimately show ?thesis by blast
qed

theorem putch_refines_terminal_witness:
  "let s = \<lparr>va_dev = \<lparr>vg_base = VGA_TM_BASE, vg_cols = 80, vg_rows = 25, vg_x = 79, vg_y = 3,
       vg_es_char = 0, vg_fg = VC_WHITE, vg_bg = VC_BLACK\<rparr>, va_crtc = [], va_atr = [],
       va_mem = (\<lambda>_. 0), va_hw = (), va_enabled = True\<rparr>
   in term_abs (vga_putch 65 s) = term_putch 0x700 65 (term_abs s)"
  using putch_refines_terminal [of "\<lparr>va_dev = \<lparr>vg_base = VGA_TM_BASE, vg_cols = 80, vg_rows = 25, vg_x = 79,
    vg_y = 3, vg_es_char = 0, vg_fg = VC_WHITE, vg_bg = VC_BLACK\<rparr>, va_crtc = [], va_atr = [],
    va_mem = (\<lambda>_. 0), va_hw = (), va_enabled = True\<rparr>" 65]
  by (simp add: text_mode_def TAB_def attr_of_def push_bit_eq_mult)

text \<open>Scrolling moves the rows of the screen up by two, leaves the last row as it is, puts the cursor
  on the last row but one and blanks 161 bytes of memory behind the screen.\<close>

theorem scroll_leaves_last_row:
  assumes "text_mode (va_dev s)" and "vg_y (va_dev s) = 25"
  shows "unat (vg_y (va_dev (vga_scroll s))) = 23 \<and>
    (\<forall>i<2000. load16 (va_mem (vga_scroll s)) (cell i) = load16 (va_mem s) (cell (if i < 1920 then i + 160 else i))) \<and>
    (\<forall>k<161. va_mem (vga_scroll s) (cell 3840 + of_nat k) = 0x20)"
proof (intro conjI allI impI)
  fix k :: nat
  assume k: "k < 161"
  then have "unat (of_nat k :: addr) = k" by (intro unat_of_nat_small) simp
  with k show "va_mem (vga_scroll s) (cell 3840 + of_nat k) = 0x20"
    by (simp add: scroll_memory(1) [OF assms] in_block_def)
qed (simp_all add: scroll_memory [OF assms] load16_def cell_blocks)

theorem scroll_leaves_last_row_witness:
  "let s = \<lparr>va_dev = \<lparr>vg_base = VGA_TM_BASE, vg_cols = 80, vg_rows = 25, vg_x = 0, vg_y = 25,
       vg_es_char = 0, vg_fg = VC_WHITE, vg_bg = VC_BLACK\<rparr>, va_crtc = [], va_atr = [],
       va_mem = (\<lambda>_. 7), va_hw = (), va_enabled = True\<rparr>
   in load16 (va_mem (vga_scroll s)) (cell 1999) = load16 (va_mem s) (cell 1999)"
  using scroll_leaves_last_row [of "\<lparr>va_dev = \<lparr>vg_base = VGA_TM_BASE, vg_cols = 80, vg_rows = 25, vg_x = 0,
    vg_y = 25, vg_es_char = 0, vg_fg = VC_WHITE, vg_bg = VC_BLACK\<rparr>, va_crtc = [], va_atr = [],
    va_mem = (\<lambda>_. 7), va_hw = (), va_enabled = True\<rparr>"]
  by (simp add: text_mode_def)

end
