(* ===== verification/Mui_Apic.thy ===== *)
theory Mui_Apic
  imports Mui_Pic
begin

text \<open>
  The local APIC, \<^verbatim>\<open>eza/amd64/apic.c\<close> and the register structures of
  \<^verbatim>\<open>include/eza/amd64/apic.h\<close>. A structure is the list of its bit-fields in the order of their
  declaration, each with its width; the compiler packs them from the lowest bit, so that a field's
  place is computed from the list. The chip behind the registers is a parameter: what a register
  holds after a word has been written to it. \<open>apic_chip\<close> states what the driver relies on.
\<close>

section \<open>Register structures\<close>

type_synonym c_struct = "(string \<times> nat) list"

definition local_apic_id_t :: c_struct where
  "local_apic_id_t = [(''__reserved0'', 24), (''phy_apic_id'', 4), (''__reserved1'', 4), (''__reserved'', 96)]"

definition local_apic_version_t :: c_struct where
  "local_apic_version_t = [(''version'', 8), (''__reserved0'', 8), (''max_lvt'', 8), (''__reserved1'', 8),
     (''__reserved'', 96)]"

definition local_apic_tpr_t :: c_struct where
  "local_apic_tpr_t = [(''priority'', 8), (''__reserved0'', 24), (''__reserved'', 96)]"

definition local_apic_apr_t :: c_struct where
  "local_apic_apr_t = [(''priority'', 8), (''__reserved0'', 24), (''__reserved'', 96)]"

definition local_apic_ppr_t :: c_struct where
  "local_apic_ppr_t = [(''priority'', 8), (''__reserved0'', 24), (''__reserved'', 96)]"

definition local_apic_eoi_t :: c_struct where
  "local_apic_eoi_t = [(''eio'', 32), (''__reserved'', 96)]"

definition local_apic_ldr_t :: c_struct where
  "local_apic_ldr_t = [(''__reserved0'', 24), (''log_dest'', 8), (''__reserved'', 96)]"

definition local_apic_dfr_t :: c_struct where
  "local_apic_dfr_t = [(''__reserved0'', 28), (''mode'', 4), (''__reserved'', 96)]"

definition local_apic_svr_t :: c_struct where
  "local_apic_svr_t = [(''spurious_vector'', 8), (''apic_enabled'', 1), (''cpu_focus'', 1), (''__reserved0'', 22),
     (''__reserved'', 96)]"

definition local_apic_isr_t :: c_struct where
  "local_apic_isr_t = [(''bits'', 32), (''__reserved'', 96)]"

definition local_apic_tmr_t :: c_struct where
  "local_apic_tmr_t = [(''bits'', 32), (''__reserved'', 96)]"

definition local_apic_irr_t :: c_struct where
  "local_apic_irr_t = [(''bits'', 32), (''__reserved'', 96)]"

definition local_apic_esr_t :: c_struct where
  "local_apic_esr_t = [(''tx_cs_err'', 1), (''rx_cs_err'', 1), (''tx_accept_err'', 1), (''rx_accept_err'', 1),
     (''__res0'', 1), (''tx_illegal_vector'', 1), (''rx_illegal_vector'', 1), (''reg_illegal_addr'', 1),
     (''__res1'', 24), (''__reserved0'', 32), (''errs'', 32), (''__reserved1'', 32)]"

definition local_apic_icr1_t :: c_struct where
  "local_apic_icr1_t = [(''vector'', 8), (''tx_mode'', 3), (''rx_mode'', 1), (''tx_status'', 1), (''__res0'', 1),
     (''level'', 1), (''trigger'', 1), (''__res1'', 2), (''shorthand'', 2), (''__res2'', 12), (''__reserved'', 96)]"

definition local_apic_icr2_t :: c_struct where
  "local_apic_icr2_t = [(''__res0'', 24), (''phy_dest'', 4), (''__res1'', 4), (''__res2'', 24), (''logical_dest'', 8),
     (''__reserved'', 64)]"

definition local_apic_lvt_timer_t :: c_struct where
  "local_apic_lvt_timer_t = [(''vector'', 8), (''__res0'', 4), (''tx_status'', 1), (''__res1'', 3), (''mask'', 1),
     (''timer_mode'', 1), (''__res2'', 14), (''__reserved'', 96)]"

definition local_apic_lvt_thermal_sensor_t :: c_struct where
  "local_apic_lvt_thermal_sensor_t = [(''vector'', 8), (''tx_mode'', 3), (''__res0'', 1), (''tx_status'', 1),
     (''__res1'', 3), (''mask'', 1), (''__res2'', 15), (''__reserved'', 96)]"

definition local_apic_lvt_pc_t :: c_struct where
  "local_apic_lvt_pc_t = [(''vector'', 8), (''tx_mode'', 3), (''__res0'', 1), (''tx_status'', 1),
     (''__res1'', 3), (''mask'', 1), (''__res2'', 15), (''__reserved'', 96)]"

definition local_apic_lvt_lint_t :: c_struct where
  "local_apic_lvt_lint_t = [(''vector'', 8), (''tx_mode'', 3), (''__res0'', 1), (''tx_status'', 1),
     (''polarity'', 1), (''remote_irr'', 1), (''trigger'', 1), (''mask'', 1), (''__res1'', 15), (''__reserved'', 96)]"

definition local_apic_lvt_error_t :: c_struct where
  "local_apic_lvt_error_t = [(''vector'', 8), (''tx_mode'', 3), (''__res0'', 1), (''tx_status'', 1),
     (''__res1'', 3), (''mask'', 1), (''__res2'', 15), (''__reserved'', 96)]"

definition local_apic_timerst_t :: c_struct where
  "local_apic_timerst_t = [(''count'', 32), (''__reserved'', 96)]"

definition local_apic_timer_dcr_t :: c_struct where
  "local_apic_timer_dcr_t = [(''divisor'', 4), (''__res0'', 28), (''__reserved'', 96)]"

definition reserved_words :: c_struct where
  "reserved_words = [(''__reserved'', 128)]"

definition local_apic_t :: "(string \<times> c_struct) list" where
  "local_apic_t =
     [(''__reserved0'', reserved_words), (''__reserved1'', reserved_words),
      (''id'', local_apic_id_t), (''version'', local_apic_version_t),
      (''__reserved2'', reserved_words), (''__reserved3'', reserved_words), (''__reserved4'', reserved_words),
      (''__reserved5'', reserved_words),
      (''tpr'', local_apic_tpr_t), (''apr'', local_apic_apr_t), (''ppr'', local_apic_ppr_t),
      (''eoi'', local_apic_eoi_t), (''__reserved6'', reserved_words), (''ldr'', local_apic_ldr_t),
      (''dfr'', local_apic_dfr_t), (''svr'', local_apic_svr_t),
      (''isr'', concat (replicate 8 local_apic_isr_t)), (''tmr'', concat (replicate 8 local_apic_tmr_t)),
      (''irr'', concat (replicate 8 local_apic_irr_t)), (''esr'', local_apic_esr_t),
      (''__reserved7'', reserved_words), (''__reserved8'', reserved_words), (''__reserved9'', reserved_words),
      (''__reserved10'', reserved_words), (''__reserved11'', reserved_words), (''__reserved12'', reserved_words),
      (''__reserved13'', reserved_words),
      (''icr1'', local_apic_icr1_t), (''icr2'', local_apic_icr2_t), (''lvt_timer'', local_apic_lvt_timer_t),
      (''lvt_thermal_sensor'', local_apic_lvt_thermal_sensor_t), (''lvt_pc'', local_apic_lvt_pc_t),
      (''lvt_lint0'', local_apic_lvt_lint_t), (''lvt_lint1'', local_apic_lvt_lint_t),
      (''lvt_error'', local_apic_lvt_error_t), (''timer_icr'', local_apic_timerst_t),
      (''timer_ccr'', local_apic_timerst_t),
      (''__reserved14'', reserved_words), (''__reserved15'', reserved_words), (''__reserved16'', reserved_words),
      (''__reserved17'', reserved_words),
      (''timer_dcr'', local_apic_timer_dcr_t), (''__reserved18'', reserved_words)]"

lemmas apic_structs = local_apic_id_t_def local_apic_version_t_def local_apic_tpr_t_def local_apic_apr_t_def
  local_apic_ppr_t_def local_apic_eoi_t_def local_apic_ldr_t_def local_apic_dfr_t_def local_apic_svr_t_def
  local_apic_isr_t_def local_apic_tmr_t_def local_apic_irr_t_def local_apic_esr_t_def local_apic_icr1_t_def
  local_apic_icr2_t_def local_apic_lvt_timer_t_def local_apic_lvt_thermal_sensor_t_def local_apic_lvt_pc_t_def
  local_apic_lvt_lint_t_def local_apic_lvt_error_t_def local_apic_timerst_t_def local_apic_timer_dcr_t_def
  reserved_words_def

lemmas apic_fields = local_apic_version_t_def local_apic_svr_t_def local_apic_lvt_timer_t_def
  local_apic_lvt_pc_t_def local_apic_lvt_lint_t_def local_apic_lvt_error_t_def local_apic_timer_dcr_t_def

section \<open>Bit-fields in memory\<close>

definition struct_bits :: "c_struct \<Rightarrow> nat" where
  "struct_bits s = sum_list (map snd s)"

fun field_place :: "c_struct \<Rightarrow> string \<Rightarrow> nat \<Rightarrow> (nat \<times> nat) option" where
  "field_place [] f lo = None"
| "field_place ((g, w) # s) f lo = (if g = f then Some (lo, w) else field_place s f (lo + w))"

fun member_place :: "(string \<times> c_struct) list \<Rightarrow> string \<Rightarrow> nat \<Rightarrow> (nat \<times> c_struct) option" where
  "member_place [] r lo = None"
| "member_place ((q, s) # ms) r lo = (if q = r then Some (lo, s) else member_place ms r (lo + struct_bits s))"

text \<open>The place of a field: the offset of its word, its lowest bit in the word, its width.\<close>

definition place_of :: "string \<Rightarrow> string \<Rightarrow> (nat \<times> nat \<times> nat) option" where
  "place_of r f =
     (case member_place local_apic_t r 0 of None \<Rightarrow> None
      | Some (base, s) \<Rightarrow> (case field_place s f base of None \<Rightarrow> None
        | Some (lo, w) \<Rightarrow> Some (lo div 32 * 4, lo mod 32, w)))"

type_synonym apic_regs = "nat \<Rightarrow> u32"
type_synonym apic_hw = "apic_regs \<Rightarrow> nat \<Rightarrow> u32 \<Rightarrow> u32"

definition APIC_BASE :: addr where "APIC_BASE = 0xfee00000"

definition apic_read :: "nat \<Rightarrow> apic_regs \<Rightarrow> u32" where
  "apic_read rv m = m rv"

definition apic_write :: "apic_hw \<Rightarrow> nat \<Rightarrow> u32 \<Rightarrow> apic_regs \<Rightarrow> apic_regs" where
  "apic_write hw rv val m = m(rv := hw m rv val)"

definition get_field :: "string \<Rightarrow> string \<Rightarrow> apic_regs \<Rightarrow> u32" where
  "get_field r f m =
     (case place_of r f of None \<Rightarrow> 0 | Some (a, lo, w) \<Rightarrow> take_bit w (drop_bit lo (apic_read a m)))"

text \<open>An assignment to a bit-field reads its 32-bit register, replaces the bits of the field and writes the register back,
  the access the APIC asks for. The packed structures of \<^verbatim>\<open>apic.h\<close> leave the width of the access to the compiler.\<close>

definition set_field :: "apic_hw \<Rightarrow> string \<Rightarrow> string \<Rightarrow> u32 \<Rightarrow> apic_regs \<Rightarrow> apic_regs" where
  "set_field hw r f v m =
     (case place_of r f of None \<Rightarrow> m
      | Some (a, lo, w) \<Rightarrow>
          apic_write hw a (apic_read a m AND NOT (push_bit lo (mask w)) OR push_bit lo (take_bit w v)) m)"

definition or_field :: "apic_hw \<Rightarrow> string \<Rightarrow> string \<Rightarrow> u32 \<Rightarrow> apic_regs \<Rightarrow> apic_regs" where
  "or_field hw r f v m = set_field hw r f (get_field r f m OR v) m"

definition and_field :: "apic_hw \<Rightarrow> string \<Rightarrow> string \<Rightarrow> u32 \<Rightarrow> apic_regs \<Rightarrow> apic_regs" where
  "and_field hw r f v m = set_field hw r f (get_field r f m AND v) m"

section \<open>The driver\<close>

definition get_maxlvt :: "apic_regs \<Rightarrow> u32" where
  "get_maxlvt m = get_field ''version'' ''max_lvt'' m"

definition set_lvt_lint_vector :: "apic_hw \<Rightarrow> u32 \<Rightarrow> u32 \<Rightarrow> apic_regs \<Rightarrow> apic_regs" where
  "set_lvt_lint_vector hw lint_num vector m =
     (if lint_num = 0 then set_field hw ''lvt_lint0'' ''vector'' vector m
      else set_field hw ''lvt_lint1'' ''vector'' vector m)"

definition enable_apic :: "apic_hw \<Rightarrow> apic_regs \<Rightarrow> apic_regs" where
  "enable_apic hw m = or_field hw ''svr'' ''cpu_focus'' 1 (or_field hw ''svr'' ''apic_enabled'' 1 m)"

definition disable_apic :: "apic_hw \<Rightarrow> apic_regs \<Rightarrow> apic_regs" where
  "disable_apic hw m =
     and_field hw ''svr'' ''cpu_focus'' (NOT 1) (and_field hw ''svr'' ''apic_enabled'' (NOT 1) m)"

definition local_apic_clear :: "apic_hw \<Rightarrow> apic_regs \<Rightarrow> apic_regs" where
  "local_apic_clear hw m =
     (let max_lvt = get_maxlvt m;
          m = (if max_lvt \<ge> 3
               then or_field hw ''lvt_error'' ''mask'' 1 (set_field hw ''lvt_error'' ''vector'' 0xfe m) else m);
          m = or_field hw ''lvt_timer'' ''mask'' 1 m;
          m = or_field hw ''lvt_lint0'' ''mask'' 1 m;
          m = or_field hw ''lvt_lint1'' ''mask'' 1 m
      in if max_lvt \<ge> 4 then or_field hw ''lvt_pc'' ''mask'' 1 m else m)"

definition local_apic_check :: "apic_hw \<Rightarrow> apic_regs \<Rightarrow> bool \<times> apic_regs" where
  "local_apic_check hw m =
     (let v0 = get_field ''version'' ''version'' m;
          m = set_field hw ''version'' ''version'' 0 m;
          v1 = get_field ''version'' ''version'' m
      in if v0 \<noteq> v1 then (False, m)
         else let v0 = v1 AND 0xff
              in if v0 = 0 \<or> v0 = 0xff then (False, m)
                 else let v1 = get_maxlvt m in (\<not> (v1 < 0x02 \<or> v1 = 0xff), m))"

definition local_bsp_apic_init :: "apic_hw \<Rightarrow> apic_regs \<Rightarrow> apic_regs" where
  "local_bsp_apic_init hw m =
     (let (present, m) = local_apic_check hw m
      in if \<not> present then m
         else
           let m = local_apic_clear hw m;
               m = enable_apic hw m;
               m = set_lvt_lint_vector hw 0 0 m;
               m = set_lvt_lint_vector hw 1 0 m;
               m = set_field hw ''lvt_lint0'' ''tx_mode'' 7 m;
               m = set_field hw ''lvt_lint1'' ''tx_mode'' 4 m;
               m = or_field hw ''lvt_lint0'' ''tx_status'' 1 m;
               m = or_field hw ''lvt_lint0'' ''polarity'' 1 m;
               m = or_field hw ''lvt_lint1'' ''tx_status'' 1 m
           in or_field hw ''lvt_lint1'' ''polarity'' 1 m)"

definition local_apic_bsp_switch :: "'d bus \<Rightarrow> 'd \<Rightarrow> 'd" where
  "local_apic_bsp_switch bus d = outb bus 0x71 0x23 (outb bus 0x70 0x22 d)"

definition local_apic_timer_enable :: "apic_hw \<Rightarrow> apic_regs \<Rightarrow> apic_regs" where
  "local_apic_timer_enable hw m = or_field hw ''lvt_timer'' ''mask'' 1 m"

definition local_apic_timer_disable :: "apic_hw \<Rightarrow> apic_regs \<Rightarrow> apic_regs" where
  "local_apic_timer_disable hw m = and_field hw ''lvt_timer'' ''mask'' (NOT 1) m"

definition local_apic_timer_calibrate :: "apic_hw \<Rightarrow> u32 \<Rightarrow> apic_regs \<Rightarrow> apic_regs" where
  "local_apic_timer_calibrate hw x m =
     (if x = 1 then set_field hw ''timer_dcr'' ''divisor'' 0xb m
      else if x = 2 then set_field hw ''timer_dcr'' ''divisor'' 0x0 m
      else if x = 4 then set_field hw ''timer_dcr'' ''divisor'' 0x1 m
      else if x = 8 then set_field hw ''timer_dcr'' ''divisor'' 0x2 m
      else if x = 16 then set_field hw ''timer_dcr'' ''divisor'' 0x3 m
      else if x = 32 then set_field hw ''timer_dcr'' ''divisor'' 0x8 m
      else if x = 64 then set_field hw ''timer_dcr'' ''divisor'' 0x9 m
      else if x = 128 then set_field hw ''timer_dcr'' ''divisor'' 0xa m
      else m)"

definition local_apic_timer_init :: "apic_hw \<Rightarrow> apic_regs \<Rightarrow> apic_regs" where
  "local_apic_timer_init hw m =
     (let m = local_apic_timer_calibrate hw 128 m;
          m = or_field hw ''lvt_timer'' ''timer_mode'' 1 m
      in local_apic_timer_enable hw m)"

section \<open>The chip\<close>

text \<open>
  The bits that read back as they were written: the enable and focus bits of the spurious vector
  register, vector, delivery mode, polarity, trigger, mask and timer mode of the vector table, the
  divisor. The delivery status and the remote IRR are the chip's. A mask bit can be cleared while the
  APIC is enabled only. The version register ignores a write.
\<close>

definition apic_stores :: "nat \<Rightarrow> nat \<Rightarrow> bool" where
  "apic_stores a k \<longleftrightarrow>
     a = 0xF0 \<and> (k = 8 \<or> k = 9) \<or>
     (a = 0x320 \<or> a = 0x370) \<and> (k < 8 \<or> k = 16) \<or> a = 0x320 \<and> k = 17 \<or>
     (a = 0x330 \<or> a = 0x340 \<or> a = 0x350 \<or> a = 0x360) \<and> (k < 11 \<or> k = 16) \<or>
     (a = 0x350 \<or> a = 0x360) \<and> (k = 13 \<or> k = 15) \<or>
     a = 0x3E0 \<and> (k = 0 \<or> k = 1 \<or> k = 3)"

definition apic_chip :: "apic_hw \<Rightarrow> bool" where
  "apic_chip hw \<longleftrightarrow>
     (\<forall>m a v k. apic_stores a k \<and> (k = 16 \<longrightarrow> bit v 16 \<or> bit (m 0xF0) 8) \<longrightarrow> bit (hw m a v) k = bit v k) \<and>
     (\<forall>m v. hw m 0x30 v = m 0x30)"

lemma struct_bits_replicate: "struct_bits (concat (replicate n s)) = n * struct_bits s"
  by (induction n) (simp_all add: struct_bits_def)

lemma struct_sizes:
  "struct_bits local_apic_id_t = 128" "struct_bits local_apic_version_t = 128" "struct_bits local_apic_tpr_t = 128"
  "struct_bits local_apic_apr_t = 128" "struct_bits local_apic_ppr_t = 128" "struct_bits local_apic_eoi_t = 128"
  "struct_bits local_apic_ldr_t = 128" "struct_bits local_apic_dfr_t = 128" "struct_bits local_apic_svr_t = 128"
  "struct_bits local_apic_isr_t = 128" "struct_bits local_apic_tmr_t = 128" "struct_bits local_apic_irr_t = 128"
  "struct_bits local_apic_esr_t = 128" "struct_bits local_apic_icr1_t = 128" "struct_bits local_apic_icr2_t = 128"
  "struct_bits local_apic_lvt_timer_t = 128" "struct_bits local_apic_lvt_thermal_sensor_t = 128"
  "struct_bits local_apic_lvt_pc_t = 128" "struct_bits local_apic_lvt_lint_t = 128"
  "struct_bits local_apic_lvt_error_t = 128" "struct_bits local_apic_timerst_t = 128"
  "struct_bits local_apic_timer_dcr_t = 128" "struct_bits reserved_words = 128"
  by (simp_all add: struct_bits_def apic_structs)

lemma register_places:
  "member_place local_apic_t ''id'' 0 = Some (8 * 0x20, local_apic_id_t)"
  "member_place local_apic_t ''version'' 0 = Some (8 * 0x30, local_apic_version_t)"
  "member_place local_apic_t ''tpr'' 0 = Some (8 * 0x80, local_apic_tpr_t)"
  "member_place local_apic_t ''apr'' 0 = Some (8 * 0x90, local_apic_apr_t)"
  "member_place local_apic_t ''ppr'' 0 = Some (8 * 0xA0, local_apic_ppr_t)"
  "member_place local_apic_t ''eoi'' 0 = Some (8 * 0xB0, local_apic_eoi_t)"
  "member_place local_apic_t ''ldr'' 0 = Some (8 * 0xD0, local_apic_ldr_t)"
  "member_place local_apic_t ''dfr'' 0 = Some (8 * 0xE0, local_apic_dfr_t)"
  "member_place local_apic_t ''svr'' 0 = Some (8 * 0xF0, local_apic_svr_t)"
  "member_place local_apic_t ''esr'' 0 = Some (8 * 0x280, local_apic_esr_t)"
  "member_place local_apic_t ''icr1'' 0 = Some (8 * 0x300, local_apic_icr1_t)"
  "member_place local_apic_t ''icr2'' 0 = Some (8 * 0x310, local_apic_icr2_t)"
  "member_place local_apic_t ''lvt_timer'' 0 = Some (8 * 0x320, local_apic_lvt_timer_t)"
  "member_place local_apic_t ''lvt_thermal_sensor'' 0 = Some (8 * 0x330, local_apic_lvt_thermal_sensor_t)"
  "member_place local_apic_t ''lvt_pc'' 0 = Some (8 * 0x340, local_apic_lvt_pc_t)"
  "member_place local_apic_t ''lvt_lint0'' 0 = Some (8 * 0x350, local_apic_lvt_lint_t)"
  "member_place local_apic_t ''lvt_lint1'' 0 = Some (8 * 0x360, local_apic_lvt_lint_t)"
  "member_place local_apic_t ''lvt_error'' 0 = Some (8 * 0x370, local_apic_lvt_error_t)"
  "member_place local_apic_t ''timer_icr'' 0 = Some (8 * 0x380, local_apic_timerst_t)"
  "member_place local_apic_t ''timer_ccr'' 0 = Some (8 * 0x390, local_apic_timerst_t)"
  "member_place local_apic_t ''timer_dcr'' 0 = Some (8 * 0x3E0, local_apic_timer_dcr_t)"
  by (simp_all add: local_apic_t_def struct_sizes struct_bits_replicate)

lemma field_places [simp]:
  "place_of ''version'' ''version'' = Some (0x30, 0, 8)"
  "place_of ''version'' ''max_lvt'' = Some (0x30, 16, 8)"
  "place_of ''svr'' ''apic_enabled'' = Some (0xF0, 8, 1)"
  "place_of ''svr'' ''cpu_focus'' = Some (0xF0, 9, 1)"
  "place_of ''lvt_timer'' ''mask'' = Some (0x320, 16, 1)"
  "place_of ''lvt_timer'' ''timer_mode'' = Some (0x320, 17, 1)"
  "place_of ''lvt_pc'' ''mask'' = Some (0x340, 16, 1)"
  by (simp_all add: place_of_def register_places apic_fields)

lemma lint_places [simp]:
  "place_of ''lvt_lint0'' ''vector'' = Some (0x350, 0, 8)"
  "place_of ''lvt_lint0'' ''tx_mode'' = Some (0x350, 8, 3)"
  "place_of ''lvt_lint0'' ''tx_status'' = Some (0x350, 12, 1)"
  "place_of ''lvt_lint0'' ''polarity'' = Some (0x350, 13, 1)"
  "place_of ''lvt_lint0'' ''mask'' = Some (0x350, 16, 1)"
  "place_of ''lvt_lint1'' ''vector'' = Some (0x360, 0, 8)"
  "place_of ''lvt_lint1'' ''tx_mode'' = Some (0x360, 8, 3)"
  "place_of ''lvt_lint1'' ''tx_status'' = Some (0x360, 12, 1)"
  "place_of ''lvt_lint1'' ''polarity'' = Some (0x360, 13, 1)"
  "place_of ''lvt_lint1'' ''mask'' = Some (0x360, 16, 1)"
  "place_of ''lvt_error'' ''vector'' = Some (0x370, 0, 8)"
  "place_of ''lvt_error'' ''mask'' = Some (0x370, 16, 1)"
  "place_of ''timer_dcr'' ''divisor'' = Some (0x3E0, 0, 4)"
  by (simp_all add: place_of_def register_places apic_fields)

lemma set_field_other: "place_of r f = Some (a, lo, w) \<Longrightarrow> b \<noteq> a \<Longrightarrow> set_field hw r f v m b = m b"
  by (simp add: set_field_def apic_write_def)

lemma set_field_bit:
  assumes "apic_chip hw" and "place_of r f = Some (a, lo, w)" and "apic_stores a k" and "k < 32"
    and "k = 16 \<Longrightarrow> (if lo \<le> 16 \<and> 16 < lo + w then bit v (16 - lo) else bit (m a) 16) \<or> bit (m 0xF0) 8"
  shows "bit (set_field hw r f v m a) k = (if lo \<le> k \<and> k < lo + w then bit v (k - lo) else bit (m a) k)"
proof -
  let ?v = "m a AND NOT (push_bit lo (mask w)) OR push_bit lo (take_bit w v)"
  have v: "bit ?v j = (if lo \<le> j \<and> j < lo + w then bit v (j - lo) else bit (m a) j)" if "j < 32" for j
    using that by (auto simp: bit_simps)
  have "bit (hw m a ?v) k = bit ?v k"
    using assms(1,3,5) v [of 16] unfolding apic_chip_def by (cases "k = 16") auto
  then show ?thesis
    using v [OF assms(4)] by (simp add: set_field_def assms(2) apic_write_def apic_read_def)
qed

lemma or_field_other: "place_of r f = Some (a, lo, w) \<Longrightarrow> b \<noteq> a \<Longrightarrow> or_field hw r f v m b = m b"
  by (simp add: or_field_def set_field_other)

lemma and_field_other: "place_of r f = Some (a, lo, w) \<Longrightarrow> b \<noteq> a \<Longrightarrow> and_field hw r f v m b = m b"
  by (simp add: and_field_def set_field_other)

lemma or_field_bit:
  assumes "apic_chip hw" and "place_of r f = Some (a, lo, 1)" and "apic_stores a k" and "k < 32" and "lo < 32"
    and "k = 16 \<Longrightarrow> lo = 16 \<or> bit (m a) 16 \<or> bit (m 0xF0) 8"
  shows "bit (or_field hw r f 1 m a) k \<longleftrightarrow> k = lo \<or> bit (m a) k"
  unfolding or_field_def
  by (subst set_field_bit [OF assms(1,2,3,4)]) (use assms(4,5,6) in \<open>auto simp: bit_simps less_Suc_eq_le\<close>)

lemmas field_writes = set_field_other or_field_other and_field_other set_field_bit or_field_bit

lemma get_field_eq:
  assumes "place_of r f = Some (a, lo, w)" and "lo + w \<le> 32"
  shows "get_field r f m = v \<longleftrightarrow> (\<forall>k<w. bit (m a) (lo + k) = bit v k) \<and> take_bit w v = v"
proof -
  have "get_field r f m = take_bit w (drop_bit lo (m a))"
    by (simp add: get_field_def assms(1) apic_read_def)
  moreover have "take_bit w (drop_bit lo (m a)) = take_bit w v \<longleftrightarrow> (\<forall>k<w. bit (m a) (lo + k) = bit v k)"
  proof -
    have "k < 32" if "k < w" for k using that assms(2) by simp
    then show ?thesis by (simp add: bit_eq_iff bit_simps) blast
  qed
  ultimately show ?thesis by (metis take_bit_take_bit min.idem)
qed

section \<open>Properties\<close>

lemma clear_masks:
  assumes "apic_chip hw"
  shows "bit (local_apic_clear hw m 0x320) 16" and "bit (local_apic_clear hw m 0x350) 16"
    and "bit (local_apic_clear hw m 0x360) 16" and "local_apic_clear hw m 0xF0 = m 0xF0"
    and "local_apic_clear hw m 0x30 = m 0x30"
  using assms by (simp_all add: local_apic_clear_def Let_def field_writes apic_stores_def)

lemma check_reads:
  assumes "apic_chip hw"
  shows "local_apic_check hw m =
    (let v = get_field ''version'' ''version'' m; l = get_maxlvt m in v \<noteq> 0 \<and> v \<noteq> 0xff \<and> 2 \<le> l \<and> l \<noteq> 0xff, m)"
proof -
  have "set_field hw ''version'' ''version'' 0 m = m"
    using assms by (simp add: set_field_def apic_write_def apic_chip_def)
  moreover have "get_field ''version'' ''version'' m AND 0xff = get_field ''version'' ''version'' m"
  proof -
    have "x AND 0xff = take_bit 8 x" for x :: u32 by (simp add: take_bit_eq_mask mask_eq_exp_minus_1)
    then show ?thesis by (simp add: get_field_def)
  qed
  ultimately show ?thesis
    by (simp add: local_apic_check_def Let_def not_less)
qed

lemma init_fields:
  assumes "apic_chip hw" and "fst (local_apic_check hw m)"
  defines "m' \<equiv> local_bsp_apic_init hw m"
  shows "bit (m' 0xF0) 8" and "bit (m' 0x320) 16" and "bit (m' 0x350) 16" and "bit (m' 0x360) 16"
    and "k < 8 \<Longrightarrow> \<not> bit (m' 0x350) k" and "8 \<le> k \<Longrightarrow> k < 11 \<Longrightarrow> bit (m' 0x350) k"
    and "k < 8 \<Longrightarrow> \<not> bit (m' 0x360) k" and "8 \<le> k \<Longrightarrow> k < 11 \<Longrightarrow> bit (m' 0x360) k \<longleftrightarrow> k = 10"
proof -
  note clear = clear_masks [OF assms(1), of m]
  have m': "m' = or_field hw ''lvt_lint1'' ''polarity'' 1 (or_field hw ''lvt_lint1'' ''tx_status'' 1
    (or_field hw ''lvt_lint0'' ''polarity'' 1 (or_field hw ''lvt_lint0'' ''tx_status'' 1
    (set_field hw ''lvt_lint1'' ''tx_mode'' 4 (set_field hw ''lvt_lint0'' ''tx_mode'' 7
    (set_field hw ''lvt_lint1'' ''vector'' 0 (set_field hw ''lvt_lint0'' ''vector'' 0
    (enable_apic hw (local_apic_clear hw m)))))))))"
    using assms(2) check_reads [OF assms(1), of m]
    by (simp add: m'_def local_bsp_apic_init_def Let_def set_lvt_lint_vector_def split: prod.splits)
  have seven: "bit (7 :: u32) (k - 8)" if "8 \<le> k" "k < 11" for k
  proof -
    from that have "k = 8 \<or> k = 9 \<or> k = 10" by linarith
    then show ?thesis by auto
  qed
  have four: "bit (4 :: u32) (k - 8) \<longleftrightarrow> k = 10" if "8 \<le> k" "k < 11" for k
  proof -
    from that have "k = 8 \<or> k = 9 \<or> k = 10" by linarith
    then show ?thesis by auto
  qed
  show "bit (m' 0xF0) 8" "bit (m' 0x320) 16"
    using assms(1) clear by (simp_all add: m' enable_apic_def field_writes apic_stores_def)
  show "bit (m' 0x350) 16" "bit (m' 0x360) 16"
    using assms(1) clear by (simp_all add: m' enable_apic_def field_writes apic_stores_def)
  show "\<not> bit (m' 0x350) k" "\<not> bit (m' 0x360) k" if "k < 8"
    using that assms(1) by (simp_all add: m' enable_apic_def field_writes apic_stores_def)
  show "bit (m' 0x350) k" "bit (m' 0x360) k \<longleftrightarrow> k = 10" if "8 \<le> k" "k < 11"
    using that assms(1) seven four by (simp_all add: m' enable_apic_def field_writes apic_stores_def)
qed

text \<open>C25: On a chip that is present, the initialisation leaves the APIC enabled, the timer and both local
  interrupt lines masked, line 0 in the mode of an external controller and line 1 in that of an NMI, both
  with vector 0; the registers of a chip that is absent are left as they are.\<close>

theorem apic_initialised:
  assumes "apic_chip hw"
  shows "if fst (local_apic_check hw m)
    then let m' = local_bsp_apic_init hw m
      in get_field ''svr'' ''apic_enabled'' m' = 1 \<and> get_field ''lvt_timer'' ''mask'' m' = 1 \<and>
         get_field ''lvt_lint0'' ''mask'' m' = 1 \<and> get_field ''lvt_lint1'' ''mask'' m' = 1 \<and>
         get_field ''lvt_lint0'' ''vector'' m' = 0 \<and> get_field ''lvt_lint1'' ''vector'' m' = 0 \<and>
         get_field ''lvt_lint0'' ''tx_mode'' m' = 7 \<and> get_field ''lvt_lint1'' ''tx_mode'' m' = 4
    else local_bsp_apic_init hw m = m"
proof (cases "fst (local_apic_check hw m)")
  case True
  note bits = init_fields [OF assms True]
  have "bit (7 :: u32) k" "bit (4 :: u32) k \<longleftrightarrow> k = 2" if "k < 3" for k
  proof -
    from that have "k = 0 \<or> k = 1 \<or> k = 2" by linarith
    then show "bit (7 :: u32) k" "bit (4 :: u32) k \<longleftrightarrow> k = 2" by auto
  qed
  then show ?thesis
    using True bits(1-4) bits(5) bits(6) [of "8 + _"] bits(7) bits(8) [of "8 + _"]
    by (simp add: Let_def get_field_eq)
next
  case False
  then have "local_apic_check hw m = (False, m)"
    using check_reads [OF assms, of m] by (auto simp: Let_def)
  then show ?thesis
    by (simp add: local_bsp_apic_init_def)
qed

text \<open>The timer is set up for periodic interrupts with a divisor of 128 and left masked: enabling
  sets the mask bit, and it is disabling, on an enabled APIC, that lets the interrupts through.\<close>

theorem apic_timer_left_masked:
  assumes "apic_chip hw" and "get_field ''svr'' ''apic_enabled'' m = 1"
  shows "get_field ''lvt_timer'' ''mask'' (local_apic_timer_init hw m) = 1 \<and>
    get_field ''lvt_timer'' ''timer_mode'' (local_apic_timer_init hw m) = 1 \<and>
    get_field ''lvt_timer'' ''mask'' (local_apic_timer_disable hw m) = 0"
proof -
  have en: "bit (m 0xF0) 8" using assms(2) by (simp add: get_field_eq)
  show ?thesis
    using assms(1) en
    by (simp add: get_field_eq local_apic_timer_init_def Let_def local_apic_timer_enable_def
        local_apic_timer_calibrate_def local_apic_timer_disable_def and_field_def field_writes apic_stores_def
        bit_simps)
qed

section \<open>A chip\<close>

lemma plain_chip: "apic_chip (\<lambda>m a v. if a = 0x30 then m a else v)"
  by (auto simp: apic_chip_def apic_stores_def)

theorem apic_initialised_witness:
  "let hw = (\<lambda>m a v. if a = 0x30 then m a else v); m = (\<lambda>a. if a = 0x30 then 0x50010 else 0)
   in fst (local_apic_check hw m) \<and> get_field ''lvt_lint0'' ''tx_mode'' (local_bsp_apic_init hw m) = 7"
proof -
  have "fst (local_apic_check (\<lambda>m a v. if a = 0x30 then m a else v) (\<lambda>a. if a = 0x30 then 0x50010 else 0))"
    by (simp add: check_reads [OF plain_chip] Let_def get_maxlvt_def get_field_def apic_read_def take_bit_eq_mod
        drop_bit_eq_div)
  then show ?thesis
    using apic_initialised [OF plain_chip, of "\<lambda>a. if a = 0x30 then 0x50010 else 0"] by (simp add: Let_def)
qed

theorem apic_timer_left_masked_witness:
  "get_field ''lvt_timer'' ''mask'' (local_apic_timer_init (\<lambda>m a v. if a = 0x30 then m a else v) (\<lambda>_. 0x100)) = 1"
  using apic_timer_left_masked [OF plain_chip, of "\<lambda>_. 0x100"]
  by (simp add: get_field_def apic_read_def take_bit_eq_mod drop_bit_eq_div)

end
