(* ===== verification/Mui_Buddy.thy ===== *)
theory Mui_Buddy
  imports Mui_Prelude
begin

text \<open>
  The binary buddy allocator, \<^verbatim>\<open>mm/bbuddy.c\<close>. The two bitmaps lie behind the header in one area
  of 32-bit words; an access outside of the area is a value of \<open>kerror\<close>. Node \<open>2 ^ l + k\<close> of the
  tree is block \<open>k\<close> of layer \<open>2 ^ l\<close>; its bit in \<open>nbmp\<close> says that the block is free, its bit in
  \<open>pbmp\<close> that it is not split. \<^verbatim>\<open>1 << n\<close> is the shift of the machine, which looks at the low five
  bits of the count.
\<close>

section \<open>The bitmaps\<close>

definition ENOBLOCK :: u32 where "ENOBLOCK = 65535"
definition EBUDDYCORRUPED :: u32 where "EBUDDYCORRUPED = 65534"
definition EINVALIDINDX :: u32 where "EINVALIDINDX = 65533"

record bbuddy =
  bb_area :: "u32 list"
  bb_pbmp :: nat
  bb_nbmp :: nat
  bb_pn :: u32

definition bbuddy_indexp :: "u32 \<Rightarrow> u32 \<Rightarrow> u32" where
  "bbuddy_indexp p n = (if drop_bit 5 p > 1 then drop_bit 5 p + drop_bit 5 n else drop_bit 5 p)"

definition bbuddy_indexbn :: "u32 \<Rightarrow> u32" where
  "bbuddy_indexbn n = (if drop_bit 5 n \<noteq> 0 then n mod 32 else n)"

text \<open>The number of words of the two bitmaps in \<^verbatim>\<open>bbuddy_size(n)\<close>, which is in bytes and counts the header.\<close>

definition bbuddy_words :: "u32 \<Rightarrow> nat" where
  "bbuddy_words n =
     2 * unat (if drop_bit 5 n = 0 then 1 else if drop_bit 5 n > 1 then drop_bit 5 n + 2 else drop_bit 5 n + 1)"

definition shl1 :: "u32 \<Rightarrow> u32" where
  "shl1 n = push_bit (unat n mod 32) 1"

definition area_read :: "nat \<Rightarrow> bbuddy \<Rightarrow> u32 res" where
  "area_read i b = (if i < length (bb_area b) then Inr (bb_area b ! i) else Inl BadAccess)"

definition area_write :: "nat \<Rightarrow> u32 \<Rightarrow> bbuddy \<Rightarrow> bbuddy res" where
  "area_write i v b = (if i < length (bb_area b) then Inr (b\<lparr>bb_area := (bb_area b)[i := v]\<rparr>) else Inl BadAccess)"

definition nb_read :: "u32 \<Rightarrow> bbuddy \<Rightarrow> u32 res" where
  "nb_read p b = area_read (bb_nbmp b + unat p) b"

definition pb_read :: "u32 \<Rightarrow> bbuddy \<Rightarrow> u32 res" where
  "pb_read p b = area_read (bb_pbmp b + unat p) b"

definition nb_upd :: "u32 \<Rightarrow> (u32 \<Rightarrow> u32) \<Rightarrow> bbuddy \<Rightarrow> bbuddy res" where
  "nb_upd p f b = rbind (nb_read p b) (\<lambda>w. area_write (bb_nbmp b + unat p) (f w) b)"

definition pb_upd :: "u32 \<Rightarrow> (u32 \<Rightarrow> u32) \<Rightarrow> bbuddy \<Rightarrow> bbuddy res" where
  "pb_upd p f b = rbind (pb_read p b) (\<lambda>w. area_write (bb_pbmp b + unat p) (f w) b)"

section \<open>Initialisation\<close>

fun init_words :: "nat list \<Rightarrow> bbuddy \<Rightarrow> bbuddy res" where
  "init_words [] b = Inr b"
| "init_words (i # js) b =
     rbind (area_write (bb_nbmp b + i) 0 b) (\<lambda>b.
     rbind (area_write (bb_pbmp b + i) 0xffffffff b) (init_words js))"

text \<open>The area is the memory behind the header; \<open>None\<close> is the null pointer. The first component is the
  returned status.\<close>

definition bbuddy_init :: "u32 list option \<Rightarrow> u32 \<Rightarrow> (u8 \<times> bbuddy option) res" where
  "bbuddy_init b max_part =
     (let yy = push_bit 1 (drop_bit 5 max_part)
      in case b of
           None \<Rightarrow> Inr (1, None)
         | Some area \<Rightarrow>
             if max_part = 0 then Inr (1, None)
             else
               let k = unat (if drop_bit 5 max_part > 1 then drop_bit 5 max_part + 2 else drop_bit 5 max_part + 1);
                   bb = \<lparr>bb_area = area, bb_pbmp = 0, bb_nbmp = k, bb_pn = max_part\<rparr>
               in rbind (init_words [0..<unat yy] bb) (\<lambda>bb.
                  rbind (nb_upd 0 (\<lambda>w. w OR shl1 0) bb) (\<lambda>bb.
                  rbind (nb_upd 0 (\<lambda>w. w OR shl1 1) bb) (\<lambda>bb. Inr (0, Some bb)))))"

section \<open>Allocation\<close>

definition mark_used :: "u32 \<Rightarrow> u32 \<Rightarrow> bbuddy \<Rightarrow> bbuddy res" where
  "mark_used p n b =
     rbind (nb_upd p (\<lambda>w. w AND NOT (shl1 n)) b) (pb_upd p (\<lambda>w. w OR shl1 n))"

definition mark_separated :: "u32 \<Rightarrow> u32 \<Rightarrow> bbuddy \<Rightarrow> bbuddy res" where
  "mark_separated p n b =
     rbind (nb_upd p (\<lambda>w. w AND NOT (shl1 n)) b) (pb_upd p (\<lambda>w. w AND NOT (shl1 n)))"

definition mark_childs_free :: "u32 \<Rightarrow> u32 \<Rightarrow> bbuddy \<Rightarrow> bbuddy res" where
  "mark_childs_free p n b =
     rbind (nb_upd p (\<lambda>w. w OR shl1 n) b) (\<lambda>b.
     rbind (nb_upd p (\<lambda>w. w OR shl1 (n + 1)) b) (\<lambda>b.
     rbind (pb_upd p (\<lambda>w. w OR shl1 n) b) (pb_upd p (\<lambda>w. w OR shl1 (n + 1)))))"

fun first_word :: "u32 \<Rightarrow> nat list \<Rightarrow> bbuddy \<Rightarrow> nat option res" where
  "first_word p [] b = Inr None"
| "first_word p (i # js) b =
     rbind (nb_read (p + of_nat i) b) (\<lambda>w. if w \<noteq> 0 then Inr (Some i) else first_word p js b)"

text \<open>Both scans act on the first bit that is set. \<open>block_alloc\<close> is None when it never returns.\<close>

partial_function (option) block_alloc :: "u32 \<Rightarrow> u8 \<Rightarrow> bbuddy \<Rightarrow> (u32 \<times> bbuddy) res option" where
  "block_alloc align m_flag b =
     (let p_indx = drop_bit 5 align
      in if p_indx \<noteq> 0 then
           obind (Some (first_word p_indx [0..<unat p_indx] b)) (\<lambda>r.
             case r of
               None \<Rightarrow> block_alloc (align div 2) (m_flag + 1) b
             | Some j \<Rightarrow>
                 obind (Some (nb_read (p_indx + of_nat j) b)) (\<lambda>w.
                   case find (\<lambda>i. w AND shl1 (of_nat i) \<noteq> 0) [0..<32] of
                     None \<Rightarrow> Some (Inr (0, b))
                   | Some k \<Rightarrow>
                       let i = of_nat j; out = of_nat k
                       in if m_flag = 0 then
                            obind (Some (mark_used (p_indx + i) out b)) (\<lambda>b.
                              Some (Inr (if p_indx > 1 then push_bit 5 (p_indx + i - 2) + out else out, b)))
                          else
                            obind (Some (mark_separated (p_indx + i) out b)) (\<lambda>b.
                              let align = align * 2; out = out * 2;
                                  p_indx = bbuddy_indexp align out; n_indx = bbuddy_indexbn out
                              in obind (Some (mark_childs_free p_indx n_indx b)) (block_alloc align (m_flag - 1)))))
         else
           let out = push_bit 1 align
           in obind (Some (if align = 0 then Inr 0 else nb_read p_indx b)) (\<lambda>w.
                case find (\<lambda>i. w AND shl1 (of_nat i) \<noteq> 0) [unat align..<unat out] of
                  None \<Rightarrow>
                    if out < 2 then Some (Inr (ENOBLOCK, b)) else block_alloc (align div 2) (m_flag + 1) b
                | Some j \<Rightarrow>
                    let i = of_nat j
                    in if m_flag = 0 then
                         obind (Some (mark_used p_indx i b)) (\<lambda>b. Some (Inr (i - align, b)))
                       else
                         obind (Some (mark_separated p_indx i b)) (\<lambda>b.
                           let align = push_bit 1 align; i = push_bit 1 i;
                               p_indx = drop_bit 5 align; n_indx = bbuddy_indexbn i
                           in obind (Some (mark_childs_free p_indx n_indx b)) (block_alloc align (m_flag - 1)))))"

definition bbuddy_block_alloc :: "bbuddy \<Rightarrow> u32 \<Rightarrow> (u32 \<times> bbuddy) res option" where
  "bbuddy_block_alloc b align = block_alloc align 0 b"

section \<open>Release\<close>

definition node_bit :: "u32 \<Rightarrow> u32 \<Rightarrow> u32" where
  "node_bit layer num = (if layer < 32 then num + layer else bbuddy_indexbn num)"

text \<open>\<open>succ\<close> is a 16-bit 1 or -1, added to a 32-bit index.\<close>

partial_function (option) split_up :: "u32 \<Rightarrow> u32 \<Rightarrow> bbuddy \<Rightarrow> (u32 \<times> bbuddy) res option" where
  "split_up align num b =
     (let p = bbuddy_indexp align num; n = node_bit align num;
          succ = (if num mod 2 \<noteq> 0 then - 1 else 1)
      in obind (Some (nb_read p b)) (\<lambda>w.
         if w AND shl1 (n + succ) \<noteq> 0 then
           obind (Some (nb_upd p (\<lambda>w. w AND NOT (shl1 (n + succ))) b)) (\<lambda>b.
           obind (Some (nb_upd p (\<lambda>w. w AND NOT (shl1 n)) b)) (\<lambda>b.
           obind (Some (pb_upd p (\<lambda>w. w OR NOT (shl1 (n + succ))) b)) (\<lambda>b.
           obind (Some (pb_upd p (\<lambda>w. w OR NOT (shl1 n)) b)) (\<lambda>b.
             let num = (if num mod 2 \<noteq> 0 then num - 1 else num);
                 align = drop_bit 1 align; num = drop_bit 1 num;
                 n = node_bit align num; p = bbuddy_indexp align num
             in obind (Some (nb_upd p (\<lambda>w. w OR shl1 n) b)) (\<lambda>b.
                obind (Some (pb_upd p (\<lambda>w. w OR shl1 n) b)) (\<lambda>b.
                  if align > 1 then split_up align num b else Some (Inr (0, b))))))))
         else Some (Inr (0, b))))"

fun bit_count :: "nat \<Rightarrow> u32 \<Rightarrow> nat" where
  "bit_count 0 ls = 0"
| "bit_count (Suc fuel) ls = (if ls = 0 then 0 else Suc (bit_count fuel (drop_bit 1 ls)))"

fun highest_layer :: "nat \<Rightarrow> u32 \<Rightarrow> nat \<times> u32" where
  "highest_layer 0 num = (0, num)"
| "highest_layer (Suc i) num = (if num mod 2 \<noteq> 0 then (Suc i, num) else highest_layer i (drop_bit 1 num))"

text \<open>A 32-bit number has at most 32 halvings, the fuel of \<open>bit_count\<close>.\<close>

partial_function (option) block_release :: "u32 \<Rightarrow> u32 \<Rightarrow> bbuddy \<Rightarrow> (u32 \<times> bbuddy) res option" where
  "block_release num i b =
     (if num > bb_pn b then Some (Inr (EINVALIDINDX, b))
      else
        let a = bit_count 32 (bb_pn b);
            (i, num) = (if i = 0 then let (j, num) = highest_layer (a - 1) num in (of_nat j, num) else (i, num));
            layer = shl1 i; n = node_bit layer num; p = bbuddy_indexp layer num
        in obind (Some (nb_read p b)) (\<lambda>nw. obind (Some (pb_read p b)) (\<lambda>pw.
             if nw AND shl1 n = 0 \<and> pw AND shl1 n \<noteq> 0 then
               obind (Some (nb_upd p (\<lambda>w. w OR shl1 n) b)) (split_up layer num)
             else if nw AND shl1 n = 0 \<and> pw AND shl1 n = 0 then
               (if i + 1 \<ge> of_nat a then Some (Inr (EBUDDYCORRUPED, b))
                else block_release (num * 2) (i + 1) b)
             else Some (Inr (0, b)))))"

definition bbuddy_block_release :: "bbuddy \<Rightarrow> u32 \<Rightarrow> (u32 \<times> bbuddy) res option" where
  "bbuddy_block_release b num = block_release num 0 b"

section \<open>The tree of a small buddy\<close>

text \<open>With a \<open>max_part\<close> of 32 to 63 blocks there are two words in each bitmap, and 63 nodes.\<close>

definition small_tree :: "bbuddy \<Rightarrow> bool" where
  "small_tree b \<longleftrightarrow> length (bb_area b) = 4 \<and> bb_pbmp b = 0 \<and> bb_nbmp b = 2"

definition frees :: "bbuddy \<Rightarrow> nat set" where
  "frees b = {v. v < 64 \<and> bit (bb_area b ! (2 + v div 32)) (v mod 32)}"

lemma frees_iff: "v \<in> frees b \<longleftrightarrow> v < 64 \<and> bit (bb_area b ! (2 + v div 32)) (v mod 32)"
  by (simp add: frees_def)

lemma shl1_bit: "n < 32 \<Longrightarrow> bit (shl1 (of_nat n)) k \<longleftrightarrow> k = n"
  using unat_of_nat_small [where 'a = 32, of n] by (auto simp: shl1_def bit_simps)

lemma and_shl1: "n < 32 \<Longrightarrow> w AND shl1 (of_nat n) \<noteq> 0 \<longleftrightarrow> bit w n"
proof -
  assume n: "n < 32"
  have "bit (w AND shl1 (of_nat n)) k \<longleftrightarrow> k = n \<and> bit w n" for k
    using n by (auto simp: bit_and_iff shl1_bit)
  then show ?thesis by (metis bit_0_eq bot_apply bot_bool_def bit_word_eqI)
qed

lemma nb_upd_small:
  assumes "small_tree b" and "p < 2"
  shows "nb_upd (of_nat p) f b = Inr (b\<lparr>bb_area := (bb_area b)[2 + p := f (bb_area b ! (2 + p))]\<rparr>)"
  using assms by (auto simp: nb_upd_def nb_read_def area_read_def area_write_def small_tree_def less_2_cases_iff)

lemma pb_upd_small:
  assumes "small_tree b" and "p < 2"
  shows "pb_upd (of_nat p) f b = Inr (b\<lparr>bb_area := (bb_area b)[p := f (bb_area b ! p)]\<rparr>)"
  using assms by (auto simp: pb_upd_def pb_read_def area_read_def area_write_def small_tree_def less_2_cases_iff)

text \<open>The nodes that are split, and both sets together with the number of blocks.\<close>

definition splits :: "bbuddy \<Rightarrow> nat set" where
  "splits b = {v. v < 64 \<and> \<not> bit (bb_area b ! (v div 32)) (v mod 32)}"

definition tree :: "bbuddy \<Rightarrow> nat set \<Rightarrow> nat set \<Rightarrow> u32 \<Rightarrow> bool" where
  "tree b F S n \<longleftrightarrow> small_tree b \<and> frees b = F \<and> splits b = S \<and> bb_pn b = n"

lemma treeD: "tree b F S n \<Longrightarrow> small_tree b" "tree b F S n \<Longrightarrow> frees b = F" "tree b F S n \<Longrightarrow> splits b = S" "tree b F S n \<Longrightarrow> bb_pn b = n"
  by (simp_all add: tree_def)

lemma splits_iff: "v \<in> splits b \<longleftrightarrow> v < 64 \<and> \<not> bit (bb_area b ! (v div 32)) (v mod 32)"
  by (simp add: splits_def)

lemma nb_upd_tree:
  assumes "tree b F S n" and "p < 2"
  shows "\<exists>b'. nb_upd (of_nat p) f b = Inr b' \<and>
    tree b' {u. u < 64 \<and> (if u div 32 = p then bit (f (bb_area b ! (2 + p))) (u mod 32) else u \<in> F)} S n"
proof -
  have b: "small_tree b" "length (bb_area b) = 4" and F: "F = frees b" using assms(1) by (auto simp: tree_def small_tree_def)
  let ?b = "b\<lparr>bb_area := (bb_area b)[2 + p := f (bb_area b ! (2 + p))]\<rparr>"
  have word: "bb_area ?b ! (2 + u div 32) = (if u div 32 = p then f (bb_area b ! (2 + p)) else bb_area b ! (2 + u div 32))"
    "u < 64 \<Longrightarrow> bb_area ?b ! (u div 32) = bb_area b ! (u div 32)" for u
  proof -
    assume "u < 64"
    then have "u div 32 < 2" by simp
    then show "bb_area ?b ! (u div 32) = bb_area b ! (u div 32)" by simp
  qed (use b(2) assms(2) in simp)
  have "frees ?b = {u. u < 64 \<and> (if u div 32 = p then bit (f (bb_area b ! (2 + p))) (u mod 32) else u \<in> F)}"
    unfolding F frees_def word(1) by auto
  moreover have "splits ?b = splits b" unfolding splits_def using word(2) by auto
  moreover have "small_tree ?b" using b by (simp add: small_tree_def)
  ultimately show ?thesis using nb_upd_small [OF b(1) assms(2), of f] assms(1) by (simp add: tree_def)
qed

lemma pb_upd_tree:
  assumes "tree b F S n" and "p < 2"
  shows "\<exists>b'. pb_upd (of_nat p) f b = Inr b' \<and>
    tree b' F {u. u < 64 \<and> (if u div 32 = p then \<not> bit (f (bb_area b ! p)) (u mod 32) else u \<in> S)} n"
proof -
  have b: "small_tree b" "length (bb_area b) = 4" and S: "S = splits b" using assms(1) by (auto simp: tree_def small_tree_def)
  let ?b = "b\<lparr>bb_area := (bb_area b)[p := f (bb_area b ! p)]\<rparr>"
  have word: "bb_area ?b ! (2 + i) = bb_area b ! (2 + i)"
    "bb_area ?b ! (u div 32) = (if u div 32 = p then f (bb_area b ! p) else bb_area b ! (u div 32))" for u i
    using b(2) assms(2) by simp_all
  have "splits ?b = {u. u < 64 \<and> (if u div 32 = p then \<not> bit (f (bb_area b ! p)) (u mod 32) else u \<in> S)}"
    unfolding S splits_def word(2) by auto
  moreover have "frees ?b = frees b" unfolding frees_def word(1) ..
  moreover have "small_tree ?b" using b by (simp add: small_tree_def)
  ultimately show ?thesis using pb_upd_small [OF b(1) assms(2), of f] assms(1) by (simp add: tree_def)
qed

lemma same_node: "u div 32 = v div 32 \<Longrightarrow> u mod 32 = v mod 32 \<longleftrightarrow> u = (v :: nat)"
  by (metis div_mult_mod_eq)

lemma clear_node:
  assumes "tree b F S n" and "v < 64"
  shows "\<exists>b'. nb_upd (of_nat (v div 32)) (\<lambda>w. w AND NOT (shl1 (of_nat (v mod 32)))) b = Inr b' \<and> tree b' (F - {v}) S n"
proof -
  have "v div 32 < 2" using assms(2) by simp
  note upd = nb_upd_tree [OF assms(1) this, of "\<lambda>w. w AND NOT (shl1 (of_nat (v mod 32)))"]
  have "{u. u < 64 \<and> (if u div 32 = v div 32 then bit (bb_area b ! (2 + v div 32) AND NOT (shl1 (of_nat (v mod 32)))) (u mod 32)
      else u \<in> F)} = F - {v}"
    using treeD(2) [OF assms(1)] same_node [of _ v] by (auto simp: frees_iff bit_and_iff bit_not_iff shl1_bit)
  then show ?thesis using upd by simp
qed

lemma set_node:
  assumes "tree b F S n" and "v < 64"
  shows "\<exists>b'. nb_upd (of_nat (v div 32)) (\<lambda>w. w OR shl1 (of_nat (v mod 32))) b = Inr b' \<and> tree b' (insert v F) S n"
proof -
  have "v div 32 < 2" using assms(2) by simp
  note upd = nb_upd_tree [OF assms(1) this, of "\<lambda>w. w OR shl1 (of_nat (v mod 32))"]
  have "{u. u < 64 \<and> (if u div 32 = v div 32 then bit (bb_area b ! (2 + v div 32) OR shl1 (of_nat (v mod 32))) (u mod 32)
      else u \<in> F)} = insert v F"
    using treeD(2) [OF assms(1)] same_node [of _ v] assms(2) by (auto simp: frees_iff bit_or_iff shl1_bit)
  then show ?thesis using upd by simp
qed

lemma join_node:
  assumes "tree b F S n" and "v < 64"
  shows "\<exists>b'. pb_upd (of_nat (v div 32)) (\<lambda>w. w OR shl1 (of_nat (v mod 32))) b = Inr b' \<and> tree b' F (S - {v}) n"
proof -
  have "v div 32 < 2" using assms(2) by simp
  note upd = pb_upd_tree [OF assms(1) this, of "\<lambda>w. w OR shl1 (of_nat (v mod 32))"]
  have "{u. u < 64 \<and> (if u div 32 = v div 32 then \<not> bit (bb_area b ! (v div 32) OR shl1 (of_nat (v mod 32))) (u mod 32)
      else u \<in> S)} = S - {v}"
    using treeD(3) [OF assms(1)] same_node [of _ v] by (auto simp: splits_iff bit_or_iff shl1_bit)
  then show ?thesis using upd by simp
qed

lemma separate_node:
  assumes "tree b F S n" and "v < 64"
  shows "\<exists>b'. pb_upd (of_nat (v div 32)) (\<lambda>w. w AND NOT (shl1 (of_nat (v mod 32)))) b = Inr b' \<and> tree b' F (insert v S) n"
proof -
  have "v div 32 < 2" using assms(2) by simp
  note upd = pb_upd_tree [OF assms(1) this, of "\<lambda>w. w AND NOT (shl1 (of_nat (v mod 32)))"]
  have "{u. u < 64 \<and> (if u div 32 = v div 32 then \<not> bit (bb_area b ! (v div 32) AND NOT (shl1 (of_nat (v mod 32)))) (u mod 32)
      else u \<in> S)} = insert v S"
    using treeD(3) [OF assms(1)] same_node [of _ v] assms(2) by (auto simp: splits_iff bit_and_iff bit_not_iff shl1_bit)
  then show ?thesis using upd by simp
qed

lemma mark_used_tree:
  assumes "tree b F S n" and "v < 64"
  shows "\<exists>b'. mark_used (of_nat (v div 32)) (of_nat (v mod 32)) b = Inr b' \<and> tree b' (F - {v}) (S - {v}) n"
proof -
  obtain b1 where b1: "nb_upd (of_nat (v div 32)) (\<lambda>w. w AND NOT (shl1 (of_nat (v mod 32)))) b = Inr b1" "tree b1 (F - {v}) S n"
    using clear_node [OF assms] by blast
  show ?thesis using join_node [OF b1(2) assms(2)] by (simp add: mark_used_def b1(1) del: of_nat_mod)
qed

lemma mark_separated_tree:
  assumes "tree b F S n" and "v < 64"
  shows "\<exists>b'. mark_separated (of_nat (v div 32)) (of_nat (v mod 32)) b = Inr b' \<and> tree b' (F - {v}) (insert v S) n"
proof -
  obtain b1 where b1: "nb_upd (of_nat (v div 32)) (\<lambda>w. w AND NOT (shl1 (of_nat (v mod 32)))) b = Inr b1" "tree b1 (F - {v}) S n"
    using clear_node [OF assms] by blast
  show ?thesis using separate_node [OF b1(2) assms(2)] by (simp add: mark_separated_def b1(1) del: of_nat_mod)
qed

lemma double_place: "Suc (2 * v) div 32 = 2 * v div 32 \<and> Suc (2 * v) mod 32 = Suc (2 * v mod 32)"
proof -
  have v: "2 * v = 2 * (v mod 16) + 32 * (v div 16)"
    using mult_div_mod_eq [of 16 v] by linarith
  have "v mod 16 < 16" by simp
  then have r: "2 * (v mod 16) < 32" "Suc (2 * (v mod 16)) < 32" by linarith+
  have "2 * v div 32 = v div 16" "2 * v mod 32 = 2 * (v mod 16)"
    unfolding v using r(1) by simp_all
  moreover have "Suc (2 * v) div 32 = v div 16" "Suc (2 * v) mod 32 = Suc (2 * (v mod 16))"
    unfolding v using r(2) div_mult_self2 [of 32 "Suc (2 * (v mod 16))" "v div 16"]
      mod_mult_self2 [of "Suc (2 * (v mod 16))" 32 "v div 16"] by simp_all
  ultimately show ?thesis by simp
qed

lemma mark_childs_tree:
  assumes "tree b F S n" and "v < 32"
  shows "\<exists>b'. mark_childs_free (of_nat (2 * v div 32)) (of_nat (2 * v mod 32)) b = Inr b' \<and>
    tree b' (F \<union> {2 * v, 2 * v + 1}) (S - {2 * v, 2 * v + 1}) n"
proof -
  let ?p = "2 * v div 32" and ?n = "2 * v mod 32"
  have v: "2 * v < 64" "Suc (2 * v) < 64" and nx: "Suc (2 * v) div 32 = ?p" "Suc (2 * v) mod 32 = Suc ?n"
    using assms(2) double_place [of v] by simp_all
  obtain b1 where b1: "nb_upd (of_nat ?p) (\<lambda>w. w OR shl1 (of_nat ?n)) b = Inr b1" "tree b1 (insert (2 * v) F) S n"
    using set_node [OF assms(1) v(1)] by blast
  obtain b2 where b2: "nb_upd (of_nat ?p) (\<lambda>w. w OR shl1 (of_nat (Suc ?n))) b1 = Inr b2"
    "tree b2 (insert (Suc (2 * v)) (insert (2 * v) F)) S n"
    using set_node [OF b1(2) v(2)] unfolding nx by blast
  obtain b3 where b3: "pb_upd (of_nat ?p) (\<lambda>w. w OR shl1 (of_nat ?n)) b2 = Inr b3"
    "tree b3 (insert (Suc (2 * v)) (insert (2 * v) F)) (S - {2 * v}) n"
    using join_node [OF b2(2) v(1)] by blast
  obtain b4 where b4: "pb_upd (of_nat ?p) (\<lambda>w. w OR shl1 (of_nat (Suc ?n))) b3 = Inr b4"
    "tree b4 (insert (Suc (2 * v)) (insert (2 * v) F)) (S - {2 * v} - {Suc (2 * v)}) n"
    using join_node [OF b3(2) v(2)] unfolding nx by blast
  have "(of_nat ?n + 1 :: u32) = of_nat (Suc ?n)" by (simp only: of_nat_Suc add.commute)
  then have "mark_childs_free (of_nat ?p) (of_nat ?n) b = Inr b4"
    by (simp only: mark_childs_free_def b1(1) b2(1) b3(1) b4(1) rbind_simps)
  moreover have "insert (Suc (2 * v)) (insert (2 * v) F) = F \<union> {2 * v, 2 * v + 1}" "S - {2 * v} - {Suc (2 * v)} = S - {2 * v, 2 * v + 1}"
    by auto
  ultimately show ?thesis using b4(2) by simp
qed

definition layer_free :: "nat \<Rightarrow> bbuddy \<Rightarrow> nat option" where
  "layer_free l b = find (\<lambda>v. v \<in> frees b) [2 ^ l..<2 ^ Suc l]"

lemma find_cong_range: "(\<And>i. a \<le> i \<Longrightarrow> i < c \<Longrightarrow> P i = Q i) \<Longrightarrow> find P [a..<c] = find Q [a..<c]"
  by (rule find_cong) auto

lemma small_nb_read: "small_tree b \<Longrightarrow> nb_read 0 b = Inr (bb_area b ! 2) \<and> nb_read 1 b = Inr (bb_area b ! 3)"
  by (simp add: nb_read_def area_read_def small_tree_def)

lemma small_layers: "(l :: nat) < 5 \<Longrightarrow> l = 0 \<or> l = 1 \<or> l = 2 \<or> l = 3 \<or> l = 4"
  by linarith

lemma alloc_above: "block_alloc 0 m b = Some (Inr (ENOBLOCK, b))"
  by (subst block_alloc.simps) (simp add: Let_def)

lemma scan_small:
  assumes "small_tree b" and "l < 5"
  shows "find (\<lambda>i. bb_area b ! 2 AND shl1 (of_nat i) \<noteq> 0) [2 ^ l..<2 ^ Suc l] = layer_free l b"
  unfolding layer_free_def
proof (rule find_cong_range)
  fix i :: nat
  assume "i < 2 ^ Suc l"
  also have "\<dots> \<le> 2 ^ 5" using assms(2) by (intro power_increasing) simp_all
  finally have "i < 32" by simp
  then show "(bb_area b ! 2 AND shl1 (of_nat i) \<noteq> 0) = (i \<in> frees b)"
    by (simp add: and_shl1 frees_iff)
qed

lemma find_map: "find P (map f xs) = map_option f (find (P \<circ> f) xs)"
  by (induction xs) simp_all

lemma scan_top:
  assumes "small_tree b"
  shows "map_option (\<lambda>i. i + 32) (find (\<lambda>i. bb_area b ! 3 AND shl1 (of_nat i) \<noteq> 0) [0..<32]) = layer_free 5 b"
proof -
  have "find (\<lambda>i. bb_area b ! 3 AND shl1 (of_nat i) \<noteq> 0) [0..<32] = find ((\<lambda>v. v \<in> frees b) \<circ> (\<lambda>i. i + 32)) [0..<32]"
  proof (rule find_cong_range)
    fix i :: nat
    assume i: "i < 32"
    have "(i + 32) div 32 = Suc (i div 32)" "(i + 32) mod 32 = i mod 32" by simp_all
    with i show "(bb_area b ! 3 AND shl1 (of_nat i) \<noteq> 0) = ((\<lambda>v. v \<in> frees b) \<circ> (\<lambda>i. i + 32)) i"
      by (simp only: and_shl1 frees_iff o_def) simp
  qed
  moreover have "[2 ^ 5..<2 ^ Suc 5] = map (\<lambda>i. i + 32) [0..<32 :: nat]"
    by (simp add: map_add_upt)
  ultimately show ?thesis
    by (simp only: layer_free_def find_map)
qed

lemma layer_words:
  assumes "(l :: nat) < 5"
  shows "drop_bit 5 (2 ^ l :: u32) = 0" and "(2 ^ l :: u32) \<noteq> 0" and "unat (2 ^ l :: u32) = 2 ^ l"
    and "push_bit 1 (2 ^ l :: u32) = 2 ^ Suc l" and "unat (2 ^ Suc l :: u32) = 2 ^ Suc l"
    and "\<not> (2 ^ Suc l :: u32) < 2"
  using small_layers [OF assms] by (auto simp: push_bit_eq_mult)

lemma block_small:
  assumes "small_tree b" and "l < 5"
  shows "block_alloc (2 ^ l) m b =
    (case layer_free l b of
       None \<Rightarrow> block_alloc (2 ^ l div 2) (m + 1) b
     | Some v \<Rightarrow>
         if m = 0 then obind (Some (mark_used 0 (of_nat v) b)) (\<lambda>b. Some (Inr (of_nat v - 2 ^ l, b)))
         else obind (Some (mark_separated 0 (of_nat v) b)) (\<lambda>b.
           obind (Some (mark_childs_free (drop_bit 5 (2 ^ Suc l)) (bbuddy_indexbn (push_bit 1 (of_nat v))) b))
             (block_alloc (2 ^ Suc l) (m - 1))))"
proof -
  have "nb_read 0 b = Inr (bb_area b ! 2)" using small_nb_read [OF assms(1)] by simp
  then show ?thesis
    by (subst block_alloc.simps) (simp only: Let_def layer_words [OF assms(2)] scan_small [OF assms]
      obind_simps if_False simp_thms not_True_eq_False)
qed

lemma block_top:
  assumes "small_tree b"
  shows "block_alloc 32 m b =
    (case layer_free 5 b of
       None \<Rightarrow> block_alloc 16 (m + 1) b
     | Some v \<Rightarrow>
         if m = 0 then obind (Some (mark_used 1 (of_nat (v - 32)) b)) (\<lambda>b. Some (Inr (of_nat (v - 32), b)))
         else block_alloc 32 m b)"
proof -
  let ?scan = "find (\<lambda>i. bb_area b ! 3 AND shl1 (of_nat i) \<noteq> 0) [0..<32]"
  have r: "nb_read 1 b = Inr (bb_area b ! 3)" using small_nb_read [OF assms] by simp
  have none: "layer_free 5 b = None \<longleftrightarrow> bb_area b ! 3 = 0"
  proof -
    have "layer_free 5 b = None \<longleftrightarrow> (\<forall>i<32. \<not> bit (bb_area b ! 3) i)"
    proof -
      have "bb_area b ! 3 AND shl1 (of_nat i) = 0 \<longleftrightarrow> \<not> bit (bb_area b ! 3) i" if "i < 32" for i
        using and_shl1 [OF that] by blast
      then show ?thesis by (simp add: scan_top [OF assms, symmetric] find_None_iff)
    qed
    also have "\<dots> \<longleftrightarrow> bb_area b ! 3 = 0" by (auto intro!: bit_word_eqI)
    finally show ?thesis .
  qed
  have f: "first_word 1 [0..<unat (1 :: u32)] b = Inr (if bb_area b ! 3 = 0 then None else Some 0)"
    by (simp add: r)
  show ?thesis
  proof (cases "layer_free 5 b")
    case None
    then show ?thesis using none by (subst block_alloc.simps) (simp add: Let_def r)
  next
    case (Some v)
    then obtain i where i: "?scan = Some i" "v = i + 32"
      by (auto simp: scan_top [OF assms, symmetric])
    show ?thesis
    proof (cases "m = 0")
      case True
      then show ?thesis
        using Some none i by (subst block_alloc.simps) (simp add: Let_def r)
    qed (simp add: Some)
  qed
qed

lemma layer_freeD:
  assumes "layer_free l b = Some v"
  shows "2 ^ l \<le> v" and "v < 2 ^ Suc l" and "v \<in> frees b"
  using assms by (auto simp: layer_free_def find_Some_iff nth_append)

lemma take_step:
  assumes "tree b F S n" and "l \<le> 5" and "layer_free l b = Some v"
  obtains b' where "block_alloc (2 ^ l) 0 b = Some (Inr (of_nat (v - 2 ^ l), b'))" "tree b' (F - {v}) (S - {v}) n"
proof -
  note small = treeD(1) [OF assms(1)]
  note v = layer_freeD [OF assms(3)]
  have "(2 :: nat) ^ Suc l \<le> 2 ^ 6" using assms(2) by (intro power_increasing) simp_all
  with v have v64: "v < 64" by simp
  obtain b' where b': "mark_used (of_nat (v div 32)) (of_nat (v mod 32)) b = Inr b'" "tree b' (F - {v}) (S - {v}) n"
    using mark_used_tree [OF assms(1) v64] by blast
  have "block_alloc (2 ^ l) 0 b = Some (Inr (of_nat (v - 2 ^ l), b'))"
  proof (cases "l = 5")
    case True
    then have "v div 32 = 1" "v mod 32 = v - 32" using v v64 by (simp_all add: div_nat_eqI mod_if)
    with b' True assms(3) show ?thesis by (simp add: block_top [OF small])
  next
    case False
    then have l: "l < 5" using assms(2) by simp
    then have "(2 :: nat) ^ Suc l \<le> 2 ^ 5" by (intro power_increasing) simp_all
    with v have "v div 32 = 0" "v mod 32 = v" by simp_all
    with b' assms(3) v(1) show ?thesis by (simp add: block_small [OF small l] of_nat_diff)
  qed
  with that b' show thesis by blast
qed

lemma split_step:
  assumes "tree b F S n" and "l < 5" and "layer_free l b = Some v" and "m \<noteq> 0"
  obtains b' where "block_alloc (2 ^ l) m b = block_alloc (2 ^ Suc l) (m - 1) b'"
    "tree b' (F - {v} \<union> {2 * v, 2 * v + 1}) (insert v S - {2 * v, 2 * v + 1}) n"
proof -
  note v = layer_freeD [OF assms(3)]
  have "(2 :: nat) ^ Suc l \<le> 2 ^ 5" using assms(2) by (intro power_increasing) simp_all
  with v have v32: "v < 32" by simp
  obtain b1 where b1: "mark_separated (of_nat (v div 32)) (of_nat (v mod 32)) b = Inr b1" "tree b1 (F - {v}) (insert v S) n"
    using mark_separated_tree [OF assms(1), of v] v32 by auto
  obtain b2 where b2: "mark_childs_free (of_nat (2 * v div 32)) (of_nat (2 * v mod 32)) b1 = Inr b2"
    "tree b2 (F - {v} \<union> {2 * v, 2 * v + 1}) (insert v S - {2 * v, 2 * v + 1}) n"
    using mark_childs_tree [OF b1(2) v32] by blast
  have two: "push_bit 1 (of_nat v :: u32) = of_nat (2 * v)" by (simp add: push_bit_eq_mult)
  have small: "unat (of_nat (2 * v) :: u32) = 2 * v" using v32 by (intro unat_of_nat_small) simp
  have layer: "drop_bit 5 (2 ^ Suc l :: u32) = of_nat (2 * v div 32)"
  proof -
    have "2 * v div 32 = (if l = 4 then 1 else 0)"
      using small_layers [OF assms(2)] v v32 by (auto simp: div_nat_eqI)
    then show ?thesis using small_layers [OF assms(2)] by (auto simp: drop_bit_eq_div)
  qed
  have place: "bbuddy_indexbn (of_nat (2 * v)) = of_nat (2 * v mod 32)"
  proof -
    have "unat ((of_nat (2 * v) :: u32) mod 32) = 2 * v mod 32"
      by (simp only: unat_mod small) simp
    then have "(of_nat (2 * v) :: u32) mod 32 = of_nat (2 * v mod 32)"
      by (metis of_nat_unat ucast_id)
    moreover have "2 * v mod 32 = 2 * v" if "drop_bit 5 (of_nat (2 * v) :: u32) = 0"
    proof -
      have "unat (drop_bit 5 (of_nat (2 * v) :: u32)) = 2 * v div 32" by (simp only: unat_drop_bit small) simp
      then show ?thesis using that by simp
    qed
    ultimately show ?thesis by (auto simp: bbuddy_indexbn_def)
  qed
  have "block_alloc (2 ^ l) m b = block_alloc (2 ^ Suc l) (m - 1) b2"
    using b1(1) b2(1) v32 assms(3,4)
    by (simp only: block_small [OF treeD(1) [OF assms(1)] assms(2)] two layer place option.case if_False) simp
  with that b1 b2 show thesis by blast
qed

lemma up_step:
  assumes "small_tree b" and "0 < l" and "l \<le> 5" and "layer_free l b = None"
  shows "block_alloc (2 ^ l) m b = block_alloc (2 ^ (l - 1)) (m + 1) b"
proof (cases "l = 5")
  case True
  then show ?thesis using assms by (simp add: block_top)
next
  case False
  then have "l < 5" using assms by simp
  then show ?thesis
    using assms block_small [OF assms(1), of l m] small_layers [of l] by auto
qed

lemma none_step:
  assumes "small_tree b" and "layer_free 0 b = None"
  shows "block_alloc 1 m b = Some (Inr (ENOBLOCK, b))"
  using block_small [OF assms(1), of 0 m] assms(2) alloc_above [of "m + 1" b] by simp

section \<open>Blocks as sets of units\<close>

text \<open>The units are the nodes 32 to 63 of the lowest layer; \<open>path u j\<close> is the node of layer \<open>j\<close> above unit \<open>u\<close>.\<close>

definition path :: "nat \<Rightarrow> nat \<Rightarrow> nat" where
  "path u j = u div 2 ^ (5 - j)"

definition units :: "nat set" where
  "units = {32..<64}"

definition free_units :: "nat set \<Rightarrow> nat set" where
  "free_units F = {u \<in> units. \<exists>j\<le>5. path u j \<in> F}"

definition apart :: "nat set \<Rightarrow> bool" where
  "apart F \<longleftrightarrow> (\<forall>u\<in>units. \<forall>i\<le>5. \<forall>j\<le>5. path u i \<in> F \<and> path u j \<in> F \<longrightarrow> i = j)"

definition block_units :: "nat \<Rightarrow> nat \<Rightarrow> nat set" where
  "block_units l v = {u \<in> units. path u l = v}"

lemma path_layer:
  assumes "u \<in> units" and "j \<le> 5"
  shows "2 ^ j \<le> path u j" and "path u j < 2 ^ Suc j"
proof -
  have "(2 :: nat) ^ j * 2 ^ (5 - j) = 2 ^ 5" using assms(2) by (simp flip: power_add)
  with assms show "2 ^ j \<le> path u j" "path u j < 2 ^ Suc j"
    by (simp_all add: path_def units_def less_eq_div_iff_mult_less_eq div_less_iff_less_mult)
qed

lemma layer_unique:
  assumes "2 ^ i \<le> v" and "v < 2 ^ Suc i" and "2 ^ j \<le> v" and "v < (2 :: nat) ^ Suc j"
  shows "i = j"
proof -
  have "(2 :: nat) ^ i < 2 ^ Suc j" "(2 :: nat) ^ j < 2 ^ Suc i" using assms by linarith+
  then show ?thesis by (simp add: power_strict_increasing_iff del: power_Suc)
qed

lemma path_half: "j < 5 \<Longrightarrow> path u (Suc j) div 2 = path u j"
proof -
  assume "j < 5"
  then have "5 - j = Suc (5 - Suc j)" by simp
  then show ?thesis by (simp only: path_def div_mult2_eq [symmetric] power_Suc2)
qed

lemma path_at:
  assumes "u \<in> units" and "j \<le> 5" and "2 ^ l \<le> path u j" and "path u j < 2 ^ Suc l"
  shows "j = l"
  using layer_unique [of j "path u j" l] path_layer [OF assms(1,2)] assms(3,4) by simp

lemma take_units:
  assumes "apart F" and "v \<in> F" and "2 ^ l \<le> v" and "v < 2 ^ Suc l" and "l \<le> 5"
  shows "apart (F - {v})" and "free_units (F - {v}) = free_units F - block_units l v" and "block_units l v \<subseteq> free_units F"
proof -
  show "apart (F - {v})" using assms(1) unfolding apart_def by blast
  have "(\<exists>j\<le>5. path u j \<in> F - {v}) \<longleftrightarrow> (\<exists>j\<le>5. path u j \<in> F) \<and> path u l \<noteq> v" if u: "u \<in> units" for u
  proof (cases "path u l = v")
    case True
    then have "j = l" if "j \<le> 5" "path u j \<in> F" for j
      using assms that u unfolding apart_def by blast
    with True show ?thesis by blast
  next
    case False
    then have "path u j \<noteq> v" if "j \<le> 5" for j
      using path_at [OF u that, of l] assms(3,4) by auto
    with False show ?thesis by blast
  qed
  then show "free_units (F - {v}) = free_units F - block_units l v" "block_units l v \<subseteq> free_units F"
    using assms(2,5) by (auto simp: free_units_def block_units_def)
qed

lemma split_units:
  assumes "apart F" and "v \<in> F" and "2 ^ l \<le> v" and "v < 2 ^ Suc l" and "l < 5"
  defines "G \<equiv> F - {v} \<union> {2 * v, 2 * v + 1}"
  shows "apart G" and "free_units G = free_units F"
proof -
  have child: "path u j \<in> {2 * v, 2 * v + 1} \<longleftrightarrow> j = Suc l \<and> path u l = v" if u: "u \<in> units" and j: "j \<le> 5" for u j
  proof
    assume c: "path u j \<in> {2 * v, 2 * v + 1}"
    with assms(3,4) have "2 ^ Suc l \<le> path u j" "path u j < 2 ^ Suc (Suc l)" by auto
    with u j have "j = Suc l" by (rule path_at)
    with c path_half [OF assms(5), of u] show "j = Suc l \<and> path u l = v" by auto
  next
    assume "j = Suc l \<and> path u l = v"
    with path_half [OF assms(5), of u] have "path u j div 2 = v" by simp
    then show "path u j \<in> {2 * v, 2 * v + 1}" by (metis div_mod_decomp empty_iff insert_iff mod2_eq_if
      mult.commute add.right_neutral)
  qed
  have on: "path u j \<in> G \<longleftrightarrow> (if path u l = v then j = Suc l else path u j \<in> F)" if u: "u \<in> units" and j: "j \<le> 5" for u j
  proof (cases "path u l = v")
    case True
    have "i = l" if "i \<le> 5" "path u i \<in> F" for i
      using assms True that u unfolding apart_def by (meson less_imp_le)
    with True child [OF u j] j show ?thesis by (auto simp: G_def)
  next
    case False
    then have "path u j \<noteq> v" using path_at [OF u j, of l] assms(3,4) by auto
    with False child [OF u j] show ?thesis by (simp add: G_def)
  qed
  show "apart G"
    using assms(1) on unfolding apart_def by (metis (full_types))
  have "(\<exists>j\<le>5. path u j \<in> G) \<longleftrightarrow> (\<exists>j\<le>5. path u j \<in> F)" if u: "u \<in> units" for u
  proof (cases "path u l = v")
    case True
    then have "path u l \<in> F" "path u (Suc l) \<in> G" using on [OF u, of "Suc l"] assms(2,5) by simp_all
    moreover have "l \<le> 5" "Suc l \<le> 5" using assms(5) by simp_all
    ultimately show ?thesis by blast
  qed (use on [OF u] in auto)
  then show "free_units G = free_units F"
    by (simp add: free_units_def cong: conj_cong)
qed

section \<open>Allocation\<close>

lemma layer_free_cong: "(\<And>v. 2 ^ j \<le> v \<Longrightarrow> v < 2 ^ Suc j \<Longrightarrow> v \<in> frees b \<longleftrightarrow> v \<in> frees c) \<Longrightarrow> layer_free j b = layer_free j c"
  unfolding layer_free_def by (rule find_cong_range)

lemma layer_free_first:
  assumes "frees c = frees b - {v} \<union> {2 * v, 2 * v + 1}" and "2 ^ l \<le> v" and "v < 2 ^ Suc l"
    and "layer_free (Suc l) b = None"
  shows "layer_free (Suc l) c = Some (2 * v)"
proof -
  have "u \<notin> frees b" if "2 ^ Suc l \<le> u" "u < 2 ^ Suc (Suc l)" for u
    using assms(4) that by (auto simp: layer_free_def find_None_iff)
  moreover have "2 ^ Suc l \<le> 2 * v" "2 * v < 2 ^ Suc (Suc l)" using assms(2,3) by simp_all
  moreover have "[2 ^ Suc l..<2 ^ Suc (Suc l)] ! (2 * v - 2 ^ Suc l) = 2 * v"
    using assms(2,3) by (subst nth_upt) simp_all
  ultimately show ?thesis
    unfolding layer_free_def find_Some_iff assms(1)
    by (intro exI [of _ "2 * v - 2 ^ Suc l"]) (auto simp del: power_Suc)
qed

text \<open>No node above or below a free one is free.\<close>

lemma apart_above:
  assumes "apart F" and "x \<in> F" and "2 ^ l \<le> x" and "x < 2 ^ Suc l" and "l \<le> 5" and "1 \<le> k" and "k \<le> l"
  shows "x div 2 ^ k \<notin> F"
proof -
  have p: "(2 :: nat) ^ l * 2 ^ (5 - l) = 32" "(2 :: nat) ^ Suc l * 2 ^ (5 - l) = 64" "5 - (l - k) = (5 - l) + k"
    using assms(5-7) by (simp_all flip: power_add)
  define u where "u = x * 2 ^ (5 - l)"
  have "2 ^ l * 2 ^ (5 - l) \<le> u" unfolding u_def by (rule mult_le_mono1 [OF assms(3)])
  moreover have "u < 2 ^ Suc l * 2 ^ (5 - l)" unfolding u_def using assms(4) by (intro mult_strict_right_mono) simp_all
  ultimately have "u \<in> units" unfolding p by (simp add: units_def)
  moreover have "path u l = x" "path u (l - k) = x div 2 ^ k"
    unfolding path_def u_def p(3) by (simp_all add: power_add div_mult2_eq)
  ultimately show ?thesis using assms(1,2,5-7) unfolding apart_def by (metis diff_le_self dual_order.trans diff_less less_irrefl less_le_trans zero_less_one)
qed

lemma apart_below:
  assumes "apart F" and "v \<in> F" and "2 ^ l \<le> v" and "v < 2 ^ Suc l" and "l + k \<le> 5" and "1 \<le> k" and "r < 2 ^ k"
  shows "v * 2 ^ k + r \<notin> F"
proof
  let ?x = "v * 2 ^ k + r"
  assume x: "?x \<in> F"
  have low: "2 ^ l * 2 ^ k \<le> v * 2 ^ k" by (rule mult_le_mono1 [OF assms(3)])
  have high: "Suc v * 2 ^ k \<le> 2 ^ Suc l * 2 ^ k" using assms(4) by (intro mult_le_mono1) (simp only: Suc_le_eq)
  have "2 ^ (l + k) \<le> ?x" unfolding power_add using low by (rule trans_le_add1)
  moreover have "?x < Suc v * 2 ^ k" using assms(7) by simp
  then have "?x < 2 ^ Suc (l + k)" using high by (simp add: power_add)
  ultimately have "2 ^ (l + k) \<le> ?x" "?x < 2 ^ Suc (l + k)" .
  from apart_above [OF assms(1) x this assms(5,6)] have "?x div 2 ^ k \<notin> F" by simp
  then show False using assms(2,7) by simp
qed

text \<open>The free nodes after the block \<open>v * 2 ^ m\<close> is split off the free node \<open>v\<close>, and what becomes of the nodes that are
  split.\<close>

definition chain :: "nat set \<Rightarrow> nat \<Rightarrow> nat \<Rightarrow> nat set" where
  "chain F v m = F - {v} \<union> (\<lambda>k. v * 2 ^ k + 1) ` {1..m}"

definition splits_to :: "nat set \<Rightarrow> nat \<Rightarrow> nat \<Rightarrow> nat set \<Rightarrow> bool" where
  "splits_to S v m S' \<longleftrightarrow> v * 2 ^ m \<notin> S' \<and> (\<forall>k<m. v * 2 ^ k \<in> S') \<and> (\<forall>u. (\<forall>k. u div 2 ^ k \<noteq> v) \<longrightarrow> u \<in> S' \<longleftrightarrow> u \<in> S)"

lemma chain_0: "chain F v 0 = F - {v}"
  by (simp add: chain_def)

lemma chain_Suc:
  assumes "2 * v \<notin> F"
  shows "chain F v (Suc m) = chain (F - {v} \<union> {2 * v, 2 * v + 1}) (2 * v) m"
proof -
  have "{1..Suc m} = insert 1 (Suc ` {1..m})" by (simp add: image_Suc_atLeastAtMost) auto
  then have "(\<lambda>k. v * 2 ^ k + 1) ` {1..Suc m} = insert (v * 2 ^ 1 + 1) ((\<lambda>k. v * 2 ^ Suc k + 1) ` {1..m})"
    by (simp only: image_insert image_image)
  also have "\<dots> = insert (2 * v + 1) ((\<lambda>k. 2 * v * 2 ^ k + 1) ` {1..m})" by (simp add: mult.assoc mult.left_commute) (simp add: mult.commute)
  finally have "(\<lambda>k. v * 2 ^ k + 1) ` {1..Suc m} = insert (2 * v + 1) ((\<lambda>k. 2 * v * 2 ^ k + 1) ` {1..m})" .
  moreover have "F - {v} \<union> {2 * v, 2 * v + 1} - {2 * v} = insert (2 * v + 1) (F - {v})" using assms by auto
  ultimately show ?thesis by (simp add: chain_def)
qed

lemma splits_to_Suc:
  assumes "splits_to (insert v S - {2 * v, 2 * v + 1}) (2 * v) m S'" and "0 < v"
  shows "splits_to S v (Suc m) S'"
proof -
  have a: "2 * v * 2 ^ m \<notin> S'" "\<forall>k<m. 2 * v * 2 ^ k \<in> S'"
    "\<And>u. (\<forall>k. u div 2 ^ k \<noteq> 2 * v) \<Longrightarrow> u \<in> S' \<longleftrightarrow> u \<in> insert v S - {2 * v, 2 * v + 1}"
    using assms(1) by (simp_all add: splits_to_def)
  have "v div 2 ^ k \<noteq> 2 * v" for k
  proof -
    have "v div 2 ^ k \<le> v" by (rule div_le_dividend)
    then show ?thesis using assms(2) by linarith
  qed
  moreover have "v \<in> insert v S - {2 * v, 2 * v + 1}" using assms(2) by simp
  ultimately have v: "v \<in> S'" using a(3) by blast
  have "v * 2 ^ k \<in> S'" if "k < Suc m" for k
  proof (cases k)
    case (Suc j)
    then have "2 * v * 2 ^ j \<in> S'" using a(2) that by simp
    then show ?thesis unfolding Suc by (simp add: mult.assoc mult.left_commute)
  qed (use v in simp)
  moreover have "u \<in> S' \<longleftrightarrow> u \<in> S" if u: "\<forall>k. u div 2 ^ k \<noteq> v" for u
  proof -
    have "u div 2 ^ k \<noteq> 2 * v" for k
    proof
      assume "u div 2 ^ k = 2 * v"
      then have "u div 2 ^ Suc k = v" by (simp only: power_Suc2 div_mult2_eq)
      with u show False by blast
    qed
    moreover have "u \<noteq> v" using spec [OF u, of 0] by simp
    moreover have "u \<noteq> 2 * v" "u \<noteq> 2 * v + 1" using spec [OF u, of 1] by auto
    ultimately show ?thesis using a(3) [of u] by blast
  qed
  moreover have "v * 2 ^ Suc m \<notin> S'" using a(1) by (simp add: mult.assoc mult.left_commute)
  ultimately show ?thesis by (simp add: splits_to_def)
qed

lemma chain_units:
  assumes "apart F" and "v \<in> F" and "2 ^ l \<le> v" and "v < 2 ^ Suc l" and "l + m \<le> 5"
  shows "apart (chain F v m)" and "free_units (chain F v m) = free_units F - block_units (l + m) (v * 2 ^ m)"
    and "block_units (l + m) (v * 2 ^ m) \<subseteq> free_units F"
proof -
  have "apart (chain F v m) \<and> free_units (chain F v m) = free_units F - block_units (l + m) (v * 2 ^ m) \<and>
    block_units (l + m) (v * 2 ^ m) \<subseteq> free_units F"
    using assms
  proof (induction m arbitrary: F v l)
    case 0
    then show ?case using take_units [of F v l] by (simp add: chain_0)
  next
    case (Suc m)
    let ?G = "F - {v} \<union> {2 * v, 2 * v + 1}"
    have l: "l < 5" using Suc.prems(5) by simp
    note split = split_units [OF Suc.prems(1-4) l]
    have "2 * v \<notin> F" using apart_below [OF Suc.prems(1-4), of 1 0] l by (simp add: mult.commute)
    note step = chain_Suc [OF this, of m]
    have at: "2 * v * 2 ^ m = v * 2 ^ Suc m" "Suc l + m = l + Suc m" by simp_all
    have "apart (chain ?G (2 * v) m) \<and>
        free_units (chain ?G (2 * v) m) = free_units ?G - block_units (Suc l + m) (2 * v * 2 ^ m) \<and>
        block_units (Suc l + m) (2 * v * 2 ^ m) \<subseteq> free_units ?G"
      by (rule Suc.IH [OF split(1)]) (use Suc.prems(3-5) in simp_all)
    then show ?case unfolding step split(2) at .
  qed
  then show "apart (chain F v m)" "free_units (chain F v m) = free_units F - block_units (l + m) (v * 2 ^ m)"
    "block_units (l + m) (v * 2 ^ m) \<subseteq> free_units F" by blast+
qed

definition gives_block :: "(u32 \<times> bbuddy) res option \<Rightarrow> nat \<Rightarrow> nat \<Rightarrow> nat \<Rightarrow> nat set \<Rightarrow> nat set \<Rightarrow> u32 \<Rightarrow> bool" where
  "gives_block r l m v F S n \<longleftrightarrow> (\<exists>b' S'. r = Some (Inr (of_nat (v * 2 ^ m - 2 ^ (l + m)), b')) \<and>
     tree b' (chain F v m) S' n \<and> splits_to S v m S')"

lemma alloc_down:
  assumes "tree b F S n" and "apart F" and "layer_free l b = Some v" and "l + m \<le> 5"
    and "\<And>j. l < j \<Longrightarrow> j \<le> l + m \<Longrightarrow> layer_free j b = None"
  shows "gives_block (block_alloc (2 ^ l) (of_nat m) b) l m v F S n"
  using assms
proof (induction m arbitrary: l v b F S)
  case 0
  have l: "l \<le> 5" using "0.prems"(4) by simp
  obtain b' where "block_alloc (2 ^ l) 0 b = Some (Inr (of_nat (v - 2 ^ l), b'))" "tree b' (F - {v}) (S - {v}) n"
    using take_step [OF "0.prems"(1) l "0.prems"(3)] .
  moreover have "u \<in> S - {v} \<longleftrightarrow> u \<in> S" if "\<forall>k. u div 2 ^ k \<noteq> v" for u using spec [OF that, of 0] by simp
  then have "splits_to S v 0 (S - {v})" unfolding splits_to_def by (intro conjI allI impI) simp_all
  ultimately show ?case unfolding gives_block_def chain_0 by auto
next
  case (Suc m)
  note v = layer_freeD [OF Suc.prems(3)]
  have vF: "v \<in> F" and l: "l < 5" using v(3) treeD(2) [OF Suc.prems(1)] Suc.prems(4) by simp_all
  have m: "(of_nat (Suc m) :: u8) \<noteq> 0" "(of_nat (Suc m) :: u8) - 1 = of_nat m"
  proof -
    have "unat (of_nat (Suc m) :: u8) = Suc m" using Suc.prems(4) by (intro unat_of_nat_small) simp
    then show "(of_nat (Suc m) :: u8) \<noteq> 0" by (metis unat_0 nat.distinct(1))
  qed simp
  obtain c where c: "block_alloc (2 ^ l) (of_nat (Suc m)) b = block_alloc (2 ^ Suc l) (of_nat m) c"
    "tree c (F - {v} \<union> {2 * v, 2 * v + 1}) (insert v S - {2 * v, 2 * v + 1}) n"
    using split_step [OF Suc.prems(1) l Suc.prems(3) m(1)] unfolding m(2) .
  note frees = treeD(2) [OF c(2)] treeD(2) [OF Suc.prems(1)]
  note units = split_units [OF Suc.prems(2) vF v(1,2) l]
  have "layer_free j c = None" if j: "Suc l < j" "j \<le> Suc l + m" for j
  proof -
    have "(2 :: nat) ^ Suc (Suc l) \<le> 2 ^ j" using j by (intro power_increasing) simp_all
    then have "layer_free j c = layer_free j b"
      using v(2) by (intro layer_free_cong) (auto simp: frees)
    then show ?thesis using Suc.prems(5) [of j] j by simp
  qed
  moreover have "layer_free (Suc l) c = Some (2 * v)"
    using layer_free_first [of c b v l] v(1,2) frees Suc.prems(5) [of "Suc l"] by simp
  ultimately have "gives_block (block_alloc (2 ^ Suc l) (of_nat m) c) (Suc l) m (2 * v)
      (F - {v} \<union> {2 * v, 2 * v + 1}) (insert v S - {2 * v, 2 * v + 1}) n"
    using Suc.prems(4) by (intro Suc.IH [OF c(2) units(1)]) simp_all
  moreover have "2 * v \<notin> F" using apart_below [OF Suc.prems(2) vF v(1,2), of 1 0] l by (simp add: mult.commute)
  moreover have "0 < v" using v(1) by (cases v) simp_all
  ultimately show ?case
    using chain_Suc [of v F m] splits_to_Suc [of v S m]
    unfolding c(1) gives_block_def by (auto simp: mult.assoc mult.left_commute)
qed

lemma alloc_up:
  assumes "tree b F S n" and "apart F" and "l + m \<le> 5"
    and "\<And>j. l < j \<Longrightarrow> j \<le> l + m \<Longrightarrow> layer_free j b = None"
  shows "if \<exists>j\<le>l + m. layer_free j b \<noteq> None
    then \<exists>j v. j \<le> l + m \<and> layer_free j b = Some v \<and> gives_block (block_alloc (2 ^ l) (of_nat m) b) j (l + m - j) v F S n
    else block_alloc (2 ^ l) (of_nat m) b = Some (Inr (ENOBLOCK, b))"
  using assms(3,4)
proof (induction l arbitrary: m)
  case 0
  note small = treeD(1) [OF assms(1)]
  show ?case
  proof (cases "layer_free 0 b")
    case None
    then have "\<not> (\<exists>j\<le>m. layer_free j b \<noteq> None)" using "0.prems"(2) by (metis add_0 neq0_conv)
    then show ?thesis by (simp only: add_0 if_False power_0 none_step [OF small None])
  next
    case (Some v)
    then have "gives_block (block_alloc (2 ^ 0) (of_nat m) b) 0 m v F S n"
      using alloc_down [OF assms(1,2) Some, of m] "0.prems" by auto
    then show ?thesis using Some by auto
  qed
next
  case (Suc l)
  note small = treeD(1) [OF assms(1)]
  show ?case
  proof (cases "layer_free (Suc l) b")
    case None
    have none: "layer_free j b = None" if "l < j" "j \<le> l + Suc m" for j
      using None Suc.prems(2) [of j] that by (cases "j = Suc l") simp_all
    have step: "block_alloc (2 ^ Suc l) (of_nat m) b = block_alloc (2 ^ l) (of_nat (Suc m)) b"
      using up_step [OF small, of "Suc l" "of_nat m"] None Suc.prems(1) by (simp add: add.commute)
    have "l + Suc m \<le> 5" using Suc.prems(1) by simp
    with none have "if \<exists>j\<le>l + Suc m. layer_free j b \<noteq> None
        then \<exists>j v. j \<le> l + Suc m \<and> layer_free j b = Some v \<and>
          gives_block (block_alloc (2 ^ l) (of_nat (Suc m)) b) j (l + Suc m - j) v F S n
        else block_alloc (2 ^ l) (of_nat (Suc m)) b = Some (Inr (ENOBLOCK, b))"
      by (intro Suc.IH) blast+
    then show ?thesis unfolding step by (simp only: add_Suc_right add_Suc)
  next
    case (Some v)
    have "gives_block (block_alloc (2 ^ Suc l) (of_nat m) b) (Suc l) m v F S n"
      by (rule alloc_down [OF assms(1,2) Some]) (use Suc.prems in auto)
    moreover have "Suc l + m - Suc l = m" "Suc l \<le> Suc l + m" by simp_all
    ultimately show ?thesis using Some by (metis option.distinct(1))
  qed
qed

text \<open>An allocation of layer \<open>l\<close>: the free node \<open>v\<close> of layer \<open>j\<close> is split until the block is left.\<close>

lemma block_layer:
  assumes "2 ^ j \<le> v" and "v < 2 ^ Suc j" and "j \<le> l"
  shows "2 ^ l \<le> v * 2 ^ (l - j)" and "v * 2 ^ (l - j) < (2 :: nat) ^ Suc l"
proof -
  have p: "(2 :: nat) ^ j * 2 ^ (l - j) = 2 ^ l" "(2 :: nat) ^ Suc j * 2 ^ (l - j) = 2 ^ Suc l"
    using assms(3) by (simp_all flip: power_add)
  show "2 ^ l \<le> v * 2 ^ (l - j)" using mult_le_mono1 [OF assms(1), of "2 ^ (l - j)"] p by simp
  have "v * 2 ^ (l - j) < 2 ^ Suc j * 2 ^ (l - j)" using assms(2) by (intro mult_strict_right_mono) simp_all
  then show "v * 2 ^ (l - j) < 2 ^ Suc l" unfolding p .
qed

lemma alloc_ok:
  assumes "tree b F S n" and "apart F" and "l \<le> 5"
  shows "if \<exists>j\<le>l. layer_free j b \<noteq> None
    then \<exists>j v. j \<le> l \<and> layer_free j b = Some v \<and> gives_block (bbuddy_block_alloc b (2 ^ l)) j (l - j) v F S n
    else bbuddy_block_alloc b (2 ^ l) = Some (Inr (ENOBLOCK, b))"
proof -
  have "(of_nat 0 :: u8) = 0" "l + 0 = l" by simp_all
  then show ?thesis using alloc_up [OF assms(1,2), of l 0] assms(3) by (simp only: bbuddy_block_alloc_def) simp
qed

section \<open>Properties\<close>

lemma init_small:
  assumes "drop_bit 5 n = 1" and "length area = 4"
  shows "bbuddy_init (Some area) n =
    Inr (0, Some \<lparr>bb_area = [0xffffffff, 0xffffffff, 3, 0], bb_pbmp = 0, bb_nbmp = 2, bb_pn = n\<rparr>)"
proof -
  have n: "n \<noteq> 0" using assms(1) by auto
  have yy: "[0..<unat (push_bit 1 (1 :: u32))] = [0, 1]" by (simp add: upt_rec)
  have "push_bit 0 (1 :: u32) OR push_bit 1 1 = 3" by (simp add: push_bit_eq_mult)
  moreover obtain a b c d where "area = [a, b, c, d]"
    using assms(2) by (auto simp: length_Suc_conv numeral_eq_Suc)
  ultimately show ?thesis
    using n yy assms(1)
    by (simp add: bbuddy_init_def Let_def area_write_def area_read_def nb_upd_def nb_read_def shl1_def push_bit_eq_mult)
qed

lemma frees_init:
  "frees \<lparr>bb_area = [0xffffffff, 0xffffffff, 3, 0], bb_pbmp = 0, bb_nbmp = 2, bb_pn = n\<rparr> = {0, 1}"
proof -
  have three: "bit (3 :: u32) k \<longleftrightarrow> k < 2" for k
  proof -
    have "(3 :: u32) = mask 2" by (simp add: mask_eq_exp_minus_1)
    then show ?thesis by (simp only: bit_mask_iff) auto
  qed
  have "v \<in> frees \<lparr>bb_area = [0xffffffff, 0xffffffff, 3, 0], bb_pbmp = 0, bb_nbmp = 2, bb_pn = n\<rparr> \<longleftrightarrow> v < 2" for v
  proof -
    consider "v < 32" | "32 \<le> v" "v < 64" | "64 \<le> v" by linarith
    then show ?thesis
    proof cases
      case 1
      then have "v div 32 = 0" "v mod 32 = v" by simp_all
      moreover have "v < 64" using 1 by simp
      ultimately show ?thesis using three [of v] by (simp only: frees_iff bbuddy.simps) (simp add: numeral_2_eq_2)
    next
      case 2
      then have "v div 32 = 1" by (simp add: div_nat_eqI)
      with 2 show ?thesis by (simp add: frees_iff)
    next
      case 3
      then have "\<not> v < 64" "\<not> v < 2" by simp_all
      then show ?thesis by (simp only: frees_iff simp_thms)
    qed
  qed
  moreover have "{0, 1} = {v :: nat. v < 2}" by auto
  ultimately show ?thesis by (simp only: set_eq_iff mem_Collect_eq simp_thms)
qed

lemma start_apart: "apart {0, 1}" and start_units: "free_units {0, 1} = units"
proof -
  have p: "path u j \<in> {0, 1} \<longleftrightarrow> j = 0" if u: "u \<in> units" and j: "j \<le> 5" for u j
  proof
    assume "path u j \<in> {0, 1}"
    moreover have "1 \<le> path u j" using path_layer(1) [OF u j] by (metis one_le_numeral one_le_power order.trans)
    ultimately have "path u j = 1" by auto
    then show "j = 0" using path_at [OF u j, of 0] by simp
  next
    assume "j = 0"
    then show "path u j \<in> {0, 1}" using path_layer [OF u, of 0] by auto
  qed
  show "apart {0, 1}" using p unfolding apart_def by blast
  show "free_units {0, 1} = units" using p by (auto simp: free_units_def)
qed

text \<open>C19: On a buddy of 32 to 63 blocks whose free nodes are apart, an allocation of layer \<open>2 ^ l\<close>, \<open>l \<le> 5\<close>, hands out a
  block of that layer whose units are all free, takes exactly those units away and keeps the free nodes
  apart; when no node of the layer or above it is free it says so and changes nothing. It always returns.\<close>

theorem buddy_alloc_takes_free_block:
  assumes "small_tree b" and "apart (frees b)" and "l \<le> 5"
  shows "if \<exists>j\<le>l. layer_free j b \<noteq> None
    then \<exists>v b'. bbuddy_block_alloc b (2 ^ l) = Some (Inr (of_nat (v - 2 ^ l), b')) \<and> 2 ^ l \<le> v \<and> v < 2 ^ Suc l \<and>
      small_tree b' \<and> apart (frees b') \<and> block_units l v \<subseteq> free_units (frees b) \<and>
      free_units (frees b') = free_units (frees b) - block_units l v
    else bbuddy_block_alloc b (2 ^ l) = Some (Inr (ENOBLOCK, b))"
proof (cases "\<exists>j\<le>l. layer_free j b \<noteq> None")
  case True
  have b: "tree b (frees b) (splits b) (bb_pn b)" using assms(1) by (simp add: tree_def)
  obtain j v where v: "j \<le> l" "layer_free j b = Some v"
    "gives_block (bbuddy_block_alloc b (2 ^ l)) j (l - j) v (frees b) (splits b) (bb_pn b)"
    using alloc_ok [OF b assms(2,3)] True by auto
  let ?w = "v * 2 ^ (l - j)"
  have m: "j + (l - j) = l" using v(1) by simp
  note free = layer_freeD [OF v(2)]
  note units = chain_units [OF assms(2) free(3,1,2), of "l - j", unfolded m, OF assms(3)]
  obtain b' where "bbuddy_block_alloc b (2 ^ l) = Some (Inr (of_nat (?w - 2 ^ l), b'))" "small_tree b'"
    "frees b' = chain (frees b) v (l - j)"
    using v(3) by (auto simp: gives_block_def tree_def m)
  then show ?thesis using block_layer [OF free(1,2) v(1)] units True
    by (simp only: if_True) (intro exI [of _ ?w] exI [of _ b'], simp)
next
  case False
  then show ?thesis using alloc_ok [of b "frees b" "splits b" "bb_pn b" l] assms by (auto simp: tree_def)
qed

theorem buddy_alloc_takes_free_block_witness:
  "\<exists>v b'. bbuddy_block_alloc \<lparr>bb_area = [0xffffffff, 0xffffffff, 3, 0], bb_pbmp = 0, bb_nbmp = 2, bb_pn = 32\<rparr> (2 ^ 3) =
     Some (Inr (of_nat (v - 2 ^ 3), b')) \<and> 2 ^ 3 \<le> v \<and> v < 2 ^ Suc 3 \<and> free_units (frees b') = units - block_units 3 v"
proof -
  let ?b = "\<lparr>bb_area = [0xffffffff, 0xffffffff, 3, 0], bb_pbmp = 0, bb_nbmp = 2, bb_pn = 32\<rparr> :: bbuddy"
  have "small_tree ?b" by (simp add: small_tree_def)
  moreover have "layer_free 0 ?b \<noteq> None" by (simp add: layer_free_def frees_init upt_rec)
  moreover have "apart (frees ?b)" by (simp only: frees_init start_apart)
  moreover have "\<exists>j\<le>3. layer_free j ?b \<noteq> None" using \<open>layer_free 0 ?b \<noteq> None\<close> by blast
  ultimately show ?thesis
    using buddy_alloc_takes_free_block [of ?b 3] unfolding frees_init start_units by (simp only: if_True) auto
qed

lemma init_words_fit:
  assumes "init_words js b = Inr b'" and "i \<in> set js"
  shows "bb_nbmp b + i < length (bb_area b)"
  using assms
proof (induction js arbitrary: b)
  case (Cons j js)
  from Cons.prems(1) obtain b1 b2 where b: "area_write (bb_nbmp b + j) 0 b = Inr b1"
    "area_write (bb_pbmp b1 + j) 0xffffffff b1 = Inr b2" "init_words js b2 = Inr b'"
    by auto
  then have "bb_nbmp b2 = bb_nbmp b" "length (bb_area b2) = length (bb_area b)" "bb_nbmp b + j < length (bb_area b)"
    by (auto simp: area_write_def split: if_splits)
  then show ?case using Cons.IH [OF b(3)] Cons.prems(2) by auto
qed simp

lemma init_words_error: "init_words js b = Inl e \<Longrightarrow> e = BadAccess"
proof (induction js arbitrary: b)
  case (Cons j js)
  then show ?case by (auto simp: rbind_def area_write_def split: sum.splits if_splits)
qed simp

text \<open>C38: The initialisation of a buddy of 96 blocks or more, in an area of exactly the size that
  \<^verbatim>\<open>bbuddy_size\<close> asks for, writes outside of the area.\<close>

theorem buddy_init_overflows:
  assumes "96 \<le> n" and "length area = bbuddy_words n"
  shows "bbuddy_init (Some area) n = Inl BadAccess"
proof -
  let ?k = "unat (drop_bit 5 n)"
  have k: "3 \<le> ?k" "?k < 2 ^ 27"
    using assms(1) unsigned_less [of n, where 'a = nat] by (simp_all add: unat_drop_bit word_le_nat_alt)
  have plus: "unat (drop_bit 5 n + 2) = ?k + 2" using k by (simp add: unat_word_ariths)
  have yy: "unat (push_bit 1 (drop_bit 5 n)) = 2 * ?k" using k unat_push_bit [of 1 "drop_bit 5 n"] by simp
  have gt: "drop_bit 5 n > 1" "drop_bit 5 n \<noteq> 0" "n \<noteq> 0" using k by (auto simp: word_less_nat_alt)
  let ?b = "\<lparr>bb_area = area, bb_pbmp = 0, bb_nbmp = ?k + 2, bb_pn = n\<rparr>"
  have "length area = 2 * (?k + 2)" using assms(2) gt plus by (simp add: bbuddy_words_def)
  moreover have "2 * ?k - 1 \<in> set [0..<2 * ?k]" using k by auto
  ultimately have "\<nexists>b'. init_words [0..<2 * ?k] ?b = Inr b'"
    using init_words_fit [of "[0..<2 * ?k]" ?b _ "2 * ?k - 1"] k by auto
  then have "init_words [0..<2 * ?k] ?b = Inl BadAccess"
    using init_words_error by (metis old.sum.exhaust)
  then show ?thesis using gt plus yy by (simp add: bbuddy_init_def Let_def)
qed

theorem buddy_init_overflows_witness:
  "bbuddy_words 96 = 10 \<and> bbuddy_init (Some (replicate 10 0)) 96 = Inl BadAccess"
  using buddy_init_overflows [of 96 "replicate 10 0"] by (simp add: bbuddy_words_def drop_bit_eq_div)

end
