(* ===== verification/Mui_Bits.thy ===== *)
theory Mui_Bits
  imports Mui_Prelude
begin

text \<open>
  The bit-scan routines of \<^verbatim>\<open>include/eza/amd64/bits.h\<close>. They are inline assembly; the model
  follows the instructions: \<^verbatim>\<open>bsf\<close> leaves its destination alone on a zero source, the memory
  scan adds 64 to \<^verbatim>\<open>rax\<close> and decrements \<^verbatim>\<open>rbx\<close> per word, and \<^verbatim>\<open>btr\<close> clears one bit of the
  word that the byte offset selects. \<open>bitmap_set\<close> is the set of bit numbers a bitmap stands for.
\<close>

section \<open>Definitions\<close>

definition INVALID_BIT_INDEX :: bit_idx where "INVALID_BIT_INDEX = NOT 0"

definition lowest_bit :: "'a::len word \<Rightarrow> nat option" where
  "lowest_bit w = find (bit w) [0..<LENGTH('a)]"

definition find_first_bit32 :: "u32 \<Rightarrow> bit_idx" where
  "find_first_bit32 v = (case lowest_bit v of None \<Rightarrow> INVALID_BIT_INDEX | Some i \<Rightarrow> of_nat i)"

definition find_first_bit64 :: "u64 \<Rightarrow> bit_idx" where
  "find_first_bit64 v = (case lowest_bit v of None \<Rightarrow> INVALID_BIT_INDEX | Some i \<Rightarrow> of_nat i)"

fun scan_words :: "u64 list \<Rightarrow> u64 \<Rightarrow> u64 \<Rightarrow> bit_idx res" where
  "scan_words [] rax rbx = Inl BadAccess"
| "scan_words (w # ws) rax rbx =
     (case lowest_bit w of
        Some i \<Rightarrow> Inr (ucast (of_nat i + rax))
      | None \<Rightarrow>
          let rax' = rax + 64; rbx' = rbx - 1
          in if rbx' = 0 then Inr INVALID_BIT_INDEX else scan_words ws rax' rbx')"

definition find_first_bit_mem_64 :: "u64 list \<Rightarrow> u64 \<Rightarrow> bit_idx res" where
  "find_first_bit_mem_64 ptr count = scan_words ptr 0 count"

definition reset_bit_mem_64 :: "u64 list \<Rightarrow> bit_idx \<Rightarrow> u64 list res" where
  "reset_bit_mem_64 ptr b =
     (let rax = (ucast b :: u64) AND 0x3f;
          rbx = drop_bit 3 ((ucast b :: u64) AND 0xffffffffffffffc0);
          i = unat rbx div 8
      in if i < length ptr then Inr (ptr[i := unset_bit (unat rax) (ptr ! i)])
         else Inl BadAccess)"

definition bitmap_set :: "u64 list \<Rightarrow> nat set" where
  "bitmap_set ws = {n. n < 64 * length ws \<and> bit (ws ! (n div 64)) (n mod 64)}"

section \<open>Scanning\<close>

lemma lowest_bit_None: "lowest_bit (w :: 'a::len word) = None \<longleftrightarrow> w = 0"
proof
  assume "lowest_bit w = None"
  then have "\<not> bit w n" if "n < LENGTH('a)" for n
    using that by (auto simp: lowest_bit_def find_None_iff)
  then show "w = 0" by (intro bit_word_eqI) simp
qed (simp add: lowest_bit_def find_None_iff)

lemma lowest_bit_Some:
  assumes "lowest_bit (w :: 'a::len word) = Some i"
  shows "i < LENGTH('a)" "bit w i" "\<And>j. j < i \<Longrightarrow> \<not> bit w j"
  using assms by (auto simp: lowest_bit_def find_Some_iff)

lemma bitmap_set_Nil [simp]: "bitmap_set [] = {}"
  by (simp add: bitmap_set_def)

lemma bitmap_set_low: "n < 64 \<Longrightarrow> n \<in> bitmap_set (w # ws) \<longleftrightarrow> bit w n"
  by (simp add: bitmap_set_def)

lemma bitmap_set_high: "n + 64 \<in> bitmap_set (w # ws) \<longleftrightarrow> n \<in> bitmap_set ws"
proof -
  have "(n + 64) div 64 = Suc (n div 64)" and "(n + 64) mod 64 = n mod 64" by simp_all
  then show ?thesis unfolding bitmap_set_def mem_Collect_eq by (metis nth_Cons_Suc length_Cons
    mult_Suc_right nat_add_left_cancel_less add.commute)
qed

lemma bitmap_set_zero_word:
  "n \<in> bitmap_set (0 # ws) \<longleftrightarrow> 64 \<le> n \<and> n - 64 \<in> bitmap_set ws"
proof (cases "n < 64")
  case True
  then show ?thesis by (simp add: bitmap_set_low)
next
  case False
  then show ?thesis using bitmap_set_high [of "n - 64" 0 ws] by simp
qed

definition first_in :: "nat set \<Rightarrow> nat \<Rightarrow> bool" where
  "first_in S m \<longleftrightarrow> m \<in> S \<and> (\<forall>k<m. k \<notin> S)"

lemma scan_words_spec:
  assumes "ws \<noteq> []" and "rbx = of_nat (length ws)" and "length ws < 2 ^ 64"
    and "rax = of_nat r" and "r + 64 * length ws < 2 ^ 32"
  shows "(bitmap_set ws = {} \<and> scan_words ws rax rbx = Inr INVALID_BIT_INDEX) \<or>
    (\<exists>m. first_in (bitmap_set ws) m \<and> scan_words ws rax rbx = Inr (of_nat (r + m)))"
  using assms
proof (induction ws arbitrary: rax rbx r)
  case Nil
  then show ?case by simp
next
  case (Cons w ws)
  show ?case
  proof (cases "lowest_bit w")
    case (Some i)
    have i: "i < 64" "bit w i" "\<And>j. j < i \<Longrightarrow> \<not> bit w j"
      using lowest_bit_Some [OF Some] by simp_all
    then have "first_in (bitmap_set (w # ws)) i"
      by (simp add: first_in_def bitmap_set_low)
    moreover have "(ucast (of_nat i + rax :: u64) :: u32) = of_nat (r + i)"
    proof -
      have "of_nat i + rax = (of_nat (r + i) :: u64)" using Cons.prems by simp
      then show ?thesis by (simp add: ucast_of_nat_down del: of_nat_add)
    qed
    ultimately show ?thesis using Some by auto
  next
    case None
    then have w: "w = 0" by (simp add: lowest_bit_None)
    show ?thesis
    proof (cases "ws = []")
      case True
      have "bitmap_set [0] = {}" by (auto simp: bitmap_set_zero_word)
      with True w None Cons.prems show ?thesis by (simp add: Let_def)
    next
      case False
      have rbx: "rbx - 1 = of_nat (length ws)" using Cons.prems by simp
      have "(of_nat (length ws) :: u64) \<noteq> 0"
        using False Cons.prems by (auto simp: word_of_nat_eq_0_iff dest: dvd_imp_le)
      then have step: "scan_words (w # ws) rax rbx = scan_words ws (rax + 64) (rbx - 1)"
        using None rbx by (simp only: scan_words.simps Let_def option.case if_False)
      have "(bitmap_set ws = {} \<and> scan_words ws (rax + 64) (rbx - 1) = Inr INVALID_BIT_INDEX) \<or>
        (\<exists>m. first_in (bitmap_set ws) m \<and>
          scan_words ws (rax + 64) (rbx - 1) = Inr (of_nat (r + 64 + m)))"
        by (rule Cons.IH) (use False Cons.prems rbx in auto)
      moreover have "first_in (bitmap_set (w # ws)) (m + 64)" if "first_in (bitmap_set ws) m" for m
        using that w by (auto simp: first_in_def bitmap_set_zero_word)
      moreover have "bitmap_set ws = {} \<Longrightarrow> bitmap_set (w # ws) = {}"
        using w by (auto simp: bitmap_set_zero_word)
      moreover have "(of_nat (r + 64 + m) :: u32) = of_nat (r + (m + 64))" for m
        by (simp add: algebra_simps)
      ultimately show ?thesis unfolding step by metis
    qed
  qed
qed

lemma find_first_bit_mem_64_spec:
  assumes "ws \<noteq> []" and "64 * length ws < 2 ^ 32"
  shows "(bitmap_set ws = {} \<and>
      find_first_bit_mem_64 ws (of_nat (length ws)) = Inr INVALID_BIT_INDEX) \<or>
    (\<exists>m. first_in (bitmap_set ws) m \<and>
      find_first_bit_mem_64 ws (of_nat (length ws)) = Inr (of_nat m))"
  using scan_words_spec [of ws "of_nat (length ws)" 0 0] assms
  by (simp add: find_first_bit_mem_64_def)

section \<open>Clearing\<close>

lemma reset_bit_split:
  "unat ((ucast (b :: u32) :: u64) AND 0x3f) = unat b mod 64"
  "unat (drop_bit 3 ((ucast b :: u64) AND 0xffffffffffffffc0)) div 8 = unat b div 64"
proof -
  have up: "unat (ucast b :: u64) = unat b" by (rule unat_ucast_up) simp
  have m: "mask 6 = (0x3f :: u64)" by (simp add: mask_eq_exp_minus_1)
  show "unat ((ucast b :: u64) AND 0x3f) = unat b mod 64"
    using up unat_and_mask [of "ucast b :: u64" 6] unfolding m by simp
  have n: "NOT (mask 6) = (0xffffffffffffffc0 :: u64)" by (simp add: mask_eq_exp_minus_1)
  have "unat ((ucast b :: u64) AND 0xffffffffffffffc0) = unat b div 64 * 64"
    using up unat_and_not_mask [of "ucast b :: u64" 6] unfolding n by simp
  then show "unat (drop_bit 3 ((ucast b :: u64) AND 0xffffffffffffffc0)) div 8 = unat b div 64"
    unfolding unat_drop_bit by simp
qed

lemma reset_bit_mem_64_eq:
  "reset_bit_mem_64 ws b =
    (if unat b div 64 < length ws
     then Inr (ws[unat b div 64 := unset_bit (unat b mod 64) (ws ! (unat b div 64))])
     else Inl BadAccess)"
  unfolding reset_bit_mem_64_def Let_def reset_bit_split ..

lemma bitmap_set_unset:
  assumes "n div 64 < length ws"
  shows "bitmap_set (ws[n div 64 := unset_bit (n mod 64) (ws ! (n div 64))]) = bitmap_set ws - {n}"
proof -
  let ?ws = "ws[n div 64 := unset_bit (n mod 64) (ws ! (n div 64))]"
  have "x \<in> bitmap_set ?ws \<longleftrightarrow> x \<in> bitmap_set ws - {n}" for x
  proof (cases "x div 64 = n div 64")
    case True
    have "x = n \<longleftrightarrow> x mod 64 = n mod 64"
      using True by (metis div_mult_mod_eq)
    then show ?thesis
      using True assms unfolding bitmap_set_def by (auto simp: bit_unset_bit_iff)
  next
    case False
    then have "x \<noteq> n" by blast
    then show ?thesis using False assms unfolding bitmap_set_def by simp
  qed
  then show ?thesis by blast
qed

lemma reset_bit_mem_64_spec:
  assumes "n \<in> bitmap_set ws" and "n < 2 ^ 32"
  shows "\<exists>ws'. reset_bit_mem_64 ws (of_nat n) = Inr ws' \<and> length ws' = length ws \<and>
    bitmap_set ws' = bitmap_set ws - {n}"
proof -
  have "n div 64 < length ws" using assms(1) by (auto simp: bitmap_set_def)
  moreover have "unat (of_nat n :: u32) = n" using assms(2) by (simp add: unat_of_nat_small)
  ultimately show ?thesis
    using bitmap_set_unset [of n ws] by (simp add: reset_bit_mem_64_eq)
qed

section \<open>Properties\<close>

text \<open>The scan of a bitmap returns its least set bit, or the invalid index when no bit is
  set; clearing the bit it returned removes exactly that bit from the bitmap.\<close>

theorem find_then_reset:
  assumes "ws \<noteq> []" and "64 * length ws < 2 ^ 32"
  shows "(bitmap_set ws = {} \<longrightarrow>
      find_first_bit_mem_64 ws (of_nat (length ws)) = Inr INVALID_BIT_INDEX) \<and>
    (bitmap_set ws \<noteq> {} \<longrightarrow>
      (\<exists>m ws'. first_in (bitmap_set ws) m \<and>
        find_first_bit_mem_64 ws (of_nat (length ws)) = Inr (of_nat m) \<and>
        reset_bit_mem_64 ws (of_nat m) = Inr ws' \<and> length ws' = length ws \<and>
        bitmap_set ws' = bitmap_set ws - {m}))"
proof -
  have small: "m < 2 ^ 32" if "m \<in> bitmap_set ws" for m
    using that assms(2) by (simp add: bitmap_set_def)
  show ?thesis
    using find_first_bit_mem_64_spec [OF assms] reset_bit_mem_64_spec [of _ ws] small
    by (metis (no_types, lifting) empty_iff first_in_def)
qed

theorem find_then_reset_witness:
  "\<exists>m ws'. first_in (bitmap_set [0, 0x30]) m \<and>
    find_first_bit_mem_64 [0, 0x30] 2 = Inr (of_nat m) \<and>
    reset_bit_mem_64 [0, 0x30] (of_nat m) = Inr ws' \<and> bitmap_set ws' = bitmap_set [0, 0x30] - {m}"
proof -
  have "68 \<in> bitmap_set [0, 0x30]" by (simp add: bitmap_set_def bit_numeral_rec)
  then have "bitmap_set [0, 0x30] \<noteq> {}" by blast
  then show ?thesis using find_then_reset [of "[0, 0x30]"] by auto
qed

end
