(* ===== verification/Mui_KStack.thy ===== *)
theory Mui_KStack
  imports Mui_Bits
begin

text \<open>
  The kernel stack allocator: \<^verbatim>\<open>eza/generic_api/kstack.c\<close> and \<^verbatim>\<open>include/eza/kstack.h\<close>. One
  page holds the header of a chunk and its bitmap; a set bit is a free stack slot. Slot \<open>i\<close>
  occupies one \<open>KERNEL_STACK_STEP\<close> below the starting address: a guard gap, the stack pages, and
  room for the task structure that \<^verbatim>\<open>current_task()\<close> finds by masking the stack pointer.
\<close>

section \<open>Constants and state\<close>

definition KERNEL_STACK_PAGES :: u64 where "KERNEL_STACK_PAGES = 4"
definition KERNEL_STACK_SIZE :: u64 where "KERNEL_STACK_SIZE = KERNEL_STACK_PAGES * PAGE_SIZE"
definition KERNEL_STACK_GAP :: u64 where "KERNEL_STACK_GAP = PAGE_SIZE"
definition KERNEL_STACK_STEP :: u64 where "KERNEL_STACK_STEP = 8 * PAGE_SIZE"
definition KERNEL_STACK_MASK :: u64 where "KERNEL_STACK_MASK = NOT (KERNEL_STACK_STEP - 1)"
definition BITMAP_INIT_PATTERN :: u64 where "BITMAP_INIT_PATTERN = NOT 0"
definition INVALID_STACK_ID :: bit_idx where "INVALID_STACK_ID = INVALID_BIT_INDEX"

definition kernel_stack_chunk_size :: u64 where
  "kernel_stack_chunk_size = 16 + 4 + 4 + 8 + 8"

definition BITMAP_ENTRIES_COUNT :: u64 where
  "BITMAP_ENTRIES_COUNT = (PAGE_SIZE - kernel_stack_chunk_size) div 8"

record kernel_stack_chunk =
  kc_total_items :: u32
  kc_free_items :: u32
  kc_high_address :: u64
  kc_low_address :: u64
  kc_bitmap :: "u64 list"

record kernel_stack =
  ks_id :: bit_idx
  ks_high_address :: u64
  ks_low_address :: u64

record kernel_stack_allocator_context =
  ka_total_items :: u32
  ka_free_items :: u32
  ka_num_chunks :: u32
  ka_chunks :: "kernel_stack_chunk list"

record kstack_state =
  starting_kernel_stack_address :: u64
  main_stack_ctx :: kernel_stack_allocator_context

section \<open>Operations\<close>

fun initialize_bitmap :: "u64 list \<Rightarrow> nat \<Rightarrow> u64 list res" where
  "initialize_bitmap bm 0 = Inr bm"
| "initialize_bitmap [] (Suc n) = Inl BadAccess"
| "initialize_bitmap (w # ws) (Suc n) =
     rbind (initialize_bitmap ws n) (\<lambda>ws'. Inr (BITMAP_INIT_PATTERN # ws'))"

definition initialize_stack_chunk :: "u64 \<Rightarrow> kernel_stack_chunk \<Rightarrow> kernel_stack_chunk res" where
  "initialize_stack_chunk start chunk =
     rbind (initialize_bitmap (kc_bitmap chunk) (unat BITMAP_ENTRIES_COUNT)) (\<lambda>bm.
       Inr (chunk\<lparr>kc_total_items := ucast BITMAP_ENTRIES_COUNT,
                  kc_free_items := ucast BITMAP_ENTRIES_COUNT,
                  kc_high_address := kc_high_address chunk,
                  kc_low_address :=
                    start - (KERNEL_STACK_SIZE + KERNEL_STACK_GAP) * BITMAP_ENTRIES_COUNT,
                  kc_bitmap := bm\<rparr>))"

definition initialize_stack_allocator_context ::
  "kernel_stack_chunk option \<Rightarrow> u64 \<Rightarrow> kernel_stack_allocator_context res" where
  "initialize_stack_allocator_context page start =
     (case page of
        None \<Rightarrow> Inl (Panic ''initialize_stack_allocator_context(): Can't initialize stack context !'')
      | Some ch1 \<Rightarrow>
          rbind (initialize_stack_chunk start ch1) (\<lambda>ch1.
            Inr \<lparr>ka_total_items = kc_total_items ch1, ka_free_items = kc_free_items ch1,
                 ka_num_chunks = 1, ka_chunks = [ch1]\<rparr>))"

definition allocate_kernel_stack ::
  "kernel_stack \<Rightarrow> kstack_state \<Rightarrow> (int \<times> kernel_stack \<times> kstack_state) res" where
  "allocate_kernel_stack stack st =
     (let ctx = main_stack_ctx st;
          start = starting_kernel_stack_address st;
          failed = (- ENOENT, stack\<lparr>ks_high_address := KERNEL_INVALID_ADDRESS,
                                    ks_id := INVALID_STACK_ID\<rparr>, st)
      in if ka_free_items ctx > 0 then
           (case ka_chunks ctx of
              [] \<Rightarrow> Inl BadAccess
            | chunk # chunks \<Rightarrow>
                rbind (find_first_bit_mem_64 (kc_bitmap chunk) BITMAP_ENTRIES_COUNT) (\<lambda>idx.
                  if idx \<noteq> INVALID_BIT_INDEX then
                    rbind (reset_bit_mem_64 (kc_bitmap chunk) idx) (\<lambda>bm.
                      let ctx' = ctx\<lparr>ka_free_items := ka_free_items ctx - 1,
                                     ka_chunks := chunk\<lparr>kc_bitmap := bm\<rparr> # chunks\<rparr>;
                          high = start - ucast (idx * ucast KERNEL_STACK_STEP) - KERNEL_STACK_GAP
                      in Inr (0, stack\<lparr>ks_high_address := high,
                                       ks_low_address := high - KERNEL_STACK_SIZE,
                                       ks_id := idx\<rparr>, st\<lparr>main_stack_ctx := ctx'\<rparr>))
                  else Inr failed))
         else Inr failed)"

definition free_kernel_stack :: "bit_idx \<Rightarrow> kstack_state \<Rightarrow> int \<times> kstack_state" where
  "free_kernel_stack sid st = (0, st)"

definition initialize_kernel_stack_allocator ::
  "kernel_stack_chunk option \<Rightarrow> kstack_state res" where
  "initialize_kernel_stack_allocator page =
     rbind (initialize_stack_allocator_context page KERNEL_BASE) (\<lambda>ctx.
       Inr \<lparr>starting_kernel_stack_address = KERNEL_BASE, main_stack_ctx = ctx\<rparr>)"

text \<open>One successful allocation into a fresh descriptor, and a run of them.\<close>

definition take_stack :: "kernel_stack \<Rightarrow> kstack_state \<Rightarrow> (kernel_stack \<times> kstack_state) option" where
  "take_stack blank st =
     (case allocate_kernel_stack blank st of
        Inl e \<Rightarrow> None
      | Inr (r, stk, st') \<Rightarrow> if r = 0 then Some (stk, st') else None)"

fun run_take :: "('s \<Rightarrow> ('r \<times> 's) option) \<Rightarrow> nat \<Rightarrow> 's \<Rightarrow> ('r list \<times> 's) option" where
  "run_take f 0 s = Some ([], s)"
| "run_take f (Suc n) s =
     (case f s of
        None \<Rightarrow> None
      | Some (r, s') \<Rightarrow> map_option (\<lambda>(rs, s''). (r # rs, s'')) (run_take f n s'))"

section \<open>The interface of a slot allocator\<close>

locale slot_allocator =
  fixes take_slot :: "'s \<Rightarrow> ('r \<times> 's) option"
    and ready :: "'s \<Rightarrow> nat \<Rightarrow> bool"
    and item :: "nat \<Rightarrow> 'r"
    and capacity :: nat
  assumes take_ready:
      "ready s k \<Longrightarrow> k < capacity \<Longrightarrow> \<exists>s'. take_slot s = Some (item k, s') \<and> ready s' (Suc k)"
    and take_exhausted: "ready s capacity \<Longrightarrow> take_slot s = None"
    and item_inj: "i < capacity \<Longrightarrow> j < capacity \<Longrightarrow> item i = item j \<Longrightarrow> i = j"
begin

lemma run_ready:
  "ready s k \<Longrightarrow> k + n \<le> capacity \<Longrightarrow>
   \<exists>s'. run_take take_slot n s = Some (map item [k..<k + n], s') \<and> ready s' (k + n)"
proof (induction n arbitrary: s k)
  case 0
  then show ?case by simp
next
  case (Suc n)
  then obtain s1 where s1: "take_slot s = Some (item k, s1)" "ready s1 (Suc k)"
    using take_ready [of s k] by auto
  then obtain s2 where "run_take take_slot n s1 = Some (map item [Suc k..<Suc k + n], s2)"
    and "ready s2 (Suc k + n)"
    using Suc.IH [of s1 "Suc k"] Suc.prems by auto
  moreover have "[k..<k + Suc n] = k # [Suc k..<Suc k + n]" by (simp add: upt_conv_Cons del: upt_Suc)
  ultimately show ?case using s1 by simp
qed

lemma run_distinct:
  assumes "ready s k" and "run_take take_slot n s = Some (rs, s')" and "k + n \<le> capacity"
  shows "distinct rs" and "length rs = n"
proof -
  have "rs = map item [k..<k + n]" using run_ready [OF assms(1,3)] assms(2) by auto
  moreover have "inj_on item {k..<k + n}" using item_inj assms(3) by (intro inj_onI) auto
  ultimately show "distinct rs" and "length rs = n" by (auto simp: distinct_map)
qed

end

section \<open>Invariant\<close>

definition stack_slots :: nat where "stack_slots = 507"

text \<open>\<open>kstack_inv st k\<close>: slots below \<open>k\<close> are handed out, all others are free.\<close>

definition kstack_inv :: "kstack_state \<Rightarrow> nat \<Rightarrow> bool" where
  "kstack_inv st k \<longleftrightarrow> k \<le> stack_slots \<and>
     (\<exists>ch. ka_chunks (main_stack_ctx st) = [ch] \<and> length (kc_bitmap ch) = stack_slots \<and>
        bitmap_set (kc_bitmap ch) = {k..<64 * stack_slots}) \<and>
     ka_free_items (main_stack_ctx st) = of_nat (stack_slots - k)"

definition slot_high :: "u64 \<Rightarrow> nat \<Rightarrow> u64" where
  "slot_high start k = start - of_nat (k * 32768) - 4096"

definition slot_stack :: "u64 \<Rightarrow> nat \<Rightarrow> kernel_stack" where
  "slot_stack start k =
     \<lparr>ks_id = of_nat k, ks_high_address = slot_high start k,
      ks_low_address = slot_high start k - 16384\<rparr>"

lemma kstack_consts:
  "BITMAP_ENTRIES_COUNT = 507" "KERNEL_STACK_SIZE = 16384" "KERNEL_STACK_GAP = 4096"
  "KERNEL_STACK_STEP = 32768" "KERNEL_STACK_MASK = NOT 32767"
  by (simp_all add: BITMAP_ENTRIES_COUNT_def kernel_stack_chunk_size_def KERNEL_STACK_SIZE_def
      KERNEL_STACK_PAGES_def KERNEL_STACK_GAP_def KERNEL_STACK_STEP_def KERNEL_STACK_MASK_def
      page_defs)

lemma initialize_bitmap_spec:
  "n \<le> length bm \<Longrightarrow> initialize_bitmap bm n = Inr (replicate n BITMAP_INIT_PATTERN @ drop n bm)"
  by (induction bm n rule: initialize_bitmap.induct) auto

lemma bitmap_set_full: "bitmap_set (replicate n BITMAP_INIT_PATTERN) = {0..<64 * n}"
proof -
  have "m div 64 < n" if "m < 64 * n" for m
    using that by (simp add: less_mult_imp_div_less mult.commute)
  then show ?thesis
    by (auto simp: bitmap_set_def BITMAP_INIT_PATTERN_def bit_not_iff)
qed

lemma initialize_kernel_stack_allocator_spec:
  assumes "length (kc_bitmap page) = stack_slots"
  shows "\<exists>st. initialize_kernel_stack_allocator (Some page) = Inr st \<and> kstack_inv st 0 \<and>
    starting_kernel_stack_address st = KERNEL_BASE"
proof -
  have count: "unat BITMAP_ENTRIES_COUNT = stack_slots"
    by (simp add: kstack_consts stack_slots_def)
  have "initialize_bitmap (kc_bitmap page) stack_slots
      = Inr (replicate stack_slots BITMAP_INIT_PATTERN)"
    using assms initialize_bitmap_spec [of stack_slots "kc_bitmap page"] by simp
  moreover have "(ucast BITMAP_ENTRIES_COUNT :: u32) = of_nat stack_slots"
    by (simp add: kstack_consts stack_slots_def)
  ultimately show ?thesis
    by (simp add: initialize_kernel_stack_allocator_def initialize_stack_allocator_context_def
        initialize_stack_chunk_def kstack_inv_def bitmap_set_full count)
qed

lemma bitmap_first_range:
  assumes "bitmap_set ws = {k..<m}" and "first_in (bitmap_set ws) i"
  shows "i = k"
proof -
  have "k \<le> i" "i < m" and "\<forall>j<i. \<not> (k \<le> j \<and> j < m)"
    using assms by (auto simp: first_in_def)
  then show ?thesis by (metis le_less_trans le_neq_implies_less order_refl)
qed

lemma find_first_in_range:
  assumes "bitmap_set ws = {k..<m}" and "k < m" and "ws \<noteq> []" and "64 * length ws < 2 ^ 32"
  shows "find_first_bit_mem_64 ws (of_nat (length ws)) = Inr (of_nat k)"
proof -
  have "bitmap_set ws \<noteq> {}" using assms(1,2) by simp
  then obtain i where "first_in (bitmap_set ws) i"
    and "find_first_bit_mem_64 ws (of_nat (length ws)) = Inr (of_nat i)"
    using find_first_bit_mem_64_spec [OF assms(3,4)] by blast
  then show ?thesis using bitmap_first_range [OF assms(1)] by simp
qed

lemma allocate_kernel_stack_ready:
  assumes inv: "kstack_inv st k" and k: "k < stack_slots"
  shows "\<exists>st'. allocate_kernel_stack stk st =
      Inr (0, stk\<lparr>ks_id := of_nat k,
                  ks_high_address := slot_high (starting_kernel_stack_address st) k,
                  ks_low_address := slot_high (starting_kernel_stack_address st) k - 16384\<rparr>, st') \<and>
    kstack_inv st' (Suc k) \<and>
    starting_kernel_stack_address st' = starting_kernel_stack_address st"
proof -
  obtain ch where ch: "ka_chunks (main_stack_ctx st) = [ch]"
      "length (kc_bitmap ch) = stack_slots" "bitmap_set (kc_bitmap ch) = {k..<64 * stack_slots}"
    and free: "ka_free_items (main_stack_ctx st) = of_nat (stack_slots - k)"
    using inv by (auto simp: kstack_inv_def)
  have kin: "k \<in> bitmap_set (kc_bitmap ch)" using ch(3) k by (simp add: stack_slots_def)
  have "kc_bitmap ch \<noteq> []" using ch(2) by (auto simp: stack_slots_def)
  then have find: "find_first_bit_mem_64 (kc_bitmap ch) BITMAP_ENTRIES_COUNT = Inr (of_nat k)"
    using find_first_in_range [OF ch(3)] ch(2) k by (simp add: stack_slots_def kstack_consts)
  obtain bm where bm: "reset_bit_mem_64 (kc_bitmap ch) (of_nat k) = Inr bm"
      "length bm = stack_slots" "bitmap_set bm = {k..<64 * stack_slots} - {k}"
    using reset_bit_mem_64_spec [OF kin] ch k
    by (auto simp: stack_slots_def)
  have ne: "(of_nat k :: u32) \<noteq> INVALID_BIT_INDEX"
  proof -
    have "unat (of_nat k :: u32) = k" using k by (simp add: unat_of_nat_small stack_slots_def)
    moreover have "unat INVALID_BIT_INDEX = 4294967295" by (simp add: INVALID_BIT_INDEX_def unsigned_minus_1_eq_mask mask_eq_exp_minus_1)
    ultimately show ?thesis using k by (auto simp: stack_slots_def)
  qed
  have step: "(ucast ((of_nat k :: u32) * ucast KERNEL_STACK_STEP) :: u64) = of_nat (k * 32768)"
  proof -
    have "(of_nat k :: u32) * ucast KERNEL_STACK_STEP = of_nat (k * 32768)"
      by (simp add: kstack_consts)
    moreover have "k * 32768 < 2 ^ 32" using k by (simp add: stack_slots_def)
    ultimately show ?thesis
      by (simp del: of_nat_mult add: unsigned_of_nat take_bit_nat_eq_self)
  qed
  have pos: "(of_nat (stack_slots - k) :: u32) > 0"
  proof -
    have "stack_slots - k < 2 ^ 32" by (simp add: stack_slots_def)
    then have "unat (of_nat (stack_slots - k) :: u32) = stack_slots - k"
      using unat_of_nat_small [where 'a = 32, of "stack_slots - k"] by simp
    then show ?thesis using k by (simp only: word_less_nat_alt unat_0)
  qed
  have dec: "(of_nat (stack_slots - k) :: u32) - 1 = of_nat (stack_slots - Suc k)"
    using k by (simp add: of_nat_diff)
  let ?ctx = "(main_stack_ctx st)\<lparr>ka_free_items := of_nat (stack_slots - Suc k),
                                  ka_chunks := [ch\<lparr>kc_bitmap := bm\<rparr>]\<rparr>"
  let ?st = "st\<lparr>main_stack_ctx := ?ctx\<rparr>"
  have high: "starting_kernel_stack_address st
      - ucast ((of_nat k :: u32) * ucast KERNEL_STACK_STEP) - KERNEL_STACK_GAP
      = slot_high (starting_kernel_stack_address st) k"
    unfolding step slot_high_def kstack_consts(3) ..
  have "allocate_kernel_stack stk st =
      Inr (0, stk\<lparr>ks_id := of_nat k,
                  ks_high_address := slot_high (starting_kernel_stack_address st) k,
                  ks_low_address := slot_high (starting_kernel_stack_address st) k - 16384\<rparr>, ?st)"
    unfolding allocate_kernel_stack_def Let_def ch(1) free dec
    using pos ne by (simp add: find bm(1) high kstack_consts(2))
  moreover have "{k..<64 * stack_slots} - {k} = {Suc k..<64 * stack_slots}" by auto
  then have "kstack_inv ?st (Suc k)"
    unfolding kstack_inv_def using k bm by simp
  ultimately show ?thesis by auto
qed

lemma allocate_kernel_stack_exhausted:
  assumes "kstack_inv st stack_slots"
  shows "allocate_kernel_stack stk st =
    Inr (- ENOENT, stk\<lparr>ks_high_address := KERNEL_INVALID_ADDRESS, ks_id := INVALID_STACK_ID\<rparr>, st)"
  using assms by (auto simp: allocate_kernel_stack_def kstack_inv_def Let_def)

section \<open>The allocator as a slot allocator\<close>

lemma slot_stack_update:
  "blank\<lparr>ks_id := of_nat k, ks_high_address := slot_high start k,
         ks_low_address := slot_high start k - 16384\<rparr> = slot_stack start k"
  by (simp add: slot_stack_def)

definition kstack_ready :: "u64 \<Rightarrow> kstack_state \<Rightarrow> nat \<Rightarrow> bool" where
  "kstack_ready start st k \<longleftrightarrow> kstack_inv st k \<and> starting_kernel_stack_address st = start"

lemma take_stack_ready:
  assumes "kstack_ready start st k" and "k < stack_slots"
  shows "\<exists>st'. take_stack blank st = Some (slot_stack start k, st') \<and> kstack_ready start st' (Suc k)"
  using allocate_kernel_stack_ready [of st k blank] assms
  by (auto simp: take_stack_def kstack_ready_def slot_stack_update)

interpretation kstacks: slot_allocator "take_stack blank" "kstack_ready start" "slot_stack start"
    stack_slots for blank start
proof (unfold_locales, goal_cases)
  case (1 s k)
  then show ?case by (rule take_stack_ready)
next
  case (2 s)
  then show ?case
    using allocate_kernel_stack_exhausted [of s blank]
    by (simp add: take_stack_def kstack_ready_def errno_defs)
next
  case (3 i j)
  then show ?case by (simp add: slot_stack_def of_nat_eq_iff_small stack_slots_def)
qed

lemma kstack_start_ready:
  assumes "length (kc_bitmap page) = stack_slots"
  obtains st where "initialize_kernel_stack_allocator (Some page) = Inr st"
    and "kstack_ready KERNEL_BASE st 0"
  using initialize_kernel_stack_allocator_spec [OF assms] by (auto simp: kstack_ready_def)

section \<open>Addresses of the slots\<close>

definition slot_base :: "nat \<Rightarrow> nat" where
  "slot_base k = 0xffffffff80000000 - Suc k * 32768"

lemma slot_base_factor: "slot_base k = (0x1FFFFFFFF0000 - Suc k) * 32768"
  by (simp add: slot_base_def diff_mult_distrib)

lemma unat_slot_high:
  assumes "k < stack_slots"
  shows "unat (slot_high KERNEL_BASE k) = slot_base k + 28672"
    and "unat (slot_high KERNEL_BASE k - 16384) = slot_base k + 12288"
proof -
  have h: "slot_high KERNEL_BASE k = of_nat (slot_base k + 28672)"
    using assms by (simp add: slot_high_def slot_base_def KERNEL_BASE_def stack_slots_def of_nat_diff
        algebra_simps)
  have "slot_base k + 28672 < 2 ^ 64" by (simp add: slot_base_def)
  then show 1: "unat (slot_high KERNEL_BASE k) = slot_base k + 28672"
    unfolding h by (intro unat_of_nat_small) simp
  show "unat (slot_high KERNEL_BASE k - 16384) = slot_base k + 12288"
    using 1 assms by (subst unat_sub) (simp_all add: word_le_nat_alt)
qed

lemma div_in_slot:
  fixes q :: nat
  assumes "q * 32768 \<le> p" and "p < q * 32768 + 32768"
  shows "p div 32768 = q"
  using assms by (simp add: div_nat_eqI)

lemma stack_mask_slot:
  assumes "k < stack_slots"
    and "slot_high KERNEL_BASE k - 16384 \<le> sp" and "sp \<le> slot_high KERNEL_BASE k"
  shows "unat (sp AND KERNEL_STACK_MASK) = slot_base k"
proof -
  have m: "NOT (mask 15) = (NOT 32767 :: u64)" by (simp add: mask_eq_exp_minus_1)
  have and_eq: "unat (sp AND KERNEL_STACK_MASK) = unat sp div 32768 * 32768"
    using unat_and_not_mask [of sp 15] unfolding m kstack_consts by simp
  have "slot_base k + 12288 \<le> unat sp" "unat sp \<le> slot_base k + 28672"
    using assms(2,3) unat_slot_high [OF assms(1)] by (simp_all add: word_le_nat_alt)
  then have "unat sp div 32768 = 0x1FFFFFFFF0000 - Suc k"
    by (intro div_in_slot) (simp_all only: slot_base_factor)
  then show ?thesis by (simp only: and_eq slot_base_factor)
qed

lemma slot_base_inj: "i < stack_slots \<Longrightarrow> j < stack_slots \<Longrightarrow> slot_base i = slot_base j \<Longrightarrow> i = j"
  by (simp add: slot_base_def stack_slots_def)

section \<open>Properties\<close>

text \<open>C24: After the allocator is set up on a page-sized chunk, up to 507 allocations succeed and
  hand out the slots 0, 1, 2, ... in order, each with the addresses of its slot.\<close>

theorem kernel_stacks_in_order:
  assumes "length (kc_bitmap page) = stack_slots" and "n \<le> stack_slots"
  shows "\<exists>st st'. initialize_kernel_stack_allocator (Some page) = Inr st \<and>
    run_take (take_stack blank) n st = Some (map (slot_stack KERNEL_BASE) [0..<n], st')"
proof -
  obtain st where st: "initialize_kernel_stack_allocator (Some page) = Inr st"
      "kstack_ready KERNEL_BASE st 0"
    using kstack_start_ready [OF assms(1)] .
  then show ?thesis using kstacks.run_ready [OF st(2), of n] assms(2) by auto
qed

definition sample_chunk :: kernel_stack_chunk where
  "sample_chunk = \<lparr>kc_total_items = 0, kc_free_items = 0, kc_high_address = 0, kc_low_address = 0,
     kc_bitmap = replicate stack_slots 0\<rparr>"

definition sample_stack :: kernel_stack where
  "sample_stack = \<lparr>ks_id = 0, ks_high_address = 0, ks_low_address = 0\<rparr>"

theorem kernel_stacks_in_order_witness:
  "\<exists>st st'. initialize_kernel_stack_allocator (Some sample_chunk) = Inr st \<and>
    run_take (take_stack sample_stack) 3 st = Some (map (slot_stack KERNEL_BASE) [0..<3], st')"
  by (rule kernel_stacks_in_order) (simp_all add: sample_chunk_def stack_slots_def)

text \<open>The allocator never takes a stack back: once the 507 slots are handed out, freeing any
  of them changes nothing and the next allocation fails with \<open>-ENOENT\<close> and the invalid id.\<close>

theorem kernel_stacks_never_recycled:
  assumes "length (kc_bitmap page) = stack_slots"
    and "initialize_kernel_stack_allocator (Some page) = Inr st"
    and "run_take (take_stack blank) stack_slots st = Some (stks, st')"
  shows "fst (free_kernel_stack i st') = 0 \<and>
    allocate_kernel_stack stk (snd (free_kernel_stack i st')) =
      Inr (- ENOENT, stk\<lparr>ks_high_address := KERNEL_INVALID_ADDRESS, ks_id := INVALID_STACK_ID\<rparr>, st')"
proof -
  have "kstack_ready KERNEL_BASE st 0"
    using kstack_start_ready [OF assms(1)] assms(2) by auto
  then have "kstack_ready KERNEL_BASE st' stack_slots"
    using kstacks.run_ready [of KERNEL_BASE st 0 stack_slots blank] assms(3) by auto
  then show ?thesis
    using allocate_kernel_stack_exhausted [of st' stk]
    by (simp add: free_kernel_stack_def kstack_ready_def)
qed

theorem kernel_stacks_never_recycled_witness:
  "\<exists>st stks st'. initialize_kernel_stack_allocator (Some sample_chunk) = Inr st \<and>
    run_take (take_stack sample_stack) stack_slots st = Some (stks, st') \<and>
    allocate_kernel_stack sample_stack (snd (free_kernel_stack 5 st')) =
      Inr (- ENOENT, sample_stack\<lparr>ks_high_address := KERNEL_INVALID_ADDRESS,
                                  ks_id := INVALID_STACK_ID\<rparr>, st')"
proof -
  have len: "length (kc_bitmap sample_chunk) = stack_slots" by (simp add: sample_chunk_def)
  obtain st where st: "initialize_kernel_stack_allocator (Some sample_chunk) = Inr st"
      "kstack_ready KERNEL_BASE st 0"
    using kstack_start_ready [OF len] .
  obtain st' where st': "run_take (take_stack sample_stack) stack_slots st
      = Some (map (slot_stack KERNEL_BASE) [0..<stack_slots], st')"
    using kstacks.run_ready [OF st(2), of stack_slots sample_stack] by auto
  show ?thesis
    using kernel_stacks_never_recycled [OF len st(1) st', of 5 sample_stack] st st' by blast
qed

text \<open>The stack pointer of a task, anywhere in its stack, masked with \<open>KERNEL_STACK_MASK\<close>
  gives the base of its own slot, and two slots give the same base only if they are the same
  slot; so \<^verbatim>\<open>current_task()\<close> never finds another task's structure.\<close>

theorem stack_mask_identifies_slot:
  assumes "i < stack_slots" and "j < stack_slots"
    and "ks_low_address (slot_stack KERNEL_BASE i) \<le> sp"
    and "sp \<le> ks_high_address (slot_stack KERNEL_BASE i)"
    and "ks_low_address (slot_stack KERNEL_BASE j) \<le> sp'"
    and "sp' \<le> ks_high_address (slot_stack KERNEL_BASE j)"
  shows "sp AND KERNEL_STACK_MASK = ks_low_address (slot_stack KERNEL_BASE i) AND KERNEL_STACK_MASK
    \<and> (sp AND KERNEL_STACK_MASK = sp' AND KERNEL_STACK_MASK \<longleftrightarrow> i = j)"
proof -
  have "unat (sp AND KERNEL_STACK_MASK) = slot_base i"
    using assms by (intro stack_mask_slot) (simp_all add: slot_stack_def)
  moreover have "unat (sp' AND KERNEL_STACK_MASK) = slot_base j"
    using assms by (intro stack_mask_slot) (simp_all add: slot_stack_def)
  moreover have "unat (ks_low_address (slot_stack KERNEL_BASE i) AND KERNEL_STACK_MASK) = slot_base i"
    using assms(1) unat_slot_high [OF assms(1)]
    by (intro stack_mask_slot) (simp_all add: slot_stack_def word_le_nat_alt)
  ultimately show ?thesis
    using slot_base_inj [OF assms(1,2)] by (metis word_unat_eq_iff)
qed

theorem stack_mask_identifies_slot_witness:
  "slot_high KERNEL_BASE 0 AND KERNEL_STACK_MASK \<noteq> slot_high KERNEL_BASE 1 AND KERNEL_STACK_MASK"
proof -
  have lt: "0 < stack_slots" "1 < stack_slots" by (simp_all add: stack_slots_def)
  have le: "slot_high KERNEL_BASE k - 16384 \<le> slot_high KERNEL_BASE k" if "k < stack_slots" for k
    using unat_slot_high [OF that] by (simp add: word_le_nat_alt)
  have eqs: "ks_low_address (slot_stack KERNEL_BASE k) = slot_high KERNEL_BASE k - 16384"
    "ks_high_address (slot_stack KERNEL_BASE k) = slot_high KERNEL_BASE k" for k
    by (simp_all add: slot_stack_def)
  note * = stack_mask_identifies_slot [OF lt, of "slot_high KERNEL_BASE 0" "slot_high KERNEL_BASE 1",
      unfolded eqs, OF le [OF lt(1)] order_refl le [OF lt(2)] order_refl]
  show ?thesis using conjunct2 [OF *] by (metis zero_neq_one)
qed

end
