(* ===== verification/Mui_Task.thy ===== *)
theory Mui_Task
  imports Mui_Mapping Mui_KStack Mui_Descr
begin

text \<open>
  Tasks: \<^verbatim>\<open>eza/generic_api/task.c\<close>, \<^verbatim>\<open>process.c\<close> and \<^verbatim>\<open>eza/amd64/sched/task.c\<close>, with the task
  structures of \<^verbatim>\<open>scheduler.h\<close> and the register frame of \<^verbatim>\<open>context.h\<close>. A task structure is named by the
  address of the page it lies on; the same page is mapped a second time at the bottom of the task's
  kernel stack, where \<^verbatim>\<open>arch_current_task\<close> looks for it. The addresses of the two assembly entry points
  and the flags register at the moment of a creation are parameters, the record \<open>image\<close>.
\<close>

section \<open>State\<close>

definition PRIORITY_MAX :: u8 where "PRIORITY_MAX = 128"
definition IDLE_TASK_PRIORITY :: u8 where "IDLE_TASK_PRIORITY = PRIORITY_MAX + 1"
definition CLONE_MM :: u32 where "CLONE_MM = 0x1"
definition KERNEL_THREAD_FLAGS :: u32 where "KERNEL_THREAD_FLAGS = CLONE_MM"
definition KERNEL_STACK_PAGE_FLAGS :: page_flags where "KERNEL_STACK_PAGE_FLAGS = 0"

datatype task_state = TASK_STATE_JUST_BORN | TASK_STATE_RUNNABLE | TASK_STATE_RUNNING
  | TASK_STATE_SLEEPING | TASK_STATE_ZOMBIE

datatype task_privelege = TPL_KERNEL | TPL_USER

record arch_context =
  ac_cr3 :: u64
  ac_rsp :: u64

record task =
  t_pid :: u32
  t_ppid :: u32
  t_static_priority :: u8
  t_priority :: u8
  t_time_slice :: u32
  t_state :: task_state
  t_cpu_affinity :: u32
  t_kernel_stack :: kernel_stack
  t_page_dir :: page_directory
  t_arch_context :: arch_context

record system_sched_data =
  sd_cpu_id :: cpu_id
  sd_flags :: u32
  sd_irq_num :: u32

record kernel_task_data =
  td_system_data :: system_sched_data
  td_task :: task

definition zero_task_data :: kernel_task_data where
  "zero_task_data = \<lparr>td_system_data = \<lparr>sd_cpu_id = 0, sd_flags = 0, sd_irq_num = 0\<rparr>,
     td_task = \<lparr>t_pid = 0, t_ppid = 0, t_static_priority = 0, t_priority = 0, t_time_slice = 0,
       t_state = TASK_STATE_JUST_BORN, t_cpu_affinity = 0,
       t_kernel_stack = \<lparr>ks_id = 0, ks_high_address = 0, ks_low_address = 0\<rparr>,
       t_page_dir = \<lparr>pd_entries = 0\<rparr>, t_arch_context = \<lparr>ac_cr3 = 0, ac_rsp = 0\<rparr>\<rparr>\<rparr>"

record regs =
  r_rbp :: u64
  r_rsi :: u64
  r_rdi :: u64
  r_rdx :: u64
  r_rcx :: u64
  r_rbx :: u64
  r_r15 :: u64
  r_r14 :: u64
  r_r13 :: u64
  r_r12 :: u64
  r_r11 :: u64
  r_r10 :: u64
  r_r9 :: u64
  r_r8 :: u64
  r_rip :: u64
  r_cs :: u64
  r_rflags :: u64
  r_old_rsp :: u64
  r_old_ss :: u64

definition sizeof_regs :: u64 where "sizeof_regs = 19 * 8"

record image =
  im_thread_helper :: addr
  im_fork_path :: addr
  im_rflags :: u64

record task_world =
  tw_mm :: kmm
  tw_stacks :: kstack_state
  tw_data :: "addr \<Rightarrow> kernel_task_data"
  tw_pid :: u32
  tw_kernel_pd :: page_directory
  tw_kthread1 :: "addr option"

definition task_of :: "task_world \<Rightarrow> addr \<Rightarrow> task" where
  "task_of w td = td_task (tw_data w td)"

definition upd_task :: "addr \<Rightarrow> (task \<Rightarrow> task) \<Rightarrow> task_world \<Rightarrow> task_world" where
  "upd_task td f w = w\<lparr>tw_data := (tw_data w)(td := (tw_data w td)\<lparr>td_task := f (td_task (tw_data w td))\<rparr>)\<rparr>"

definition st64 :: "addr \<Rightarrow> u64 \<Rightarrow> task_world \<Rightarrow> task_world" where
  "st64 a v w = w\<lparr>tw_mm := store_slot a v (tw_mm w)\<rparr>"

definition arch_current_task :: "u64 \<Rightarrow> addr" where
  "arch_current_task rsp = rsp AND KERNEL_STACK_MASK"

definition arch_system_sched_data :: "u64 \<Rightarrow> addr" where
  "arch_system_sched_data rsp = rsp AND KERNEL_STACK_MASK"

section \<open>Creating a task\<close>

definition setup_task_kernel_stack :: "addr \<Rightarrow> task_world \<Rightarrow> (int \<times> task_world) res option" where
  "setup_task_kernel_stack td w =
     obind (Some (allocate_kernel_stack (t_kernel_stack (task_of w td)) (tw_stacks w))) (\<lambda>(r, stk, ks).
       let w = upd_task td (\<lambda>t. t\<lparr>t_kernel_stack := stk\<rparr>) (w\<lparr>tw_stacks := ks\<rparr>)
       in if r = 0 then
            obind (mm_map_pages (Some (t_page_dir (task_of w td))) (None :: unit page_frame_accessor option)
                (ks_low_address stk) KERNEL_STACK_PAGES KERNEL_STACK_PAGE_FLAGS () (tw_mm w)) (\<lambda>(r, _, mm).
              Some (Inr (r, w\<lparr>tw_mm := mm\<rparr>)))
          else Some (Inr (r, w)))"

definition initialize_task_system_data :: "addr \<Rightarrow> cpu_id \<Rightarrow> task_world \<Rightarrow> task_world" where
  "initialize_task_system_data td cpu w =
     w\<lparr>tw_data := (tw_data w)(td := (tw_data w td)\<lparr>td_system_data :=
        (td_system_data (tw_data w td))\<lparr>sd_cpu_id := cpu, sd_irq_num := 0\<rparr>\<rparr>)\<rparr>"

fun alloc_stack_loop :: "nat \<Rightarrow> addr option \<Rightarrow> kmm \<Rightarrow> (addr option \<times> kmm) res" where
  "alloc_stack_loop 0 first m = Inr (first, m)"
| "alloc_stack_loop (Suc i) first m =
     rbind (alloc_page GENERIC_KERNEL_PAGE False m) (\<lambda>(p, m).
       case p of
         None \<Rightarrow> Inr (None, m)
       | Some p \<Rightarrow>
           let m = m\<lparr>frame_links := init_list_head p (frame_links m)\<rparr>
           in case first of
                None \<Rightarrow> alloc_stack_loop i (Some p) m
              | Some f \<Rightarrow> alloc_stack_loop i first (m\<lparr>frame_links := list_add_tail p f (frame_links m)\<rparr>))"

definition alloc_stack_pages :: "kmm \<Rightarrow> (addr option \<times> kmm) res" where
  "alloc_stack_pages m = alloc_stack_loop (unat KERNEL_STACK_PAGES) None m"

definition initialize_mm :: "addr option \<Rightarrow> addr \<Rightarrow> u32 \<Rightarrow> task_world \<Rightarrow> int \<times> task_world" where
  "initialize_mm orig target flags w =
     (let w = upd_task target (\<lambda>t. t\<lparr>t_page_dir := initialize_page_directory (t_page_dir t)\<rparr>) w
      in case orig of
           None \<Rightarrow> (0, upd_task target (\<lambda>t. t\<lparr>t_page_dir := (t_page_dir t)\<lparr>pd_entries := pd_entries (tw_kernel_pd w)\<rparr>\<rparr>) w)
         | Some q \<Rightarrow>
             if flags AND CLONE_MM \<noteq> 0
             then (0, upd_task target (\<lambda>t. t\<lparr>t_page_dir := (t_page_dir t)\<lparr>pd_entries := pd_entries (t_page_dir (task_of w q))\<rparr>\<rparr>) w)
             else (- EINVAL, w))"

text \<open>The labels at the end of \<^verbatim>\<open>create_new_task\<close> from \<^verbatim>\<open>free_stack\<close> on; those before it are empty.\<close>

definition fail_stack :: "addr \<Rightarrow> int \<Rightarrow> task_world \<Rightarrow> (int \<times> addr option \<times> task_world) res option" where
  "fail_stack td r w =
     Some (Inr (r, None, w\<lparr>tw_stacks := snd (free_kernel_stack (ks_id (t_kernel_stack (task_of w td))) (tw_stacks w))\<rparr>))"

definition map_stack_pages :: "addr \<Rightarrow> addr \<Rightarrow> task_world \<Rightarrow> (int \<times> task_world) res option" where
  "map_stack_pages td stack_pages w =
     (let pa_ctx = list_pa_reset \<lparr>li_head = stack_pages, li_curr = 0, li_num_pages = ucast KERNEL_STACK_PAGES, li_pages_left = 0\<rparr>
      in obind (mm_map_pages (Some (t_page_dir (task_of w td))) (Some pageaccs_list_pa)
            (ks_low_address (t_kernel_stack (task_of w td))) KERNEL_STACK_PAGES KERNEL_STACK_PAGE_FLAGS pa_ctx (tw_mm w))
           (\<lambda>(r, _, mm). Some (Inr (r, w\<lparr>tw_mm := mm\<rparr>))))"

definition map_task_struct :: "addr \<Rightarrow> addr \<Rightarrow> task_world \<Rightarrow> (int \<times> task_world) res option" where
  "map_task_struct td ts_page w =
     (let idx = frame_idx (tw_mm w) ts_page;
          l_ctx = linear_pa_reset \<lparr>lp_start_page = idx, lp_end_page = idx, lp_curr_page = 0\<rparr>
      in obind (mm_map_pages (Some (t_page_dir (task_of w td))) (Some pageaccs_linear_pa)
            (ks_low_address (t_kernel_stack (task_of w td)) AND KERNEL_STACK_MASK) 1 KERNEL_STACK_PAGE_FLAGS l_ctx (tw_mm w))
           (\<lambda>(r, _, mm). Some (Inr (r, w\<lparr>tw_mm := mm\<rparr>))))"

text \<open>The static \<^verbatim>\<open>pid\<close> counts up before a null parent is dereferenced. \<^verbatim>\<open>cpu_id()\<close> is 0.\<close>

definition finish_task :: "addr option \<Rightarrow> addr \<Rightarrow> task_world \<Rightarrow> (int \<times> addr option \<times> task_world) res option" where
  "finish_task parent td w =
     (let w = initialize_task_system_data td 0 w;
          w = upd_task td (\<lambda>t. t\<lparr>t_pid := tw_pid w\<rparr>) (w\<lparr>tw_pid := tw_pid w + 1\<rparr>)
      in case parent of
           None \<Rightarrow> Some (Inl BadAccess)
         | Some q \<Rightarrow> Some (Inr (0, Some td, upd_task td (\<lambda>t. t\<lparr>t_ppid := t_pid (task_of w q)\<rparr>) w)))"

text \<open>\<^verbatim>\<open>r = allocate_kernel_stack(...) != 0\<close> keeps the truth value of the comparison, not the error.\<close>

definition create_new_task ::
  "addr option \<Rightarrow> u32 \<Rightarrow> task_privelege \<Rightarrow> task_world \<Rightarrow> (int \<times> addr option \<times> task_world) res option" where
  "create_new_task parent flags priv w =
     obind (Some (alloc_page GENERIC_KERNEL_PAGE True (tw_mm w))) (\<lambda>(ts_page, mm).
       let w = w\<lparr>tw_mm := mm\<rparr>
       in case ts_page of
            None \<Rightarrow> Some (Inr (- ENOMEM, None, w))
          | Some ts_page \<Rightarrow>
              let td = pframe_to_virt (frame_idx mm ts_page);
                  w = w\<lparr>tw_data := (tw_data w)(td := zero_task_data)\<rparr>
              in obind (Some (allocate_kernel_stack (t_kernel_stack (task_of w td)) (tw_stacks w))) (\<lambda>(e, stk, ks).
                   let w = upd_task td (\<lambda>t. t\<lparr>t_kernel_stack := stk\<rparr>) (w\<lparr>tw_stacks := ks\<rparr>);
                       r = (if e \<noteq> 0 then 1 else 0)
                   in if r \<noteq> 0 then Some (Inr (r, None, w))
                      else
                        let (r, w) = initialize_mm parent td flags w
                        in if r \<noteq> 0 then fail_stack td r w
                           else
                             obind (Some (alloc_stack_pages (tw_mm w))) (\<lambda>(stack_pages, mm).
                               let w = w\<lparr>tw_mm := mm\<rparr>
                               in case stack_pages of
                                    None \<Rightarrow> fail_stack td (- ENOMEM) w
                                  | Some first \<Rightarrow>
                                      obind (map_stack_pages td first w) (\<lambda>(r, w).
                                        if r \<noteq> 0 then fail_stack td r w
                                        else obind (map_task_struct td ts_page w) (\<lambda>(r, w).
                                               if r \<noteq> 0 then fail_stack td r w
                                               else finish_task parent td w)))))"

section \<open>The context of a new task\<close>

definition arch_setup_ctx :: "addr \<Rightarrow> u64 \<Rightarrow> task_world \<Rightarrow> task_world" where
  "arch_setup_ctx td rsp = upd_task td (\<lambda>t. t\<lparr>t_arch_context :=
     \<lparr>ac_cr3 = k2p (pd_entries (t_page_dir t)), ac_rsp = rsp\<rparr>\<rparr>)"

definition memset_zero_tw :: "addr \<Rightarrow> u64 \<Rightarrow> task_world \<Rightarrow> task_world" where
  "memset_zero_tw a n w = w\<lparr>tw_mm := (tw_mm w)\<lparr>kmem := memset_zero a n (kmem (tw_mm w))\<rparr>\<rparr>"

text \<open>The slots of \<^verbatim>\<open>regs_t\<close> in the order of its fields.\<close>

definition load_regs :: "(addr \<Rightarrow> u64) \<Rightarrow> addr \<Rightarrow> regs" where
  "load_regs mem a = \<lparr>r_rbp = mem a, r_rsi = mem (a + 8), r_rdi = mem (a + 16), r_rdx = mem (a + 24),
     r_rcx = mem (a + 32), r_rbx = mem (a + 40), r_r15 = mem (a + 48), r_r14 = mem (a + 56),
     r_r13 = mem (a + 64), r_r12 = mem (a + 72), r_r11 = mem (a + 80), r_r10 = mem (a + 88),
     r_r9 = mem (a + 96), r_r8 = mem (a + 104), r_rip = mem (a + 112), r_cs = mem (a + 120),
     r_rflags = mem (a + 128), r_old_rsp = mem (a + 136), r_old_ss = mem (a + 144)\<rparr>"

definition arch_setup_task_context :: "image \<Rightarrow> addr \<Rightarrow> u32 \<Rightarrow> task_privelege \<Rightarrow> task_world \<Rightarrow> int \<times> task_world" where
  "arch_setup_task_context im td cflags priv w =
     (let high = ks_high_address (t_kernel_stack (task_of w td));
          regs = high - sizeof_regs;
          t1 = 0x1000 - sizeof_regs;
          t2 = t1 AND 0xe00;
          delta = t1 - t2 + 512;
          w = memset_zero_tw regs sizeof_regs w;
          (cs, rip, ss, rsp) =
            (case priv of
               TPL_KERNEL \<Rightarrow> (ucast KTEXT_DES, im_thread_helper im, ucast KDATA_DES, high)
             | TPL_USER \<Rightarrow> (0, 0, 0, 0));
          w = st64 (regs + 120) (push_bit 3 cs) w;
          w = st64 (regs + 144) (push_bit 3 ss) w;
          w = st64 (regs + 112) rip w;
          w = st64 (regs + 136) rsp w;
          w = st64 (regs + 128) (im_rflags im OR 0x200) w;
          fsave = regs - delta;
          w = memset_zero_tw fsave 512 w;
          fsave = fsave - 8;
          w = st64 fsave delta w;
          fsave = fsave - 8;
          w = st64 fsave (im_fork_path im) w
      in (0, arch_setup_ctx td fsave w))"

definition create_task ::
  "image \<Rightarrow> addr option \<Rightarrow> u32 \<Rightarrow> task_privelege \<Rightarrow> task_world \<Rightarrow> (int \<times> addr option \<times> task_world) res option" where
  "create_task im parent flags priv w =
     obind (create_new_task parent flags priv w) (\<lambda>(r, new_task, w).
       if r = 0 then
         (case new_task of
            None \<Rightarrow> Some (Inl BadAccess)
          | Some td \<Rightarrow>
              let (r, w) = arch_setup_task_context im td flags priv w;
                  w = (if r = 0 then w\<lparr>tw_kthread1 := Some td\<rparr> else w)
              in Some (Inr (r, if r < 0 then None else Some td, w)))
       else Some (Inr (r, if r < 0 then None else new_task, w)))"

text \<open>\<open>rsp\<close> is the stack pointer of the caller; the current task is found through the page tables.\<close>

definition kernel_thread :: "image \<Rightarrow> addr \<Rightarrow> addr \<Rightarrow> u64 \<Rightarrow> task_world \<Rightarrow> (int \<times> task_world) res option" where
  "kernel_thread im current fn data w =
     obind (create_task im (Some current) KERNEL_THREAD_FLAGS TPL_KERNEL w) (\<lambda>(r, newtask, w).
       if r \<ge> 0 then
         (case newtask of
            None \<Rightarrow> Some (Inl BadAccess)
          | Some td \<Rightarrow>
              let regs = ks_high_address (t_kernel_stack (task_of w td)) - sizeof_regs
              in Some (Inr (r, st64 (regs + 8) data (st64 (regs + 16) fn w))))
       else Some (Inr (r, w)))"

text \<open>
  What the switch to a saved stack pointer does: \<^verbatim>\<open>retq\<close> pops the return address, which is the
  fork path; \<^verbatim>\<open>RESTORE_MM\<close> pops the size of the saved context and steps over it; \<^verbatim>\<open>RESTORE_GPR\<close> and
  \<^verbatim>\<open>iretq\<close> pop the registers.
\<close>

definition restore_mm :: "(addr \<Rightarrow> u64) \<Rightarrow> addr \<Rightarrow> addr" where
  "restore_mm mem rsp = (let r10 = mem rsp; rsp = rsp + 8 in rsp + r10)"

definition restore_all :: "(addr \<Rightarrow> u64) \<Rightarrow> addr \<Rightarrow> regs" where
  "restore_all mem rsp = load_regs mem (restore_mm mem rsp)"

definition activate_new :: "(addr \<Rightarrow> u64) \<Rightarrow> addr \<Rightarrow> addr \<times> regs" where
  "activate_new mem rsp = (mem rsp, restore_all mem (rsp + 8))"

section \<open>The stack pages as a ring\<close>

lemma seg_link_walk: "seg h a xs b \<Longrightarrow> link_walk h a (a # xs)"
  by (induction xs arbitrary: a) auto

lemma cache_rep_links:
  assumes "dlist h (pc_pages (cpu_cache m)) nodes" and "cache_rep m nodes"
  shows "cache_rep (m\<lparr>frame_links := h\<rparr>) nodes"
  using assms by (simp add: cache_rep_def)

text \<open>A frame off the cache, initialised and added to the ring of \<open>f\<close>.\<close>

lemma ring_grows:
  assumes "cache_rep m (n # nodes)" and "dlist (frame_links m) f ys"
    and "insert f (set ys) \<inter> insert (pc_pages (cpu_cache m)) (set (n # nodes)) = {}"
  defines "h \<equiv> init_list_head n (list_del n (frame_links m))"
  shows "dlist (list_add_tail n f h) f (ys @ [n])" and "dlist (list_add_tail n f h) (pc_pages (cpu_cache m)) nodes"
    and "dlist h (pc_pages (cpu_cache m)) nodes"
proof -
  let ?c = "pc_pages (cpu_cache m)"
  have d: "dlist (frame_links m) ?c ([] @ n # nodes)" using assms(1) by (simp add: cache_rep_def)
  have c1: "dlist (list_del n (frame_links m)) ?c nodes" using list_del_dlist [OF d] by simp
  have f1: "dlist (list_del n (frame_links m)) f ys"
    by (rule dlist_del_other [OF d assms(2)]) (use assms(3) in auto)
  have n: "n \<notin> insert ?c (set nodes)" "n \<notin> insert f (set ys)" using d assms(3) by (auto simp: dlist_def)
  show c2: "dlist h ?c nodes"
    using c1 n(1) unfolding h_def by (subst dlist_cong) (auto simp: init_list_head_def)
  have f2: "dlist h f ys"
    using f1 n(2) unfolding h_def by (subst dlist_cong) (auto simp: init_list_head_def)
  show "dlist (list_add_tail n f h) f (ys @ [n])" using f2 n(2) by (rule list_add_tail_dlist)
  show "dlist (list_add_tail n f h) ?c nodes"
    by (rule dlist_add_tail_other [OF f2 c2]) (use assms(3) n in auto)
qed

lemma alloc_stack_rest:
  assumes "cache_rep m (xs @ nodes)" and "dlist (frame_links m) f ys"
    and "insert f (set ys) \<inter> insert (pc_pages (cpu_cache m)) (set (xs @ nodes)) = {}"
  shows "\<exists>m'. alloc_stack_loop (length xs) (Some f) m = Inr (Some f, m') \<and> dlist (frame_links m') f (ys @ xs) \<and>
    cache_rep m' nodes \<and> kmem m' = kmem m \<and> frame_idx m' = frame_idx m \<and> pc_pages (cpu_cache m') = pc_pages (cpu_cache m)"
  using assms
proof (induction xs arbitrary: m ys)
  case Nil
  then show ?case by simp
next
  case (Cons n xs)
  let ?h = "list_add_tail n f (init_list_head n (list_del n (frame_links m)))"
  let ?m = "(take_frame n m)\<lparr>frame_links := ?h\<rparr>"
  have rep: "cache_rep m (n # xs @ nodes)" using Cons.prems(1) by simp
  note ring = ring_grows [OF rep Cons.prems(2) Cons.prems(3) [simplified append_Cons]]
  have c: "cache_rep ?m (xs @ nodes)"
    using cache_rep_take(1) [OF rep] ring(2) by (intro cache_rep_links) simp_all
  have "n \<notin> insert (pc_pages (cpu_cache m)) (set (xs @ nodes))"
    using rep by (auto simp: cache_rep_def dlist_def)
  then have apart: "insert f (set (ys @ [n])) \<inter> insert (pc_pages (cpu_cache ?m)) (set (xs @ nodes)) = {}"
    using Cons.prems(3) by auto
  have step: "alloc_stack_loop (length (n # xs)) (Some f) m = alloc_stack_loop (length xs) (Some f) ?m"
    using alloc_page_take [OF rep, of GENERIC_KERNEL_PAGE False] by (simp add: GENERIC_KERNEL_PAGE_def)
  show ?case
    using Cons.IH [OF c _ apart] ring(1) unfolding step by simp
qed

lemma alloc_stack_pages_ring:
  assumes "cache_rep m (f # xs @ nodes)" and "length xs = 3"
  shows "\<exists>m'. alloc_stack_pages m = Inr (Some f, m') \<and> cache_rep m' nodes \<and> kmem m' = kmem m \<and>
    frame_idx m' = frame_idx m \<and> pc_pages (cpu_cache m') = pc_pages (cpu_cache m) \<and>
    link_walk (frame_links m') f (f # xs)"
proof -
  let ?h = "init_list_head f (list_del f (frame_links m))"
  let ?m = "(take_frame f m)\<lparr>frame_links := ?h\<rparr>"
  have d: "dlist (frame_links m) (pc_pages (cpu_cache m)) ([] @ f # xs @ nodes)"
    using assms(1) by (simp add: cache_rep_def)
  have f: "f \<notin> insert (pc_pages (cpu_cache m)) (set (xs @ nodes))" using d by (auto simp: dlist_def)
  have "dlist ?h (pc_pages (cpu_cache m)) (xs @ nodes)"
    using list_del_dlist [OF d] f by (subst dlist_cong) (auto simp: init_list_head_def)
  then have c: "cache_rep ?m (xs @ nodes)"
    using cache_rep_take(1) [OF assms(1)] by (intro cache_rep_links) simp_all
  have "dlist (frame_links ?m) f []" by (simp add: init_list_head_empty)
  then obtain m' where m': "alloc_stack_loop (length xs) (Some f) ?m = Inr (Some f, m')" "dlist (frame_links m') f xs"
      "cache_rep m' nodes" "kmem m' = kmem ?m" "frame_idx m' = frame_idx ?m"
      "pc_pages (cpu_cache m') = pc_pages (cpu_cache ?m)"
    using alloc_stack_rest [OF c, of f "[]"] f by auto
  have four: "unat KERNEL_STACK_PAGES = Suc (length xs)" by (simp add: assms(2) KERNEL_STACK_PAGES_def)
  have "alloc_stack_pages m = Inr (Some f, m')"
    unfolding alloc_stack_pages_def four
    using alloc_page_take [OF assms(1), of GENERIC_KERNEL_PAGE False] m'(1) by (simp add: GENERIC_KERNEL_PAGE_def)
  moreover have "link_walk (frame_links m') f (f # xs)"
    using m'(2) seg_link_walk [of "frame_links m'" f xs f] by (simp add: dlist_def)
  ultimately show ?thesis using m' by auto
qed

section \<open>A zeroed frame and the tables\<close>

lemma walk_zeroed:
  assumes "tables_ok mem R (r # frs)" and "path_ok p"
  shows "walk (zeroed mem r) R p = walk mem R p"
proof (rule walk_agree [OF assms(2)])
  fix q :: "nat list" and i :: nat and t :: addr
  assume t: "table_of mem R q t" "i < 512"
  have "unat r < 2 ^ 19" "t \<noteq> pframe_to_virt r" "aligned t"
    using tables_okD(5) [OF assms(1), of r] tables_okD(2) [OF assms(1) t(1), of r] tables_okD(1) [OF assms(1) t(1)]
    by simp_all
  then show "zeroed mem r (entry_ptr t (of_nat i)) = mem (entry_ptr t (of_nat i))"
    using zeroed_slot [of t i r mem] t(2) by simp
qed

lemma tables_ok_fewer: "tables_ok mem R frs \<Longrightarrow> set gs \<subseteq> set frs \<Longrightarrow> distinct gs \<Longrightarrow> tables_ok mem R gs"
  unfolding tables_ok_def by blast

lemma tables_ok_zeroed:
  assumes "tables_ok mem R (r # frs)"
  shows "tables_ok (zeroed mem r) R (r # frs)"
  by (rule tables_ok_agree [OF assms walk_zeroed [OF assms]])

lemma leaf_zeroed:
  assumes "tables_ok mem R (r # frs)"
  shows "leaf (zeroed mem r) R V = leaf mem R V"
proof (cases "walk mem R (path3 V)")
  case None
  then show ?thesis by (simp add: leaf_def walk_zeroed [OF assms])
next
  case (Some t)
  then have t: "table_of mem R (path3 V) t" by (simp add: table_of_def)
  have "unat r < 2 ^ 19" "t \<noteq> pframe_to_virt r" "aligned t"
    using tables_okD(5) [OF assms, of r] tables_okD(2) [OF assms t, of r] tables_okD(1) [OF assms t] by simp_all
  then show ?thesis
    using Some zeroed_slot [of t "V mod 512" r mem] by (simp add: leaf_def walk_zeroed [OF assms])
qed

section \<open>The pages of a stack slot\<close>

definition slot_page :: "nat \<Rightarrow> nat" where
  "slot_page k = (0x1FFFFFFFF0000 - Suc k) * 8"

lemma slot_page_addr:
  assumes "k < stack_slots"
  shows "slot_high KERNEL_BASE k - 16384 = page_addr (slot_page k + 3)"
    and "(slot_high KERNEL_BASE k - 16384) AND KERNEL_STACK_MASK = page_addr (slot_page k)"
    and "slot_page k + 8 < 2 ^ 52"
proof -
  show lt: "slot_page k + 8 < 2 ^ 52" by (simp add: slot_page_def)
  have "unat (slot_high KERNEL_BASE k - 16384) = 4096 * (slot_page k + 3)"
    using unat_slot_high(2) [OF assms] by (simp add: slot_base_factor slot_page_def)
  then show "slot_high KERNEL_BASE k - 16384 = page_addr (slot_page k + 3)"
    using lt by (simp add: word_unat_eq_iff unat_page_addr)
  have le: "slot_high KERNEL_BASE k - 16384 \<le> slot_high KERNEL_BASE k"
    using unat_slot_high [OF assms] by (simp add: word_le_nat_alt)
  have "unat ((slot_high KERNEL_BASE k - 16384) AND KERNEL_STACK_MASK) = 4096 * slot_page k"
    using stack_mask_slot [OF assms order_refl le] by (simp add: slot_base_factor slot_page_def)
  then show "(slot_high KERNEL_BASE k - 16384) AND KERNEL_STACK_MASK = page_addr (slot_page k)"
    using lt by (simp add: word_unat_eq_iff unat_page_addr)
qed

lemma eights_room: "r + n \<le> 8 \<Longrightarrow> 0 < M \<Longrightarrow> (q * 8 + r) mod (8 * M) + n \<le> 8 * (M :: nat)"
proof -
  assume r: "r + n \<le> 8" and M: "0 < M"
  show ?thesis
  proof (cases "n = 0")
    case False
    then have "(q * 8 + r) div 8 = q" "(q * 8 + r) mod 8 = r" using r by simp_all
    then have "(q * 8 + r) mod (8 * M) = 8 * (q mod M) + r"
      using mod_mult2_eq [of "q * 8 + r" 8 M] by simp
    moreover have "q mod M + 1 \<le> M" using M by (simp add: Suc_le_eq)
    then have "8 * (q mod M) + 8 \<le> 8 * M" by linarith
    ultimately show ?thesis using r by linarith
  qed (use M in \<open>simp add: less_imp_le\<close>)
qed

lemma slot_room: "r + n \<le> 8 \<Longrightarrow> 0 < M \<Longrightarrow> (slot_page k + r) mod (8 * M) + n \<le> 8 * M"
  using eights_room by (simp add: slot_page_def)

lemma slot_regions:
  assumes "r + n \<le> 8" and "1 \<le> n"
  shows "regions2 (vpn (slot_page k + r)) n = 2"
proof -
  let ?P = "slot_page k + r"
  have "vpn ?P mod 2 ^ 18 = ?P mod 2 ^ 18" by (rule vpn_mod18)
  then have "regions 18 (vpn ?P) n = 1"
    using slot_room [OF assms(1), of "2 ^ 15" k] assms(2) by (intro regions_one) simp_all
  moreover have "take_bit 9 (take_bit 36 ?P) = take_bit 9 ?P" by simp
  then have "vpn ?P mod 2 ^ 9 = ?P mod 2 ^ 9" by (simp add: vpn_def take_bit_eq_mod)
  then have "regions 9 (vpn ?P) n = 1"
    using slot_room [OF assms(1), of "2 ^ 6" k] assms(2) by (intro regions_one) simp_all
  ultimately show ?thesis by (simp add: regions2_def)
qed

lemma slot_mappable:
  assumes "k < stack_slots" and "r + n \<le> 8" and "1 \<le> n" and "tables_ok (kmem m) R frs" and "R \<noteq> 0"
    and "3 \<le> length frs" and "pd_entries pd = R"
  shows "mappable pd m frs (slot_page k + r) n 0"
proof -
  have "(slot_page k + r) mod 2 ^ 27 + n \<le> 2 ^ 27" using slot_room [OF assms(2), of "2 ^ 24" k] by simp
  moreover have "1 \<le> slot_page k + r" "slot_page k + r + n + 2 ^ 18 \<le> 2 ^ 52"
    using assms(1,2) by (simp_all add: slot_page_def stack_slots_def)
  ultimately show ?thesis
    using assms(3-7) slot_regions [OF assms(2,3), of k] by (simp add: mappable_def)
qed

text \<open>The current task lies on the page at the bottom of the slot of the stack, and on no page of another slot.\<close>

lemma current_task_page:
  assumes "k < stack_slots" and "slot_high KERNEL_BASE k - 16384 \<le> sp" and "sp \<le> slot_high KERNEL_BASE k"
  shows "page_in_area (slot_page k) 1 (arch_current_task sp) = Some 0"
proof -
  have "unat (arch_current_task sp) div 4096 = slot_page k"
    using stack_mask_slot [OF assms] by (simp add: arch_current_task_def slot_base_factor slot_page_def)
  then show ?thesis by (simp add: page_in_area_def)
qed

lemma vpn_slot_page:
  assumes "k < stack_slots" and "r < 8"
  shows "vpn (slot_page k + r) = (0x1FFFF0000 - Suc k) * 8 + r"
proof -
  define x where "x = (0x1FFFF0000 - Suc k) * 8 + r"
  have "slot_page k + r = x + 0xFFFF * 2 ^ 36"
    using assms by (simp add: slot_page_def stack_slots_def x_def)
  moreover have "x < 2 ^ 36" using assms by (simp add: stack_slots_def x_def)
  ultimately have "vpn (slot_page k + r) = x" unfolding vpn_def by (simp only: mod_mult_self1 mod_less)
  then show ?thesis by (simp only: x_def)
qed

lemma page_in_slot_only:
  assumes "j < stack_slots" and "k < stack_slots" and "j \<noteq> k" and "page_in_area (slot_page k + r) n va = Some i"
    and "r + n \<le> 8" and "q + m \<le> 8"
  shows "page_in_area (slot_page j + q) m va = None"
proof (cases "m = 0")
  case False
  have "n \<noteq> 0" using page_in_area_less [OF assms(4)] by auto
  then have "vpn (slot_page k + r) = (0x1FFFF0000 - Suc k) * 8 + r" "vpn (slot_page j + q) = (0x1FFFF0000 - Suc j) * 8 + q"
    using vpn_slot_page [OF assms(2), of r] vpn_slot_page [OF assms(1), of q] assms(5,6) False by simp_all
  moreover define a b where "a = (0x1FFFF0000 - Suc k :: nat)" and "b = (0x1FFFF0000 - Suc j :: nat)"
  moreover have "a < b \<or> b < a" using assms(1-3) by (auto simp: a_def b_def stack_slots_def)
  moreover have "\<not> (a * 8 + r \<le> V \<and> V < a * 8 + r + n \<and> b * 8 + q \<le> V \<and> V < b * 8 + q + m)" if "a < b \<or> b < a" for V
    using that assms(5,6) by linarith
  ultimately show ?thesis
    using assms(4) by (auto simp only: page_in_area_def Let_def option.distinct split: if_splits)
qed (simp add: page_in_area_def Let_def)

section \<open>Mapping the stack and the task structure\<close>

text \<open>The accessors keep the indexes of the frames; that too is a frame source.\<close>

lemma alloc_page_idx: "alloc_page flags clean m = Inr (p, m') \<Longrightarrow> frame_idx m' = frame_idx m"
  by (auto simp: alloc_page_def arch_clean_page_def Let_def split: if_splits option.splits)

interpretation list_pa_idx: frame_source pageaccs_list_pa "\<lambda>c m fs frs. list_rep c m fs frs \<and> frame_idx m = g" for g
proof (unfold_locales, goal_cases)
  case (1 c m f fs frs)
  then show ?case by (fastforce dest: list_rep_next simp: pageaccs_list_pa_def)
next
  case (2 c m fs frs k)
  then show ?case using list_pa.rep_mem [of c m fs frs k] by simp
next
  case (3 c m fs r frs flags)
  then obtain n m' where m': "pa_alloc_page pageaccs_list_pa c flags True m = Inr (Some n, m')" "frame_idx m' n = r"
      "kmem m' = zeroed (kmem m) r" "list_rep c m' fs frs"
    using list_pa.rep_alloc [of c m fs r frs flags] by blast
  then have "frame_idx m' = frame_idx m"
    by (intro alloc_page_idx) (simp add: pageaccs_list_pa_def pageaccs_alloc_page_stub_def)
  with m' 3 show ?case by blast
next
  case (4 flags c m)
  then show ?case by (rule list_pa.alloc_dma)
qed

definition slot_task :: "task_world \<Rightarrow> addr \<Rightarrow> nat \<Rightarrow> addr \<Rightarrow> bool" where
  "slot_task w td k R \<longleftrightarrow> k < stack_slots \<and> R \<noteq> 0 \<and> pd_entries (t_page_dir (task_of w td)) = R \<and>
     t_kernel_stack (task_of w td) = slot_stack KERNEL_BASE k"

lemma stack_pages_consts: "KERNEL_STACK_PAGES = of_nat 4" "ucast KERNEL_STACK_PAGES = (4 :: u32)"
  "KERNEL_STACK_PAGE_FLAGS = 0"
  by (simp_all add: KERNEL_STACK_PAGES_def KERNEL_STACK_PAGE_FLAGS_def)

lemma map_stack_pages_ok:
  assumes "slot_task w td k R" and "cache_rep (tw_mm w) nodes" and "frs = map (frame_idx (tw_mm w)) nodes"
    and "link_walk (frame_links (tw_mm w)) f xs" and "length xs = 4"
    and "set xs \<inter> insert (pc_pages (cpu_cache (tw_mm w))) (set nodes) = {}"
    and "tables_ok (kmem (tw_mm w)) R frs" and "3 \<le> length frs"
  shows "\<exists>mm' frs'. map_stack_pages td f w = Some (Inr (0, w\<lparr>tw_mm := mm'\<rparr>)) \<and> frame_idx mm' = frame_idx (tw_mm w) \<and>
    cache_frames mm' frs' \<and> tables_ok (kmem mm') R frs' \<and> length frs \<le> length frs' + 3 \<and>
    (\<forall>pd va. pd_entries pd = R \<longrightarrow> mm_pin_virtual_address pd va mm' =
      (case page_in_area (slot_page k + 3) 4 va of Some i \<Rightarrow> frame_idx (tw_mm w) (xs ! i)
       | None \<Rightarrow> mm_pin_virtual_address pd va (tw_mm w)))"
proof -
  let ?m = "tw_mm w" and ?pd = "t_page_dir (task_of w td)" and ?P = "slot_page k + 3"
  let ?c = "\<lparr>li_head = f, li_curr = f, li_num_pages = 4, li_pages_left = 4\<rparr>"
  let ?fs = "map (frame_idx ?m) xs"
  have k: "k < stack_slots" and R: "R \<noteq> 0" "pd_entries ?pd = R" and stk: "t_kernel_stack (task_of w td) = slot_stack KERNEL_BASE k"
    using assms(1) by (auto simp: slot_task_def)
  have map: "mappable ?pd ?m frs ?P 4 0"
    by (rule slot_mappable [OF k]) (use assms R in simp_all)
  have "list_rep ?c ?m ?fs frs"
    unfolding list_rep_def using assms(2-6) by (intro exI [of _ xs] exI [of _ nodes]) simp
  then have rep: "list_rep ?c ?m ?fs frs \<and> frame_idx ?m = frame_idx ?m" by simp
  obtain c' m' frs' where m': "mm_map_pages (Some ?pd) (Some pageaccs_list_pa) (page_addr ?P) (of_nat 4) 0 ?c ?m
      = Some (Inr (0, c', m'))" "list_rep c' m' (drop 4 ?fs) frs'" "frame_idx m' = frame_idx ?m"
      "tables_ok (kmem m') (pd_entries ?pd) frs'" "length frs \<le> length frs' + 1 + regions2 (vpn ?P) 4"
    and pin: "\<forall>va. mm_pin_virtual_address ?pd va m' =
      (case page_in_area ?P 4 va of Some i \<Rightarrow> ?fs ! i | None \<Rightarrow> mm_pin_virtual_address ?pd va ?m)"
    using list_pa_idx.map_then_pin [OF map rep] assms(5) by auto
  have two: "regions2 (vpn ?P) 4 = 2"
    using slot_regions [of 3 4 k] by simp
  have run: "map_stack_pages td f w = Some (Inr (0, w\<lparr>tw_mm := m'\<rparr>))"
    unfolding map_stack_pages_def Let_def list_pa_reset_def
    using m'(1) slot_page_addr(1) [OF k] by (simp add: stk slot_stack_def stack_pages_consts)
  have same: "mm_pin_virtual_address pd va x = mm_pin_virtual_address ?pd va x" if "pd_entries pd = R" for pd va x
    using that R(2) by (simp add: pin_leaf)
  have "?fs ! i = frame_idx ?m (xs ! i)" if "page_in_area ?P 4 va = Some i" for va i
    using page_in_area_less [OF that] assms(5) by simp
  then have "mm_pin_virtual_address pd va m' = (case page_in_area ?P 4 va of Some i \<Rightarrow> frame_idx ?m (xs ! i)
       | None \<Rightarrow> mm_pin_virtual_address pd va ?m)" if "pd_entries pd = R" for pd va
    using pin same [OF that] by (simp split: option.splits)
  moreover have "cache_frames m' frs'" using m'(2) by (auto simp: list_rep_def cache_frames_def)
  ultimately show ?thesis
    using run m' two R(2) by (intro exI [of _ m'] exI [of _ frs']) simp
qed

lemma map_task_struct_ok:
  assumes "slot_task w td k R" and "cache_frames (tw_mm w) frs" and "tables_ok (kmem (tw_mm w)) R frs"
    and "3 \<le> length frs"
  shows "\<exists>mm' frs'. map_task_struct td ts w = Some (Inr (0, w\<lparr>tw_mm := mm'\<rparr>)) \<and>
    cache_frames mm' frs' \<and> tables_ok (kmem mm') R frs' \<and>
    (\<forall>pd va. pd_entries pd = R \<longrightarrow> mm_pin_virtual_address pd va mm' =
      (case page_in_area (slot_page k) 1 va of Some i \<Rightarrow> frame_idx (tw_mm w) ts
       | None \<Rightarrow> mm_pin_virtual_address pd va (tw_mm w)))"
proof -
  let ?m = "tw_mm w" and ?pd = "t_page_dir (task_of w td)" and ?i = "frame_idx (tw_mm w) ts"
  let ?c = "\<lparr>lp_start_page = ?i, lp_end_page = ?i, lp_curr_page = ?i\<rparr>"
  have k: "k < stack_slots" and R: "R \<noteq> 0" "pd_entries ?pd = R" and stk: "t_kernel_stack (task_of w td) = slot_stack KERNEL_BASE k"
    using assms(1) by (auto simp: slot_task_def)
  have map: "mappable ?pd ?m frs (slot_page k) 1 0"
    using slot_mappable [OF k, of 0 1 ?m R frs ?pd] assms R by simp
  have rep: "linear_rep ?c ?m [?i] frs" using assms(2) by (simp add: linear_rep_def)
  obtain c' m' frs' where m': "mm_map_pages (Some ?pd) (Some pageaccs_linear_pa) (page_addr (slot_page k)) (of_nat 1) 0 ?c ?m
      = Some (Inr (0, c', m'))" "linear_rep c' m' (drop 1 [?i]) frs'" "tables_ok (kmem m') (pd_entries ?pd) frs'"
    and pin: "\<forall>va. mm_pin_virtual_address ?pd va m' =
      (case page_in_area (slot_page k) 1 va of Some i \<Rightarrow> [?i] ! i | None \<Rightarrow> mm_pin_virtual_address ?pd va ?m)"
    using linear_pa.map_then_pin [OF map rep] by auto
  have run: "map_task_struct td ts w = Some (Inr (0, w\<lparr>tw_mm := m'\<rparr>))"
    unfolding map_task_struct_def Let_def linear_pa_reset_def
    using m'(1) slot_page_addr(2) [OF k] by (simp add: stk slot_stack_def KERNEL_STACK_PAGE_FLAGS_def)
  have same: "mm_pin_virtual_address pd va x = mm_pin_virtual_address ?pd va x" if "pd_entries pd = R" for pd va x
    using that R(2) by (simp add: pin_leaf)
  have "[?i] ! i = ?i" if "page_in_area (slot_page k) 1 va = Some i" for va i
    using page_in_area_less [OF that] by simp
  then have "mm_pin_virtual_address pd va m' = (case page_in_area (slot_page k) 1 va of Some i \<Rightarrow> ?i
       | None \<Rightarrow> mm_pin_virtual_address pd va ?m)" if "pd_entries pd = R" for pd va
    using pin same [OF that] by (simp split: option.splits)
  moreover have "cache_frames m' frs'" using m'(2) by (simp add: linear_rep_def)
  ultimately show ?thesis
    using run m'(3) R(2) by (intro exI [of _ m'] exI [of _ frs']) simp
qed

section \<open>Creation\<close>

text \<open>What a creation needs: a free stack slot, free frames for the task structure, the stack and the
  tables, and sound tables of the parent, whose structure does not lie in a free frame.\<close>

definition can_create :: "task_world \<Rightarrow> addr \<Rightarrow> nat \<Rightarrow> page_idx \<Rightarrow> page_idx list \<Rightarrow> page_idx list \<Rightarrow> bool" where
  "can_create w q k f ss frs \<longleftrightarrow>
     kstack_ready KERNEL_BASE (tw_stacks w) k \<and> k < stack_slots \<and>
     cache_frames (tw_mm w) (f # ss @ frs) \<and> length ss = 4 \<and> 6 \<le> length frs \<and>
     tables_ok (kmem (tw_mm w)) (pd_entries (t_page_dir (task_of w q))) (f # ss @ frs) \<and>
     pd_entries (t_page_dir (task_of w q)) \<noteq> 0 \<and> q \<noteq> pframe_to_virt f"

definition creates :: "(int \<times> addr option \<times> task_world) res option \<Rightarrow> task_world \<Rightarrow> addr \<Rightarrow> nat \<Rightarrow> page_idx \<Rightarrow> page_idx list \<Rightarrow>
    task_world \<Rightarrow> bool" where
  "creates r w q k f ss w' \<longleftrightarrow>
     r = Some (Inr (0, Some (pframe_to_virt f), w')) \<and>
     kstack_ready KERNEL_BASE (tw_stacks w') (Suc k) \<and> tw_pid w' = tw_pid w + 1 \<and>
     (let t = task_of w' (pframe_to_virt f) in
        t_pid t = tw_pid w \<and> t_ppid t = t_pid (task_of w q) \<and> t_kernel_stack t = slot_stack KERNEL_BASE k \<and>
        pd_entries (t_page_dir t) = pd_entries (t_page_dir (task_of w q))) \<and>
     (\<forall>td. td \<noteq> pframe_to_virt f \<longrightarrow> tw_data w' td = tw_data w td) \<and>
     (\<forall>pd va. pd_entries pd = pd_entries (t_page_dir (task_of w q)) \<longrightarrow> mm_pin_virtual_address pd va (tw_mm w') =
        (case page_in_area (slot_page k) 1 va of Some i \<Rightarrow> f
         | None \<Rightarrow> (case page_in_area (slot_page k + 3) 4 va of Some i \<Rightarrow> ss ! i
           | None \<Rightarrow> mm_pin_virtual_address pd va (tw_mm w))))"

lemma task_of_upd [simp]: "task_of (upd_task td f w) q = (if q = td then f (task_of w td) else task_of w q)"
  by (simp add: task_of_def upd_task_def)

lemma upd_task_simps [simp]:
  "tw_mm (upd_task td f w) = tw_mm w" "tw_stacks (upd_task td f w) = tw_stacks w" "tw_pid (upd_task td f w) = tw_pid w"
  "tw_kernel_pd (upd_task td f w) = tw_kernel_pd w"
  "q \<noteq> td \<Longrightarrow> tw_data (upd_task td f w) q = tw_data w q"
  by (simp_all add: upd_task_def)

lemma task_of_other_fields [simp]:
  "task_of (w\<lparr>tw_mm := mm\<rparr>) q = task_of w q" "task_of (w\<lparr>tw_stacks := ks\<rparr>) q = task_of w q"
  "task_of (w\<lparr>tw_pid := n\<rparr>) q = task_of w q" "task_of (w\<lparr>tw_kthread1 := kt\<rparr>) q = task_of w q"
  "task_of (initialize_task_system_data td cpu w) q = task_of w q"
  by (simp_all add: task_of_def initialize_task_system_data_def)

lemma create_new_task_ok:
  assumes "can_create w q k f ss frs" and "flags AND CLONE_MM \<noteq> 0"
  shows "\<exists>w'. creates (create_new_task (Some q) flags priv w) w q k f ss w'"
proof -
  let ?m = "tw_mm w" and ?td = "pframe_to_virt f" and ?R = "pd_entries (t_page_dir (task_of w q))"
  have ready: "kstack_ready KERNEL_BASE (tw_stacks w) k" "k < stack_slots" and ss: "length ss = 4" "6 \<le> length frs"
    and tables: "tables_ok (kmem ?m) ?R (f # ss @ frs)" and R: "?R \<noteq> 0" "q \<noteq> ?td"
    using assms(1) by (simp_all add: can_create_def)
  obtain ts xs nodes where nodes: "cache_rep ?m (ts # xs @ nodes)" "frame_idx ?m ts = f"
      "map (frame_idx ?m) xs = ss" "map (frame_idx ?m) nodes = frs"
  proof -
    obtain all where all: "cache_rep ?m all" "map (frame_idx ?m) all = f # ss @ frs"
      using assms(1) by (auto simp: can_create_def cache_frames_def)
    then obtain ts rest where "all = ts # rest" "frame_idx ?m ts = f" "map (frame_idx ?m) rest = ss @ frs"
      by auto
    with all(1) that show thesis by (auto simp: map_eq_append_conv)
  qed
  have len: "length xs = 4" using nodes(3) ss(1) by auto
  then obtain a ys where xs: "xs = a # ys" "length ys = 3" by (cases xs) auto
  let ?m1 = "(take_frame ts ?m)\<lparr>kmem := zeroed (kmem ?m) f\<rparr>"
  have m1: "alloc_page GENERIC_KERNEL_PAGE True ?m = Inr (Some ts, ?m1)"
    using alloc_page_take [OF nodes(1), of GENERIC_KERNEL_PAGE True] nodes(2) by (simp add: GENERIC_KERNEL_PAGE_def)
  have c1: "cache_rep ?m1 (a # ys @ nodes)" using cache_rep_take(1) [OF nodes(1)] xs(1) by simp
  obtain ks where ks: "allocate_kernel_stack (t_kernel_stack (td_task zero_task_data)) (tw_stacks w)
      = Inr (0, slot_stack KERNEL_BASE k, ks)" "kstack_ready KERNEL_BASE ks (Suc k)"
    using allocate_kernel_stack_ready [of "tw_stacks w" k "t_kernel_stack (td_task zero_task_data)"] ready
    by (auto simp: kstack_ready_def slot_stack_update)
  obtain m2 where m2: "alloc_stack_pages ?m1 = Inr (Some a, m2)" "cache_rep m2 nodes" "kmem m2 = kmem ?m1"
      "frame_idx m2 = frame_idx ?m" "pc_pages (cpu_cache m2) = pc_pages (cpu_cache ?m)"
      "link_walk (frame_links m2) a xs"
    using alloc_stack_pages_ring [OF c1 xs(2)] xs(1) by auto
  let ?w2 = "upd_task ?td (\<lambda>t. t\<lparr>t_page_dir := \<lparr>pd_entries = ?R\<rparr>\<rparr>)
    (upd_task ?td (\<lambda>t. t\<lparr>t_kernel_stack := slot_stack KERNEL_BASE k\<rparr>)
      (w\<lparr>tw_mm := m2, tw_data := (tw_data w)(?td := zero_task_data), tw_stacks := ks\<rparr>))"
  have slot: "slot_task ?w2 ?td k ?R" using ready(2) R(1) by (simp add: slot_task_def)
  have t1: "tables_ok (kmem m2) ?R frs"
    using tables_ok_fewer [OF tables_ok_zeroed [OF tables], of frs] tables_okD(4) [OF tables] m2(3) by auto
  obtain m3 frs3 where m3: "map_stack_pages ?td a ?w2 = Some (Inr (0, ?w2\<lparr>tw_mm := m3\<rparr>))" "frame_idx m3 = frame_idx ?m"
      "cache_frames m3 frs3" "tables_ok (kmem m3) ?R frs3" "length frs \<le> length frs3 + 3"
    and pin3: "\<And>pd va. pd_entries pd = ?R \<Longrightarrow> mm_pin_virtual_address pd va m3 =
      (case page_in_area (slot_page k + 3) 4 va of Some i \<Rightarrow> frame_idx ?m (xs ! i)
       | None \<Rightarrow> mm_pin_virtual_address pd va m2)"
  proof -
    have "set xs \<inter> insert (pc_pages (cpu_cache m2)) (set nodes) = {}"
      using nodes(1) m2(5) by (auto simp: cache_rep_def dlist_def)
    then have "\<exists>mm' frs'. map_stack_pages ?td a ?w2 = Some (Inr (0, ?w2\<lparr>tw_mm := mm'\<rparr>)) \<and>
        frame_idx mm' = frame_idx (tw_mm ?w2) \<and> cache_frames mm' frs' \<and> tables_ok (kmem mm') ?R frs' \<and>
        length frs \<le> length frs' + 3 \<and>
        (\<forall>pd va. pd_entries pd = ?R \<longrightarrow> mm_pin_virtual_address pd va mm' =
          (case page_in_area (slot_page k + 3) 4 va of Some i \<Rightarrow> frame_idx (tw_mm ?w2) (xs ! i)
           | None \<Rightarrow> mm_pin_virtual_address pd va (tw_mm ?w2)))"
      using m2 nodes(4) len ss(2) t1 by (intro map_stack_pages_ok [OF slot, of nodes]) simp_all
    moreover have "tw_mm ?w2 = m2" by simp
    ultimately show thesis using that m2(4) by metis
  qed
  let ?w3 = "?w2\<lparr>tw_mm := m3\<rparr>"
  have slot3: "slot_task ?w3 ?td k ?R" using slot by (simp add: slot_task_def)
  obtain m4 frs4 where m4: "map_task_struct ?td ts ?w3 = Some (Inr (0, ?w3\<lparr>tw_mm := m4\<rparr>))"
    and pin4: "\<And>pd va. pd_entries pd = ?R \<Longrightarrow> mm_pin_virtual_address pd va m4 =
      (case page_in_area (slot_page k) 1 va of Some i \<Rightarrow> f | None \<Rightarrow> mm_pin_virtual_address pd va m3)"
  proof -
    have "tw_mm ?w3 = m3" by simp
    moreover have "\<exists>mm' frs'. map_task_struct ?td ts ?w3 = Some (Inr (0, ?w3\<lparr>tw_mm := mm'\<rparr>)) \<and>
        cache_frames mm' frs' \<and> tables_ok (kmem mm') ?R frs' \<and>
        (\<forall>pd va. pd_entries pd = ?R \<longrightarrow> mm_pin_virtual_address pd va mm' =
          (case page_in_area (slot_page k) 1 va of Some i \<Rightarrow> frame_idx (tw_mm ?w3) ts
           | None \<Rightarrow> mm_pin_virtual_address pd va (tw_mm ?w3)))"
      using m3(3-5) ss(2) by (intro map_task_struct_ok [OF slot3, of frs3]) simp_all
    moreover have "frame_idx m3 ts = f" using m3(2) nodes(2) by simp
    ultimately show thesis using that by metis
  qed
  have pin: "mm_pin_virtual_address pd va m4 =
      (case page_in_area (slot_page k) 1 va of Some i \<Rightarrow> f
       | None \<Rightarrow> (case page_in_area (slot_page k + 3) 4 va of Some i \<Rightarrow> ss ! i | None \<Rightarrow> mm_pin_virtual_address pd va ?m))"
    if pd: "pd_entries pd = ?R" for pd va
  proof -
    have "mm_pin_virtual_address pd va m2 = mm_pin_virtual_address pd va ?m"
      using leaf_zeroed [OF tables] pd m2(3) by (simp add: pin_leaf)
    moreover have "frame_idx ?m (xs ! i) = ss ! i" if "page_in_area (slot_page k + 3) 4 va = Some i" for i
      using page_in_area_less [OF that] nodes(3) len by auto
    ultimately show ?thesis
      using pin3 [OF pd] pin4 [OF pd] by (simp split: option.splits)
  qed
  have run: "create_new_task (Some q) flags priv w = finish_task (Some q) ?td (?w3\<lparr>tw_mm := m4\<rparr>)"
  proof -
    have w2: "upd_task ?td (\<lambda>t. t\<lparr>t_page_dir := (t_page_dir t)\<lparr>pd_entries := ?R\<rparr>\<rparr>)
        (upd_task ?td (\<lambda>t. t\<lparr>t_page_dir := initialize_page_directory (t_page_dir t)\<rparr>)
          (upd_task ?td (\<lambda>t. t\<lparr>t_kernel_stack := slot_stack KERNEL_BASE k\<rparr>)
            (w\<lparr>tw_mm := ?m1, tw_data := (tw_data w)(?td := zero_task_data), tw_stacks := ks\<rparr>)))\<lparr>tw_mm := m2\<rparr> = ?w2"
      by (simp add: upd_task_def initialize_page_directory_def zero_task_data_def)
    have blank: "task_of (w\<lparr>tw_mm := ?m1, tw_data := (tw_data w)(?td := zero_task_data)\<rparr>) ?td = td_task zero_task_data"
      by (simp add: task_of_def)
    have parent: "task_of (w\<lparr>tw_mm := ?m1, tw_data := (tw_data w)(?td := zero_task_data)\<rparr>) q = task_of w q"
      using R(2) by (simp add: task_of_def)
    show ?thesis
      using assms(2) R(2) nodes(2) m1 ks(1) m2(1) m3(1) m4
      by (simp add: create_new_task_def initialize_mm_def Let_def blank parent w2)
  qed
  show ?thesis
    using ks(2) R pin
    by (simp add: creates_def run finish_task_def Let_def initialize_task_system_data_def task_of_def upd_task_def)
qed

section \<open>The first activation\<close>

definition first_regs :: "image \<Rightarrow> u64 \<Rightarrow> u64 \<Rightarrow> u64 \<Rightarrow> regs" where
  "first_regs im high rdi rsi = \<lparr>r_rbp = 0, r_rsi = rsi, r_rdi = rdi, r_rdx = 0, r_rcx = 0, r_rbx = 0,
     r_r15 = 0, r_r14 = 0, r_r13 = 0, r_r12 = 0, r_r11 = 0, r_r10 = 0, r_r9 = 0, r_r8 = 0,
     r_rip = im_thread_helper im, r_cs = 8, r_rflags = im_rflags im OR 0x200, r_old_rsp = high, r_old_ss = 16\<rparr>"

lemma context_size: "(0x1000 - sizeof_regs) - ((0x1000 - sizeof_regs) AND 0xe00) + 512 = (872 :: u64)"
  by (simp add: sizeof_regs_def)

lemma setup_context_memory:
  defines "h \<equiv> \<lambda>w td. ks_high_address (t_kernel_stack (task_of w td))"
  assumes "arch_setup_task_context im td flags TPL_KERNEL w = (r, w')"
  shows "r = 0" and "kmem (tw_mm w') (h w td - 1040) = im_fork_path im" and "kmem (tw_mm w') (h w td - 1032) = 872"
    and "load_regs (kmem (tw_mm w')) (h w td - 152) = first_regs im (h w td) 0 0"
    and "task_of w' td = (task_of w td)\<lparr>t_arch_context :=
      \<lparr>ac_cr3 = k2p (pd_entries (t_page_dir (task_of w td))), ac_rsp = h w td - 1040\<rparr>\<rparr>"
    and "tw_stacks w' = tw_stacks w"
proof -
  define c where "c = h w td - 1040"
  have h: "ks_high_address (t_kernel_stack (task_of w td)) = c + 1040" by (simp add: c_def h_def)
  let ?mem = "kmem (tw_mm w)"
  define z where "z = memset_zero (c + 888) 152 ?mem"
  define z1 where "z1 = z(c + 1008 := 8, c + 1032 := 16, c + 1000 := im_thread_helper im, c + 1024 := c + 1040, c + 1016 := im_rflags im OR 0x200)"
  define z2 where "z2 = (memset_zero (c + 16) 512 z1)(c + 8 := 872, c := im_fork_path im)"
  note defs = arch_setup_task_context_def Let_def context_size arch_setup_ctx_def st64_def store_slot_def
    memset_zero_tw_def descr_defs sizeof_regs_def
  have kept: "r = 0" "tw_stacks w' = tw_stacks w" and mem: "kmem (tw_mm w') = z2"
    using assms(2) by (auto simp: defs h z2_def z1_def z_def add.commute [of c])
  show "r = 0" "tw_stacks w' = tw_stacks w" by (rule kept)+
  have hc: "h w td = c + 1040" by (simp add: c_def)
  show "kmem (tw_mm w') (h w td - 1040) = im_fork_path im" "kmem (tw_mm w') (h w td - 1032) = 872"
    unfolding mem hc by (simp_all add: z2_def)
  have z2: "z2 a = z1 a" if "\<not> a - (c + 16) < 512" "a \<noteq> c + 8" "a \<noteq> c" for a
    using that by (simp add: z2_def memset_zero_def)
  show "load_regs (kmem (tw_mm w')) (h w td - 152) = first_regs im (h w td) 0 0"
    unfolding mem hc load_regs_def first_regs_def by (simp add: z2 z1_def z_def memset_zero_def add.commute [of c])
  show "task_of w' td = (task_of w td)\<lparr>t_arch_context :=
      \<lparr>ac_cr3 = k2p (pd_entries (t_page_dir (task_of w td))), ac_rsp = h w td - 1040\<rparr>\<rparr>"
    using assms(2) by (auto simp: defs h_def task_of_def upd_task_def)
qed

lemma kernel_thread_first_switch:
  assumes "can_create w q k f ss frs"
  shows "\<exists>w'. kernel_thread im q fn data w = Some (Inr (0, w')) \<and>
    (let c = t_arch_context (task_of w' (pframe_to_virt f)); high = slot_high KERNEL_BASE k in
      tw_kthread1 w' = Some (pframe_to_virt f) \<and> ac_cr3 c = k2p (pd_entries (t_page_dir (task_of w q))) \<and>
      ac_rsp c + 16 = high - 1024 \<and>
      kmem (tw_mm w') (ac_rsp c + 8) = 872 \<and>
      activate_new (kmem (tw_mm w')) (ac_rsp c) = (im_fork_path im, first_regs im high fn data))"
proof -
  have "KERNEL_THREAD_FLAGS AND CLONE_MM \<noteq> 0" by (simp add: KERNEL_THREAD_FLAGS_def CLONE_MM_def)
  then obtain w1 where w1: "creates (create_new_task (Some q) KERNEL_THREAD_FLAGS TPL_KERNEL w) w q k f ss w1"
    using create_new_task_ok [OF assms] by blast
  let ?td = "pframe_to_virt f" and ?high = "slot_high KERNEL_BASE k"
  have t1: "t_kernel_stack (task_of w1 ?td) = slot_stack KERNEL_BASE k"
    "pd_entries (t_page_dir (task_of w1 ?td)) = pd_entries (t_page_dir (task_of w q))"
    using w1 by (simp_all add: creates_def Let_def)
  obtain r w2 where w2: "arch_setup_task_context im ?td KERNEL_THREAD_FLAGS TPL_KERNEL w1 = (r, w2)"
    by (metis prod.exhaust)
  note mem = setup_context_memory [OF w2, unfolded t1 slot_stack_def kernel_stack.simps]
  let ?w3 = "w2\<lparr>tw_kthread1 := Some ?td\<rparr>"
  let ?w' = "st64 (?high - 152 + 8) data (st64 (?high - 152 + 16) fn ?w3)"
  have run: "kernel_thread im q fn data w = Some (Inr (0, ?w'))"
    using w1 w2 mem(1,5) t1(1) by (simp add: kernel_thread_def create_task_def creates_def sizeof_regs_def slot_stack_def)
  have kept: "task_of ?w' ?td = task_of w2 ?td" "tw_kthread1 ?w' = Some ?td"
    by (simp_all add: st64_def)
  have m: "kmem (tw_mm ?w') = (kmem (tw_mm w2))(?high - 136 := fn, ?high - 144 := data)"
    by (simp add: st64_def store_slot_def)
  have "load_regs (kmem (tw_mm ?w')) (?high - 152) =
      (load_regs (kmem (tw_mm w2)) (?high - 152))\<lparr>r_rdi := fn, r_rsi := data\<rparr>"
    unfolding m by (simp add: load_regs_def)
  also have "\<dots> = first_regs im ?high fn data"
    unfolding mem(4) by (simp add: first_regs_def)
  finally have regs: "load_regs (kmem (tw_mm ?w')) (?high - 152) = first_regs im ?high fn data" .
  have slots: "kmem (tw_mm ?w') (?high - 1040) = im_fork_path im" "kmem (tw_mm ?w') (?high - 1032) = 872"
    unfolding m using mem(2,3) by simp_all
  have "activate_new (kmem (tw_mm ?w')) (?high - 1040) = (im_fork_path im, first_regs im ?high fn data)"
    using regs slots by (simp add: activate_new_def restore_all_def restore_mm_def Let_def)
  then show ?thesis
    using run kept mem(5) t1(2) slots(2) by (intro exI [of _ ?w']) (simp add: Let_def)
qed

section \<open>Properties\<close>

text \<open>C5: Creating a task takes the first free frame for its structure and the next stack slot, numbers it,
  shares the parent's tables and maps them: in those tables the four pages of the stack lead to the next four
  frames, the page at the bottom of the slot to the structure, and every other address where it led before.\<close>

theorem create_task_maps_stack:
  assumes "can_create w q k f ss frs" and "flags AND CLONE_MM \<noteq> 0"
  shows "\<exists>w'. creates (create_new_task (Some q) flags priv w) w q k f ss w' \<and>
    (\<forall>sp. slot_high KERNEL_BASE k - 16384 \<le> sp \<and> sp \<le> slot_high KERNEL_BASE k \<longrightarrow>
      pframe_to_virt (mm_pin_virtual_address (t_page_dir (task_of w q)) (arch_current_task sp) (tw_mm w')) = pframe_to_virt f)"
proof -
  obtain w' where w': "creates (create_new_task (Some q) flags priv w) w q k f ss w'"
    using create_new_task_ok [OF assms] by blast
  have k: "k < stack_slots" using assms(1) by (simp add: can_create_def)
  have "mm_pin_virtual_address (t_page_dir (task_of w q)) (arch_current_task sp) (tw_mm w') = f"
    if "slot_high KERNEL_BASE k - 16384 \<le> sp" "sp \<le> slot_high KERNEL_BASE k" for sp
    using w' current_task_page [OF k that] by (simp add: creates_def)
  then show ?thesis using w' by auto
qed

text \<open>A kernel thread starts in the thread helper: what the first switch to it pops off the stack that
  \<^verbatim>\<open>kernel_thread\<close> prepared is the fork path as return address and a register frame that holds the function and
  its argument in the argument registers, the kernel selectors, enabled interrupts and the top of its stack.\<close>

theorem kernel_thread_starts:
  assumes "can_create w q k f ss frs"
  shows "\<exists>w'. kernel_thread im q fn data w = Some (Inr (0, w')) \<and>
    (let c = t_arch_context (task_of w' (pframe_to_virt f)); high = slot_high KERNEL_BASE k in
      tw_kthread1 w' = Some (pframe_to_virt f) \<and> ac_cr3 c = k2p (pd_entries (t_page_dir (task_of w q))) \<and>
      ac_rsp c + 16 = high - 1024 \<and>
      activate_new (kmem (tw_mm w')) (ac_rsp c) = (im_fork_path im, first_regs im high fn data))"
  using kernel_thread_first_switch [OF assms, of im fn data] unfolding Let_def by blast

text \<open>C37: When the stack slots are used up, \<^verbatim>\<open>kernel_thread\<close> does not report it: the failure of the stack
  allocator reaches it as the positive status 1, which it takes for success, and it writes the registers of
  the null task.\<close>

theorem kernel_thread_without_stack_faults:
  assumes "cache_frames (tw_mm w) (f # frs)" and "kstack_ready KERNEL_BASE (tw_stacks w) stack_slots"
  shows "kernel_thread im q fn data w = Some (Inl BadAccess)"
proof -
  obtain ts nodes where nodes: "cache_rep (tw_mm w) (ts # nodes)"
    using assms(1) by (auto simp: cache_frames_def)
  have "allocate_kernel_stack stk (tw_stacks w) =
      Inr (- ENOENT, stk\<lparr>ks_high_address := KERNEL_INVALID_ADDRESS, ks_id := INVALID_STACK_ID\<rparr>, tw_stacks w)" for stk
    using allocate_kernel_stack_exhausted [of "tw_stacks w" stk] assms(2) by (simp add: kstack_ready_def)
  then show ?thesis
    using alloc_page_take [OF nodes, of GENERIC_KERNEL_PAGE True]
    by (simp add: kernel_thread_def create_task_def create_new_task_def GENERIC_KERNEL_PAGE_def Let_def errno_defs)
qed

text \<open>\<^verbatim>\<open>setup_task_kernel_stack\<close> maps with a null accessor, which \<^verbatim>\<open>mm_map_pages\<close> refuses: it takes a slot and fails.\<close>

lemma setup_task_kernel_stack_fails:
  assumes "kstack_ready KERNEL_BASE (tw_stacks w) k" and "k < stack_slots"
  shows "\<exists>w'. setup_task_kernel_stack td w = Some (Inr (- EINVAL, w')) \<and> kstack_ready KERNEL_BASE (tw_stacks w') (Suc k)"
  using allocate_kernel_stack_ready [of "tw_stacks w" k "t_kernel_stack (task_of w td)"] assms
  by (auto simp: setup_task_kernel_stack_def mm_map_pages_def kstack_ready_def Let_def)

section \<open>A concrete world\<close>

definition world_nodes :: "addr list" where
  "world_nodes = [0x10000, 0x20000, 0x30000, 0x40000, 0x50000, 0x60000, 0x70000, 0x80000, 0x90000, 0xa0000, 0xb0000]"

definition world_frames :: "page_idx list" where
  "world_frames = [1, 2, 3, 4, 5, 6, 7, 8, 9, 10, 11]"

definition sample_world :: "kstack_state \<Rightarrow> task_world" where
  "sample_world st = \<lparr>tw_mm = \<lparr>kmem = (\<lambda>_. 0),
       frame_links = fold (\<lambda>n. list_add_tail n 0x500) world_nodes
         (init_list_head 0x500 \<lparr>lh_next = (\<lambda>_. 0), lh_prev = (\<lambda>_. 0)\<rparr>),
       frame_idx = (\<lambda>a. ucast (drop_bit 16 a)),
       cpu_cache = \<lparr>pc_pages = 0x500, pc_num_free_pages = 11, pc_total_pages = 11\<rparr>, mem_total_pages = 64\<rparr>,
     tw_stacks = st, tw_data = (\<lambda>_. zero_task_data\<lparr>td_task := (td_task zero_task_data)\<lparr>t_page_dir := sample_pd\<rparr>\<rparr>),
     tw_pid = 1, tw_kernel_pd = sample_pd, tw_kthread1 = None\<rparr>"

lemma sample_world_frames: "cache_frames (tw_mm (sample_world st)) world_frames"
proof -
  have "cache_rep (tw_mm (sample_world st)) world_nodes"
    using ring.build_back [OF init_list_head_empty, of world_nodes]
    by (simp add: cache_rep_def sample_world_def world_nodes_def)
  moreover have "map (frame_idx (tw_mm (sample_world st))) world_nodes = world_frames"
    by (simp add: sample_world_def world_nodes_def world_frames_def drop_bit_eq_div)
  ultimately show ?thesis unfolding cache_frames_def by metis
qed

lemma sample_world_can_create:
  assumes "kstack_ready KERNEL_BASE st 0"
  shows "can_create (sample_world st) 0x1000 0 1 [2, 3, 4, 5] [6, 7, 8, 9, 10, 11]"
proof -
  have "tables_ok (\<lambda>_. 0) 0xffffffff80200000 world_frames"
    by (auto simp: tables_ok_def world_frames_def walk_zero aligned_def pframe_to_virt_def page_defs split: if_splits)
  then show ?thesis
    using assms sample_world_frames [of st]
    by (simp add: can_create_def world_frames_def task_of_def pframe_to_virt_def page_defs stack_slots_def)
      (simp add: sample_world_def sample_pd_def zero_task_data_def)
qed

lemma sample_stacks:
  obtains st where "initialize_kernel_stack_allocator (Some sample_chunk) = Inr st" and "kstack_ready KERNEL_BASE st 0"
  by (rule kstack_start_ready [of sample_chunk]) (simp_all add: sample_chunk_def)

theorem create_task_maps_stack_witness:
  "\<exists>st w'. initialize_kernel_stack_allocator (Some sample_chunk) = Inr st \<and>
     creates (create_new_task (Some 0x1000) CLONE_MM TPL_KERNEL (sample_world st)) (sample_world st) 0x1000 0 1 [2, 3, 4, 5] w'"
proof -
  obtain st where st: "initialize_kernel_stack_allocator (Some sample_chunk) = Inr st" "kstack_ready KERNEL_BASE st 0"
    by (rule sample_stacks)
  then show ?thesis
    using create_task_maps_stack [OF sample_world_can_create [OF st(2)], of CLONE_MM TPL_KERNEL]
    by (auto simp: CLONE_MM_def)
qed

theorem kernel_thread_starts_witness:
  "\<exists>st w'. initialize_kernel_stack_allocator (Some sample_chunk) = Inr st \<and>
     kernel_thread \<lparr>im_thread_helper = 1, im_fork_path = 2, im_rflags = 0\<rparr> 0x1000 7 8 (sample_world st) = Some (Inr (0, w'))"
proof -
  obtain st where st: "initialize_kernel_stack_allocator (Some sample_chunk) = Inr st" "kstack_ready KERNEL_BASE st 0"
    by (rule sample_stacks)
  then show ?thesis
    using kernel_thread_starts [OF sample_world_can_create [OF st(2)], of "\<lparr>im_thread_helper = 1, im_fork_path = 2, im_rflags = 0\<rparr>" 7 8]
    by auto
qed

theorem kernel_thread_without_stack_faults_witness:
  "\<exists>st. kernel_thread \<lparr>im_thread_helper = 1, im_fork_path = 2, im_rflags = 0\<rparr> 0x1000 7 8 (sample_world st)
     = Some (Inl BadAccess)"
proof -
  obtain st where st: "kstack_ready KERNEL_BASE st 0"
    using sample_stacks by blast
  then obtain st' where "kstack_ready KERNEL_BASE st' stack_slots"
    using kstacks.run_ready [OF st, of stack_slots] by auto
  then have "kstack_ready KERNEL_BASE (tw_stacks (sample_world st')) stack_slots"
    by (simp add: sample_world_def)
  then show ?thesis
    using kernel_thread_without_stack_faults [OF sample_world_frames [of st', unfolded world_frames_def]] by blast
qed

end
