(* ===== verification/Mui_Switch.thy ===== *)
theory Mui_Switch
  imports Mui_Task
begin

text \<open>
  The switch between two tasks: the macros that save and restore a context
  (\<^verbatim>\<open>include/eza/amd64/context.h\<close>), \<^verbatim>\<open>arch_activate_task\<close> (\<^verbatim>\<open>include/eza/amd64/scheduler.h\<close>) and the
  assembly it calls (\<^verbatim>\<open>eza/amd64/sched/context.S\<close>). A register is a value of \<open>reg\<close>; the stack is part of
  the memory of 64-bit slots; the state of the floating-point unit is its image of 64 slots.
\<close>

section \<open>The processor\<close>

datatype reg = RAX | RBX | RCX | RDX | RSI | RDI | RBP | RSP
  | R8 | R9 | R10 | R11 | R12 | R13 | R14 | R15

record cpu =
  cp_regs :: "reg \<Rightarrow> u64"
  cp_rip :: u64
  cp_cr3 :: u64
  cp_if :: bool
  cp_fx :: "u64 list"
  cp_mem :: "addr \<Rightarrow> u64"

definition set_reg :: "reg \<Rightarrow> u64 \<Rightarrow> cpu \<Rightarrow> cpu" where
  "set_reg r v s = s\<lparr>cp_regs := (cp_regs s)(r := v)\<rparr>"

definition pushq :: "u64 \<Rightarrow> cpu \<Rightarrow> cpu" where
  "pushq v s =
     (let sp = cp_regs s RSP - 8
      in s\<lparr>cp_regs := (cp_regs s)(RSP := sp), cp_mem := (cp_mem s)(sp := v)\<rparr>)"

definition popq :: "reg \<Rightarrow> cpu \<Rightarrow> cpu" where
  "popq r s =
     (let sp = cp_regs s RSP
      in s\<lparr>cp_regs := (cp_regs s)(RSP := sp + 8, r := cp_mem s sp)\<rparr>)"

definition retq :: "cpu \<Rightarrow> cpu" where
  "retq s =
     (let sp = cp_regs s RSP
      in s\<lparr>cp_regs := (cp_regs s)(RSP := sp + 8), cp_rip := cp_mem s sp\<rparr>)"

definition fxsave :: "addr \<Rightarrow> cpu \<Rightarrow> cpu" where
  "fxsave a s = s\<lparr>cp_mem := (\<lambda>x. if x - a < 512 \<and> unat (x - a) mod 8 = 0 then cp_fx s ! (unat (x - a) div 8) else cp_mem s x)\<rparr>"

definition fxrstor :: "addr \<Rightarrow> cpu \<Rightarrow> cpu" where
  "fxrstor a s = s\<lparr>cp_fx := map (\<lambda>i. cp_mem s (a + of_nat (8 * i))) [0..<64]\<rparr>"

section \<open>Saving and restoring a context\<close>

definition GPR_SAVED :: "reg list" where
  "GPR_SAVED = [R8, R9, R10, R11, R12, R13, R14, R15, RBX, RCX, RDX, RDI, RSI, RBP]"

definition SAVE_GPR :: "cpu \<Rightarrow> cpu" where
  "SAVE_GPR s = fold (\<lambda>r s. pushq (cp_regs s r) s) GPR_SAVED s"

definition RESTORE_GPR :: "cpu \<Rightarrow> cpu" where
  "RESTORE_GPR s = fold popq [RBP, RSI, RDI, RDX, RCX, RBX, R15, R14, R13, R12, R11, R10, R9, R8] s"

definition SAVE_MM :: "cpu \<Rightarrow> cpu" where
  "SAVE_MM s =
     (let s = set_reg R8 (cp_regs s RSP) s;
          s = set_reg R8 (cp_regs s R8 AND 0xfffffffffffffe00) s;
          s = set_reg R9 (cp_regs s RSP) s;
          s = set_reg R9 (cp_regs s R9 - cp_regs s R8) s;
          s = set_reg R9 (cp_regs s R9 + 512) s;
          s = set_reg RSP (cp_regs s RSP - cp_regs s R9) s;
          s = fxsave (cp_regs s RSP) s
      in pushq (cp_regs s R9) s)"

definition RESTORE_MM :: "cpu \<Rightarrow> cpu" where
  "RESTORE_MM s =
     (let s = popq R10 s;
          s = fxrstor (cp_regs s RSP) s
      in set_reg RSP (cp_regs s RSP + cp_regs s R10) s)"

definition SAVE_ALL :: "cpu \<Rightarrow> cpu" where
  "SAVE_ALL s = SAVE_MM ((SAVE_GPR s)\<lparr>cp_if := False\<rparr>)"

definition RESTORE_ALL :: "cpu \<Rightarrow> cpu" where
  "RESTORE_ALL s = RESTORE_GPR (RESTORE_MM s)"

section \<open>The switch\<close>

text \<open>\<open>wake\<close> is the address of \<^verbatim>\<open>__return_from_sleep\<close>. The routine saves the context of the caller, leaves the
  stack pointer where \<^verbatim>\<open>%rdx\<close> says, and goes on on the stack of the other task.\<close>

definition switch_out :: "addr \<Rightarrow> cpu \<Rightarrow> cpu" where
  "switch_out wake s =
     (let s = pushq (cp_regs s RAX) s;
          s = SAVE_ALL s;
          s = pushq wake s;
          s = set_reg RAX (cp_cr3 s) s;
          s = (if cp_regs s RDI = cp_regs s RAX then s
               else let s = set_reg RAX (cp_regs s RDI) s in s\<lparr>cp_cr3 := cp_regs s RAX\<rparr>)
      in s\<lparr>cp_mem := (cp_mem s)(cp_regs s RDX := cp_regs s RSP)\<rparr>)"

definition arch_hw_activate_task :: "addr \<Rightarrow> cpu \<Rightarrow> cpu" where
  "arch_hw_activate_task wake s =
     (let s = switch_out wake s
      in retq (set_reg RSP (cp_regs s RSI) s))"

definition return_from_sleep :: "cpu \<Rightarrow> cpu" where
  "return_from_sleep s = retq ((popq RAX (RESTORE_ALL s))\<lparr>cp_if := True\<rparr>)"

text \<open>\<open>from_rsp\<close> is the address of the saved stack pointer in the context of the current task; \<open>ret\<close> is where the
  call returns to.\<close>

definition arch_activate_task :: "addr \<Rightarrow> addr \<Rightarrow> arch_context \<Rightarrow> addr \<Rightarrow> cpu \<Rightarrow> cpu" where
  "arch_activate_task wake from_rsp to_ctx ret s =
     arch_hw_activate_task wake
       (pushq ret (set_reg RDX from_rsp (set_reg RSI (ac_rsp to_ctx) (set_reg RDI (ac_cr3 to_ctx) s))))"

section \<open>The saved frame\<close>

definition saved_base :: "u64 \<Rightarrow> u64" where
  "saved_base rsp = (rsp - 120) AND NOT 511"

definition saved_rsp :: "u64 \<Rightarrow> u64" where
  "saved_rsp rsp = saved_base rsp - 528"

text \<open>The registers on the stack, from the top of it on.\<close>

definition saved_regs :: "reg list" where
  "saved_regs = [RBP, RSI, RDI, RDX, RCX, RBX, R15, R14, R13, R12, R11, R10, R9, R8, RAX]"

text \<open>The frame of a task that called with the registers of \<open>s\<close>, from the saved stack pointer up: the wake-up
  address, the size of the floating-point area, the area, and the registers.\<close>

definition frame_saved :: "addr \<Rightarrow> cpu \<Rightarrow> (addr \<Rightarrow> u64) \<Rightarrow> bool" where
  "frame_saved wake s m \<longleftrightarrow>
     (let sp = cp_regs s RSP; b = saved_base sp
      in m (b - 528) = wake \<and> m (b - 520) = sp - 120 - b + 512 \<and>
         (\<forall>i<64. m (b - 512 + of_nat (8 * i)) = cp_fx s ! i) \<and>
         (\<forall>i<15. m (sp - 120 + of_nat (8 * i)) = cp_regs s (saved_regs ! i)))"

lemma saved_offset:
  obtains e where "rsp = saved_base rsp + e + 120" and "unat e < 512"
proof -
  let ?x = "rsp - 120"
  have m: "(511 :: u64) = mask 9" by (simp add: mask_eq_exp_minus_1)
  have "unat (?x AND NOT 511) = unat ?x div 512 * 512" "unat (?x AND 511) = unat ?x mod 512"
    unfolding m unat_and_not_mask unat_and_mask by simp_all
  then have "unat (?x AND NOT 511) + unat (?x AND 511) = unat ?x" by simp
  then have "(of_nat (unat (?x AND NOT 511) + unat (?x AND 511)) :: u64) = of_nat (unat ?x)" by (simp only:)
  then have "?x = (?x AND NOT 511) + (?x AND 511)" by simp
  then have "rsp = saved_base rsp + (?x AND 511) + 120" by (simp add: saved_base_def algebra_simps)
  moreover have "unat (?x AND 511) < 512" unfolding m unat_and_mask by simp
  ultimately show thesis using that by blast
qed

lemma unat_small_add:
  "unat (e :: u64) < 512 \<Longrightarrow> n < 4096 \<Longrightarrow> unat (e + of_nat n) = unat e + n"
  by (subst unat_add_lem [THEN iffD1]) (simp_all add: unat_of_nat)

lemma mask_512: "0xfffffffffffffe00 = (NOT 511 :: u64)"
  by simp

text \<open>A sequence of pushes and a sequence of pops.\<close>

fun push_mem :: "(addr \<Rightarrow> u64) \<Rightarrow> addr \<Rightarrow> u64 list \<Rightarrow> addr \<Rightarrow> u64" where
  "push_mem m a [] = m"
| "push_mem m a (v # vs) = push_mem (m(a - 8 := v)) (a - 8) vs"

lemma pushq_simps [simp]:
  "cp_regs (pushq v s) = (cp_regs s)(RSP := cp_regs s RSP - 8)"
  "cp_mem (pushq v s) = (cp_mem s)(cp_regs s RSP - 8 := v)"
  "cp_rip (pushq v s) = cp_rip s" "cp_cr3 (pushq v s) = cp_cr3 s" "cp_if (pushq v s) = cp_if s"
  "cp_fx (pushq v s) = cp_fx s"
  by (simp_all add: pushq_def Let_def)

definition push_regs :: "reg list \<Rightarrow> cpu \<Rightarrow> cpu" where
  "push_regs rs s = fold (\<lambda>r s. pushq (cp_regs s r) s) rs s"

lemma push_regs_simps [simp]:
  "push_regs [] s = s" "push_regs (r # rs) s = push_regs rs (pushq (cp_regs s r) s)"
  by (simp_all add: push_regs_def)

lemma push_regs_frame [simp]:
  "cp_rip (push_regs rs s) = cp_rip s" "cp_cr3 (push_regs rs s) = cp_cr3 s" "cp_if (push_regs rs s) = cp_if s"
  "cp_fx (push_regs rs s) = cp_fx s"
  by (induction rs arbitrary: s) simp_all

lemma push_regs_regs:
  "RSP \<notin> set rs \<Longrightarrow> cp_regs (push_regs rs s) = (cp_regs s)(RSP := cp_regs s RSP - of_nat (8 * length rs))"
  by (induction rs arbitrary: s) (auto simp: algebra_simps)

lemma push_regs_mem:
  "RSP \<notin> set rs \<Longrightarrow> cp_mem (push_regs rs s) = push_mem (cp_mem s) (cp_regs s RSP) (map (cp_regs s) rs)"
proof (induction rs arbitrary: s)
  case (Cons r rs)
  have "map ((cp_regs s)(RSP := a)) rs = map (cp_regs s) rs" for a using Cons.prems by auto
  then show ?case using Cons by simp
qed simp

lemma push_mem_outside:
  "(\<forall>i<length vs. x \<noteq> a - of_nat (8 * Suc i)) \<Longrightarrow> push_mem m a vs x = m x"
proof (induction vs arbitrary: m a)
  case Nil
  then show ?case by simp
next
  case (Cons v vs)
  have "x \<noteq> a - 8 - of_nat (8 * Suc i)" if "i < length vs" for i
    using Cons.prems [rule_format, of "Suc i"] that by (simp add: algebra_simps)
  moreover have "x \<noteq> a - 8" using Cons.prems [rule_format, of 0] by simp
  ultimately show ?case using Cons.IH by simp
qed

lemma push_mem_nth:
  "i < length vs \<Longrightarrow> length vs < 2 ^ 60 \<Longrightarrow> push_mem m a vs (a - of_nat (8 * Suc i)) = vs ! i"
proof (induction vs arbitrary: m a i)
  case Nil
  then show ?case by simp
next
  case (Cons v vs)
  show ?case
  proof (cases i)
    case 0
    have "a - 8 \<noteq> a - 8 - of_nat (8 * Suc j)" if "j < length vs" for j
    proof -
      have "unat (of_nat (8 * Suc j) :: u64) = 8 * Suc j"
        using Cons.prems(2) that by (intro unat_of_nat_small) simp
      then have "(of_nat (8 * Suc j) :: u64) \<noteq> 0" by (metis mult_is_0 nat.distinct(1) numeral_neq_zero unat_0)
      then show ?thesis by (simp del: of_nat_mult of_nat_Suc mult_Suc_right)
    qed
    then show ?thesis using 0 push_mem_outside [of vs "a - 8" "a - 8"] by (simp del: of_nat_mult)
  next
    case (Suc j)
    then have "push_mem (m(a - 8 := v)) (a - 8) vs (a - 8 - of_nat (8 * Suc j)) = vs ! j"
      using Cons.prems by (intro Cons.IH) simp_all
    moreover have "a - 8 - of_nat (8 * Suc j) = a - of_nat (8 * Suc i)" using Suc by (simp add: algebra_simps)
    ultimately show ?thesis using Suc by (simp only: push_mem.simps nth_Cons_Suc)
  qed
qed

lemma popq_simps [simp]:
  "cp_regs (popq r s) = (cp_regs s)(RSP := cp_regs s RSP + 8, r := cp_mem s (cp_regs s RSP))"
  "cp_rip (popq r s) = cp_rip s" "cp_cr3 (popq r s) = cp_cr3 s" "cp_if (popq r s) = cp_if s"
  "cp_fx (popq r s) = cp_fx s" "cp_mem (popq r s) = cp_mem s"
  by (simp_all add: popq_def Let_def)

lemma popqs_frame [simp]:
  "cp_rip (fold popq rs s) = cp_rip s" "cp_cr3 (fold popq rs s) = cp_cr3 s" "cp_if (fold popq rs s) = cp_if s"
  "cp_fx (fold popq rs s) = cp_fx s" "cp_mem (fold popq rs s) = cp_mem s"
  by (induction rs arbitrary: s) simp_all

lemma popqs_rsp: "RSP \<notin> set rs \<Longrightarrow> cp_regs (fold popq rs s) RSP = cp_regs s RSP + of_nat (8 * length rs)"
  by (induction rs arbitrary: s) (auto simp: algebra_simps)

lemma popqs_other: "r \<notin> insert RSP (set rs) \<Longrightarrow> cp_regs (fold popq rs s) r = cp_regs s r"
  by (induction rs arbitrary: s) auto

lemma popqs_nth:
  "distinct rs \<Longrightarrow> RSP \<notin> set rs \<Longrightarrow> i < length rs \<Longrightarrow>
    cp_regs (fold popq rs s) (rs ! i) = cp_mem s (cp_regs s RSP + of_nat (8 * i))"
proof (induction rs arbitrary: s i)
  case (Cons q rs)
  show ?case
  proof (cases i)
    case 0
    then show ?thesis using Cons.prems popqs_other [of q rs "popq q s"] by auto
  next
    case (Suc j)
    then have "cp_regs (fold popq rs (popq q s)) (rs ! j) = cp_mem s (cp_regs s RSP + 8 + of_nat (8 * j))"
      using Cons.IH [of j "popq q s"] Cons.prems by (simp del: of_nat_mult)
    then show ?thesis using Suc by (simp add: algebra_simps)
  qed
qed simp

section \<open>Saving\<close>

lemma SAVE_GPR_push: "SAVE_GPR (pushq (cp_regs s RAX) s) = push_regs (RAX # GPR_SAVED) s"
  by (simp add: SAVE_GPR_def push_regs_def)

lemma saved_regs_rev: "rev (RAX # GPR_SAVED) = saved_regs" "RSP \<notin> set (RAX # GPR_SAVED)"
    "length (RAX # GPR_SAVED) = 15" "length saved_regs = 15" "distinct saved_regs" "RSP \<notin> set saved_regs"
    "set saved_regs = UNIV - {RSP}"
proof -
  have "r \<in> set saved_regs \<union> {RSP}" for r by (cases r) (simp_all add: saved_regs_def)
  moreover show "RSP \<notin> set saved_regs" by (simp add: saved_regs_def)
  ultimately show "set saved_regs = UNIV - {RSP}" by auto
qed (simp_all add: GPR_SAVED_def saved_regs_def)

lemma set_reg_simps [simp]:
  "cp_regs (set_reg r v s) = (cp_regs s)(r := v)" "cp_mem (set_reg r v s) = cp_mem s"
  "cp_rip (set_reg r v s) = cp_rip s" "cp_cr3 (set_reg r v s) = cp_cr3 s" "cp_if (set_reg r v s) = cp_if s"
  "cp_fx (set_reg r v s) = cp_fx s"
  by (simp_all add: set_reg_def)

definition fx_mem :: "addr \<Rightarrow> u64 list \<Rightarrow> (addr \<Rightarrow> u64) \<Rightarrow> addr \<Rightarrow> u64" where
  "fx_mem a f m = (\<lambda>x. if x - a < 512 \<and> unat (x - a) mod 8 = 0 then f ! (unat (x - a) div 8) else m x)"

lemma fxsave_simps [simp]:
  "cp_regs (fxsave a s) = cp_regs s" "cp_mem (fxsave a s) = fx_mem a (cp_fx s) (cp_mem s)"
  "cp_rip (fxsave a s) = cp_rip s" "cp_cr3 (fxsave a s) = cp_cr3 s" "cp_if (fxsave a s) = cp_if s"
  "cp_fx (fxsave a s) = cp_fx s"
  by (simp_all add: fxsave_def fx_mem_def)

text \<open>The routines in terms of the stack pointer \<open>p\<close> below the registers and the base \<open>b\<close> of the area.\<close>

lemma SAVE_MM_simps:
  assumes "cp_regs s RSP = p" and "p AND NOT 511 = b"
  shows "cp_regs (SAVE_MM s) = (cp_regs s)(R8 := b, R9 := p - b + 512, RSP := b - 520)"
    and "cp_mem (SAVE_MM s) = (fx_mem (b - 512) (cp_fx s) (cp_mem s))(b - 520 := p - b + 512)"
    and "cp_rip (SAVE_MM s) = cp_rip s" "cp_cr3 (SAVE_MM s) = cp_cr3 s" "cp_if (SAVE_MM s) = cp_if s"
    and "cp_fx (SAVE_MM s) = cp_fx s"
  unfolding SAVE_MM_def Let_def mask_512 using assms by (simp_all add: fun_eq_iff algebra_simps)

lemma switched_out:
  assumes "cp_regs s RSP = sp" and "saved_base sp = b"
  shows "cp_regs (switch_out wake s) RSP = b - 528" and "cp_regs (switch_out wake s) RSI = cp_regs s RSI"
    and "cp_cr3 (switch_out wake s) = cp_regs s RDI" and "\<not> cp_if (switch_out wake s)"
    and "cp_fx (switch_out wake s) = cp_fx s"
    and "cp_mem (switch_out wake s) = (fx_mem (b - 512) (cp_fx s)
        (push_mem (cp_mem s) sp (map (cp_regs s) (RAX # GPR_SAVED))))
      (b - 520 := sp - 120 - b + 512, b - 528 := wake, cp_regs s RDX := b - 528)"
proof -
  let ?p = "(push_regs (RAX # GPR_SAVED) s)\<lparr>cp_if := False\<rparr>"
  have r: "cp_regs ?p = (cp_regs s)(RSP := sp - 120)"
    using push_regs_regs [OF saved_regs_rev(2), of s] assms(1) unfolding saved_regs_rev(3) by simp
  have m: "cp_mem ?p = push_mem (cp_mem s) sp (map (cp_regs s) (RAX # GPR_SAVED))"
    using push_regs_mem [OF saved_regs_rev(2), of s] assms(1) by simp
  have f: "cp_fx ?p = cp_fx s" "cp_cr3 ?p = cp_cr3 s" "\<not> cp_if ?p"
    by (simp_all del: push_regs_simps)
  have "cp_regs ?p RSP = sp - 120" "(sp - 120) AND NOT 511 = b"
    using r assms(2) by (simp_all add: saved_base_def)
  note SAVE_MM_simps [OF this, unfolded r m f]
  moreover define q where "q = SAVE_MM ?p"
  ultimately have q: "cp_regs q = (cp_regs s)(RSP := b - 520, R8 := b, R9 := sp - 120 - b + 512)"
    "cp_mem q = (fx_mem (b - 512) (cp_fx s)
        (push_mem (cp_mem s) sp (map (cp_regs s) (RAX # GPR_SAVED))))(b - 520 := sp - 120 - b + 512)"
    "cp_cr3 q = cp_cr3 s" "\<not> cp_if q" "cp_fx q = cp_fx s"
    by (simp_all only: f fun_upd_twist) auto
  show "cp_regs (switch_out wake s) RSP = b - 528" "cp_regs (switch_out wake s) RSI = cp_regs s RSI"
    "cp_cr3 (switch_out wake s) = cp_regs s RDI" "\<not> cp_if (switch_out wake s)"
    "cp_fx (switch_out wake s) = cp_fx s"
    "cp_mem (switch_out wake s) = (fx_mem (b - 512) (cp_fx s)
        (push_mem (cp_mem s) sp (map (cp_regs s) (RAX # GPR_SAVED))))
      (b - 520 := sp - 120 - b + 512, b - 528 := wake, cp_regs s RDX := b - 528)"
    unfolding switch_out_def SAVE_ALL_def SAVE_GPR_push Let_def q_def [symmetric]
    by (simp_all add: q)
qed

text \<open>Addresses as distances from the saved stack pointer.\<close>

lemma len64: "LENGTH(64) = 64"
  by simp

lemma offset_eq:
  "i < 2 ^ 64 \<Longrightarrow> j < 2 ^ 64 \<Longrightarrow> ((r :: u64) + of_nat i = r + of_nat j) = (i = j)"
  using unat_of_nat_small [where 'a = 64, of i] unat_of_nat_small [where 'a = 64, of j]
  by (simp only: add_left_cancel len64) metis

lemma offset_of: obtains k where "(x :: u64) = r + of_nat k" and "k < 2 ^ 64" and "unat (x - r) = k"
proof -
  have "x = r + of_nat (unat (x - r))" by simp
  moreover have "unat (x - r) < 2 ^ 64" using unsigned_less [of "x - r"] by simp
  ultimately show thesis using that by blast
qed

lemma fx_mem_offset:
  assumes "16 \<le> k" "k < 2 ^ 64"
  shows "fx_mem (r + 16) f m (r + of_nat k) =
    (if k < 528 \<and> (k - 16) mod 8 = 0 then f ! ((k - 16) div 8) else m (r + of_nat k))"
proof -
  have "r + of_nat k - (r + 16) = of_nat (k - 16)" using assms(1) by (simp add: of_nat_diff)
  moreover have "unat (of_nat (k - 16) :: u64) = k - 16" using assms(2) by (intro unat_of_nat_small) simp
  ultimately show ?thesis using assms(1) by (auto simp: fx_mem_def word_less_nat_alt)
qed

lemma push_mem_offset:
  assumes "n = length vs" "8 * n \<le> d" "d < 2 ^ 60" "j < n"
  shows "push_mem m (r + of_nat d) vs (r + of_nat (d - 8 * n + 8 * j)) = rev vs ! j"
proof -
  have "8 * Suc (n - Suc j) \<le> d" using assms by simp
  then have "r + of_nat d - of_nat (8 * Suc (n - Suc j)) = r + of_nat (d - 8 * Suc (n - Suc j))"
    by (simp only: of_nat_diff) (simp add: algebra_simps)
  moreover have "d - 8 * Suc (n - Suc j) = d - 8 * n + 8 * j" using assms by auto
  moreover have "length vs < 2 ^ 60" "n - Suc j < length vs" using assms by simp_all
  ultimately have "push_mem m (r + of_nat d) vs (r + of_nat (d - 8 * n + 8 * j)) = vs ! (n - Suc j)"
    using push_mem_nth [of "n - Suc j" vs m "r + of_nat d"] by (simp only:)
  then show ?thesis using assms by (simp add: rev_nth)
qed

lemma push_mem_above:
  assumes "d \<le> k" "k < 2 ^ 64" "8 * length vs \<le> d"
  shows "push_mem m (r + of_nat d) vs (r + of_nat k) = m (r + of_nat k)"
proof (rule push_mem_outside, intro allI impI)
  fix i
  assume "i < length vs"
  then have le: "8 * Suc i \<le> d" using assms(3) by simp
  then have "r + of_nat d - of_nat (8 * Suc i) = r + of_nat (d - 8 * Suc i)"
    by (simp only: of_nat_diff) (simp add: algebra_simps)
  moreover have "d - 8 * Suc i < 2 ^ 64" "k \<noteq> d - 8 * Suc i" using assms le by auto
  ultimately show "r + of_nat k \<noteq> r + of_nat d - of_nat (8 * Suc i)"
    using offset_eq [of k "d - 8 * Suc i" r] assms(2) by simp
qed

text \<open>The frame is \<open>648 + n\<close> bytes from the saved stack pointer up.\<close>

lemma frame_offsets:
  obtains r n where "saved_base sp = r + 528" and "saved_rsp sp = r" and "sp = r + of_nat (648 + n)" and "n < 512"
    and "unat (sp - r) = 648 + n"
proof -
  obtain e where e: "sp = saved_base sp + e + 120" "unat e < 512" using saved_offset by metis
  have b: "saved_base sp = saved_rsp sp + 528" by (simp add: saved_rsp_def)
  then have sp: "sp = saved_rsp sp + of_nat (648 + unat e)" using e(1) by (simp add: ac_simps)
  moreover have "unat (of_nat (648 + unat e) :: u64) = 648 + unat e" using e(2) by (intro unat_of_nat_small) simp
  ultimately have "unat (sp - saved_rsp sp) = 648 + unat e" by (metis add_diff_cancel_left')
  then show thesis using that [OF b refl sp e(2)] by blast
qed

lemma frame_cong:
  assumes "cp_regs s RSP = sp" and "\<forall>x. x - saved_rsp sp < sp - saved_rsp sp \<longrightarrow> m' x = m x" and "frame_saved wake s m"
  shows "frame_saved wake s m'"
proof -
  obtain r n where o: "saved_base sp = r + 528" "saved_rsp sp = r" "sp = r + of_nat (648 + n)" "n < 512" "unat (sp - r) = 648 + n"
    using frame_offsets by metis
  have at: "m' (r + of_nat k) = m (r + of_nat k)" if "k < 648 + n" for k
  proof -
    have "unat (of_nat k :: u64) = k" using that o(4) by (intro unat_of_nat_small) simp
    then show ?thesis using assms(2) o(2,5) that by (simp add: word_less_nat_alt)
  qed
  have "m' (r + 528 - 528) = m (r + 528 - 528)" "m' (r + 528 - 520) = m (r + 528 - 520)"
    using at [of 0] at [of 8] by (simp_all add: ac_simps)
  moreover have "m' (r + 528 - 512 + of_nat (8 * i)) = m (r + 528 - 512 + of_nat (8 * i))" if "i < 64" for i
    using at [of "16 + 8 * i"] that by (simp add: ac_simps)
  moreover have "m' (sp - 120 + of_nat (8 * i)) = m (sp - 120 + of_nat (8 * i))" if "i < 15" for i
    using at [of "528 + n + 8 * i"] that unfolding o(3) by (simp add: ac_simps)
  ultimately show ?thesis using assms(1,3) by (simp add: frame_saved_def Let_def o(1))
qed

text \<open>What the pushes and the saving of the floating-point state write is the frame, and they write nothing else.\<close>

definition frame_mem :: "addr \<Rightarrow> cpu \<Rightarrow> addr \<Rightarrow> u64" where
  "frame_mem wake s =
     (let sp = cp_regs s RSP; b = saved_base sp
      in (fx_mem (b - 512) (cp_fx s) (push_mem (cp_mem s) sp (map (cp_regs s) (RAX # GPR_SAVED))))
           (b - 520 := sp - 120 - b + 512, b - 528 := wake))"

lemma frame_written:
  shows "frame_saved wake s (frame_mem wake s)"
    and "\<not> x - saved_rsp (cp_regs s RSP) < cp_regs s RSP - saved_rsp (cp_regs s RSP) \<Longrightarrow> frame_mem wake s x = cp_mem s x"
proof -
  define sp where "sp = cp_regs s RSP"
  define b where "b = saved_base sp"
  let ?vs = "map (cp_regs s) (RAX # GPR_SAVED)"
  let ?m = "frame_mem wake s"
  obtain r n where o: "b = r + 528" "saved_rsp sp = r" "sp = r + of_nat (648 + n)" "n < 512" "unat (sp - r) = 648 + n"
    using frame_offsets [of sp] b_def by metis
  define d where "d = 648 + n"
  have m: "?m = (fx_mem (r + 16) (cp_fx s) (push_mem (cp_mem s) (r + of_nat d) ?vs))
      (r + of_nat 8 := sp - 120 - b + 512, r + of_nat 0 := wake)"
    unfolding frame_mem_def Let_def sp_def [symmetric] b_def [symmetric] by (simp add: o(1) d_def) (simp add: o(3) ac_simps)
  have at: "?m (r + of_nat j) = fx_mem (r + 16) (cp_fx s) (push_mem (cp_mem s) (r + of_nat d) ?vs) (r + of_nat j)"
    if "16 \<le> j" "j < 2 ^ 64" for j
    unfolding m using that offset_eq [OF that(2), of 8 r] offset_eq [OF that(2), of 0 r] by simp
  have len: "15 = length ?vs" "rev ?vs = map (cp_regs s) saved_regs" "length saved_regs = 15"
    by (simp_all add: rev_map saved_regs_rev(1) [symmetric] saved_regs_rev(3) [simplified])
  have "?m (b - 528) = wake" "?m (b - 520) = sp - 120 - b + 512"
    unfolding m o(1) using offset_eq [of 8 0 r] by simp_all
  moreover have "?m (b - 512 + of_nat (8 * i)) = cp_fx s ! i" if "i < 64" for i
  proof -
    have "b - 512 + of_nat (8 * i) = r + of_nat (16 + 8 * i)" by (simp add: o(1))
    moreover have "16 \<le> 16 + 8 * i" "16 + 8 * i < 2 ^ 64" using that by simp_all
    ultimately show ?thesis using at [of "16 + 8 * i"] fx_mem_offset [of "16 + 8 * i"] that by (simp add: ac_simps)
  qed
  moreover have "?m (sp - 120 + of_nat (8 * i)) = cp_regs s (saved_regs ! i)" if "i < 15" for i
  proof -
    let ?j = "d - 8 * 15 + 8 * i"
    have "sp - 120 + of_nat (8 * i) = r + of_nat ?j" by (simp add: o(3) d_def)
    moreover have "16 \<le> ?j" "?j < 2 ^ 64" "\<not> ?j < 528" using that o(4) by (simp_all add: d_def)
    moreover have "push_mem (cp_mem s) (r + of_nat d) ?vs (r + of_nat ?j) = rev ?vs ! i"
      using that o(4) by (intro push_mem_offset len(1)) (simp_all add: d_def)
    moreover have "rev ?vs ! i = cp_regs s (saved_regs ! i)" unfolding len(2) using that len(3) by simp
    ultimately show ?thesis using at [of ?j] fx_mem_offset [of ?j] by (simp add: ac_simps)
  qed
  ultimately show "frame_saved wake s ?m" by (simp add: frame_saved_def Let_def sp_def [symmetric] b_def [symmetric])
  show "?m x = cp_mem s x" if out: "\<not> x - saved_rsp (cp_regs s RSP) < cp_regs s RSP - saved_rsp (cp_regs s RSP)"
  proof -
    obtain j where j: "x = r + of_nat j" "j < 2 ^ 64" "unat (x - r) = j" using offset_of by metis
    have "d \<le> j" using out j(3) o(5) unfolding sp_def [symmetric] o(2) by (simp add: word_less_nat_alt d_def)
    then show ?thesis using at [of j] j fx_mem_offset [of j r] push_mem_above [of d j ?vs] len(1)
      by (simp add: d_def)
  qed
qed

lemma switch_out_saves:
  assumes room: "\<not> cp_regs s RDX - saved_rsp (cp_regs s RSP) < cp_regs s RSP - saved_rsp (cp_regs s RSP)"
  shows "frame_saved wake s (cp_mem (switch_out wake s))"
    and "cp_mem (switch_out wake s) (cp_regs s RDX) = saved_rsp (cp_regs s RSP)"
    and "x \<noteq> cp_regs s RDX \<Longrightarrow> \<not> x - saved_rsp (cp_regs s RSP) < cp_regs s RSP - saved_rsp (cp_regs s RSP) \<Longrightarrow>
      cp_mem (switch_out wake s) x = cp_mem s x"
proof -
  have m: "cp_mem (switch_out wake s) = (frame_mem wake s)(cp_regs s RDX := saved_rsp (cp_regs s RSP))"
    using switched_out(6) [OF refl refl, of wake s] by (simp add: frame_mem_def Let_def saved_rsp_def)
  have "\<forall>x. x - saved_rsp (cp_regs s RSP) < cp_regs s RSP - saved_rsp (cp_regs s RSP) \<longrightarrow>
      cp_mem (switch_out wake s) x = frame_mem wake s x" using room by (auto simp: m)
  then show "frame_saved wake s (cp_mem (switch_out wake s))" using frame_written(1) by (rule frame_cong [OF refl])
  show "cp_mem (switch_out wake s) (cp_regs s RDX) = saved_rsp (cp_regs s RSP)" by (simp add: m)
  show "x \<noteq> cp_regs s RDX \<Longrightarrow> \<not> x - saved_rsp (cp_regs s RSP) < cp_regs s RSP - saved_rsp (cp_regs s RSP) \<Longrightarrow>
      cp_mem (switch_out wake s) x = cp_mem s x" by (simp add: m frame_written(2))
qed

section \<open>Restoring\<close>

lemma fxrstor_simps [simp]:
  "cp_regs (fxrstor a s) = cp_regs s" "cp_mem (fxrstor a s) = cp_mem s"
  "cp_rip (fxrstor a s) = cp_rip s" "cp_cr3 (fxrstor a s) = cp_cr3 s" "cp_if (fxrstor a s) = cp_if s"
  "cp_fx (fxrstor a s) = map (\<lambda>i. cp_mem s (a + of_nat (8 * i))) [0..<64]"
  by (simp_all add: fxrstor_def)

text \<open>What is loaded from a frame: the stack pointer stands behind the wake-up address.\<close>

lemma restored:
  assumes "frame_saved wake s (cp_mem t)" and "cp_regs t RSP = saved_rsp (cp_regs s RSP) + 8" and "length (cp_fx s) = 64"
  defines "u \<equiv> popq RAX (RESTORE_ALL t)"
  shows "cp_regs u = cp_regs s" and "cp_fx u = cp_fx s" and "cp_mem u = cp_mem t" and "cp_cr3 u = cp_cr3 t"
    and "cp_if u = cp_if t" and "cp_rip u = cp_rip t"
proof -
  define sp where "sp = cp_regs s RSP"
  define b where "b = saved_base sp"
  let ?v = "RESTORE_MM t"
  have f: "cp_mem t (b - 520) = sp - 120 - b + 512" "\<forall>i<64. cp_mem t (b - 512 + of_nat (8 * i)) = cp_fx s ! i"
    "\<forall>i<15. cp_mem t (sp - 120 + of_nat (8 * i)) = cp_regs s (saved_regs ! i)"
    using assms(1) by (simp_all add: frame_saved_def Let_def sp_def b_def)
  have rsp: "cp_regs t RSP = b - 520" using assms(2) by (simp add: saved_rsp_def sp_def b_def)
  have v: "cp_regs ?v RSP = sp - 120" "cp_mem ?v = cp_mem t" "cp_cr3 ?v = cp_cr3 t" "cp_if ?v = cp_if t" "cp_rip ?v = cp_rip t"
    using f(1) rsp by (simp_all add: RESTORE_MM_def Let_def)
  have "cp_fx ?v = map (\<lambda>i. cp_mem t (b - 512 + of_nat (8 * i))) [0..<64]"
    using rsp by (simp add: RESTORE_MM_def Let_def)
  then have fx: "cp_fx ?v = cp_fx s" using f(2) assms(3) by (intro nth_equalityI) simp_all
  have u: "u = fold popq saved_regs ?v" by (simp add: u_def RESTORE_ALL_def RESTORE_GPR_def saved_regs_def)
  have "cp_regs u r = cp_regs s r" for r
  proof (cases "r = RSP")
    case True
    then show ?thesis using popqs_rsp [OF saved_regs_rev(6), of ?v] saved_regs_rev(4) v(1) by (simp add: u sp_def)
  next
    case False
    then have "r \<in> set saved_regs" using saved_regs_rev(7) by simp
    then obtain i where "i < 15" "saved_regs ! i = r" using saved_regs_rev(4) by (auto simp: in_set_conv_nth)
    then show ?thesis
      using popqs_nth [OF saved_regs_rev(5,6), of i ?v] f(3) v(1,2) saved_regs_rev(4) by (simp add: u)
  qed
  then show "cp_regs u = cp_regs s" by (rule ext)
  show "cp_fx u = cp_fx s" "cp_mem u = cp_mem t" "cp_cr3 u = cp_cr3 t" "cp_if u = cp_if t" "cp_rip u = cp_rip t"
    by (simp_all add: u fx v)
qed

lemma return_from_sleep_loads:
  assumes "frame_saved wake s (cp_mem t)" and "cp_regs t RSP = saved_rsp (cp_regs s RSP) + 8"
    and "length (cp_fx s) = 64"
  defines "u \<equiv> return_from_sleep t"
  shows "\<forall>r. r \<noteq> RSP \<longrightarrow> cp_regs u r = cp_regs s r" and "cp_regs u RSP = cp_regs s RSP + 8"
    and "cp_fx u = cp_fx s" and "cp_rip u = cp_mem t (cp_regs s RSP)" and "cp_if u"
    and "cp_mem u = cp_mem t" and "cp_cr3 u = cp_cr3 t"
  using restored [OF assms(1-3)] by (simp_all add: u_def return_from_sleep_def retq_def Let_def)

section \<open>A switch and the switch back\<close>

text \<open>The part of the stack a task's switch writes: from the saved stack pointer up to the stack pointer of the
  caller of \<^verbatim>\<open>arch_hw_activate_task\<close>, its return address included.\<close>

definition saved_area :: "u64 \<Rightarrow> addr \<Rightarrow> bool" where
  "saved_area sp x \<longleftrightarrow> x - saved_rsp (sp - 8) < sp - saved_rsp (sp - 8)"

lemma saved_area_offsets:
  obtains r n where "saved_base (sp - 8) = r + 528" and "saved_rsp (sp - 8) = r" and "sp = r + of_nat (656 + n)"
    and "n < 512" and "\<And>x. saved_area sp x \<longleftrightarrow> unat (x - r) < 656 + n"
    and "\<And>k. k < 656 + n \<Longrightarrow> saved_area sp (r + of_nat k)"
proof -
  obtain e where e: "sp - 8 = saved_base (sp - 8) + e + 120" "unat e < 512" using saved_offset by metis
  define r where "r = saved_rsp (sp - 8)"
  have b: "saved_base (sp - 8) = r + 528" by (simp add: r_def saved_rsp_def)
  have "sp = r + 528 + e + 120 + 8" using e(1) b by (metis diff_add_cancel)
  then have sp: "sp = r + of_nat (656 + unat e)" by (simp add: ac_simps)
  have small: "unat (of_nat k :: u64) = k" if "k < 4096" for k using that by (intro unat_of_nat_small) simp
  then have "unat (sp - r) = 656 + unat e" unfolding sp using e(2) by (simp del: of_nat_add)
  then have area: "saved_area sp x \<longleftrightarrow> unat (x - r) < 656 + unat e" for x
    by (simp add: saved_area_def word_less_nat_alt r_def)
  show thesis
  proof (rule that [OF b _ sp e(2)])
    show "saved_rsp (sp - 8) = r" by (simp add: r_def)
    show "saved_area sp x \<longleftrightarrow> unat (x - r) < 656 + unat e" for x by (rule area)
    show "saved_area sp (r + of_nat k)" if "k < 656 + unat e" for k
      using that e(2) small [of k] unfolding area by simp
  qed
qed

text \<open>The frame lies in the saved area.\<close>

lemma frame_saved_cong:
  assumes "cp_regs s RSP = sp - 8" and "\<forall>x. saved_area sp x \<longrightarrow> m' x = m x" and "frame_saved wake s m"
  shows "frame_saved wake s m'"
proof -
  obtain r n where o: "saved_base (sp - 8) = r + 528" "sp = r + of_nat (656 + n)"
    "\<And>k. k < 656 + n \<Longrightarrow> saved_area sp (r + of_nat k)" using saved_area_offsets [of sp] by metis
  have at: "m' (r + of_nat k) = m (r + of_nat k)" if "k < 656 + n" for k using o(3) that assms(2) by simp
  have "m' (r + 528 - 528) = m (r + 528 - 528)" "m' (r + 528 - 520) = m (r + 528 - 520)"
    using at [of 0] at [of 8] by (simp_all add: ac_simps)
  moreover have "m' (r + 528 - 512 + of_nat (8 * i)) = m (r + 528 - 512 + of_nat (8 * i))" if "i < 64" for i
    using at [of "16 + 8 * i"] that by (simp add: ac_simps)
  moreover have "m' (sp - 8 - 120 + of_nat (8 * i)) = m (sp - 8 - 120 + of_nat (8 * i))" if "i < 15" for i
    using at [of "528 + n + 8 * i"] that unfolding o(2) by (simp add: ac_simps)
  ultimately show ?thesis using assms(1,3) by (simp add: frame_saved_def Let_def o(1))
qed

text \<open>What a call of \<^verbatim>\<open>arch_activate_task\<close> leaves.\<close>

lemma arch_activate_task_effect:
  fixes c :: arch_context and ret wake :: addr
  assumes "\<not> saved_area (cp_regs s RSP) from_rsp"
  defines "s' \<equiv> pushq ret (set_reg RDX from_rsp (set_reg RSI (ac_rsp c) (set_reg RDI (ac_cr3 c) s)))"
    and "t \<equiv> arch_activate_task wake from_rsp c ret s"
  shows "frame_saved wake s' (cp_mem t)" and "cp_mem t (cp_regs s RSP - 8) = ret"
    and "cp_mem t from_rsp = saved_rsp (cp_regs s RSP - 8)"
    and "x \<noteq> from_rsp \<Longrightarrow> \<not> saved_area (cp_regs s RSP) x \<Longrightarrow> cp_mem t x = cp_mem s x"
    and "cp_cr3 t = ac_cr3 c" and "cp_regs t RSP = ac_rsp c + 8" and "cp_rip t = cp_mem t (ac_rsp c)"
proof -
  define sp where "sp = cp_regs s RSP"
  have s': "cp_regs s' RSP = sp - 8" "cp_regs s' RDX = from_rsp" "cp_regs s' RSI = ac_rsp c"
    "cp_regs s' RDI = ac_cr3 c" "cp_mem s' = (cp_mem s)(sp - 8 := ret)"
    by (simp_all add: s'_def sp_def)
  have t: "t = retq (set_reg RSP (ac_rsp c) (switch_out wake s'))"
    using switched_out(2) [OF refl refl, of wake s'] s'(3)
    by (simp add: t_def arch_activate_task_def arch_hw_activate_task_def Let_def s'_def [symmetric])
  then have m: "cp_mem t = cp_mem (switch_out wake s')" by (simp add: retq_def Let_def)
  obtain r n where o: "saved_rsp (sp - 8) = r" "sp = r + of_nat (656 + n)" "n < 512"
      "\<And>x. saved_area sp x \<longleftrightarrow> unat (x - r) < 656 + n" "\<And>k. k < 656 + n \<Longrightarrow> saved_area sp (r + of_nat k)"
    using saved_area_offsets [of sp] by metis
  have sp8: "sp - 8 = r + of_nat (648 + n)" unfolding o(2) by simp
  then have "unat (sp - 8 - r) = 648 + n"
    using o(3) unat_of_nat_small [where 'a = 64, of "648 + n"] by (simp del: of_nat_add)
  then have inner: "\<not> x - saved_rsp (cp_regs s' RSP) < cp_regs s' RSP - saved_rsp (cp_regs s' RSP)"
    if "\<not> saved_area sp x" for x using that unfolding s'(1) o(1,4) by (simp add: word_less_nat_alt)
  have out: "\<not> saved_area sp from_rsp" using assms(1) by (simp add: sp_def)
  note saves = switch_out_saves [OF inner [OF out, folded s'(2)], where wake = wake, folded m, unfolded s'(1,2)]
  show "frame_saved wake s' (cp_mem t)" by (rule saves(1))
  show "cp_mem t from_rsp = saved_rsp (cp_regs s RSP - 8)" using saves(2) by (simp add: sp_def)
  have "saved_area sp (sp - 8)" unfolding sp8 by (rule o(5)) simp
  then have "sp - 8 \<noteq> from_rsp" using out by auto
  then show "cp_mem t (cp_regs s RSP - 8) = ret" using saves(3) [of "sp - 8"] s'(5) by (simp add: sp_def)
  show "cp_mem t x = cp_mem s x" if "x \<noteq> from_rsp" "\<not> saved_area (cp_regs s RSP) x"
  proof -
    have "x \<noteq> sp - 8" using that(2) \<open>saved_area sp (sp - 8)\<close> by (auto simp: sp_def)
    moreover have "cp_mem t x = cp_mem s' x"
      using saves(3) [OF that(1)] inner [of x] that(2) s'(1) by (simp add: sp_def)
    ultimately show ?thesis by (simp add: s'(5))
  qed
  show "cp_cr3 t = ac_cr3 c" "cp_regs t RSP = ac_rsp c + 8" "cp_rip t = cp_mem t (ac_rsp c)"
    using switched_out(3) [OF refl refl, of wake s'] s'(4) by (simp_all add: t retq_def Let_def)
qed

text \<open>C7: A task that switches away goes on where it was. Task \<open>A\<close> calls \<^verbatim>\<open>arch_activate_task\<close>; when
  later some task, on another stack, activates \<open>A\<close> with the stack pointer that was stored in its context, and
  \<open>A\<close>'s saved frame is still there, then the processor goes to the wake-up path and the path
  returns to \<open>A\<close>'s call: same stack pointer, every register as at the call (the argument registers hold the
  arguments), the floating-point state as it was, \<open>A\<close>'s page table loaded and interrupts on.\<close>

theorem switch_roundtrip:
  assumes "length (cp_fx s) = 64"
    and "\<not> saved_area (cp_regs s RSP) from_a" and "\<not> saved_area (cp_regs t RSP) from_b"
    and "\<not> saved_area (cp_regs s RSP) from_b"
    and "\<forall>x. saved_area (cp_regs s RSP) x \<longrightarrow> \<not> saved_area (cp_regs t RSP) x"
    and "\<forall>x. saved_area (cp_regs s RSP) x \<longrightarrow> cp_mem t x = cp_mem (arch_activate_task wake from_a cb ret s) x"
    and "ac_rsp ca = cp_mem (arch_activate_task wake from_a cb ret s) from_a"
  shows "let v = arch_activate_task wake from_b ca ret' t; u = return_from_sleep v in
      cp_rip v = wake \<and> cp_rip u = ret \<and>
      cp_regs u = (cp_regs s)(RDI := ac_cr3 cb, RSI := ac_rsp cb, RDX := from_a) \<and>
      cp_fx u = cp_fx s \<and> cp_cr3 u = ac_cr3 ca \<and> cp_if u"
proof -
  let ?sp = "cp_regs s RSP"
  let ?s' = "pushq ret (set_reg RDX from_a (set_reg RSI (ac_rsp cb) (set_reg RDI (ac_cr3 cb) s)))"
  define v where "v = arch_activate_task wake from_b ca ret' t"
  define u where "u = return_from_sleep v"
  note A = arch_activate_task_effect [OF assms(2), where ret = ret and c = cb and wake = wake]
  note B = arch_activate_task_effect [OF assms(3), where ret = ret' and c = ca and wake = wake, folded v_def]
  have s': "cp_regs ?s' RSP = ?sp - 8" "cp_fx ?s' = cp_fx s" by simp_all
  have same: "cp_mem v x = cp_mem (arch_activate_task wake from_a cb ret s) x" if "saved_area ?sp x" for x
    using B(4) [of x] assms(4-6) that by metis
  then have f: "frame_saved wake ?s' (cp_mem v)" using frame_saved_cong [OF s'(1) _ A(1)] by blast
  have rsp: "ac_rsp ca = saved_rsp (?sp - 8)" using A(3) assms(7) by simp
  have "cp_mem v (saved_rsp (?sp - 8)) = wake"
    using f s'(1) by (simp add: frame_saved_def Let_def saved_rsp_def)
  then have "cp_rip v = wake" using B(7) rsp by simp
  have "cp_regs v RSP = saved_rsp (cp_regs ?s' RSP) + 8" using B(6) rsp by simp
  note loads = return_from_sleep_loads [OF f this, folded u_def, unfolded s']
  obtain r n where o: "?sp = r + of_nat (656 + n)" "\<And>k. k < 656 + n \<Longrightarrow> saved_area ?sp (r + of_nat k)"
    using saved_area_offsets [of ?sp] by metis
  have "?sp - 8 = r + of_nat (648 + n)" by (subst o(1)) simp
  moreover have "saved_area ?sp (r + of_nat (648 + n))" by (rule o(2)) simp
  ultimately have "saved_area ?sp (?sp - 8)" by (simp only:)
  then have "cp_rip u = ret" using loads(4) assms(1) same A(2) by simp
  moreover have "cp_regs u q = ((cp_regs s)(RDI := ac_cr3 cb, RSI := ac_rsp cb, RDX := from_a)) q" for q
    using loads(1,2) assms(1) by (cases "q = RSP") simp_all
  moreover have "cp_fx u = cp_fx s" "cp_if u" "cp_cr3 u = ac_cr3 ca" using loads assms(1) B(5) by simp_all
  ultimately show ?thesis using \<open>cp_rip v = wake\<close> by (simp add: v_def u_def Let_def fun_eq_iff)
qed

definition sample_cpu :: cpu where
  "sample_cpu = \<lparr>cp_regs = (\<lambda>r. if r = RSP then 0x10000 else 7), cp_rip = 0, cp_cr3 = 0x1000, cp_if = True,
     cp_fx = replicate 64 5, cp_mem = (\<lambda>a. 0)\<rparr>"

lemma saved_area_sample:
  "saved_area 0x10000 x \<longleftrightarrow> x - 0xFBF0 < 0x410" "saved_area 0x20000 x \<longleftrightarrow> x - 0x1FBF0 < 0x410"
  by (simp_all add: saved_area_def saved_rsp_def saved_base_def)

lemma saved_area_sample_apart: "(x :: u64) - 0xFBF0 < 0x410 \<Longrightarrow> \<not> x - 0x1FBF0 < 0x410"
proof
  assume "x - 0xFBF0 < 0x410" "x - 0x1FBF0 < 0x410"
  then have "unat (x - 0xFBF0) < 0x410" "unat (x - 0xFBF0 - 0x10000) < 0x410"
    by (simp_all add: word_less_nat_alt)
  then show False by (simp add: unat_sub_if' split: if_splits)
qed

theorem switch_roundtrip_witness:
  "let s = sample_cpu;
       t = (arch_activate_task 0x500 0x30000 \<lparr>ac_cr3 = 0x2000, ac_rsp = 0x20000\<rparr> 0x600 s)\<lparr>cp_regs := \<lambda>r. 0x20000\<rparr>;
       ca = \<lparr>ac_cr3 = 0x1000, ac_rsp = cp_mem t 0x30000\<rparr>;
       v = arch_activate_task 0x500 0x30008 ca 0x700 t; u = return_from_sleep v
   in cp_rip v = 0x500 \<and> cp_rip u = 0x600 \<and>
      cp_regs u = (cp_regs s)(RDI := 0x2000, RSI := 0x20000, RDX := 0x30000) \<and>
      cp_fx u = cp_fx s \<and> cp_cr3 u = 0x1000 \<and> cp_if u"
proof -
  let ?cb = "\<lparr>ac_cr3 = 0x2000, ac_rsp = 0x20000\<rparr>"
  let ?t = "(arch_activate_task 0x500 0x30000 ?cb 0x600 sample_cpu)\<lparr>cp_regs := \<lambda>r. 0x20000\<rparr>"
  let ?ca = "\<lparr>ac_cr3 = 0x1000, ac_rsp = cp_mem ?t 0x30000\<rparr>"
  have s: "cp_regs sample_cpu RSP = 0x10000" "cp_regs ?t RSP = 0x20000"
    "cp_mem ?t = cp_mem (arch_activate_task 0x500 0x30000 ?cb 0x600 sample_cpu)" "length (cp_fx sample_cpu) = 64"
    by (simp_all add: sample_cpu_def)
  have apart: "\<forall>x. saved_area (cp_regs sample_cpu RSP) x \<longrightarrow> \<not> saved_area (cp_regs ?t RSP) x"
    unfolding s saved_area_sample using saved_area_sample_apart by blast
  have "\<not> saved_area (cp_regs sample_cpu RSP) 0x30000" "\<not> saved_area (cp_regs ?t RSP) 0x30008"
    "\<not> saved_area (cp_regs sample_cpu RSP) 0x30008"
    unfolding s saved_area_sample by simp_all
  from switch_roundtrip [where t = ?t and cb = ?cb and ca = ?ca and ret' = "0x700" and wake = "0x500" and ret = "0x600",
      OF s(4) this apart]
  show ?thesis by (simp add: Let_def)
qed

section \<open>The first switch to a new task\<close>

text \<open>C9: A new kernel thread starts with the first switch to it: when any task calls \<^verbatim>\<open>arch_activate_task\<close> on
  the task that \<^verbatim>\<open>kernel_thread\<close> made, and what the call saves lies off the stack of the new task, then the
  processor is in the fork path with the tables of the new task, and restoring the context there loads the
  function and its argument into the argument registers and leaves on top of the stack what \<^verbatim>\<open>iretq\<close> takes:
  the thread helper, the kernel selectors, enabled interrupts and the top of the new stack.\<close>

theorem new_thread_first_switch:
  assumes "can_create w q k f ss frs" and "kernel_thread im q fn data w = Some (Inr (0, w'))"
    and "cp_mem s = kmem (tw_mm w')" and "c = t_arch_context (task_of w' (pframe_to_virt f))"
    and "\<forall>x. saved_area (cp_regs s RSP) x \<or> x = from_rsp \<longrightarrow> \<not> x - ac_rsp c < 1040"
    and "\<not> saved_area (cp_regs s RSP) from_rsp"
  shows "let t = arch_activate_task wake from_rsp c ret s; u = RESTORE_ALL t; sp = cp_regs u RSP in
      cp_rip t = im_fork_path im \<and> cp_cr3 t = k2p (pd_entries (t_page_dir (task_of w q))) \<and>
      cp_regs u RDI = fn \<and> cp_regs u RSI = data \<and> cp_mem u sp = im_thread_helper im \<and> cp_mem u (sp + 8) = 8 \<and>
      cp_mem u (sp + 16) = im_rflags im OR 0x200 \<and> cp_mem u (sp + 24) = slot_high KERNEL_BASE k \<and>
      cp_mem u (sp + 32) = 16"
proof -
  define t where "t = arch_activate_task wake from_rsp c ret s"
  let ?high = "slot_high KERNEL_BASE k" and ?m = "kmem (tw_mm w')"
  have c: "ac_rsp c + 16 = ?high - 1024" "ac_cr3 c = k2p (pd_entries (t_page_dir (task_of w q)))"
    "?m (ac_rsp c + 8) = 872" "activate_new ?m (ac_rsp c) = (im_fork_path im, first_regs im ?high fn data)"
    using kernel_thread_first_switch [OF assms(1), of im fn data] assms(2,4) by (auto simp: Let_def)
  note A = arch_activate_task_effect [OF assms(6), where ret = ret and c = c and wake = wake, folded t_def]
  have m: "cp_mem t (ac_rsp c + of_nat i) = ?m (ac_rsp c + of_nat i)" if "i < 1040" for i
  proof -
    have "ac_rsp c + of_nat i - ac_rsp c < 1040"
      using that unat_of_nat_small [where 'a = 64, of i] by (simp add: word_less_nat_alt)
    then have "\<not> saved_area (cp_regs s RSP) (ac_rsp c + of_nat i)" "ac_rsp c + of_nat i \<noteq> from_rsp"
      using assms(5) by blast+
    then show ?thesis using A(4) assms(3) by simp
  qed
  have "?m (ac_rsp c) = im_fork_path im" "load_regs ?m (ac_rsp c + 888) = first_regs im ?high fn data"
    using c(3,4) by (simp_all add: activate_new_def restore_all_def restore_mm_def Let_def ac_simps)
  then have new: "cp_rip t = im_fork_path im" "cp_regs t RSP = ac_rsp c + 8" "cp_mem t (ac_rsp c + 8) = 872"
    "cp_mem t (ac_rsp c + 904) = fn" "cp_mem t (ac_rsp c + 896) = data" "cp_mem t (ac_rsp c + 1000) = im_thread_helper im"
    "cp_mem t (ac_rsp c + 1008) = 8" "cp_mem t (ac_rsp c + 1016) = im_rflags im OR 0x200"
    "cp_mem t (ac_rsp c + 1024) = ?high" "cp_mem t (ac_rsp c + 1032) = 16"
    using A(6,7) c(3) m [of 0] m [of 8] m [of 904] m [of 896] m [of 1000] m [of 1008] m [of 1016] m [of 1024] m [of 1032]
    by (simp_all add: load_regs_def first_regs_def ac_simps)
  let ?v = "RESTORE_MM t"
  have v: "cp_regs ?v RSP = ac_rsp c + 888" "cp_mem ?v = cp_mem t"
    using new(2,3) by (simp_all add: RESTORE_MM_def Let_def)
  define G where "G = [RBP, RSI, RDI, RDX, RCX, RBX, R15, R14, R13, R12, R11, R10, R9, R8]"
  have G: "length G = 14" "distinct G" "RSP \<notin> set G" "G ! 2 = RDI" "G ! 1 = RSI" by (simp_all add: G_def)
  have "RESTORE_ALL t = fold popq G ?v" by (simp add: RESTORE_ALL_def RESTORE_GPR_def G_def)
  then have u: "cp_regs (RESTORE_ALL t) RSP = ac_rsp c + 1000" "cp_mem (RESTORE_ALL t) = cp_mem t"
    "cp_regs (RESTORE_ALL t) RDI = fn" "cp_regs (RESTORE_ALL t) RSI = data"
    using popqs_rsp [OF G(3), of ?v] popqs_nth [OF G(2,3), of 2 ?v] popqs_nth [OF G(2,3), of 1 ?v] G v new(4,5)
    by (simp_all add: ac_simps)
  show ?thesis
    using u new A(5) c(2) by (simp add: Let_def t_def [symmetric] ac_simps)
qed

theorem new_thread_first_switch_witness:
  "\<exists>st w' c. initialize_kernel_stack_allocator (Some sample_chunk) = Inr st \<and>
     (let im = \<lparr>im_thread_helper = 1, im_fork_path = 2, im_rflags = 0\<rparr>;
          t = arch_activate_task 0x500 0x30000 c 0x600 (sample_cpu\<lparr>cp_mem := kmem (tw_mm w')\<rparr>); u = RESTORE_ALL t
      in kernel_thread im 0x1000 7 8 (sample_world st) = Some (Inr (0, w')) \<and>
        c = t_arch_context (task_of w' (pframe_to_virt 1)) \<and> cp_rip t = 2 \<and> cp_regs u RDI = 7 \<and> cp_regs u RSI = 8 \<and>
        cp_mem u (cp_regs u RSP) = 1)"
proof -
  obtain st where st: "initialize_kernel_stack_allocator (Some sample_chunk) = Inr st" "kstack_ready KERNEL_BASE st 0"
    by (rule sample_stacks)
  let ?im = "\<lparr>im_thread_helper = 1, im_fork_path = 2, im_rflags = 0\<rparr>"
  note create = sample_world_can_create [OF st(2)]
  obtain w' where w': "kernel_thread ?im 0x1000 7 8 (sample_world st) = Some (Inr (0, w'))"
    "ac_rsp (t_arch_context (task_of w' (pframe_to_virt 1))) + 16 = slot_high KERNEL_BASE 0 - 1024"
    using kernel_thread_first_switch [OF create, of ?im 7 8] unfolding Let_def by blast
  let ?c = "t_arch_context (task_of w' (pframe_to_virt 1))" and ?s = "sample_cpu\<lparr>cp_mem := kmem (tw_mm w')\<rparr>"
  have s: "cp_regs ?s RSP = 0x10000" "cp_mem ?s = kmem (tw_mm w')" by (simp_all add: sample_cpu_def)
  have rsp: "ac_rsp ?c = 0xFFFFFFFF7FFFEBF0" using w'(2) by (simp add: slot_high_def KERNEL_BASE_def)
  have "\<not> x - 0xFFFFFFFF7FFFEBF0 < 1040" if "x - 0xFBF0 < 0x410" for x :: u64
  proof
    assume "x - 0xFFFFFFFF7FFFEBF0 < 1040"
    then have "unat (x - 0xFBF0) < 0x410" "unat (x - 0xFBF0 - 0xFFFFFFFF7FFEF000) < 1040"
      using that by (simp_all add: word_less_nat_alt)
    then show False by (simp add: unat_sub_if' split: if_splits)
  qed
  then have apart: "\<forall>x. saved_area (cp_regs ?s RSP) x \<or> x = 0x30000 \<longrightarrow> \<not> x - ac_rsp ?c < 1040"
    unfolding s saved_area_sample rsp by auto
  have "\<not> saved_area (cp_regs ?s RSP) 0x30000" unfolding s saved_area_sample by simp
  from new_thread_first_switch [OF create w'(1) s(2) refl apart this, of "0x500" "0x600"]
  show ?thesis using st(1) w'(1) by (auto simp: Let_def)
qed

section \<open>Saving and restoring the kept registers\<close>

text \<open>
  \<^verbatim>\<open>arch_context_save\<close> and \<^verbatim>\<open>arch_context_restore\<close> keep the registers that a call preserves in the structure
  \<open>%rdi\<close> points to: a save returns 1, and a restore returns from that call of the save once more, with 0.
\<close>

definition OFFSET_SP :: u64 where "OFFSET_SP = 0x0"
definition OFFSET_PC :: u64 where "OFFSET_PC = 0x8"
definition OFFSET_RBX :: u64 where "OFFSET_RBX = 0x10"
definition OFFSET_RBP :: u64 where "OFFSET_RBP = 0x18"
definition OFFSET_R12 :: u64 where "OFFSET_R12 = 0x20"
definition OFFSET_R13 :: u64 where "OFFSET_R13 = 0x28"
definition OFFSET_R14 :: u64 where "OFFSET_R14 = 0x30"
definition OFFSET_R15 :: u64 where "OFFSET_R15 = 0x38"

lemmas context_offsets = OFFSET_SP_def OFFSET_PC_def OFFSET_RBX_def OFFSET_RBP_def OFFSET_R12_def OFFSET_R13_def
  OFFSET_R14_def OFFSET_R15_def

definition st_reg :: "reg \<Rightarrow> u64 \<Rightarrow> reg \<Rightarrow> cpu \<Rightarrow> cpu" where
  "st_reg r off xc s = s\<lparr>cp_mem := (cp_mem s)(cp_regs s xc + off := cp_regs s r)\<rparr>"

definition ld_reg :: "u64 \<Rightarrow> reg \<Rightarrow> reg \<Rightarrow> cpu \<Rightarrow> cpu" where
  "ld_reg off xc r s = set_reg r (cp_mem s (cp_regs s xc + off)) s"

definition CONTEXT_SAVE_ARCH_CORE :: "reg \<Rightarrow> reg \<Rightarrow> cpu \<Rightarrow> cpu" where
  "CONTEXT_SAVE_ARCH_CORE xc pc s =
     (let s = st_reg pc OFFSET_PC xc s;
          s = st_reg RSP OFFSET_SP xc s;
          s = st_reg RBX OFFSET_RBX xc s;
          s = st_reg RBP OFFSET_RBP xc s;
          s = st_reg R12 OFFSET_R12 xc s;
          s = st_reg R13 OFFSET_R13 xc s;
          s = st_reg R14 OFFSET_R14 xc s
      in st_reg R15 OFFSET_R15 xc s)"

definition CONTEXT_RESTORE_ARCH_CORE :: "reg \<Rightarrow> reg \<Rightarrow> cpu \<Rightarrow> cpu" where
  "CONTEXT_RESTORE_ARCH_CORE xc pc s =
     (let s = ld_reg OFFSET_R15 xc R15 s;
          s = ld_reg OFFSET_R14 xc R14 s;
          s = ld_reg OFFSET_R13 xc R13 s;
          s = ld_reg OFFSET_R12 xc R12 s;
          s = ld_reg OFFSET_RBP xc RBP s;
          s = ld_reg OFFSET_RBX xc RBX s;
          s = ld_reg OFFSET_SP xc RSP s
      in ld_reg OFFSET_PC xc pc s)"

definition arch_context_save :: "cpu \<Rightarrow> cpu" where
  "arch_context_save s =
     (let s = ld_reg 0 RSP RDX s;
          s = CONTEXT_SAVE_ARCH_CORE RDI RDX s
      in retq (set_reg RAX 1 s))"

definition arch_context_restore :: "cpu \<Rightarrow> cpu" where
  "arch_context_restore s =
     (let s = CONTEXT_RESTORE_ARCH_CORE RDI RDX s;
          s = st_reg RDX 0 RSP s
      in retq (set_reg RAX 0 s))"

lemma ld_reg_simps [simp]:
  "cp_regs (ld_reg off xc r s) = (cp_regs s)(r := cp_mem s (cp_regs s xc + off))" "cp_mem (ld_reg off xc r s) = cp_mem s"
  by (simp_all add: ld_reg_def)

lemma st_reg_simps [simp]:
  "cp_regs (st_reg r off xc s) = cp_regs s" "cp_mem (st_reg r off xc s) = (cp_mem s)(cp_regs s xc + off := cp_regs s r)"
  by (simp_all add: st_reg_def)

lemma retq_simps [simp]:
  "cp_regs (retq s) = (cp_regs s)(RSP := cp_regs s RSP + 8)" "cp_mem (retq s) = cp_mem s" "cp_rip (retq s) = cp_mem s (cp_regs s RSP)"
  by (simp_all add: retq_def Let_def)

text \<open>The stack slot of the call of the save must lie outside the structure, and the structure must be kept until the restore.\<close>

lemma context_save_restore:
  assumes "64 \<le> cp_regs s RSP - cp_regs s RDI" and "cp_regs t RDI = cp_regs s RDI"
    and "\<forall>x. x - cp_regs s RDI < 64 \<longrightarrow> cp_mem t x = cp_mem (arch_context_save s) x"
  defines "u \<equiv> arch_context_restore t"
  shows "cp_rip (arch_context_save s) = cp_mem s (cp_regs s RSP)" and "cp_regs (arch_context_save s) RAX = 1"
    and "cp_rip u = cp_mem s (cp_regs s RSP)" and "cp_regs u RAX = 0"
    and "\<forall>r \<in> {RSP, RBX, RBP, R12, R13, R14, R15}. cp_regs u r = cp_regs (arch_context_save s) r"
proof -
  let ?x = "cp_regs s RDI" and ?sp = "cp_regs s RSP"
  have off: "?sp \<noteq> ?x + k" if "k < 64" for k using assms(1) that by auto
  have m: "cp_mem (arch_context_save s) = (cp_mem s)(?x + 8 := cp_mem s ?sp, ?x := ?sp, ?x + 16 := cp_regs s RBX,
      ?x + 24 := cp_regs s RBP, ?x + 32 := cp_regs s R12, ?x + 40 := cp_regs s R13, ?x + 48 := cp_regs s R14,
      ?x + 56 := cp_regs s R15)"
    unfolding arch_context_save_def CONTEXT_SAVE_ARCH_CORE_def Let_def context_offsets by simp
  show "cp_rip (arch_context_save s) = cp_mem s ?sp" "cp_regs (arch_context_save s) RAX = 1"
    unfolding arch_context_save_def CONTEXT_SAVE_ARCH_CORE_def Let_def context_offsets
    using off [of 0] off [of 8] off [of 16] off [of 24] off [of 32] off [of 40] off [of 48] off [of 56] by simp_all
  have kept: "cp_mem t (?x + k) = cp_mem (arch_context_save s) (?x + k)" if "k < 64" for k using assms(3) that by simp
  have t: "cp_mem t (?x + 8) = cp_mem s ?sp" "cp_mem t ?x = ?sp" "cp_mem t (?x + 16) = cp_regs s RBX"
    "cp_mem t (?x + 24) = cp_regs s RBP" "cp_mem t (?x + 32) = cp_regs s R12" "cp_mem t (?x + 40) = cp_regs s R13"
    "cp_mem t (?x + 48) = cp_regs s R14" "cp_mem t (?x + 56) = cp_regs s R15"
    using kept [of 0] kept [of 8] kept [of 16] kept [of 24] kept [of 32] kept [of 40] kept [of 48] kept [of 56] m
    by simp_all
  show "cp_rip u = cp_mem s ?sp" "cp_regs u RAX = 0"
    unfolding u_def arch_context_restore_def CONTEXT_RESTORE_ARCH_CORE_def Let_def context_offsets
    using t assms(2) by simp_all
  show "\<forall>r \<in> {RSP, RBX, RBP, R12, R13, R14, R15}. cp_regs u r = cp_regs (arch_context_save s) r"
    unfolding u_def arch_context_restore_def CONTEXT_RESTORE_ARCH_CORE_def arch_context_save_def
      CONTEXT_SAVE_ARCH_CORE_def Let_def context_offsets
    using t assms(2) by simp
qed

end
