(* ===== verification/Mui_Idle.thy ===== *)
theory Mui_Idle
  imports Mui_Task Mui_Zones
begin

text \<open>
  The idle tasks, \<^verbatim>\<open>initialize_idle_tasks\<close> of \<^verbatim>\<open>eza/amd64/sched/task.c\<close>, and the initialisation
  of the scheduler, \<^verbatim>\<open>eza/generic_api/scheduler.c\<close>. The page accessor of the idle tasks allocates the
  frames of a stack from the same cache that the tables of the mapping come from, in the order in
  which the mapping code asks for them; its static \<^verbatim>\<open>next_frame\<close> is the context of the accessor.
\<close>

section \<open>The accessor and the initialisation\<close>

definition acc_next_frame :: "addr option \<Rightarrow> kmm \<Rightarrow> (page_idx \<times> addr option \<times> kmm) res" where
  "acc_next_frame next_frame m =
     (case next_frame of
        Some f \<Rightarrow> Inr (frame_idx m f, next_frame, m)
      | None \<Rightarrow>
          rbind (alloc_page 0 False m) (\<lambda>(frame, m).
            case frame of
              None \<Rightarrow> Inl (Panic ''initialize_idle_tasks(): Can't allocate a page !'')
            | Some f \<Rightarrow> Inr (frame_idx m f, next_frame, m)))"

definition idle_pacc :: "addr option page_frame_accessor" where
  "idle_pacc =
     \<lparr>pa_frames_left = pageaccs_frames_left_stub, pa_next_frame = acc_next_frame,
      pa_reset = pageaccs_reset_stub, pa_alloc_page = pageaccs_alloc_page_stub\<rparr>"

definition init_idle_task :: "addr \<Rightarrow> task_world \<Rightarrow> task_world" where
  "init_idle_task td w =
     (let w = upd_task td (\<lambda>t. t\<lparr>t_pid := 0, t_ppid := 0, t_priority := IDLE_TASK_PRIORITY,
            t_static_priority := IDLE_TASK_PRIORITY, t_time_slice := 0, t_state := TASK_STATE_RUNNING\<rparr>) w;
          w = upd_task td (\<lambda>t. t\<lparr>t_page_dir := initialize_page_directory (t_page_dir t)\<rparr>) w
      in upd_task td (\<lambda>t. t\<lparr>t_page_dir := (t_page_dir t)\<lparr>pd_entries := pd_entries (tw_kernel_pd w)\<rparr>\<rparr>) w)"

text \<open>The body of the loop over the CPUs; \<open>idle\<close> is the array \<^verbatim>\<open>idle_tasks\<close>.\<close>

definition setup_idle_task :: "nat \<Rightarrow> addr list \<Rightarrow> task_world \<Rightarrow> (addr list \<times> task_world) res option" where
  "setup_idle_task cpu idle w =
     obind (Some (alloc_page 0 True (tw_mm w))) (\<lambda>(ts_page, mm).
       case ts_page of
         None \<Rightarrow> Some (Inl (Panic ''initialize_idle_tasks(): Can't allocate main structure for idle task !''))
       | Some ts_page \<Rightarrow>
           let td = pframe_to_virt (frame_idx mm ts_page);
               w = w\<lparr>tw_mm := mm, tw_data := (tw_data w)(td := zero_task_data)\<rparr>;
               idle = idle[cpu := td];
               w = init_idle_task td w
           in obind (Some (allocate_kernel_stack (t_kernel_stack (task_of w td)) (tw_stacks w))) (\<lambda>(e, stk, ks).
                let w = upd_task td (\<lambda>t. t\<lparr>t_kernel_stack := stk\<rparr>) (w\<lparr>tw_stacks := ks\<rparr>)
                in if e \<noteq> 0
                   then Some (Inl (Panic ''initialize_idle_tasks(): Can't initialize kernel stack for idle task !''))
                   else obind (mm_map_pages (Some (t_page_dir (task_of w td))) (Some idle_pacc) (ks_low_address stk)
                          KERNEL_STACK_PAGES KERNEL_STACK_PAGE_FLAGS None (tw_mm w)) (\<lambda>(r, _, mm).
                     if r \<noteq> 0
                     then Some (Inl (Panic ''initialize_idle_tasks(): Can't map kernel stack for idle task !''))
                     else obind (mm_map_pages (Some (t_page_dir (task_of w td))) (Some idle_pacc)
                            (ks_low_address stk AND KERNEL_STACK_MASK) 1 KERNEL_STACK_PAGE_FLAGS (Some ts_page) mm)
                          (\<lambda>(r, _, mm).
                       if r \<noteq> 0
                       then Some (Inl (Panic ''initialize_idle_tasks(): Can't map kernel stack for idle task !''))
                       else Some (Inr (idle, initialize_task_system_data td (of_nat cpu)
                                (arch_setup_ctx td 0 (w\<lparr>tw_mm := mm\<rparr>))))))))"

fun initialize_idle_tasks :: "nat list \<Rightarrow> addr list \<Rightarrow> task_world \<Rightarrow> (addr list \<times> task_world) res option" where
  "initialize_idle_tasks [] idle w = Some (Inr (idle, w))"
| "initialize_idle_tasks (cpu # cpus) idle w =
     obind (setup_idle_task cpu idle w) (\<lambda>(idle, w). initialize_idle_tasks cpus idle w)"

text \<open>\<open>chunk\<close> is what the page of the stack allocator held before.\<close>

definition initialize_scheduler ::
  "kernel_stack_chunk \<Rightarrow> addr list \<Rightarrow> task_world \<Rightarrow> (addr list \<times> task_world) res option" where
  "initialize_scheduler chunk idle w =
     obind (Some (alloc_page 0 False (tw_mm w))) (\<lambda>(page, mm).
       obind (Some (initialize_kernel_stack_allocator (map_option (\<lambda>_. chunk) page))) (\<lambda>ks.
         initialize_idle_tasks [0..<unat NR_CPUS] idle (w\<lparr>tw_mm := mm, tw_stacks := ks\<rparr>)))"

section \<open>The accessor as a source of frames\<close>

text \<open>The pages the accessor hands out one after the other, and the frames of the cache left then: with a
  frame set it is always that frame, without one it takes the next frames of the cache.\<close>

definition idle_pages :: "addr option \<Rightarrow> (addr \<Rightarrow> page_idx) \<Rightarrow> nat \<Rightarrow> page_idx list \<Rightarrow> page_idx list" where
  "idle_pages c g n frs = (case c of None \<Rightarrow> take n frs | Some p \<Rightarrow> replicate n (g p))"

definition idle_left :: "addr option \<Rightarrow> nat \<Rightarrow> page_idx list \<Rightarrow> page_idx list" where
  "idle_left c n frs = (case c of None \<Rightarrow> drop n frs | Some p \<Rightarrow> frs)"

lemma idle_pacc_simps [simp]:
  "pa_next_frame idle_pacc = acc_next_frame"
  "pa_alloc_page idle_pacc c flags clean m = alloc_page flags clean m"
  by (simp_all add: idle_pacc_def pageaccs_alloc_page_stub_def)

text \<open>The mapping code draws tables and pages alternately from the same cache: between two pages the
  accessor is a source of tables, and while a table is filled a supply of pages.\<close>

interpretation idle_tables: frame_source idle_pacc
    "\<lambda>c m fs frs. c = c0 \<and> fs = [] \<and> cache_frames m frs \<and> frame_idx m = g" for c0 g
proof (unfold_locales, goal_cases)
  case (3 c m fs r frs flags)
  then show ?case using cache_frames_alloc [of m r frs flags True] by auto
qed (simp_all add: alloc_page_dma)

definition idle_rep ::
  "addr option \<Rightarrow> (addr \<Rightarrow> page_idx) \<Rightarrow> addr option \<Rightarrow> kmm \<Rightarrow> page_idx list \<Rightarrow> page_idx list \<Rightarrow> bool" where
  "idle_rep c0 g c m fs frs \<longleftrightarrow> c = c0 \<and> frame_idx m = g \<and>
     (case c0 of None \<Rightarrow> cache_frames m (fs @ frs) | Some p \<Rightarrow> cache_frames m frs \<and> (\<forall>f\<in>set fs. f = g p))"

lemma idle_rep_next:
  assumes "idle_rep c0 g c m (f # fs) frs"
  shows "\<exists>c' m'. acc_next_frame c m = Inr (f, c', m') \<and> kmem m' = kmem m \<and> idle_rep c0 g c' m' fs frs"
proof (cases c0)
  case None
  then have "cache_frames m (f # fs @ frs)" using assms by (simp add: idle_rep_def)
  then obtain n m' where "alloc_page 0 False m = Inr (Some n, m')" "frame_idx m n = f" "frame_idx m' = frame_idx m"
      "kmem m' = kmem m" "cache_frames m' (fs @ frs)"
    using cache_frames_alloc [of m f "fs @ frs" 0 False] by auto
  then show ?thesis using None assms by (auto simp: idle_rep_def acc_next_frame_def)
next
  case (Some p)
  then show ?thesis using assms by (auto simp: idle_rep_def acc_next_frame_def)
qed

interpretation idle_supply: frame_supply idle_pacc "idle_rep c0 g" for c0 g
proof (unfold_locales, goal_cases)
  case (1 c m f fs frs)
  then show ?case using idle_rep_next by simp
next
  case (2 c m fs frs k)
  then show ?case by (simp add: idle_rep_def split: option.splits)
qed

section \<open>Mapping with frames of the cache\<close>

text \<open>An area inside one page table: the first frames of the cache become the tables that are missing, then
  the accessor hands out the pages of the area.\<close>

lemma idle_map_region:
  assumes frames: "cache_frames m frs" and ok: "tables_ok (kmem m) (pd_entries pd) frs"
    and root: "pd_entries pd \<noteq> 0" and P: "1 \<le> P" and n: "1 \<le> n" and len: "3 + n \<le> length frs"
    and room: "P mod 2 ^ 9 + n \<le> 2 ^ 9" "P mod 2 ^ 18 + n \<le> 2 ^ 18" "P mod 2 ^ 27 + n \<le> 2 ^ 27"
    and top: "P + n + 2 ^ 18 \<le> 2 ^ 52" and flags: "flags AND PAF_DMA_PAGE = 0"
  shows "\<exists>k m'. k \<le> 3 \<and> mm_map_pages (Some pd) (Some idle_pacc) (page_addr P) (of_nat n) flags c m
      = Some (Inr (0, c, m')) \<and> frame_idx m' = frame_idx m \<and>
    cache_frames m' (idle_left c n (drop k frs)) \<and> tables_ok (kmem m') (pd_entries pd) (idle_left c n (drop k frs)) \<and>
    advances (kmem m) (kmem m') (pd_entries pd) (vpn P) n (idle_pages c (frame_idx m) n (drop k frs))"
proof -
  let ?R = "pd_entries pd" and ?V = "vpn P" and ?g = "frame_idx m"
  let ?s4 = "entry_ptr ?R (of_nat (?V div 2 ^ 27 mod 512))"
  have R: "table_of (kmem m) ?R [] ?R" by (simp add: table_of_def path_ok_def)
  have lt: "P < 2 ^ 52" "P + n < 2 ^ 52" "P + n + 2 ^ 9 \<le> 2 ^ 52" using top by simp_all
  have idx: "?V div 2 ^ 27 mod 512 < 512" "?V div 2 ^ 18 mod 512 < 512" "?V div 2 ^ 9 mod 512 < 512" by simp_all
  have v9: "?V mod 2 ^ 9 = P mod 2 ^ 9" using vpn_digits(1) by simp
  have rep: "c = c \<and> ([] :: page_idx list) = [] \<and> cache_frames m frs \<and> frame_idx m = ?g" using frames by simp
  have "frs \<noteq> []" using len by auto
  from idle_tables.table_created [OF rep ok this flags R _ idx(1) populate_fills(1), where V = ?V]
  obtain m1 j1 u1 where m1: "ensure_entry (populate_pml4_entry ?s4 idle_pacc flags c m) (bit (kmem m ?s4) 0) m
      = Inr (0, m1)" "j1 \<le> 1" "tables_ok (kmem m1) ?R (drop j1 frs)" "table_of (kmem m1) ?R (path1 ?V) u1"
      "advances (kmem m) (kmem m1) ?R ?V 0 []"
    and rep1: "c = c \<and> ([] :: page_idx list) = [] \<and> cache_frames m1 (drop j1 frs) \<and> frame_idx m1 = ?g"
    by (auto simp: path1_def)
  let ?s3 = "entry_ptr u1 (of_nat (?V div 2 ^ 18 mod 512))"
  have "drop j1 frs \<noteq> []" using len m1(2) by auto
  from idle_tables.table_created [OF rep1 m1(3) this flags m1(4) _ idx(2) populate_fills(2), where V = ?V]
  obtain m2 j2 u2 where m2: "ensure_entry (populate_pdp3_entry ?s3 idle_pacc flags c m1) (bit (kmem m1 ?s3) 0) m1
      = Inr (0, m2)" "j2 \<le> 1" "tables_ok (kmem m2) ?R (drop j2 (drop j1 frs))" "table_of (kmem m2) ?R (path2 ?V) u2"
      "advances (kmem m1) (kmem m2) ?R ?V 0 []"
    and rep2: "c = c \<and> ([] :: page_idx list) = [] \<and> cache_frames m2 (drop j2 (drop j1 frs)) \<and> frame_idx m2 = ?g"
    unfolding path_snoc(2) [symmetric] by auto
  let ?s2 = "entry_ptr u2 (of_nat (?V div 2 ^ 9 mod 512))"
  have "drop j2 (drop j1 frs) \<noteq> []" using len m1(2) m2(2) by auto
  from idle_tables.table_created [OF rep2 m2(3) this flags m2(4) _ idx(3) populate_fills(3), where V = ?V]
  obtain m3 j3 u3 where m3: "ensure_entry (populate_pde2_entry ?s2 idle_pacc flags c m2) (bit (kmem m2 ?s2) 0) m2
      = Inr (0, m3)" "j3 \<le> 1" "tables_ok (kmem m3) ?R (drop j3 (drop j2 (drop j1 frs)))"
      "table_of (kmem m3) ?R (path3 ?V) u3" "advances (kmem m2) (kmem m3) ?R ?V 0 []"
    and rep3: "c = c \<and> ([] :: page_idx list) = [] \<and> cache_frames m3 (drop j3 (drop j2 (drop j1 frs))) \<and> frame_idx m3 = ?g"
    unfolding path_snoc(1) [symmetric] by auto
  define k where "k = j1 + j2 + j3"
  have k: "k \<le> 3" "drop j3 (drop j2 (drop j1 frs)) = drop k frs"
    using m1(2) m2(2) m3(2) by (simp_all add: k_def add.commute add.left_commute)
  let ?left = "idle_left c n (drop k frs)" and ?pages = "idle_pages c ?g n (drop k frs)"
  have rep4: "idle_rep c ?g c m3 ?pages ?left"
    using rep3 append_take_drop_id [of n "drop k frs"] unfolding k(2) by (simp add: idle_rep_def idle_left_def idle_pages_def split: option.splits)
  have "set ?left \<subseteq> set (drop k frs)" "distinct ?left"
    using set_drop_subset [of n "drop k frs"] distinct_drop [of "drop k frs" n] tables_okD(4) [OF m3(3)]
    unfolding k(2) idle_left_def by (auto split: option.splits)
  then have fewer: "tables_ok (kmem m3) ?R ?left"
    using tables_ok_fewer [OF m3(3)] unfolding k(2) by blast
  note t2 = advancesD(1) [OF m3(5) m2(4)]
  have "n \<le> length ?pages" using len k(1) by (simp add: idle_pages_def split: option.splits)
  from idle_supply.map_pde2_range_ok [OF rep4 fewer t2 m3(4) n room(1) [folded v9] this lt(2)]
  obtain c' m4 where run4: "map_pde2_range ?s2 (page_addr P) (page_addr (P + n)) idle_pacc flags c m3 = Some (Inr (0, c', m4))"
      "idle_rep c ?g c' m4 (drop n ?pages) ?left" "tables_ok (kmem m4) ?R ?left"
      "advances (kmem m3) (kmem m4) ?R ?V n ?pages"
    by blast
  have "drop n ?pages = []" by (simp add: idle_pages_def split: option.splits)
  then have c': "c' = c" "frame_idx m4 = ?g" "cache_frames m4 ?left"
    using run4(2) by (auto simp: idle_rep_def split: option.splits)
  note m4 = run4(1) [unfolded c'(1)] c'(3,2) run4(3,4)
  have p2: "map_pdp3_range ?s3 (page_addr P) (page_addr (P + n)) idle_pacc flags c m2 = Some (Inr (0, c, m4))"
    unfolding map_pdp3_range_eq [OF advancesD(1) [OF m2(5) m1(4)] m2(4) lt(1)] map_pdp3_loop_one [OF room(1) n lt(3)] m3(1)
    by (simp only: obind_simps prod.case m4(1) simp_thms if_False)
  have p3: "map_pml4_range ?s4 (page_addr P) (page_addr (P + n)) idle_pacc flags c m1 = Some (Inr (0, c, m4))"
    unfolding map_pml4_range_eq [OF advancesD(1) [OF m1(5) R] m1(4) lt(1)] map_pml4_loop_one [OF room(2) n top] m2(1)
    by (simp only: obind_simps prod.case p2 simp_thms if_False)
  have run: "mm_map_pages (Some pd) (Some idle_pacc) (page_addr P) (of_nat n) flags c m = Some (Inr (0, c, m4))"
    unfolding mm_map_pages_entry [OF tables_okD(1) [OF ok R] root P n room(3) [folded vpn_mod27 [of P]] top] m1(1)
    by (simp only: obind_simps prod.case p3 simp_thms if_False)
  have "advances (kmem m) (kmem m3) ?R ?V 0 ?pages"
    using m1(5) m2(5) m3(5) unfolding advances_def by auto
  then have "advances (kmem m) (kmem m4) ?R ?V n ?pages"
    using advances_trans [of "kmem m" "kmem m3" ?R ?V 0 _ "kmem m4" n] m4(5) by simp
  then show ?thesis using k(1) run m4(2-4) by blast
qed

section \<open>One idle task\<close>

text \<open>What the loop keeps: \<open>c\<close> stacks are handed out, the cache holds the frames \<open>frs\<close>, and they are none
  of the tables below the root \<open>R\<close> of the kernel directory.\<close>

definition idle_inv :: "task_world \<Rightarrow> nat \<Rightarrow> addr \<Rightarrow> page_idx list \<Rightarrow> bool" where
  "idle_inv w c R frs \<longleftrightarrow> kstack_ready KERNEL_BASE (tw_stacks w) c \<and> cache_frames (tw_mm w) frs \<and>
     tables_ok (kmem (tw_mm w)) R frs \<and> pd_entries (tw_kernel_pd w) = R \<and> R \<noteq> 0"

definition idle_data :: "nat \<Rightarrow> addr \<Rightarrow> kernel_task_data" where
  "idle_data c R =
     \<lparr>td_system_data = \<lparr>sd_cpu_id = of_nat c, sd_flags = 0, sd_irq_num = 0\<rparr>,
      td_task = \<lparr>t_pid = 0, t_ppid = 0, t_static_priority = IDLE_TASK_PRIORITY, t_priority = IDLE_TASK_PRIORITY,
        t_time_slice = 0, t_state = TASK_STATE_RUNNING, t_cpu_affinity = 0,
        t_kernel_stack = slot_stack KERNEL_BASE c, t_page_dir = \<lparr>pd_entries = R\<rparr>,
        t_arch_context = \<lparr>ac_cr3 = k2p R, ac_rsp = 0\<rparr>\<rparr>\<rparr>"

text \<open>The pages of slot \<open>c\<close> after the mapping: the structure in frame \<open>f\<close>, the stack in the frames \<open>ss\<close>.\<close>

definition slot_mapped :: "nat \<Rightarrow> page_idx \<Rightarrow> page_idx list \<Rightarrow> (u64 \<Rightarrow> page_idx) \<Rightarrow> u64 \<Rightarrow> page_idx" where
  "slot_mapped c f ss before va =
     (case page_in_area (slot_page c) 1 va of
        Some i \<Rightarrow> f
      | None \<Rightarrow> (case page_in_area (slot_page c + 3) 4 va of Some i \<Rightarrow> ss ! i | None \<Rightarrow> before va))"

lemma setup_idle_task_ok:
  assumes inv: "idle_inv w c R frs" and c: "c < stack_slots" and len: "12 \<le> length frs"
  shows "\<exists>f ss frs' w'. setup_idle_task c idle w = Some (Inr (idle[c := pframe_to_virt f], w')) \<and>
    idle_inv w' (Suc c) R frs' \<and> length frs \<le> length frs' + 11 \<and> length ss = 4 \<and>
    distinct (f # ss @ frs') \<and> set (f # ss @ frs') \<subseteq> set frs \<and>
    tw_data w' = (tw_data w)(pframe_to_virt f := idle_data c R) \<and>
    (\<forall>pd va. pd_entries pd = R \<longrightarrow> mm_pin_virtual_address pd va (tw_mm w') =
      slot_mapped c f ss (\<lambda>va. mm_pin_virtual_address pd va (tw_mm w)) va)"
proof -
  let ?m = "tw_mm w"
  have ready: "kstack_ready KERNEL_BASE (tw_stacks w) c" and frames: "cache_frames ?m frs"
    and tables: "tables_ok (kmem ?m) R frs" and R: "pd_entries (tw_kernel_pd w) = R" "R \<noteq> 0"
    using inv by (simp_all add: idle_inv_def)
  obtain f rest where frs: "frs = f # rest" using len by (cases frs) auto
  obtain ts m1 where m1: "alloc_page 0 True ?m = Inr (Some ts, m1)" "frame_idx ?m ts = f" "frame_idx m1 = frame_idx ?m"
      "kmem m1 = zeroed (kmem ?m) f" "cache_frames m1 rest"
    using cache_frames_alloc [of ?m f rest 0 True] frames frs by auto
  let ?td = "pframe_to_virt f" and ?pd = "\<lparr>pd_entries = R\<rparr> :: page_directory"
  let ?stk = "slot_stack KERNEL_BASE c"
  obtain ks where ks: "allocate_kernel_stack (t_kernel_stack (td_task zero_task_data)) (tw_stacks w) = Inr (0, ?stk, ks)"
      "kstack_ready KERNEL_BASE ks (Suc c)"
    using allocate_kernel_stack_ready [of "tw_stacks w" c "t_kernel_stack (td_task zero_task_data)"] ready c
    by (auto simp: kstack_ready_def slot_stack_update)
  have ok1: "tables_ok (kmem m1) R rest"
    using tables_ok_fewer [OF tables_ok_zeroed [OF tables [unfolded frs]], of rest] tables_okD(4) [OF tables] m1(4) frs
    by auto
  have top: "slot_page c + 3 + 4 + 2 ^ 18 \<le> 2 ^ 52" "slot_page c + 1 + 2 ^ 18 \<le> 2 ^ 52" "1 \<le> slot_page c"
    using c by (simp_all add: slot_page_def stack_slots_def)
  obtain k2 m2 where k2: "k2 \<le> 3" and m2: "mm_map_pages (Some ?pd) (Some idle_pacc) (page_addr (slot_page c + 3)) (of_nat 4) 0 None m1
      = Some (Inr (0, None, m2))" "frame_idx m2 = frame_idx m1" "cache_frames m2 (idle_left None 4 (drop k2 rest))"
      "tables_ok (kmem m2) R (idle_left None 4 (drop k2 rest))"
      "advances (kmem m1) (kmem m2) R (vpn (slot_page c + 3)) 4 (idle_pages None (frame_idx m1) 4 (drop k2 rest))"
  proof -
    have "1 \<le> slot_page c + 3" "(1 :: nat) \<le> 4" "3 + 4 \<le> length rest" "(0 :: page_flags) AND PAF_DMA_PAGE = 0"
        "(slot_page c + 3) mod 2 ^ 9 + 4 \<le> 2 ^ 9" "(slot_page c + 3) mod 2 ^ 18 + 4 \<le> 2 ^ 18"
        "(slot_page c + 3) mod 2 ^ 27 + 4 \<le> 2 ^ 27"
      using top(3) len frs slot_room [of 3 4 "2 ^ 6" c] slot_room [of 3 4 "2 ^ 15" c] slot_room [of 3 4 "2 ^ 24" c] by simp_all
    from idle_map_region [OF m1(5) _ _ this(1-3,5-7) top(1) this(4), of ?pd None] ok1 R(2) that show thesis by auto
  qed
  let ?ss = "take 4 (drop k2 rest)" and ?rest2 = "drop (k2 + 4) rest"
  have left: "idle_left None 4 (drop k2 rest) = ?rest2" "idle_pages None (frame_idx m1) 4 (drop k2 rest) = ?ss"
    by (simp_all add: idle_left_def idle_pages_def add.commute)
  note m2' = m2 [unfolded left]
  obtain k3 m3 where k3: "k3 \<le> 3" and m3: "mm_map_pages (Some ?pd) (Some idle_pacc) (page_addr (slot_page c)) (of_nat 1) 0 (Some ts) m2
      = Some (Inr (0, Some ts, m3))" "cache_frames m3 (drop k3 ?rest2)" "tables_ok (kmem m3) R (drop k3 ?rest2)"
      "advances (kmem m2) (kmem m3) R (vpn (slot_page c)) 1 [f]"
  proof -
    have "(1 :: nat) \<le> 1" "3 + 1 \<le> length ?rest2" "(0 :: page_flags) AND PAF_DMA_PAGE = 0"
        "slot_page c mod 2 ^ 9 + 1 \<le> 2 ^ 9" "slot_page c mod 2 ^ 18 + 1 \<le> 2 ^ 18"
        "slot_page c mod 2 ^ 27 + 1 \<le> 2 ^ 27"
      using len frs k2 slot_room [of 0 1 "2 ^ 6" c] slot_room [of 0 1 "2 ^ 15" c] slot_room [of 0 1 "2 ^ 24" c] by simp_all
    from idle_map_region [OF m2'(3) _ _ top(3) this(1,2,4-6) top(2) this(3), of ?pd "Some ts"] m2'(2,4) m1(2,3) R(2) that
    show thesis by (auto simp: idle_left_def idle_pages_def)
  qed
  let ?frs' = "drop k3 ?rest2"
  have whole: "drop k2 rest = ?ss @ ?rest2" by (metis append_take_drop_id drop_drop add.commute)
  have "distinct (f # rest)" using tables_okD(4) [OF tables] frs by simp
  then have "distinct (?ss @ ?rest2)" "f \<notin> set rest" unfolding whole [symmetric] by simp_all
  moreover have sub: "set (?ss @ ?rest2) \<subseteq> set rest" "set ?frs' \<subseteq> set ?rest2"
    unfolding whole [symmetric] by (rule set_drop_subset)+
  moreover from calculation(1) have "distinct ?frs'" by (simp del: drop_drop add: distinct_drop)
  ultimately have apart: "distinct (f # ?ss @ ?frs')" "set (f # ?ss @ ?frs') \<subseteq> set frs"
    using frs by auto
  have pin: "mm_pin_virtual_address pd va m3 = slot_mapped c f ?ss (\<lambda>va. mm_pin_virtual_address pd va ?m) va"
    if "pd_entries pd = R" for pd va
  proof -
    have "mm_pin_virtual_address pd va m1 = mm_pin_virtual_address pd va ?m"
      using leaf_zeroed [OF tables [unfolded frs]] that m1(4) by (simp add: pin_leaf)
    then show ?thesis
      using pin_advances [of m1 m2 pd "slot_page c + 3" 4 ?ss va] pin_advances [of m2 m3 pd "slot_page c" 1 "[f]" va]
        m2'(5) m3(4) that page_in_area_less [of "slot_page c" 1 va]
      by (auto simp: slot_mapped_def split: option.splits)
  qed
  let ?w' = "w\<lparr>tw_mm := m3, tw_stacks := ks, tw_data := (tw_data w)(?td := idle_data c R)\<rparr>"
  have run: "setup_idle_task c idle w = Some (Inr (idle[c := ?td], ?w'))"
  proof -
    let ?w0 = "w\<lparr>tw_mm := m1, tw_data := (tw_data w)(?td := zero_task_data)\<rparr>"
    have stack0: "t_kernel_stack (task_of (init_idle_task ?td ?w0) ?td) = t_kernel_stack (td_task zero_task_data)"
      "tw_stacks (init_idle_task ?td ?w0) = tw_stacks w" "tw_mm (init_idle_task ?td ?w0) = m1"
      "t_page_dir (task_of (init_idle_task ?td ?w0) ?td) = ?pd"
      using R(1) by (simp_all add: init_idle_task_def Let_def initialize_page_directory_def) (simp add: task_of_def)
    let ?w2 = "upd_task ?td (\<lambda>t. t\<lparr>t_kernel_stack := ?stk\<rparr>) ((init_idle_task ?td ?w0)\<lparr>tw_stacks := ks\<rparr>)"
    have final: "initialize_task_system_data ?td (of_nat c) (arch_setup_ctx ?td 0 (?w2\<lparr>tw_mm := m3\<rparr>)) = ?w'"
      using R(1) by (simp add: init_idle_task_def Let_def initialize_page_directory_def arch_setup_ctx_def
          initialize_task_system_data_def upd_task_def zero_task_data_def idle_data_def)
    have low: "ks_low_address ?stk = page_addr (slot_page c + 3)"
        "page_addr (slot_page c + 3) AND KERNEL_STACK_MASK = page_addr (slot_page c)"
      using slot_page_addr(1,2) [OF c] by (simp_all add: slot_stack_def)
    show ?thesis
      using m1(1-3) ks(1) m2'(1) m3(1) final
      by (simp add: setup_idle_task_def Let_def stack0 low stack_pages_consts)
  qed
  have "idle_inv ?w' (Suc c) R ?frs'" using ks(2) m3(2,3) R by (simp add: idle_inv_def)
  moreover have "length frs \<le> length ?frs' + 11" "length ?ss = 4" using len frs k2 k3 by simp_all
  ultimately show ?thesis
    using run apart pin by (intro exI [of _ f] exI [of _ ?ss] exI [of _ ?frs'] exI [of _ ?w']) simp
qed

section \<open>Properties\<close>

lemma slot_mapped_keeps_task:
  assumes "j < stack_slots" and "k < stack_slots" and "j \<noteq> k"
    and "slot_high KERNEL_BASE k - 16384 \<le> sp" and "sp \<le> slot_high KERNEL_BASE k"
  shows "slot_mapped j f ss before (arch_current_task sp) = before (arch_current_task sp)"
  using page_in_slot_only [OF assms(1-3), of 0 1 "arch_current_task sp" 0 0 1]
    page_in_slot_only [OF assms(1-3), of 0 1 "arch_current_task sp" 0 3 4] current_task_page [OF assms(2,4,5)]
  by (simp add: slot_mapped_def)

text \<open>What two idle tasks look like: the first one in frame \<open>f0\<close> with its stack in \<open>ss0\<close>, and so on.\<close>

definition two_idle_tasks ::
  "task_world \<Rightarrow> task_world \<Rightarrow> page_directory \<Rightarrow> page_idx \<Rightarrow> page_idx list \<Rightarrow> page_idx \<Rightarrow> page_idx list \<Rightarrow> bool" where
  "two_idle_tasks w w' pd f0 ss0 f1 ss1 \<longleftrightarrow>
     kstack_ready KERNEL_BASE (tw_stacks w') 2 \<and> length ss0 = 4 \<and> length ss1 = 4 \<and>
     tw_data w' = (tw_data w)(pframe_to_virt f0 := idle_data 0 (pd_entries pd),
                              pframe_to_virt f1 := idle_data 1 (pd_entries pd)) \<and>
     (\<forall>va. mm_pin_virtual_address pd va (tw_mm w') =
        slot_mapped 1 f1 ss1 (slot_mapped 0 f0 ss0 (\<lambda>va. mm_pin_virtual_address pd va (tw_mm w))) va)"

lemma initialize_scheduler_ok:
  assumes "cache_frames (tw_mm w) (p # frs)" and "24 \<le> length frs" and "length (kc_bitmap chunk) = stack_slots"
    and "tables_ok (kmem (tw_mm w)) (pd_entries (tw_kernel_pd w)) frs" and "pd_entries (tw_kernel_pd w) \<noteq> 0"
    and "length idle = 2"
  shows "\<exists>f0 ss0 f1 ss1 frs' w'.
    initialize_scheduler chunk idle w = Some (Inr ([pframe_to_virt f0, pframe_to_virt f1], w')) \<and>
    distinct (f0 # f1 # ss0 @ ss1) \<and> set (f0 # f1 # ss0 @ ss1) \<subseteq> set frs \<and>
    two_idle_tasks w w' (tw_kernel_pd w) f0 ss0 f1 ss1 \<and>
    idle_inv w' 2 (pd_entries (tw_kernel_pd w)) frs' \<and> length frs \<le> length frs' + 22 \<and>
    {f0, f1} \<inter> set frs' = {} \<and> set frs' \<subseteq> set frs \<and>
    (\<forall>k<2. \<forall>sp. slot_high KERNEL_BASE k - 16384 \<le> sp \<and> sp \<le> slot_high KERNEL_BASE k \<longrightarrow>
      pframe_to_virt (mm_pin_virtual_address (tw_kernel_pd w) (arch_current_task sp) (tw_mm w')) =
        [pframe_to_virt f0, pframe_to_virt f1] ! k)"
proof -
  let ?pd = "tw_kernel_pd w" and ?R = "pd_entries (tw_kernel_pd w)"
  obtain n m1 where m1: "alloc_page 0 False (tw_mm w) = Inr (Some n, m1)" "kmem m1 = kmem (tw_mm w)" "cache_frames m1 frs"
    using cache_frames_alloc [OF assms(1), of 0 False] by auto
  obtain ks where ks: "initialize_kernel_stack_allocator (Some chunk) = Inr ks" "kstack_ready KERNEL_BASE ks 0"
    using kstack_start_ready [OF assms(3)] by blast
  let ?w1 = "w\<lparr>tw_mm := m1, tw_stacks := ks\<rparr>"
  have lt: "0 < stack_slots" "Suc 0 < stack_slots" by (simp_all add: stack_slots_def)
  have inv: "idle_inv ?w1 0 ?R frs" using ks(2) m1(2,3) assms(4,5) by (simp add: idle_inv_def)
  have "12 \<le> length frs" using assms(2) by simp
  from setup_idle_task_ok [OF inv lt(1) this, of idle]
  obtain f0 ss0 frs1 w2 where w2: "setup_idle_task 0 idle ?w1 = Some (Inr (idle[0 := pframe_to_virt f0], w2))"
      "idle_inv w2 (Suc 0) ?R frs1" "length frs \<le> length frs1 + 11" "length ss0 = 4" "distinct (f0 # ss0 @ frs1)"
      "set (f0 # ss0 @ frs1) \<subseteq> set frs" "tw_data w2 = (tw_data ?w1)(pframe_to_virt f0 := idle_data 0 ?R)"
      "\<forall>pd va. pd_entries pd = ?R \<longrightarrow> mm_pin_virtual_address pd va (tw_mm w2) =
        slot_mapped 0 f0 ss0 (\<lambda>va. mm_pin_virtual_address pd va (tw_mm ?w1)) va"
    by blast
  have "12 \<le> length frs1" using assms(2) w2(3) by simp
  from setup_idle_task_ok [OF w2(2) lt(2) this, of "idle[0 := pframe_to_virt f0]"]
  obtain f1 ss1 frs2 w3 where w3: "setup_idle_task (Suc 0) (idle[0 := pframe_to_virt f0]) w2
        = Some (Inr (idle[0 := pframe_to_virt f0, Suc 0 := pframe_to_virt f1], w3))"
      "idle_inv w3 (Suc (Suc 0)) ?R frs2" "length ss1 = 4" "distinct (f1 # ss1 @ frs2)"
      "set (f1 # ss1 @ frs2) \<subseteq> set frs1" "tw_data w3 = (tw_data w2)(pframe_to_virt f1 := idle_data (Suc 0) ?R)"
      "\<forall>pd va. pd_entries pd = ?R \<longrightarrow> mm_pin_virtual_address pd va (tw_mm w3) =
        slot_mapped (Suc 0) f1 ss1 (\<lambda>va. mm_pin_virtual_address pd va (tw_mm w2)) va"
      "length frs1 \<le> length frs2 + 11"
    by blast
  have "idle[0 := pframe_to_virt f0, Suc 0 := pframe_to_virt f1] = [pframe_to_virt f0, pframe_to_virt f1]"
    using assms(6) by (cases idle; cases "tl idle") auto
  moreover have "[0..<unat NR_CPUS] = [0, Suc 0]" by (simp add: NR_CPUS_def upt_rec)
  ultimately have run: "initialize_scheduler chunk idle w = Some (Inr ([pframe_to_virt f0, pframe_to_virt f1], w3))"
    using m1(1) ks(1) w2(1) w3(1) by (simp add: initialize_scheduler_def)
  have "mm_pin_virtual_address ?pd va m1 = mm_pin_virtual_address ?pd va (tw_mm w)" for va
    using m1(2) by (simp add: pin_leaf)
  then have pin: "mm_pin_virtual_address ?pd va (tw_mm w3) =
      slot_mapped 1 f1 ss1 (slot_mapped 0 f0 ss0 (\<lambda>va. mm_pin_virtual_address ?pd va (tw_mm w))) va" for va
    using w2(8) w3(7) by simp
  have apart: "distinct (f0 # f1 # ss0 @ ss1)" "set (f0 # f1 # ss0 @ ss1) \<subseteq> set frs"
    using w2(5,6) w3(4,5) by auto
  have current: "pframe_to_virt (mm_pin_virtual_address ?pd (arch_current_task sp) (tw_mm w3)) =
      [pframe_to_virt f0, pframe_to_virt f1] ! k"
    if k: "k < 2" and sp: "slot_high KERNEL_BASE k - 16384 \<le> sp" "sp \<le> slot_high KERNEL_BASE k" for k sp
  proof (cases "k = 0")
    case True
    then show ?thesis
      using slot_mapped_keeps_task [OF lt(2,1), of sp f1 ss1] current_task_page [OF lt(1), of sp] sp
      unfolding pin by (simp add: slot_mapped_def)
  next
    case False
    then have "k = Suc 0" using k by simp
    then show ?thesis
      using current_task_page [OF lt(2), of sp] sp unfolding pin by (simp add: slot_mapped_def)
  qed
  have "two_idle_tasks w w3 ?pd f0 ss0 f1 ss1"
    using w2(4,7) w3(2,3,6) pin by (simp add: two_idle_tasks_def idle_inv_def eval_nat_numeral)
  moreover have "idle_inv w3 2 ?R frs2" using w3(2) by (simp add: eval_nat_numeral)
  moreover have "length frs \<le> length frs2 + 22" "{f0, f1} \<inter> set frs2 = {}" "set frs2 \<subseteq> set frs"
    using w2(3,5,6) w3(4,5,8) by auto
  ultimately show ?thesis
    using run apart current
    by (intro exI [of _ f0] exI [of _ ss0] exI [of _ f1] exI [of _ ss1] exI [of _ frs2] exI [of _ w3] conjI allI impI)
      (assumption | elim conjE)+
qed

text \<open>C10: The scheduler starts with an idle task for each CPU: from free frames, all different, it makes a
  structure and four stack pages for each, numbers the CPU, and maps the stack into the slot of the task
  and the structure to the bottom of the slot; no other address changes. On either stack the current task
  is the idle task of that CPU.\<close>

theorem idle_tasks_ready:
  assumes "cache_frames (tw_mm w) (p # frs)" and "24 \<le> length frs" and "length (kc_bitmap chunk) = stack_slots"
    and "tables_ok (kmem (tw_mm w)) (pd_entries (tw_kernel_pd w)) frs" and "pd_entries (tw_kernel_pd w) \<noteq> 0"
    and "length idle = 2"
  shows "\<exists>f0 ss0 f1 ss1 w'.
    initialize_scheduler chunk idle w = Some (Inr ([pframe_to_virt f0, pframe_to_virt f1], w')) \<and>
    distinct (f0 # f1 # ss0 @ ss1) \<and> set (f0 # f1 # ss0 @ ss1) \<subseteq> set frs \<and>
    two_idle_tasks w w' (tw_kernel_pd w) f0 ss0 f1 ss1 \<and>
    (\<forall>k<2. \<forall>sp. slot_high KERNEL_BASE k - 16384 \<le> sp \<and> sp \<le> slot_high KERNEL_BASE k \<longrightarrow>
      pframe_to_virt (mm_pin_virtual_address (tw_kernel_pd w) (arch_current_task sp) (tw_mm w')) =
        [pframe_to_virt f0, pframe_to_virt f1] ! k)"
  using initialize_scheduler_ok [OF assms] by (elim exE conjE) (intro exI conjI, assumption+)

text \<open>The first kernel thread: after the scheduler is initialised, \<^verbatim>\<open>kernel_thread\<close> called on the idle task of the
  first CPU creates a task in the third stack slot, makes it \<^verbatim>\<open>kthread1\<close>, and the first switch to it starts its
  function in the thread helper, on its own stack and in the tables of the kernel.\<close>

theorem scheduler_then_thread:
  assumes "cache_frames (tw_mm w) (p # frs)" and "33 \<le> length frs" and "length (kc_bitmap chunk) = stack_slots"
    and "tables_ok (kmem (tw_mm w)) (pd_entries (tw_kernel_pd w)) frs" and "pd_entries (tw_kernel_pd w) \<noteq> 0"
    and "length idle = 2"
  shows "\<exists>i0 i1 w1 td w2. initialize_scheduler chunk idle w = Some (Inr ([i0, i1], w1)) \<and>
    kernel_thread im i0 fn data w1 = Some (Inr (0, w2)) \<and> tw_kthread1 w2 = Some td \<and> td \<notin> {i0, i1} \<and>
    (let c = t_arch_context (task_of w2 td); high = slot_high KERNEL_BASE 2 in
      ac_cr3 c = k2p (pd_entries (tw_kernel_pd w)) \<and>
      activate_new (kmem (tw_mm w2)) (ac_rsp c) = (im_fork_path im, first_regs im high fn data))"
proof -
  let ?R = "pd_entries (tw_kernel_pd w)"
  have "24 \<le> length frs" using assms(2) by simp
  from initialize_scheduler_ok [OF assms(1) this assms(3-6)]
  obtain f0 ss0 f1 ss1 frs' w1 where w1: "initialize_scheduler chunk idle w = Some (Inr ([pframe_to_virt f0, pframe_to_virt f1], w1))"
      "two_idle_tasks w w1 (tw_kernel_pd w) f0 ss0 f1 ss1" "idle_inv w1 2 ?R frs'" "length frs \<le> length frs' + 22"
      "{f0, f1} \<inter> set frs' = {}" "set (f0 # f1 # ss0 @ ss1) \<subseteq> set frs" "set frs' \<subseteq> set frs" "distinct (f0 # f1 # ss0 @ ss1)"
    by (elim exE conjE) (rule that, assumption+)
  have "11 \<le> length frs'" using assms(2) w1(4) by simp
  then obtain f rest where f: "frs' = f # rest" "10 \<le> length rest" by (cases frs') auto
  let ?ss = "take 4 rest" and ?left = "drop 4 rest"
  have small: "unat r < 2 ^ 19" if "r \<in> set frs" for r using tables_okD(5) [OF assms(4) that] .
  have in_frs: "f0 \<in> set frs" "f1 \<in> set frs" "f \<in> set frs" "f \<noteq> f0" "f \<noteq> f1"
    using w1(5-7) f(1) by auto
  then have td: "pframe_to_virt f \<noteq> pframe_to_virt f0" "pframe_to_virt f \<noteq> pframe_to_virt f1"
    using pframe_to_virt_inject small by metis+
  have "f0 \<noteq> f1" using w1(8) by simp
  then have "pframe_to_virt f0 \<noteq> pframe_to_virt f1" using pframe_to_virt_inject small in_frs by metis
  then have root: "pd_entries (t_page_dir (task_of w1 (pframe_to_virt f0))) = ?R"
    using w1(2) by (simp add: two_idle_tasks_def task_of_def idle_data_def)
  have create: "can_create w1 (pframe_to_virt f0) 2 f ?ss ?left"
    using w1(3) f td root by (simp add: can_create_def idle_inv_def stack_slots_def)
  obtain w2 where w2: "kernel_thread im (pframe_to_virt f0) fn data w1 = Some (Inr (0, w2))"
      "tw_kthread1 w2 = Some (pframe_to_virt f)"
      "ac_cr3 (t_arch_context (task_of w2 (pframe_to_virt f))) = k2p ?R"
      "activate_new (kmem (tw_mm w2)) (ac_rsp (t_arch_context (task_of w2 (pframe_to_virt f)))) =
        (im_fork_path im, first_regs im (slot_high KERNEL_BASE 2) fn data)"
    using kernel_thread_first_switch [OF create, of im fn data] root by (auto simp: Let_def)
  then show ?thesis
    using w1(1) td by (intro exI [of _ "pframe_to_virt f0"] exI [of _ "pframe_to_virt f1"] exI [of _ w1]
        exI [of _ "pframe_to_virt f"] exI [of _ w2]) (simp add: Let_def)
qed

section \<open>A concrete start\<close>

definition idle_nodes :: "addr list" where
  "idle_nodes = map (\<lambda>i. of_nat i * 0x10000) [1..<35]"

definition idle_world :: task_world where
  "idle_world = \<lparr>tw_mm = \<lparr>kmem = (\<lambda>_. 0),
       frame_links = fold (\<lambda>n. list_add_tail n 0x500) idle_nodes
         (init_list_head 0x500 \<lparr>lh_next = (\<lambda>_. 0), lh_prev = (\<lambda>_. 0)\<rparr>),
       frame_idx = (\<lambda>a. ucast (drop_bit 16 a)),
       cpu_cache = \<lparr>pc_pages = 0x500, pc_num_free_pages = 34, pc_total_pages = 34\<rparr>, mem_total_pages = 64\<rparr>,
     tw_stacks = \<lparr>starting_kernel_stack_address = 0,
       main_stack_ctx = \<lparr>ka_total_items = 0, ka_free_items = 0, ka_num_chunks = 0, ka_chunks = []\<rparr>\<rparr>,
     tw_data = (\<lambda>_. zero_task_data), tw_pid = 1, tw_kernel_pd = sample_pd, tw_kthread1 = None\<rparr>"

lemma unat_node: "i < 2 ^ 32 \<Longrightarrow> unat (of_nat i * 0x10000 :: u64) = i * 0x10000"
  by (simp add: unat_word_ariths unat_of_nat)

lemma idle_world_frames: "cache_frames (tw_mm idle_world) (map of_nat [1..<35])"
proof -
  have node: "(of_nat i * 0x10000 :: u64) \<noteq> 0x500" "ucast (drop_bit 16 (of_nat i * 0x10000 :: u64)) = (of_nat i :: page_idx)"
    if "i < 35" for i :: nat
  proof -
    have "i * 0x10000 \<noteq> 0x500" by (cases i) simp_all
    then show "(of_nat i * 0x10000 :: u64) \<noteq> 0x500"
      using unat_node [of i] that by (simp only: word_unat_eq_iff) simp
    show "ucast (drop_bit 16 (of_nat i * 0x10000 :: u64)) = (of_nat i :: page_idx)"
      using unat_node [of i] that
      by (simp add: word_unat_eq_iff unat_drop_bit unsigned_ucast_eq unat_of_nat take_bit_eq_mod)
  qed
  have "inj_on (\<lambda>i. of_nat i * 0x10000 :: u64) {1..<35}"
    by (rule inj_on_inverseI [where g = "\<lambda>w. unat w div 0x10000"]) (simp add: unat_node)
  then have "distinct idle_nodes" by (simp add: idle_nodes_def distinct_map)
  moreover have "0x500 \<notin> set idle_nodes" using node(1) by (auto simp: idle_nodes_def)
  ultimately have "cache_rep (tw_mm idle_world) idle_nodes"
    using ring.build_back [OF init_list_head_empty, of idle_nodes]
    by (simp add: cache_rep_def idle_world_def) (simp add: idle_nodes_def)
  moreover have "map (frame_idx (tw_mm idle_world)) idle_nodes = map of_nat [1..<35]"
    using node(2) by (simp add: idle_world_def idle_nodes_def)
  ultimately show ?thesis unfolding cache_frames_def by metis
qed

lemma idle_world_ok:
  "cache_frames (tw_mm idle_world) (1 # map of_nat [2..<35])" "33 \<le> length (map of_nat [2..<35] :: page_idx list)"
  "length (kc_bitmap sample_chunk) = stack_slots"
  "tables_ok (kmem (tw_mm idle_world)) (pd_entries (tw_kernel_pd idle_world)) (map of_nat [2..<35])"
  "pd_entries (tw_kernel_pd idle_world) \<noteq> 0" "length [0, 0 :: addr] = 2"
proof -
  have "[1..<35] = 1 # [2..<35 :: nat]" by (simp add: upt_conv_Cons)
  then show "cache_frames (tw_mm idle_world) (1 # map of_nat [2..<35])"
    using idle_world_frames by simp
  have idx: "unat (of_nat i :: page_idx) = i" if "i < 35" for i using that by (simp add: unat_of_nat)
  define frs :: "page_idx list" where "frs = map of_nat [2..<35]"
  have "unat r < 35" if "r \<in> set frs" for r using that idx unfolding frs_def set_map set_upt by force
  moreover have "pframe_to_virt r \<noteq> 0xffffffff80200000" if "unat r < 35" for r
    using pframe_to_virt_small(1) [of r] that by (auto simp: word_unat_eq_iff)
  moreover have "distinct frs"
    unfolding frs_def distinct_map by (intro conjI distinct_upt inj_on_inverseI [where g = unat] idx) (simp only: set_upt atLeastLessThan_iff)
  ultimately have "tables_ok (\<lambda>_. 0) 0xffffffff80200000 frs"
    by (fastforce simp: tables_ok_def walk_zero aligned_def split: if_splits)
  then show "tables_ok (kmem (tw_mm idle_world)) (pd_entries (tw_kernel_pd idle_world)) (map of_nat [2..<35])"
    unfolding frs_def [symmetric] by (simp add: idle_world_def sample_pd_def)
qed (simp_all add: sample_chunk_def idle_world_def sample_pd_def)

theorem idle_tasks_ready_witness:
  "\<exists>f0 f1 w'. initialize_scheduler sample_chunk [0, 0] idle_world
     = Some (Inr ([pframe_to_virt f0, pframe_to_virt f1], w')) \<and> f0 \<noteq> f1"
proof -
  have "24 \<le> length (map of_nat [2..<35] :: page_idx list)" by simp
  from idle_tasks_ready [OF idle_world_ok(1) this idle_world_ok(3-6)] show ?thesis
    by (metis distinct.simps(2) list.set_intros(1))
qed

theorem scheduler_then_thread_witness:
  "\<exists>i0 i1 w1 w2. initialize_scheduler sample_chunk [0, 0] idle_world = Some (Inr ([i0, i1], w1)) \<and>
     kernel_thread \<lparr>im_thread_helper = 1, im_fork_path = 2, im_rflags = 0\<rparr> i0 7 8 w1 = Some (Inr (0, w2))"
  using scheduler_then_thread [OF idle_world_ok, of "\<lparr>im_thread_helper = 1, im_fork_path = 2, im_rflags = 0\<rparr>" 7 8]
  by blast

end
