(* ===== verification/Mui_Yield.thy ===== *)
theory Mui_Yield
  imports Mui_Clock Mui_Idle
begin

text \<open>
  The loops that the first task of the first CPU and the first kernel thread run and in which they switch to each other
  (\<^verbatim>\<open>eza/generic_api/idletask.c\<close>). A step is one turn of the loop of the running task, or a tick of the timer between
  two turns: the turn reads \<^verbatim>\<open>swks.system_ticks_64\<close> once, and nothing else of it depends on the ticks but the number
  that it prints. The additions to the \<^verbatim>\<open>int\<close> of the target wrap, as they do in the build without optimisation.
\<close>

section \<open>The state\<close>

datatype loop_code = Idle_Loop | Clone_Fn

text \<open>Where a task is: at the start of \<^verbatim>\<open>idle_loop\<close>, at its call of \<^verbatim>\<open>kernel_thread\<close>, at one of the two loads of the target
  from the ticks, or in the loop.\<close>

datatype loop_pc = Enters | Creates | Loads | Polls

record loop_frame =
  lf_code :: loop_code
  lf_pc :: loop_pc
  lf_target_tick :: u32
  lf_rounds :: nat

type_synonym tick_line = "loop_code \<times> u64 \<times> u32 \<times> cpu_id"

record yield_state =
  ys_swks :: swks
  ys_world :: task_world
  ys_idle_task :: addr
  ys_current :: addr
  ys_frames :: "addr \<Rightarrow> loop_frame"
  ys_log :: "tick_line list"

abbreviation ys_ticks :: "yield_state \<Rightarrow> u64" where
  "ys_ticks s \<equiv> sw_system_ticks_64 (ys_swks s)"

abbreviation ys_frame :: "yield_state \<Rightarrow> loop_frame" where
  "ys_frame s \<equiv> ys_frames s (ys_current s)"

section \<open>The loops\<close>

definition tick_period :: "loop_code \<Rightarrow> u32" where
  "tick_period c = (case c of Idle_Loop \<Rightarrow> 10000 | Clone_Fn \<Rightarrow> 10150)"

definition next_task :: "loop_code \<Rightarrow> yield_state \<Rightarrow> addr option" where
  "next_task c s = (case c of Idle_Loop \<Rightarrow> tw_kthread1 (ys_world s) | Clone_Fn \<Rightarrow> Some (ys_idle_task s))"

definition set_frame :: "loop_frame \<Rightarrow> yield_state \<Rightarrow> yield_state" where
  "set_frame f s = s\<lparr>ys_frames := (ys_frames s)(ys_current s := f)\<rparr>"

definition print_tick :: "yield_state \<Rightarrow> yield_state" where
  "print_tick s =
     (let td = tw_data (ys_world s) (ys_current s)
      in s\<lparr>ys_log := ys_log s @
          [(lf_code (ys_frame s), ys_ticks s, t_pid (td_task td), sd_cpu_id (td_system_data td))]\<rparr>)"

definition poll_tick :: "yield_state \<Rightarrow> yield_state res" where
  "poll_tick s =
     (let f = ys_frame s
      in if ys_ticks s = scast (lf_target_tick f) then
           let s = print_tick s;
               f = f\<lparr>lf_target_tick := lf_target_tick f + tick_period (lf_code f), lf_rounds := lf_rounds f + 1\<rparr>
           in if lf_rounds f \<ge> 3 then
                (case next_task (lf_code f) s of
                   None \<Rightarrow> Inl BadAccess
                 | Some t \<Rightarrow> Inr ((set_frame (f\<lparr>lf_rounds := 0, lf_pc := Loads\<rparr>) s)\<lparr>ys_current := t\<rparr>))
              else Inr (set_frame f s)
         else Inr s)"

definition load_target :: "loop_pc \<Rightarrow> yield_state \<Rightarrow> yield_state" where
  "load_target pc s = set_frame ((ys_frame s)\<lparr>lf_target_tick := ucast (ys_ticks s + 100), lf_pc := pc\<rparr>) s"

definition new_frame :: loop_frame where
  "new_frame = \<lparr>lf_code = Clone_Fn, lf_pc = Loads, lf_target_tick = 0, lf_rounds = 0\<rparr>"

definition create_clone :: "image \<Rightarrow> addr \<Rightarrow> yield_state \<Rightarrow> yield_state res option" where
  "create_clone im fn s =
     obind (kernel_thread im (ys_current s) fn 0 (ys_world s)) (\<lambda>(r, w).
       let s = (set_frame ((ys_frame s)\<lparr>lf_pc := Polls\<rparr>) s)\<lparr>ys_world := w\<rparr>
       in Some (Inr (case tw_kthread1 w of
            None \<Rightarrow> s
          | Some td \<Rightarrow> s\<lparr>ys_frames := (ys_frames s)(td := new_frame)\<rparr>)))"

definition loop_step :: "image \<Rightarrow> addr \<Rightarrow> yield_state \<Rightarrow> yield_state res option" where
  "loop_step im fn s =
     (case lf_pc (ys_frame s) of
        Enters \<Rightarrow> Some (Inr (load_target Creates s))
      | Creates \<Rightarrow> create_clone im fn s
      | Loads \<Rightarrow> Some (Inr (load_target Polls s))
      | Polls \<Rightarrow> Some (poll_tick s))"

definition clock_tick :: "yield_state \<Rightarrow> yield_state" where
  "clock_tick s = s\<lparr>ys_swks := timer_tick (ys_swks s)\<rparr>"

text \<open>\<open>ytrace s n s'\<close>: turns of the loops and \<open>n\<close> ticks, in any order, lead from \<open>s\<close> to \<open>s'\<close>.\<close>

inductive ytrace :: "image \<Rightarrow> addr \<Rightarrow> yield_state \<Rightarrow> nat \<Rightarrow> yield_state \<Rightarrow> bool" for im fn s where
  start: "ytrace im fn s 0 s"
| tick: "ytrace im fn s n t \<Longrightarrow> ytrace im fn s (Suc n) (clock_tick t)"
| turn: "ytrace im fn s n t \<Longrightarrow> loop_step im fn t = Some (Inr u) \<Longrightarrow> ytrace im fn s n u"

text \<open>A machine that is fast enough: after every tick the running task makes some turns, as many as the list says.\<close>

fun turns :: "image \<Rightarrow> addr \<Rightarrow> nat \<Rightarrow> yield_state \<Rightarrow> yield_state res option" where
  "turns im fn 0 s = Some (Inr s)"
| "turns im fn (Suc n) s = obind (loop_step im fn s) (turns im fn n)"

fun ticks_and_turns :: "image \<Rightarrow> addr \<Rightarrow> nat list \<Rightarrow> yield_state \<Rightarrow> yield_state res option" where
  "ticks_and_turns im fn [] s = Some (Inr s)"
| "ticks_and_turns im fn (m # ms) s = obind (turns im fn m (clock_tick s)) (ticks_and_turns im fn ms)"

definition yield_start :: "task_world \<Rightarrow> addr \<Rightarrow> swks \<Rightarrow> yield_state" where
  "yield_start w idle sw = \<lparr>ys_swks = sw, ys_world = w, ys_idle_task = idle, ys_current = idle,
     ys_frames = (\<lambda>_. \<lparr>lf_code = Idle_Loop, lf_pc = Enters, lf_target_tick = 0, lf_rounds = 0\<rparr>), ys_log = []\<rparr>"

section \<open>A missed tick\<close>

lemma clock_tick_simps [simp]:
  "ys_frames (clock_tick s) = ys_frames s" "ys_current (clock_tick s) = ys_current s" "ys_log (clock_tick s) = ys_log s"
  "ys_world (clock_tick s) = ys_world s" "ys_idle_task (clock_tick s) = ys_idle_task s" "ys_ticks (clock_tick s) = ys_ticks s + 1"
  by (simp_all add: clock_tick_def timer_tick_def)

lemma loop_step_waits:
  assumes "lf_pc (ys_frame s) = Polls" and "ys_ticks s \<noteq> scast (lf_target_tick (ys_frame s))"
  shows "loop_step im fn s = Some (Inr s)"
  using assms by (simp add: loop_step_def poll_tick_def Let_def)

lemma never_equal:
  assumes "ytrace im fn s n s'" and "lf_pc (ys_frame s) = Polls"
    and "\<And>k. k \<le> n \<Longrightarrow> ys_ticks s + of_nat k \<noteq> scast (lf_target_tick (ys_frame s))"
  shows "ys_frames s' = ys_frames s \<and> ys_current s' = ys_current s \<and> ys_log s' = ys_log s \<and>
    ys_ticks s' = ys_ticks s + of_nat n"
  using assms
proof (induction rule: ytrace.induct)
  case start
  then show ?case by simp
next
  case (tick n t)
  then show ?case by (simp add: add.assoc add.commute)
next
  case (turn n t u)
  then have "lf_pc (ys_frame t) = Polls" "ys_ticks t \<noteq> scast (lf_target_tick (ys_frame t))" by simp_all
  then show ?case using turn loop_step_waits by fastforce
qed

lemma ticks_below:
  assumes "unat (t :: u64) + k < 2 ^ 64"
  shows "unat (t + of_nat k) = unat t + k"
proof -
  have "unat (of_nat k :: u64) = k" using assms by (intro unat_of_nat_small) simp
  then show ?thesis using assms by (simp add: unat_word_ariths)
qed

text \<open>C30: A task that misses its tick never switches: once the ticks have passed the target that the running task waits
  for, it stays in its loop and nothing is printed, however ticks and turns follow each other, until the
  64-bit counter wraps.\<close>

theorem missed_tick_starves:
  assumes "ytrace im fn s n s'" and "lf_pc (ys_frame s) = Polls"
    and "scast (lf_target_tick (ys_frame s)) < ys_ticks s" and "n < 2 ^ 64 - unat (ys_ticks s)"
  shows "ys_current s' = ys_current s \<and> ys_frames s' = ys_frames s \<and> ys_log s' = ys_log s"
proof -
  have "ys_ticks s + of_nat k \<noteq> scast (lf_target_tick (ys_frame s))" if "k \<le> n" for k
  proof -
    have "unat (ys_ticks s + of_nat k) = unat (ys_ticks s) + k"
      using assms(4) that unsigned_less [of "ys_ticks s"] by (intro ticks_below) simp
    then show ?thesis using assms(3) by (auto simp: word_less_nat_alt)
  qed
  then show ?thesis using never_equal [OF assms(1,2)] by blast
qed

section \<open>A target that does not fit\<close>

lemma target_value: "scast (ucast x :: u32) = (word_of_int ((uint x + 2 ^ 31) mod 2 ^ 32 - 2 ^ 31) :: u64)" for x :: u64
proof -
  have "sint (ucast x :: u32) = (uint x + 2 ^ 31) mod 2 ^ 32 - 2 ^ 31"
    using int_word_sint [where 'a = 32, of "uint x"] by (simp add: unsigned_of_int [symmetric])
  moreover have "scast (ucast x :: u32) = (word_of_int (sint (ucast x :: u32)) :: u64)"
    by (rule scast_eq)
  ultimately show ?thesis by (simp only:)
qed

lemma late_target_never_equal:
  fixes t :: u64
  assumes "2 ^ 31 \<le> unat t + 100" and "unat t + k < 2 ^ 62" and "j \<le> k"
  shows "t + of_nat k \<noteq> scast (ucast (t + of_nat j + 100) :: u32)"
proof
  define u where "u = int (unat t + j + 100)"
  define z where "z = (u + 2 ^ 31) mod 2 ^ 32 - 2 ^ 31"
  assume eq: "t + of_nat k = scast (ucast (t + of_nat j + 100) :: u32)"
  have "t + of_nat j + 100 = t + of_nat (j + 100)" by simp
  then have "unat (t + of_nat j + 100) = unat t + (j + 100)" using assms ticks_below [of t "j + 100"] by (simp add: ac_simps)
  then have "uint (t + of_nat j + 100) = u" by (simp only: u_def uint_nat of_nat_add add.assoc)
  then have "t + of_nat k = word_of_int z" using eq target_value [of "t + of_nat j + 100"] by (simp only: z_def)
  moreover have "unat (t + of_nat k) = unat t + k" using assms(2) by (intro ticks_below) simp
  then have tk: "uint (t + of_nat k) = int (unat t + k)" by (simp only: uint_nat)
  ultimately have eq: "int (unat t + k) = z mod 2 ^ 64" by (simp only: uint_word_of_int) simp
  define N where "N = int (unat t + k)"
  have "z = u - 2 ^ 32 * ((u + 2 ^ 31) div 2 ^ 32)"
    using minus_div_mult_eq_mod [of "u + 2 ^ 31" "2 ^ 32"] by (simp add: z_def)
  moreover have "2 ^ 31 \<le> unat t + j + 100" using assms(1) by simp
  then have "int (2 ^ 31) \<le> u" unfolding u_def by (simp only: of_nat_le_iff)
  then have "1 \<le> (u + 2 ^ 31) div 2 ^ 32" by simp
  ultimately have zu: "z \<le> u - 2 ^ 32" by simp
  have z: "- (2 ^ 31) \<le> z" "z < 2 ^ 31" by (simp_all add: z_def)
  have "N < int (2 ^ 62)" unfolding N_def using assms(2) by (simp only: of_nat_less_iff)
  moreover have "u \<le> N + int 100" unfolding N_def u_def of_nat_add [symmetric] of_nat_le_iff using assms(3) by simp
  ultimately have N: "N < 2 ^ 62" "u \<le> N + 100" "N = z mod 2 ^ 64" using eq by (simp_all add: N_def)
  show False
  proof (cases "z < 0")
    case True
    then have "z mod 2 ^ 64 = z + 2 ^ 64" using mod_pos_pos_trivial [of "z + 2 ^ 64" "2 ^ 64"] z(1) by simp
    then show False using N z(1) by simp
  next
    case False
    then have "z mod 2 ^ 64 = z" using z(2) by simp
    then show False using N zu by simp
  qed
qed

text \<open>After \<open>2 ^ 31\<close> ticks (some 25 days at 1000 ticks a second) a task that takes up its loop never
  switches again: the target that it computes is cut to an \<^verbatim>\<open>int\<close>, and no later value of the
  64-bit counter equals it, however ticks and turns follow each other.\<close>

theorem late_task_never_switches:
  assumes "ytrace im fn s n s'" and "lf_pc (ys_frame s) = Loads"
    and "2 ^ 31 \<le> unat (ys_ticks s) + 100" and "unat (ys_ticks s) + n < 2 ^ 62"
  shows "ys_current s' = ys_current s \<and> ys_log s' = ys_log s"
proof -
  have "ys_current s' = ys_current s \<and> ys_log s' = ys_log s \<and> ys_ticks s' = ys_ticks s + of_nat n \<and>
    (lf_pc (ys_frame s') = Loads \<or>
     lf_pc (ys_frame s') = Polls \<and> (\<exists>j \<le> n. lf_target_tick (ys_frame s') = ucast (ys_ticks s + of_nat j + 100)))"
    using assms
  proof (induction rule: ytrace.induct)
    case start
    then show ?case by simp
  next
    case (tick n t)
    then show ?case by (auto simp: ac_simps le_Suc_eq)
  next
    case (turn n t u)
    then have t: "ys_current t = ys_current s" "ys_log t = ys_log s" "ys_ticks t = ys_ticks s + of_nat n"
      "lf_pc (ys_frame t) = Loads \<or>
       lf_pc (ys_frame t) = Polls \<and> (\<exists>j \<le> n. lf_target_tick (ys_frame t) = ucast (ys_ticks s + of_nat j + 100))"
      by blast+
    from t(4) show ?case
    proof (elim disjE conjE exE)
      assume "lf_pc (ys_frame t) = Loads"
      then have "u = load_target Polls t" using turn.hyps(2) by (simp add: loop_step_def)
      then show ?case using t(1-3) by (auto simp: load_target_def set_frame_def)
    next
      fix j
      assume j: "lf_pc (ys_frame t) = Polls" "j \<le> n" "lf_target_tick (ys_frame t) = ucast (ys_ticks s + of_nat j + 100)"
      then have "ys_ticks t \<noteq> scast (lf_target_tick (ys_frame t))"
        using late_target_never_equal [OF turn.prems(2,3) j(2)] t(3) by simp
      then have "u = t" using loop_step_waits [OF j(1)] turn.hyps(2) by simp
      then show ?case using t j by auto
    qed
  qed
  then show ?thesis by simp
qed

section \<open>Two tasks that switch to each other\<close>

definition self :: "addr \<Rightarrow> addr \<Rightarrow> loop_code \<Rightarrow> addr" where
  "self idle td c = (case c of Idle_Loop \<Rightarrow> idle | Clone_Fn \<Rightarrow> td)"

definition other :: "loop_code \<Rightarrow> loop_code" where
  "other c = (case c of Idle_Loop \<Rightarrow> Clone_Fn | Clone_Fn \<Rightarrow> Idle_Loop)"

definition nperiod :: "loop_code \<Rightarrow> nat" where
  "nperiod c = (case c of Idle_Loop \<Rightarrow> 10000 | Clone_Fn \<Rightarrow> 10150)"

text \<open>The task of \<open>c\<close> waits for tick \<open>T\<close> in round \<open>r\<close>, and the other sleeps in its switch.\<close>

definition waits_for :: "task_world \<Rightarrow> addr \<Rightarrow> addr \<Rightarrow> loop_code \<Rightarrow> nat \<Rightarrow> nat \<Rightarrow> yield_state \<Rightarrow> bool" where
  "waits_for w idle td c T r s \<longleftrightarrow>
     ys_idle_task s = idle \<and> ys_world s = w \<and> ys_current s = self idle td c \<and>
     ys_frames s (self idle td c) = \<lparr>lf_code = c, lf_pc = Polls, lf_target_tick = of_nat T, lf_rounds = r\<rparr> \<and>
     (let g = ys_frames s (self idle td (other c)) in lf_code g = other c \<and> lf_pc g = Loads \<and> lf_rounds g = 0)"

definition line :: "task_world \<Rightarrow> addr \<Rightarrow> addr \<Rightarrow> loop_code \<Rightarrow> nat \<Rightarrow> tick_line" where
  "line w idle td c T =
     (let d = tw_data w (self idle td c) in (c, of_nat T, t_pid (td_task d), sd_cpu_id (td_system_data d)))"

lemma period_nat: "tick_period c = of_nat (nperiod c)"
  by (simp add: tick_period_def nperiod_def split: loop_code.splits)

lemma ucast_small: "n < 2 ^ 64 \<Longrightarrow> ucast (of_nat n :: u64) = (of_nat n :: u32)"
  by (simp add: unsigned_of_nat take_bit_nat_eq_self)

lemma small_target:
  assumes "T < 2 ^ 31"
  shows "scast (of_nat T :: u32) = (of_nat T :: u64)"
proof -
  have "uint (of_nat T :: u64) = int T" using assms by (simp add: unsigned_of_nat take_bit_nat_eq_self)
  moreover have "ucast (of_nat T :: u64) = (of_nat T :: u32)" using assms by (simp add: ucast_small)
  ultimately have "scast (of_nat T :: u32) = (word_of_int ((int T + 2 ^ 31) mod 2 ^ 32 - 2 ^ 31) :: u64)"
    using target_value [of "of_nat T"] by simp
  also have "(int T + 2 ^ 31) mod 2 ^ 32 - 2 ^ 31 = int T" using assms by simp
  finally show ?thesis by simp
qed

lemma tick_eq_target:
  assumes "T < 2 ^ 31" and "t < 2 ^ 31" and "ys_ticks s = of_nat t" and "waits_for w idle td c T r s"
  shows "ys_ticks s = scast (lf_target_tick (ys_frame s)) \<longleftrightarrow> t = T"
proof -
  have "unat (of_nat T :: u64) = T" "unat (of_nat t :: u64) = t"
    using assms(1,2) by (intro unat_of_nat_small, simp)+
  moreover have "lf_target_tick (ys_frame s) = of_nat T" using assms(4) by (simp add: waits_for_def)
  ultimately show ?thesis unfolding assms(3) using small_target [OF assms(1)] by metis
qed

lemma waiting_turns:
  assumes "T < 2 ^ 31" and "t < 2 ^ 31" and "ys_ticks s = of_nat t" and "waits_for w idle td c T r s" and "t \<noteq> T"
  shows "turns im fn m s = Some (Inr s)"
proof -
  have "loop_step im fn s = Some (Inr s)"
    using tick_eq_target [OF assms(1-4)] assms(4,5) by (intro loop_step_waits) (simp_all add: waits_for_def)
  then show ?thesis by (induction m) (simp_all add: obind_def)
qed

lemma self_other: "idle \<noteq> td \<Longrightarrow> self idle td (other c) \<noteq> self idle td c"
  by (cases c; simp add: self_def other_def)

lemma other_other [simp]: "other (other c) = c"
  by (cases c) (simp_all add: other_def)

text \<open>A hit before the third round.\<close>

lemma hit_turn:
  assumes "idle \<noteq> td" and "T < 2 ^ 31" and "ys_ticks s = of_nat T" and "waits_for w idle td c T r s" and "r < 2"
  obtains s' where "loop_step im fn s = Some (Inr s')" and "waits_for w idle td c (T + nperiod c) (Suc r) s'"
    and "ys_log s' = ys_log s @ [line w idle td c T]" and "ys_ticks s' = of_nat T"
proof -
  have eq: "ys_ticks s = scast (lf_target_tick (ys_frame s))" using tick_eq_target [OF assms(2,2,3,4)] by simp
  let ?f = "\<lparr>lf_code = c, lf_pc = Polls, lf_target_tick = of_nat T + of_nat (nperiod c), lf_rounds = Suc r\<rparr>"
  let ?s' = "set_frame ?f (print_tick s)"
  have f: "ys_frame s = \<lparr>lf_code = c, lf_pc = Polls, lf_target_tick = of_nat T, lf_rounds = r\<rparr>"
    and w: "ys_world s = w" "ys_current s = self idle td c" using assms(4) by (simp_all add: waits_for_def)
  have "loop_step im fn s = Some (Inr ?s')"
    using eq assms(5) by (simp add: loop_step_def poll_tick_def Let_def f period_nat)
  moreover have "waits_for w idle td c (T + nperiod c) (Suc r) ?s'"
    using assms(4) self_other [OF assms(1), of c] by (auto simp: waits_for_def set_frame_def print_tick_def Let_def)
  moreover have "ys_log ?s' = ys_log s @ [line w idle td c T]"
    by (simp add: set_frame_def print_tick_def Let_def line_def f [unfolded w(2)] w assms(3))
  ultimately show thesis using that assms(3) by (simp add: set_frame_def print_tick_def Let_def)
qed

text \<open>The hit of the third round, and the load of the other task.\<close>

lemma switch_turns:
  assumes "idle \<noteq> td" and "T < 2 ^ 31" and "ys_ticks s = of_nat T" and "waits_for w idle td c T 2 s"
    and "tw_kthread1 w = Some td"
  obtains s1 s' where "loop_step im fn s = Some (Inr s1)" and "loop_step im fn s1 = Some (Inr s')"
    and "waits_for w idle td (other c) (T + 100) 0 s'"
    and "ys_log s' = ys_log s @ [line w idle td c T]" and "ys_ticks s' = of_nat T"
proof -
  have eq: "ys_ticks s = scast (lf_target_tick (ys_frame s))" using tick_eq_target [OF assms(2,2,3,4)] by simp
  let ?f = "\<lparr>lf_code = c, lf_pc = Loads, lf_target_tick = of_nat T + of_nat (nperiod c), lf_rounds = 0\<rparr>"
  let ?s1 = "(set_frame ?f (print_tick s))\<lparr>ys_current := self idle td (other c)\<rparr>"
  have f: "ys_frame s = \<lparr>lf_code = c, lf_pc = Polls, lf_target_tick = of_nat T, lf_rounds = 2\<rparr>"
    and w: "ys_world s = w" "ys_current s = self idle td c" "ys_idle_task s = idle"
    using assms(4) by (simp_all add: waits_for_def)
  obtain tt where g: "ys_frames s (self idle td (other c)) =
      \<lparr>lf_code = other c, lf_pc = Loads, lf_target_tick = tt, lf_rounds = 0\<rparr>"
    using assms(4) by (cases "ys_frames s (self idle td (other c))") (simp add: waits_for_def Let_def)
  have n: "next_task c (print_tick s) = Some (self idle td (other c))"
    using assms(5) w by (cases c) (simp_all add: next_task_def self_def other_def print_tick_def Let_def)
  have "loop_step im fn s = Some (Inr ?s1)"
    using eq by (simp add: loop_step_def poll_tick_def Let_def f period_nat n)
  moreover have s1: "ys_frame ?s1 = \<lparr>lf_code = other c, lf_pc = Loads, lf_target_tick = tt, lf_rounds = 0\<rparr>"
    "ys_ticks ?s1 = of_nat T"
    using g assms(3) w self_other [OF assms(1), of c] by (simp_all add: set_frame_def print_tick_def Let_def)
  then have "loop_step im fn ?s1 = Some (Inr (load_target Polls ?s1))" by (simp add: loop_step_def)
  moreover have "ucast (of_nat T + 100 :: u64) = (of_nat (T + 100) :: u32)"
    using ucast_small [of "T + 100"] assms(2) by simp
  then have "load_target Polls ?s1 = set_frame \<lparr>lf_code = other c, lf_pc = Polls, lf_target_tick = of_nat (T + 100), lf_rounds = 0\<rparr> ?s1"
    unfolding load_target_def s1 by simp
  then have "waits_for w idle td (other c) (T + 100) 0 (load_target Polls ?s1)"
      "ys_log (load_target Polls ?s1) = ys_log s @ [line w idle td c T]" "ys_ticks (load_target Polls ?s1) = of_nat T"
    using w assms(3) self_other [OF assms(1), of c] f [unfolded w(2)]
    by (simp_all add: waits_for_def set_frame_def print_tick_def Let_def line_def)
  ultimately show thesis using that by blast
qed

lemma waits_for_tick: "waits_for w idle td c T r (clock_tick s) \<longleftrightarrow> waits_for w idle td c T r s"
  by (simp add: waits_for_def)

lemma obind_assoc: "obind (obind x f) g = obind x (\<lambda>y. obind (f y) g)"
  by (cases x) (auto simp: obind_def split: sum.splits)

lemma obind_Some [simp]: "obind (Some (Inr x)) f = f x"
  by (simp add: obind_def)

lemma obind_Inr [simp]: "obind x (\<lambda>y. Some (Inr y)) = x"
  by (cases x) (auto simp: obind_def split: sum.splits)

lemma ticks_and_turns_append:
  "ticks_and_turns im fn (ms @ ns) s = obind (ticks_and_turns im fn ms s) (ticks_and_turns im fn ns)"
proof (induction ms arbitrary: s)
  case (Cons m ms)
  then have "ticks_and_turns im fn (ms @ ns) = (\<lambda>s. obind (ticks_and_turns im fn ms s) (ticks_and_turns im fn ns))"
    by blast
  then show ?case by (simp add: obind_assoc)
qed simp

lemma leg_wait:
  assumes "waits_for w idle td c T r s" and "ys_ticks s = of_nat t" and "t + length ms < T" and "T < 2 ^ 31"
  shows "\<exists>s'. ticks_and_turns im fn ms s = Some (Inr s') \<and> waits_for w idle td c T r s' \<and>
    ys_ticks s' = of_nat (t + length ms) \<and> ys_log s' = ys_log s"
  using assms
proof (induction ms arbitrary: s t)
  case Nil
  then show ?case by simp
next
  case (Cons m ms)
  have t: "ys_ticks (clock_tick s) = of_nat (Suc t)" "waits_for w idle td c T r (clock_tick s)"
    using Cons.prems by (simp_all add: waits_for_tick)
  have "turns im fn m (clock_tick s) = Some (Inr (clock_tick s))"
    using Cons.prems(3,4) by (intro waiting_turns [OF _ _ t]) simp_all
  moreover have "\<exists>s'. ticks_and_turns im fn ms (clock_tick s) = Some (Inr s') \<and> waits_for w idle td c T r s' \<and>
      ys_ticks s' = of_nat (Suc t + length ms) \<and> ys_log s' = ys_log (clock_tick s)"
    using Cons.prems(3,4) by (intro Cons.IH [OF t(2,1)]) simp_all
  ultimately show ?case by simp
qed

text \<open>From one hit to the next: the ticks up to the target, the last of them the hit.\<close>

lemma leg_split:
  assumes "waits_for w idle td c T r s" and "ys_ticks s = of_nat t" and "t < T" and "T < 2 ^ 31"
    and "length ms = T - t" and "\<forall>m \<in> set ms. 2 \<le> m"
  obtains s1 m where "waits_for w idle td c T r s1" and "ys_ticks s1 = of_nat T" and "ys_log s1 = ys_log s"
    and "ticks_and_turns im fn ms s = turns im fn (Suc (Suc m)) s1"
proof -
  obtain ns m where ms: "ms = ns @ [m]" using assms(3,5) by (cases ms rule: rev_exhaust) auto
  obtain k where k: "m = Suc (Suc k)"
    using assms(6) ms le_Suc_ex [of 2 m] by auto
  have "t + length ns < T" using assms(3,5) ms by simp
  from leg_wait [OF assms(1,2) this assms(4)]
  obtain s' where s': "ticks_and_turns im fn ns s = Some (Inr s')" "waits_for w idle td c T r s'"
    "ys_ticks s' = of_nat (t + length ns)" "ys_log s' = ys_log s" by blast
  have "Suc (t + length ns) = T" using assms(3,5) ms by simp
  then have "ys_ticks (clock_tick s') = of_nat T" using s'(3) by (metis clock_tick_simps(6) of_nat_Suc add.commute)
  moreover have "ticks_and_turns im fn [] = (\<lambda>s. Some (Inr s))" by (rule ext) simp
  then have "ticks_and_turns im fn ms s = turns im fn (Suc (Suc k)) (clock_tick s')"
    unfolding ms k ticks_and_turns_append s'(1) by (simp del: turns.simps)
  ultimately show thesis using that [of "clock_tick s'" k] s'(2,4) by (simp add: waits_for_tick)
qed

lemma leg_hit:
  assumes "idle \<noteq> td" and "waits_for w idle td c T r s" and "ys_ticks s = of_nat t" and "t < T"
    and "T + nperiod c < 2 ^ 31" and "r < 2" and "length ms = T - t" and "\<forall>m \<in> set ms. 2 \<le> m"
  shows "\<exists>s'. ticks_and_turns im fn ms s = Some (Inr s') \<and> waits_for w idle td c (T + nperiod c) (Suc r) s' \<and>
    ys_ticks s' = of_nat T \<and> ys_log s' = ys_log s @ [line w idle td c T]"
proof -
  have T: "T < 2 ^ 31" "0 < nperiod c" using assms(5) by (simp_all add: nperiod_def split: loop_code.splits)
  obtain s1 m where s1: "waits_for w idle td c T r s1" "ys_ticks s1 = of_nat T" "ys_log s1 = ys_log s"
    "ticks_and_turns im fn ms s = turns im fn (Suc (Suc m)) s1"
    by (rule leg_split [OF assms(2-4) T(1) assms(7,8)])
  obtain s' where s': "loop_step im fn s1 = Some (Inr s')" "waits_for w idle td c (T + nperiod c) (Suc r) s'"
    "ys_log s' = ys_log s1 @ [line w idle td c T]" "ys_ticks s' = of_nat T"
    by (rule hit_turn [OF assms(1) T(1) s1(2,1) assms(6)])
  have "turns im fn (Suc m) s' = Some (Inr s')"
    using T(2) by (intro waiting_turns [OF assms(5) T(1) s'(4,2)]) simp
  then show ?thesis using s1 s' by (intro exI [of _ s']) simp
qed

lemma leg_switch:
  assumes "idle \<noteq> td" and "waits_for w idle td c T 2 s" and "ys_ticks s = of_nat t" and "t < T"
    and "T + 100 < 2 ^ 31" and "tw_kthread1 w = Some td" and "length ms = T - t" and "\<forall>m \<in> set ms. 2 \<le> m"
  shows "\<exists>s'. ticks_and_turns im fn ms s = Some (Inr s') \<and> waits_for w idle td (other c) (T + 100) 0 s' \<and>
    ys_ticks s' = of_nat T \<and> ys_log s' = ys_log s @ [line w idle td c T]"
proof -
  have T: "T < 2 ^ 31" using assms(5) by simp
  obtain s1 m where s1: "waits_for w idle td c T 2 s1" "ys_ticks s1 = of_nat T" "ys_log s1 = ys_log s"
    "ticks_and_turns im fn ms s = turns im fn (Suc (Suc m)) s1"
    by (rule leg_split [OF assms(2-4) T assms(7,8)])
  obtain s2 s' where s': "loop_step im fn s1 = Some (Inr s2)" "loop_step im fn s2 = Some (Inr s')"
    "waits_for w idle td (other c) (T + 100) 0 s'"
    "ys_log s' = ys_log s1 @ [line w idle td c T]" "ys_ticks s' = of_nat T"
    by (rule switch_turns [OF assms(1) T s1(2,1) assms(6)])
  have "turns im fn m s' = Some (Inr s')"
    by (rule waiting_turns [OF assms(5) T s'(5,3)]) simp
  then show ?thesis using s1 s' by (intro exI [of _ s']) simp
qed

definition turn_lines :: "task_world \<Rightarrow> addr \<Rightarrow> addr \<Rightarrow> loop_code \<Rightarrow> nat \<Rightarrow> tick_line list" where
  "turn_lines w idle td c t =
     map (\<lambda>i. line w idle td c (t + 100 + i * nperiod c)) [0, 1, 2]"

lemma half_cycle:
  assumes "idle \<noteq> td" and "waits_for w idle td c (t + 100) 0 s" and "ys_ticks s = of_nat t"
    and "t + 200 + 2 * nperiod c < 2 ^ 31" and "tw_kthread1 w = Some td"
    and "length ms = 100 + 2 * nperiod c" and "\<forall>m \<in> set ms. 2 \<le> m"
  shows "\<exists>s'. ticks_and_turns im fn ms s = Some (Inr s') \<and>
    waits_for w idle td (other c) (t + 100 + 2 * nperiod c + 100) 0 s' \<and>
    ys_ticks s' = of_nat (t + 100 + 2 * nperiod c) \<and> ys_log s' = ys_log s @ turn_lines w idle td c t"
proof -
  let ?p = "nperiod c"
  have p: "0 < ?p" by (simp add: nperiod_def split: loop_code.splits)
  define m1 m2 m3 where "m1 = take 100 ms" and "m2 = take ?p (drop 100 ms)" and "m3 = drop ?p (drop 100 ms)"
  have ms: "ms = m1 @ m2 @ m3" unfolding m1_def m2_def m3_def by (simp only: append_take_drop_id)
  have len: "length m1 = t + 100 - t" "length m2 = t + 100 + ?p - (t + 100)"
    "length m3 = t + 100 + ?p + ?p - (t + 100 + ?p)" using assms(6) by (simp_all add: m1_def m2_def m3_def)
  have all: "\<forall>m \<in> set m1. 2 \<le> m" "\<forall>m \<in> set m2. 2 \<le> m" "\<forall>m \<in> set m3. 2 \<le> m" using assms(7) ms by simp_all
  have z: "0 < (2 :: nat)" "Suc 0 < 2" by simp_all
  have "t < t + 100" "t + 100 + ?p < 2 ^ 31" using assms(4) by simp_all
  from leg_hit [OF assms(1-3) this z(1) len(1) all(1)]
  obtain s1 where s1: "ticks_and_turns im fn m1 s = Some (Inr s1)" "waits_for w idle td c (t + 100 + ?p) (Suc 0) s1"
    "ys_ticks s1 = of_nat (t + 100)" "ys_log s1 = ys_log s @ [line w idle td c (t + 100)]" by blast
  have "t + 100 < t + 100 + ?p" "t + 100 + ?p + ?p < 2 ^ 31" using assms(4) p by simp_all
  from leg_hit [OF assms(1) s1(2,3) this z(2) len(2) all(2)]
  obtain s2 where s2: "ticks_and_turns im fn m2 s1 = Some (Inr s2)" "waits_for w idle td c (t + 100 + ?p + ?p) 2 s2"
    "ys_ticks s2 = of_nat (t + 100 + ?p)" "ys_log s2 = ys_log s1 @ [line w idle td c (t + 100 + ?p)]"
    unfolding Suc_1 [unfolded One_nat_def] by blast
  have "t + 100 + ?p < t + 100 + ?p + ?p" "t + 100 + ?p + ?p + 100 < 2 ^ 31" using assms(4) p by simp_all
  from leg_switch [OF assms(1) s2(2,3) this assms(5) len(3) all(3)]
  obtain s3 where s3: "ticks_and_turns im fn m3 s2 = Some (Inr s3)" "waits_for w idle td (other c) (t + 100 + ?p + ?p + 100) 0 s3"
    "ys_ticks s3 = of_nat (t + 100 + ?p + ?p)" "ys_log s3 = ys_log s2 @ [line w idle td c (t + 100 + ?p + ?p)]" by blast
  have e: "t + 100 + ?p + ?p = t + 100 + 2 * ?p" by simp
  have "ticks_and_turns im fn ms s = Some (Inr s3)" unfolding ms ticks_and_turns_append using s1(1) s2(1) s3(1) by simp
  moreover have "ys_log s3 = ys_log s @ turn_lines w idle td c t"
    using s1(4) s2(4) s3(4) by (simp add: turn_lines_def e)
  ultimately show ?thesis using s3(2,3) unfolding e by blast
qed

lemma cycle:
  assumes "idle \<noteq> td" and "waits_for w idle td Idle_Loop (t + 100) 0 s" and "ys_ticks s = of_nat t"
    and "t + 40600 < 2 ^ 31" and "tw_kthread1 w = Some td" and "length ms = 40500" and "\<forall>m \<in> set ms. 2 \<le> m"
  shows "\<exists>s'. ticks_and_turns im fn ms s = Some (Inr s') \<and> waits_for w idle td Idle_Loop (t + 40500 + 100) 0 s' \<and>
    ys_ticks s' = of_nat (t + 40500) \<and>
    ys_log s' = ys_log s @ turn_lines w idle td Idle_Loop t @ turn_lines w idle td Clone_Fn (t + 20100)"
proof -
  define m1 m2 where "m1 = take 20100 ms" and "m2 = drop 20100 ms"
  have ms: "ms = m1 @ m2" by (simp add: m1_def m2_def)
  have p: "nperiod Idle_Loop = 10000" "nperiod Clone_Fn = 10150" "other Idle_Loop = Clone_Fn" "other Clone_Fn = Idle_Loop"
    by (simp_all add: nperiod_def other_def)
  have len: "length m1 = 100 + 2 * nperiod Idle_Loop" "length m2 = 100 + 2 * nperiod Clone_Fn"
    using assms(6) by (simp_all add: m1_def m2_def p)
  have all: "\<forall>m \<in> set m1. 2 \<le> m" "\<forall>m \<in> set m2. 2 \<le> m" using assms(7) ms by simp_all
  have "t + 200 + 2 * nperiod Idle_Loop < 2 ^ 31" using assms(4) by (simp add: p)
  from half_cycle [OF assms(1-3) this assms(5) len(1) all(1)]
  obtain s1 where s1: "ticks_and_turns im fn m1 s = Some (Inr s1)" "waits_for w idle td Clone_Fn (t + 20100 + 100) 0 s1"
    "ys_ticks s1 = of_nat (t + 20100)" "ys_log s1 = ys_log s @ turn_lines w idle td Idle_Loop t"
    by (auto simp: p add.assoc simp del: of_nat_add)
  have "t + 20100 + 200 + 2 * nperiod Clone_Fn < 2 ^ 31" using assms(4) by (simp add: p)
  from half_cycle [OF assms(1) s1(2,3) this assms(5) len(2) all(2)]
  obtain s2 where "ticks_and_turns im fn m2 s1 = Some (Inr s2)" "waits_for w idle td Idle_Loop (t + 40500 + 100) 0 s2"
    "ys_ticks s2 = of_nat (t + 40500)" "ys_log s2 = ys_log s1 @ turn_lines w idle td Clone_Fn (t + 20100)"
    by (auto simp: p add.assoc simp del: of_nat_add)
  then show ?thesis unfolding ms ticks_and_turns_append using s1(1,4) by (intro exI [of _ s2]) simp
qed

lemma cycles:
  assumes "idle \<noteq> td" and "waits_for w idle td Idle_Loop (t + 100) 0 s" and "ys_ticks s = of_nat t"
    and "t + n * 40500 + 100 < 2 ^ 31" and "tw_kthread1 w = Some td" and "length ms = n * 40500" and "\<forall>m \<in> set ms. 2 \<le> m"
  shows "\<exists>s'. ticks_and_turns im fn ms s = Some (Inr s') \<and> waits_for w idle td Idle_Loop (t + n * 40500 + 100) 0 s' \<and>
    ys_ticks s' = of_nat (t + n * 40500) \<and>
    ys_log s' = ys_log s @ concat (map (\<lambda>i. turn_lines w idle td Idle_Loop (t + i * 40500) @
      turn_lines w idle td Clone_Fn (t + i * 40500 + 20100)) [0..<n])"
  using assms(4,6,7)
proof (induction n arbitrary: ms)
  case 0
  then show ?case using assms(2,3) by simp
next
  case (Suc n)
  define m1 m2 where "m1 = take (n * 40500) ms" and "m2 = drop (n * 40500) ms"
  have ms: "ms = m1 @ m2" by (simp add: m1_def m2_def)
  have len: "length m1 = n * 40500" "length m2 = 40500" using Suc.prems(2) by (simp_all add: m1_def m2_def)
  have all: "\<forall>m \<in> set m1. 2 \<le> m" "\<forall>m \<in> set m2. 2 \<le> m" using Suc.prems(3) ms by simp_all
  have "t + n * 40500 + 100 < 2 ^ 31" using Suc.prems(1) by simp
  from Suc.IH [OF this len(1) all(1)]
  obtain s1 where s1: "ticks_and_turns im fn m1 s = Some (Inr s1)" "waits_for w idle td Idle_Loop (t + n * 40500 + 100) 0 s1"
    "ys_ticks s1 = of_nat (t + n * 40500)"
    "ys_log s1 = ys_log s @ concat (map (\<lambda>i. turn_lines w idle td Idle_Loop (t + i * 40500) @
      turn_lines w idle td Clone_Fn (t + i * 40500 + 20100)) [0..<n])" by blast
  have "t + n * 40500 + 40600 < 2 ^ 31" using Suc.prems(1) by simp
  from cycle [OF assms(1) s1(2,3) this assms(5) len(2) all(2)]
  obtain s2 where "ticks_and_turns im fn m2 s1 = Some (Inr s2)"
    "waits_for w idle td Idle_Loop (t + n * 40500 + 40500 + 100) 0 s2" "ys_ticks s2 = of_nat (t + n * 40500 + 40500)"
    "ys_log s2 = ys_log s1 @ turn_lines w idle td Idle_Loop (t + n * 40500) @
      turn_lines w idle td Clone_Fn (t + n * 40500 + 20100)" by blast
  moreover have "t + Suc n * 40500 = t + n * 40500 + 40500" by simp
  ultimately show ?case unfolding ms ticks_and_turns_append using s1(1,4)
    by (intro exI [of _ s2]) (simp del: mult_Suc)
qed

lemma take_turns_ok:
  assumes "can_create w idle k f ss frs" and "ys_ticks (yield_start w idle sw) = of_nat t" and "t + 100 < 2 ^ 31"
  shows "\<exists>w' s1. kernel_thread im idle fn 0 w = Some (Inr (0, w')) \<and>
    (\<forall>m. 2 \<le> m \<longrightarrow> turns im fn m (yield_start w idle sw) = Some (Inr s1)) \<and>
    (\<forall>n ms. (\<forall>m \<in> set ms. 2 \<le> m) \<and> length ms = n * 40500 \<and> t + n * 40500 + 100 < 2 ^ 31 \<longrightarrow>
      (\<exists>s2. ticks_and_turns im fn ms s1 = Some (Inr s2) \<and> ys_current s2 = idle \<and>
        ys_log s2 = concat (map (\<lambda>i. turn_lines w' idle (pframe_to_virt f) Idle_Loop (t + i * 40500) @
          turn_lines w' idle (pframe_to_virt f) Clone_Fn (t + i * 40500 + 20100)) [0..<n]))) \<and>
    (\<forall>n ms. (\<forall>m \<in> set ms. 2 \<le> m) \<and> length ms = n * 40500 + 20100 \<and> t + n * 40500 + 20200 < 2 ^ 31 \<longrightarrow>
      (\<exists>s2. ticks_and_turns im fn ms s1 = Some (Inr s2) \<and> ys_current s2 = pframe_to_virt f))"
proof -
  let ?td = "pframe_to_virt f" and ?s0 = "yield_start w idle sw"
  obtain w' where w': "kernel_thread im idle fn 0 w = Some (Inr (0, w'))" "tw_kthread1 w' = Some ?td"
    using kernel_thread_first_switch [OF assms(1), of im fn 0] unfolding Let_def by blast
  have ne: "idle \<noteq> ?td" using assms(1) by (simp add: can_create_def)
  have "ucast (of_nat t + 100 :: u64) = (of_nat (t + 100) :: u32)" using ucast_small [of "t + 100"] assms(3) by simp
  then have enter: "loop_step im fn ?s0 = Some (Inr (?s0\<lparr>ys_frames := (ys_frames ?s0)(idle :=
      \<lparr>lf_code = Idle_Loop, lf_pc = Creates, lf_target_tick = of_nat (t + 100), lf_rounds = 0\<rparr>)\<rparr>))"
    using assms(2) by (simp add: loop_step_def load_target_def set_frame_def yield_start_def)
  define s1 where "s1 = ?s0\<lparr>ys_world := w', ys_frames := (ys_frames ?s0)(idle :=
      \<lparr>lf_code = Idle_Loop, lf_pc = Polls, lf_target_tick = of_nat (t + 100), lf_rounds = 0\<rparr>, ?td := new_frame)\<rparr>"
  have "turns im fn (Suc (Suc m)) ?s0 = turns im fn m s1" for m
    using w' by (simp add: enter) (simp add: loop_step_def create_clone_def set_frame_def yield_start_def s1_def Let_def)
  moreover have s1: "waits_for w' idle ?td Idle_Loop (t + 100) 0 s1" "ys_ticks s1 = of_nat t" "ys_log s1 = []"
    using ne assms(2) by (simp_all add: waits_for_def s1_def yield_start_def self_def other_def new_frame_def)
  moreover have "turns im fn m s1 = Some (Inr s1)" for m
    using assms(3) by (intro waiting_turns [OF assms(3) _ s1(2,1)]) simp_all
  ultimately have "turns im fn m ?s0 = Some (Inr s1)" if "2 \<le> m" for m
    using le_Suc_ex [OF that] by auto
  moreover have full: "\<exists>s2. ticks_and_turns im fn ms s1 = Some (Inr s2) \<and>
      waits_for w' idle ?td Idle_Loop (t + n * 40500 + 100) 0 s2 \<and> ys_ticks s2 = of_nat (t + n * 40500) \<and>
      ys_log s2 = concat (map (\<lambda>i. turn_lines w' idle ?td Idle_Loop (t + i * 40500) @
          turn_lines w' idle ?td Clone_Fn (t + i * 40500 + 20100)) [0..<n])"
    if "\<forall>m \<in> set ms. 2 \<le> m" "length ms = n * 40500" "t + n * 40500 + 100 < 2 ^ 31" for n ms
    using cycles [OF ne s1(1,2) that(3) w'(2) that(2,1), of im fn] s1(3) by simp
  moreover have "\<exists>s2. ticks_and_turns im fn ms s1 = Some (Inr s2) \<and> ys_current s2 = ?td"
    if "\<forall>m \<in> set ms. 2 \<le> m" "length ms = n * 40500 + 20100" "t + n * 40500 + 20200 < 2 ^ 31" for n ms
  proof -
    have p: "nperiod Idle_Loop = 10000" "other Idle_Loop = Clone_Fn" by (simp_all add: nperiod_def other_def)
    define m1 m2 where "m1 = take (n * 40500) ms" and "m2 = drop (n * 40500) ms"
    have ms: "ms = m1 @ m2" by (simp add: m1_def m2_def)
    have len: "length m1 = n * 40500" "length m2 = 100 + 2 * nperiod Idle_Loop" using that(2) by (simp_all add: m1_def m2_def p)
    have all: "\<forall>m \<in> set m1. 2 \<le> m" "\<forall>m \<in> set m2. 2 \<le> m" using that(1) ms by simp_all
    have "t + n * 40500 + 100 < 2 ^ 31" using that(3) by simp
    from full [OF all(1) len(1) this] obtain s2 where s2: "ticks_and_turns im fn m1 s1 = Some (Inr s2)"
      "waits_for w' idle ?td Idle_Loop (t + n * 40500 + 100) 0 s2" "ys_ticks s2 = of_nat (t + n * 40500)" by blast
    have "t + n * 40500 + 200 + 2 * nperiod Idle_Loop < 2 ^ 31" using that(3) by (simp add: p)
    from half_cycle [OF ne s2(2,3) this w'(2) len(2) all(2), where im = im and fn = fn] obtain s3 where
      "ticks_and_turns im fn m2 s2 = Some (Inr s3)" "ys_current s3 = ?td"
      by (auto simp: waits_for_def p self_def)
    then show ?thesis unfolding ms ticks_and_turns_append using s2(1) by simp
  qed
  moreover have "\<exists>s2. ticks_and_turns im fn ms s1 = Some (Inr s2) \<and> ys_current s2 = idle \<and>
      ys_log s2 = concat (map (\<lambda>i. turn_lines w' idle ?td Idle_Loop (t + i * 40500) @
          turn_lines w' idle ?td Clone_Fn (t + i * 40500 + 20100)) [0..<n])"
    if "\<forall>m \<in> set ms. 2 \<le> m" "length ms = n * 40500" "t + n * 40500 + 100 < 2 ^ 31" for n ms
  proof -
    from full [OF that] obtain s2 where s2: "ticks_and_turns im fn ms s1 = Some (Inr s2)"
      "waits_for w' idle ?td Idle_Loop (t + n * 40500 + 100) 0 s2"
      "ys_log s2 = concat (map (\<lambda>i. turn_lines w' idle ?td Idle_Loop (t + i * 40500) @
          turn_lines w' idle ?td Clone_Fn (t + i * 40500 + 20100)) [0..<n])" by blast
    moreover have "ys_current s2 = idle" using s2(2) by (simp add: waits_for_def self_def)
    ultimately show ?thesis by blast
  qed
  ultimately show ?thesis using w'(1) by (intro exI [of _ w'] exI [of _ s1]) blast
qed

text \<open>C6: The two tasks take turns: \<^verbatim>\<open>idle_loop\<close> creates the kernel thread, and as long as the machine makes at
  least two turns of a loop between ticks, every 20100 ticks the first task gives the processor to the thread and
  20400 ticks later the thread gives it back, each after its three lines, for all rounds below
  tick \<open>2 ^ 31\<close>.\<close>

theorem tasks_take_turns:
  assumes "can_create w idle k f ss frs" and "ys_ticks (yield_start w idle sw) = of_nat t" and "t + 100 < 2 ^ 31"
  shows "\<exists>w' s1. kernel_thread im idle fn 0 w = Some (Inr (0, w')) \<and>
    (\<forall>m. 2 \<le> m \<longrightarrow> turns im fn m (yield_start w idle sw) = Some (Inr s1)) \<and>
    (\<forall>n ms. (\<forall>m \<in> set ms. 2 \<le> m) \<and> length ms = n * 40500 \<and> t + n * 40500 + 100 < 2 ^ 31 \<longrightarrow>
      (\<exists>s2. ticks_and_turns im fn ms s1 = Some (Inr s2) \<and> ys_current s2 = idle \<and>
        ys_log s2 = concat (map (\<lambda>i. turn_lines w' idle (pframe_to_virt f) Idle_Loop (t + i * 40500) @
          turn_lines w' idle (pframe_to_virt f) Clone_Fn (t + i * 40500 + 20100)) [0..<n]))) \<and>
    (\<forall>n ms. (\<forall>m \<in> set ms. 2 \<le> m) \<and> length ms = n * 40500 + 20100 \<and> t + n * 40500 + 20200 < 2 ^ 31 \<longrightarrow>
      (\<exists>s2. ticks_and_turns im fn ms s1 = Some (Inr s2) \<and> ys_current s2 = pframe_to_virt f))"
  by (rule take_turns_ok [OF assms])

section \<open>What holds at every moment\<close>

text \<open>One task runs, and the other, when there is one, sleeps in its switch; nobody counts a third round.\<close>

definition yield_inv :: "task_world \<Rightarrow> addr \<Rightarrow> addr \<Rightarrow> yield_state \<Rightarrow> bool" where
  "yield_inv w idle td s \<longleftrightarrow>
     ys_idle_task s = idle \<and> lf_code (ys_frames s idle) = Idle_Loop \<and> lf_rounds (ys_frames s idle) < 3 \<and>
     (if lf_pc (ys_frames s idle) \<in> {Enters, Creates} then ys_current s = idle \<and> ys_world s = w \<and> lf_rounds (ys_frames s idle) = 0
      else tw_kthread1 (ys_world s) = Some td \<and> lf_code (ys_frames s td) = Clone_Fn \<and>
        lf_rounds (ys_frames s td) < 3 \<and> lf_pc (ys_frames s td) \<in> {Loads, Polls} \<and>
        (ys_current s = idle \<and> lf_pc (ys_frames s td) = Loads \<and> lf_rounds (ys_frames s td) = 0 \<or>
         ys_current s = td \<and> lf_pc (ys_frames s idle) = Loads \<and> lf_rounds (ys_frames s idle) = 0))"

lemma yield_inv_tick: "yield_inv w idle td s \<Longrightarrow> yield_inv w idle td (clock_tick s)"
  unfolding yield_inv_def clock_tick_simps .

lemma yield_inv_current: "yield_inv w idle td s \<Longrightarrow> ys_current s \<in> {idle, td}"
  by (auto simp: yield_inv_def split: if_splits)

lemma yield_inv_turn:
  assumes "yield_inv w idle td s" and "idle \<noteq> td"
    and "kernel_thread im idle fn 0 w = Some (Inr (r, w'))" and "tw_kthread1 w' = Some td"
  shows "\<exists>s'. loop_step im fn s = Some (Inr s') \<and> yield_inv w idle td s'"
proof (cases "lf_pc (ys_frame s)")
  case Enters
  then have "ys_current s = idle" "ys_world s = w" using assms(1) by (auto simp: yield_inv_def split: if_splits)
  then show ?thesis using Enters assms(1,2) by (simp add: loop_step_def load_target_def set_frame_def yield_inv_def)
next
  case Creates
  then have "ys_current s = idle" "ys_world s = w" using assms(1) by (auto simp: yield_inv_def split: if_splits)
  then show ?thesis using Creates assms
    by (simp add: loop_step_def create_clone_def set_frame_def yield_inv_def new_frame_def Let_def)
next
  case Loads
  have c: "ys_current s = idle \<or> ys_current s = td" using yield_inv_current [OF assms(1)] by simp
  then have k: "lf_pc (ys_frames s idle) \<notin> {Enters, Creates}"
    using Loads assms(1) by (auto simp: yield_inv_def split: if_splits)
  note defs = loop_step_def load_target_def set_frame_def
  from c show ?thesis
  proof (elim disjE)
    assume i: "ys_current s = idle"
    then have "lf_pc (ys_frames s td) = Loads \<and> lf_rounds (ys_frames s td) = 0"
      using assms(1,2) k by (simp add: yield_inv_def)
    then show ?thesis using Loads assms(1,2) i k by (simp add: defs yield_inv_def)
  next
    assume i: "ys_current s = td"
    then have "lf_pc (ys_frames s idle) = Loads \<and> lf_rounds (ys_frames s idle) = 0"
      using assms(1,2) k by (auto simp: yield_inv_def)
    then show ?thesis using Loads assms(1,2) i k by (simp add: defs yield_inv_def)
  qed
next
  case Polls
  then have c: "ys_current s = idle \<and> lf_code (ys_frame s) = Idle_Loop \<or> ys_current s = td \<and> lf_code (ys_frame s) = Clone_Fn"
    and k: "tw_kthread1 (ys_world s) = Some td" "ys_idle_task s = idle" "lf_pc (ys_frames s idle) \<notin> {Enters, Creates}"
    using assms(1) by (auto simp: yield_inv_def split: if_splits)
  show ?thesis
  proof (cases "ys_ticks s = scast (lf_target_tick (ys_frame s))")
    case False
    then show ?thesis using loop_step_waits [OF Polls False] assms(1) by blast
  next
    case True
    note defs = loop_step_def poll_tick_def print_tick_def set_frame_def next_task_def yield_inv_def Let_def
    from c show ?thesis
    proof (elim disjE conjE)
      assume i: "ys_current s = idle" "lf_code (ys_frame s) = Idle_Loop"
      then have "lf_code (ys_frames s td) = Clone_Fn" "lf_pc (ys_frames s td) = Loads" "lf_rounds (ys_frames s td) = 0"
        using assms(1,2) k(3) by (auto simp: yield_inv_def)
      then show ?thesis using Polls True k(1,2) assms(2) i
        by (cases "2 \<le> lf_rounds (ys_frames s idle)") (simp_all add: defs)
    next
      assume i: "ys_current s = td" "lf_code (ys_frame s) = Clone_Fn"
      then have "lf_code (ys_frames s idle) = Idle_Loop" "lf_pc (ys_frames s idle) = Loads" "lf_rounds (ys_frames s idle) = 0"
        using assms(1,2) k(3) by (auto simp: yield_inv_def)
      then show ?thesis using Polls True k(1,2) assms(2) i
        by (cases "2 \<le> lf_rounds (ys_frames s td)") (simp_all add: defs)
    qed
  qed
qed

lemma loops_safe:
  assumes "can_create w idle k f ss frs" and "ytrace im fn (yield_start w idle sw) n s"
  shows "(\<exists>s'. loop_step im fn s = Some (Inr s')) \<and> ys_current s \<in> {idle, pframe_to_virt f} \<and>
    lf_rounds (ys_frame s) < 3 \<and>
    (\<forall>t \<in> {idle, pframe_to_virt f} - {ys_current s}. tw_kthread1 (ys_world s) = Some (pframe_to_virt f) \<longrightarrow>
      lf_pc (ys_frame s) \<in> {Loads, Polls} \<longrightarrow> lf_pc (ys_frames s t) = Loads \<and> lf_rounds (ys_frames s t) = 0)"
proof -
  let ?td = "pframe_to_virt f"
  obtain w' where w': "kernel_thread im idle fn 0 w = Some (Inr (0, w'))" "tw_kthread1 w' = Some ?td"
    using kernel_thread_first_switch [OF assms(1), of im fn 0] unfolding Let_def by blast
  have ne: "idle \<noteq> ?td" using assms(1) by (simp add: can_create_def)
  note turn = yield_inv_turn [OF _ ne w']
  have inv: "yield_inv w idle ?td s"
    using assms(2)
  proof (induction rule: ytrace.induct)
    case start
    show ?case by (simp add: yield_inv_def yield_start_def)
  next
    case (tick n t)
    then show ?case by (rule_tac yield_inv_tick)
  next
    case (turn n t u)
    then show ?case using yield_inv_turn [OF turn.IH ne w'] by auto
  qed
  moreover have "lf_rounds (ys_frame s) < 3" using inv by (auto simp: yield_inv_def split: if_splits)
  moreover have "\<forall>t \<in> {idle, ?td} - {ys_current s}. tw_kthread1 (ys_world s) = Some ?td \<longrightarrow>
      lf_pc (ys_frame s) \<in> {Loads, Polls} \<longrightarrow> lf_pc (ys_frames s t) = Loads \<and> lf_rounds (ys_frames s t) = 0"
    using inv ne by (auto simp: yield_inv_def split: if_splits)
  ultimately show ?thesis using turn [OF inv] yield_inv_current [OF inv] by blast
qed

text \<open>C11: The loops never fault: from the start of \<^verbatim>\<open>idle_loop\<close> on, whatever the order of turns and ticks, the running
  task is the first task or the thread it created and can make its next turn (it never activates the null
  \<^verbatim>\<open>kthread1\<close>), it has counted fewer than three rounds, and the other one sleeps in its switch with no round counted.\<close>

theorem loops_never_fault:
  assumes "can_create w idle k f ss frs" and "ytrace im fn (yield_start w idle sw) n s"
  shows "(\<exists>s'. loop_step im fn s = Some (Inr s')) \<and> ys_current s \<in> {idle, pframe_to_virt f} \<and>
    lf_rounds (ys_frame s) < 3 \<and>
    (\<forall>t \<in> {idle, pframe_to_virt f} - {ys_current s}. tw_kthread1 (ys_world s) = Some (pframe_to_virt f) \<longrightarrow>
      lf_pc (ys_frame s) \<in> {Loads, Polls} \<longrightarrow> lf_pc (ys_frames s t) = Loads \<and> lf_rounds (ys_frames s t) = 0)"
  by (rule loops_safe [OF assms])

section \<open>Samples\<close>

definition sample_image :: image where
  "sample_image = \<lparr>im_thread_helper = 1, im_fork_path = 2, im_rflags = 0\<rparr>"

definition sample_yield :: "kstack_state \<Rightarrow> loop_pc \<Rightarrow> u32 \<Rightarrow> u64 \<Rightarrow> yield_state" where
  "sample_yield st pc target ticks = (yield_start (sample_world st) 0x1000 (zero_swks\<lparr>sw_system_ticks_64 := ticks\<rparr>))
     \<lparr>ys_frames := \<lambda>_. \<lparr>lf_code = Idle_Loop, lf_pc = pc, lf_target_tick = target, lf_rounds = 1\<rparr>\<rparr>"

lemma sample_yield_simps:
  "ys_ticks (sample_yield st pc target ticks) = ticks"
  "ys_frame (sample_yield st pc target ticks) = \<lparr>lf_code = Idle_Loop, lf_pc = pc, lf_target_tick = target, lf_rounds = 1\<rparr>"
  by (simp_all add: sample_yield_def yield_start_def)

theorem missed_tick_starves_witness:
  "\<forall>st. let s = sample_yield st Polls 100 101; s' = clock_tick (clock_tick s) in
     ytrace sample_image 7 s 2 s' \<and> ys_current s' = ys_current s \<and> ys_frames s' = ys_frames s \<and> ys_log s' = ys_log s"
proof (intro allI)
  fix st
  let ?s = "sample_yield st Polls 100 101"
  have run: "ytrace sample_image 7 ?s 2 (clock_tick (clock_tick ?s))"
    using ytrace.tick [OF ytrace.tick [OF ytrace.start]] by (simp add: numeral_2_eq_2)
  show "let s = ?s; s' = clock_tick (clock_tick s) in
     ytrace sample_image 7 s 2 s' \<and> ys_current s' = ys_current s \<and> ys_frames s' = ys_frames s \<and> ys_log s' = ys_log s"
    using missed_tick_starves [OF run] run unfolding Let_def sample_yield_simps by simp
qed

theorem late_task_never_switches_witness:
  "\<forall>st. let s = sample_yield st Loads 0 0x80000000; s' = load_target Polls (clock_tick s) in
     ytrace sample_image 7 s 1 s' \<and> ys_current s' = ys_current s \<and> ys_log s' = ys_log s"
proof (intro allI)
  fix st
  let ?s = "sample_yield st Loads 0 0x80000000"
  have "lf_pc (ys_frame (clock_tick ?s)) = Loads" unfolding clock_tick_simps sample_yield_simps by simp
  then have step: "loop_step sample_image 7 (clock_tick ?s) = Some (Inr (load_target Polls (clock_tick ?s)))"
    by (simp add: loop_step_def)
  have run: "ytrace sample_image 7 ?s 1 (load_target Polls (clock_tick ?s))"
    using ytrace.turn [OF ytrace.tick [OF ytrace.start] step] by simp
  show "let s = ?s; s' = load_target Polls (clock_tick s) in
     ytrace sample_image 7 s 1 s' \<and> ys_current s' = ys_current s \<and> ys_log s' = ys_log s"
    using late_task_never_switches [OF run] run unfolding Let_def sample_yield_simps by simp
qed

theorem tasks_take_turns_witness:
  "\<exists>st s1 s2 w'. initialize_kernel_stack_allocator (Some sample_chunk) = Inr st \<and>
     kernel_thread sample_image 0x1000 7 0 (sample_world st) = Some (Inr (0, w')) \<and>
     turns sample_image 7 5 (yield_start (sample_world st) 0x1000 zero_swks) = Some (Inr s1) \<and>
     ticks_and_turns sample_image 7 (replicate 81000 3) s1 = Some (Inr s2) \<and> ys_current s2 = 0x1000"
proof -
  obtain st where st: "initialize_kernel_stack_allocator (Some sample_chunk) = Inr st" "kstack_ready KERNEL_BASE st 0"
    by (rule sample_stacks)
  have start: "ys_ticks (yield_start (sample_world st) 0x1000 zero_swks) = of_nat 0" "0 + 100 < (2 :: nat) ^ 31"
    by (simp_all add: yield_start_def zero_swks_def)
  from tasks_take_turns [OF sample_world_can_create [OF st(2)] start, of sample_image 7]
  obtain w' s1 where w': "kernel_thread sample_image 0x1000 7 0 (sample_world st) = Some (Inr (0, w'))"
    "turns sample_image 7 5 (yield_start (sample_world st) 0x1000 zero_swks) = Some (Inr s1)"
    and full: "\<forall>n ms. (\<forall>m \<in> set ms. 2 \<le> m) \<and> length ms = n * 40500 \<and> 0 + n * 40500 + 100 < 2 ^ 31 \<longrightarrow>
      (\<exists>s2. ticks_and_turns sample_image 7 ms s1 = Some (Inr s2) \<and> ys_current s2 = 0x1000)"
    by (elim exE conjE) (rule that, assumption, simp, blast)
  have "\<exists>s2. ticks_and_turns sample_image 7 (replicate 81000 3) s1 = Some (Inr s2) \<and> ys_current s2 = 0x1000"
    by (rule full [rule_format, of _ 2]) simp_all
  then show ?thesis using st(1) w' by blast
qed

theorem loops_never_fault_witness:
  "\<exists>st s'. initialize_kernel_stack_allocator (Some sample_chunk) = Inr st \<and>
     loop_step sample_image 7 (clock_tick (yield_start (sample_world st) 0x1000 zero_swks)) = Some (Inr s')"
proof -
  obtain st where st: "initialize_kernel_stack_allocator (Some sample_chunk) = Inr st" "kstack_ready KERNEL_BASE st 0"
    by (rule sample_stacks)
  then show ?thesis
    using loops_never_fault [OF sample_world_can_create [OF st(2)] ytrace.tick [OF ytrace.start]] by blast
qed

end
