(* ===== verification/Mui_Cpu.thy ===== *)
theory Mui_Cpu
  imports Mui_Descr
begin

text \<open>
  The processor at boot: the privileged instructions of \<^verbatim>\<open>include/eza/amd64/asm.h\<close>, the set-up of
  \<^verbatim>\<open>eza/amd64/cpu.c\<close>, \<^verbatim>\<open>set_efer_flag\<close> of \<^verbatim>\<open>asm.S\<close> and the flags that
  \<^verbatim>\<open>eza/amd64/mm/init.c\<close> clears. The registers that only carry a value between two instructions are
  variables.
\<close>

section \<open>Registers\<close>

record cpu_regs =
  cr_cr0 :: u64
  cr_cr3 :: u64
  cr_cr4 :: u64
  cr_rflags :: u64
  cr_rsp :: u64
  cr_msr :: "u32 \<Rightarrow> u64"

definition AMD_MSR_STAR :: u32 where "AMD_MSR_STAR = 0xc0000081"
definition AMD_MSR_LSTAR :: u32 where "AMD_MSR_LSTAR = 0xc0000082"
definition AMD_MSR_SFMASK :: u32 where "AMD_MSR_SFMASK = 0xc0000084"
definition EFER_MSR_NUM :: u32 where "EFER_MSR_NUM = 0xc0000080"
definition AMD_SCE_FLAG :: u32 where "AMD_SCE_FLAG = 0"
definition AMD_NXE_FLAG :: u32 where "AMD_NXE_FLAG = 11"
definition PL_KERNEL :: u16 where "PL_KERNEL = 0"
definition PL_USER :: u16 where "PL_USER = 3"

named_theorems cpu_defs \<open>the constants of the processor\<close>
declare AMD_MSR_STAR_def [cpu_defs] AMD_MSR_LSTAR_def [cpu_defs] AMD_MSR_SFMASK_def [cpu_defs]
  EFER_MSR_NUM_def [cpu_defs] AMD_SCE_FLAG_def [cpu_defs] AMD_NXE_FLAG_def [cpu_defs]
  PL_KERNEL_def [cpu_defs] PL_USER_def [cpu_defs]

section \<open>Instructions\<close>

text \<open>The two halves of a model-specific register are in \<^verbatim>\<open>edx\<close> and \<^verbatim>\<open>eax\<close>.\<close>

definition rdmsr :: "u32 \<Rightarrow> cpu_regs \<Rightarrow> u32 \<times> u32" where
  "rdmsr ecx c = (ucast (drop_bit 32 (cr_msr c ecx)), ucast (cr_msr c ecx))"

definition wrmsr :: "u32 \<Rightarrow> u32 \<Rightarrow> u32 \<Rightarrow> cpu_regs \<Rightarrow> cpu_regs" where
  "wrmsr ecx edx eax c = c\<lparr>cr_msr := (cr_msr c)(ecx := push_bit 32 (ucast edx) OR ucast eax)\<rparr>"

definition write_msr :: "u32 \<Rightarrow> u64 \<Rightarrow> cpu_regs \<Rightarrow> cpu_regs" where
  "write_msr msr v c = wrmsr msr (ucast (drop_bit 32 v)) (ucast v) c"

definition read_msr :: "u32 \<Rightarrow> cpu_regs \<Rightarrow> u64" where
  "read_msr msr c = (let (dx, ax) = rdmsr msr c in push_bit 32 (ucast dx) OR ucast ax)"

definition interrupts_enable :: "cpu_regs \<Rightarrow> u64 \<times> cpu_regs" where
  "interrupts_enable c = (cr_rflags c, c\<lparr>cr_rflags := set_bit 9 (cr_rflags c)\<rparr>)"

definition interrupts_disable :: "cpu_regs \<Rightarrow> u64 \<times> cpu_regs" where
  "interrupts_disable c = (cr_rflags c, c\<lparr>cr_rflags := unset_bit 9 (cr_rflags c)\<rparr>)"

definition interrupts_restore :: "u64 \<Rightarrow> cpu_regs \<Rightarrow> cpu_regs" where
  "interrupts_restore b c = c\<lparr>cr_rflags := b\<rparr>"

definition interrupts_read :: "cpu_regs \<Rightarrow> u64" where
  "interrupts_read c = cr_rflags c"

definition load_stack_pointer :: "u64 \<Rightarrow> cpu_regs \<Rightarrow> cpu_regs" where
  "load_stack_pointer sp c = c\<lparr>cr_rsp := sp\<rparr>"

definition get_stack_base :: "cpu_regs \<Rightarrow> u64" where
  "get_stack_base c = cr_rsp c AND NOT (PAGE_SIZE - 1)"

section \<open>Set-up\<close>

text \<open>A bit-test-and-set with a 32-bit register takes the bit number modulo 32.\<close>

definition set_efer_flag :: "u32 \<Rightarrow> cpu_regs \<Rightarrow> cpu_regs" where
  "set_efer_flag flag c =
     (let ecx = EFER_MSR_NUM; (edx, eax) = rdmsr ecx c; eax = set_bit (unat flag mod 32) eax in wrmsr ecx edx eax c)"

definition cpu_setup_fpu :: "cpu_regs \<Rightarrow> cpu_regs" where
  "cpu_setup_fpu c =
     (let rax = cr_cr0 c; rax = set_bit 1 rax; rax = unset_bit 2 rax; c = c\<lparr>cr_cr0 := rax\<rparr>;
          rax = cr_cr4 c; rax = set_bit 9 rax
      in c\<lparr>cr_cr4 := rax\<rparr>)"

definition arch_syscall_setup_cpu :: "addr \<Rightarrow> cpu_regs \<Rightarrow> cpu_regs" where
  "arch_syscall_setup_cpu syscall_point c =
     (let c = set_efer_flag AMD_SCE_FLAG c;
          c = write_msr AMD_MSR_STAR (push_bit 48 (ucast (gdtselector KDATA_DES OR PL_USER)) OR
                push_bit 32 (ucast (gdtselector KTEXT_DES OR PL_KERNEL))) c;
          c = write_msr AMD_MSR_LSTAR syscall_point c
      in write_msr AMD_MSR_SFMASK 0x200 c)"

definition cpu_clean_am_flag :: "cpu_regs \<Rightarrow> cpu_regs" where
  "cpu_clean_am_flag c = c\<lparr>cr_cr0 := cr_cr0 c AND NOT 0x40000\<rparr>"

definition cpu_clean_iopl_nt_flags :: "cpu_regs \<Rightarrow> cpu_regs" where
  "cpu_clean_iopl_nt_flags c = c\<lparr>cr_rflags := cr_rflags c AND NOT 0x7000\<rparr>"

section \<open>Lemmas\<close>

lemma halves: "push_bit 32 (ucast (ucast (drop_bit 32 v) :: u32)) OR ucast (ucast v :: u32) = (v :: u64)"
  by (rule bit_word_eqI) (auto simp: bit_simps)

lemma read_msr_simps [simp]:
  "read_msr msr c = cr_msr c msr"
  "cr_msr (write_msr msr v c) = (cr_msr c)(msr := v)"
  by (simp_all add: read_msr_def rdmsr_def write_msr_def wrmsr_def halves)

lemma set_efer_flag_bits:
  assumes "flag < 32"
  shows "set_efer_flag flag c = c\<lparr>cr_msr := (cr_msr c)(EFER_MSR_NUM := set_bit (unat flag) (cr_msr c EFER_MSR_NUM))\<rparr>"
proof -
  have f: "unat flag < 32" using assms by (simp add: word_less_nat_alt)
  have "push_bit 32 (ucast (ucast (drop_bit 32 v) :: u32)) OR ucast (set_bit (unat flag) (ucast v :: u32)) = set_bit (unat flag) v"
    for v :: u64
    using f by (intro bit_word_eqI) (auto simp: bit_simps)
  then show ?thesis using f by (simp add: set_efer_flag_def rdmsr_def wrmsr_def Let_def)
qed

text \<open>An interrupt section is undone: what \<^verbatim>\<open>interrupts_disable\<close> returns restores the flags.\<close>

lemma interrupts_roundtrip:
  "(let (b, c') = interrupts_disable c in interrupts_restore b c') = c"
  "(let (b, c') = interrupts_enable c in interrupts_restore b c') = c"
  "bit (cr_rflags (snd (interrupts_enable c))) 9" "\<not> bit (cr_rflags (snd (interrupts_disable c))) 9"
  by (simp_all add: interrupts_disable_def interrupts_enable_def interrupts_restore_def bit_simps)

section \<open>System calls\<close>

text \<open>What \<^verbatim>\<open>syscall\<close> and \<^verbatim>\<open>sysret\<close> load from STAR: code and stack selectors of the kernel, and of the user
  with privilege level 3.\<close>

definition star_selectors :: "u64 \<Rightarrow> (u16 \<times> u16) \<times> (u16 \<times> u16)" where
  "star_selectors star =
     (let k = ucast (drop_bit 32 star); u = ucast (drop_bit 48 star)
      in ((k AND 0xfffc, k + 8), ((u + 16) OR 3, (u + 8) OR 3)))"

text \<open>A present segment of the privilege level, code for 64 bits or data.\<close>

definition code_segment :: "u16 \<Rightarrow> u16 \<Rightarrow> bool" where
  "code_segment sel pl \<longleftrightarrow>
     (let d = descriptor_decode (GDT_CPU_ENTRIES ! unat (drop_bit 3 sel))
      in bit (ds_access d) 7 \<and> bit (ds_access d) 4 \<and> bit (ds_access d) 3 \<and>
         (drop_bit 5 (ds_access d) AND 3) = ucast pl \<and> ds_longmode d = 1)"

definition data_segment :: "u16 \<Rightarrow> u16 \<Rightarrow> bool" where
  "data_segment sel pl \<longleftrightarrow>
     (let d = descriptor_decode (GDT_CPU_ENTRIES ! unat (drop_bit 3 sel))
      in bit (ds_access d) 7 \<and> bit (ds_access d) 4 \<and> \<not> bit (ds_access d) 3 \<and> bit (ds_access d) 1 \<and>
         (drop_bit 5 (ds_access d) AND 3) = ucast pl)"

text \<open>C26: The registers of the system call instructions fit the descriptor table: \<^verbatim>\<open>syscall\<close> enters at the given
  entry with the kernel's code and data segments and with interrupts off, \<^verbatim>\<open>sysret\<close> returns to the user's.\<close>

theorem syscall_setup_matches_gdt:
  "let c' = arch_syscall_setup_cpu syscall_point c;
       ((kcs, kss), (ucs, uss)) = star_selectors (cr_msr c' AMD_MSR_STAR)
   in bit (cr_msr c' EFER_MSR_NUM) 0 \<and> cr_msr c' AMD_MSR_LSTAR = syscall_point \<and> bit (cr_msr c' AMD_MSR_SFMASK) 9 \<and>
      code_segment kcs PL_KERNEL \<and> data_segment kss PL_KERNEL \<and> code_segment ucs PL_USER \<and> data_segment uss PL_USER"
proof -
  let ?star = "0x13000800000000 :: u64"
  have "cr_msr (arch_syscall_setup_cpu syscall_point c) AMD_MSR_STAR = ?star"
    by (simp add: arch_syscall_setup_cpu_def Let_def cpu_defs descr_defs)
  moreover have "star_selectors ?star = ((8, 16), (0x23, 0x1b))"
    by (simp add: star_selectors_def Let_def drop_bit_eq_div)
  moreover have "code_segment 8 PL_KERNEL" "code_segment 0x23 PL_USER" "data_segment 16 PL_KERNEL" "data_segment 0x1b PL_USER"
    by (simp_all add: code_segment_def data_segment_def cpu_defs GDT_CPU_ENTRIES_def drop_bit_eq_div flat_segment_def bit_simps)
  ultimately show ?thesis
    by (simp add: Let_def) (simp add: arch_syscall_setup_cpu_def Let_def cpu_defs set_efer_flag_bits bit_simps)
qed

end
