(* ===== verification/Mui_Panic.thy ===== *)
theory Mui_Panic
  imports Mui_Vga Mui_Printf
begin

text \<open>
  Messages of the kernel on the console and \<^verbatim>\<open>eza/generic_api/panic.c\<close>. The console is the screen of
  \<open>Mui_Vga\<close>; the buffer of \<^verbatim>\<open>panic\<close> is a place on the stack, so in the memory of bytes, and what was there before
  is part of the state.
\<close>

section \<open>Messages\<close>

definition kprintf :: "'d bus \<Rightarrow> addr \<Rightarrow> u8 list \<Rightarrow> u64 list \<Rightarrow> 'd vga_state \<Rightarrow> 'd vga_state res option" where
  "kprintf bus null_str fmt ap s =
     map_option (\<lambda>r. rbind r (\<lambda>text. case text of
         None \<Rightarrow> Inr s
       | Some text \<Rightarrow> Inr (vga_cons_display_string bus text s)))
     (vkprintf (va_enabled s) (va_mem s) null_str fmt ap)"

definition KO_PANIC :: "u8 list" where "KO_PANIC = chrs ''[PANIC] ''"
definition PANIC_BUF_SIZE :: u64 where "PANIC_BUF_SIZE = 1024"

text \<open>What \<^verbatim>\<open>vsnprintf\<close> has written, without a terminator, at its destination.\<close>

fun put_text :: "addr \<Rightarrow> u8 list \<Rightarrow> bytes \<Rightarrow> bytes" where
  "put_text dest [] m = m"
| "put_text dest (c # text) m = put_text (dest + 1) text (m(dest := c))"

text \<open>\<^verbatim>\<open>panic\<close> never returns: the state is the one in which it loops.\<close>

definition panic :: "'d bus \<Rightarrow> addr \<Rightarrow> addr \<Rightarrow> u8 list \<Rightarrow> u64 list \<Rightarrow> 'd vga_state \<Rightarrow> 'd vga_state res option" where
  "panic bus null_str panic_buf fmt ap s =
     Option.bind (vsnprintf (va_mem s) null_str PANIC_BUF_SIZE fmt ap) (\<lambda>(_, text).
       let s = s\<lparr>va_mem := put_text panic_buf text (va_mem s)\<rparr>
       in kprintf bus null_str (KO_PANIC @ chrs ''%s'' @ [10]) [panic_buf] s)"

section \<open>A string between two plain texts\<close>

lemma str_piece_cstr:
  assumes "cstr m s xs" and "s \<noteq> 0" and "unat cs + length xs \<le> unat dsize" and "fa_width fa = 0" and "fa_presiction fa = 0"
  shows "str_piece m ns dsize s fa (cs, out) = Some (cs + of_nat (length xs), out @ xs)"
proof -
  have len: "unat (of_nat (length xs) :: u64) = length xs"
    using assms(3) unsigned_less [of dsize, where 'a = nat] by (intro unat_of_nat_small) simp
  have "cs \<le> dsize" using assms(3) by (simp add: word_le_nat_alt)
  then have "of_nat (length xs) \<le> dsize - cs" using assms(3) len by (simp add: word_le_nat_alt unat_sub)
  moreover have "map (\<lambda>k. m (s + of_nat k)) [0..<length xs] = xs" using cstr_nth [OF assms(1)] by (intro nth_equalityI) simp_all
  ultimately show ?thesis
    using assms(2,4,5) len strlen_cstr [OF assms(1)]
    by (simp add: str_piece_def Let_def less_or_zero_def pad_left_def pad_right_def make_width_def copy_piece_def)
qed

lemma string_run:
  assumes "plain_text pre" and "plain_text post" and "cstr m s xs" and "s \<noteq> 0"
    and "length pre + length xs + length post \<le> unat dsize"
  shows "vsnprintf m ns dsize (pre @ chrs ''%s'' @ post) [s] =
    Some (of_nat (length (pre @ xs @ post)), pre @ xs @ post)"
proof -
  let ?fmt = "pre @ chrs ''%s'' @ post"
  have small: "unat (of_nat k :: u64) = k" if "k \<le> unat dsize" for k
    using that unsigned_less [of dsize, where 'a = nat] by (intro unat_of_nat_small) simp
  have at: "fmt_at ?fmt (length pre) = chr CHR ''%''" "fmt_at ?fmt (Suc (length pre)) = chr CHR ''s''"
    by (simp_all add: fmt_at_def nth_append chrs_def)
  let ?fa = "with_flags FMT_TSTR (no_attrs\<lparr>fa_cinf := 1\<rparr>)"
  have scan: "scan_char (chr CHR ''s'') c1 no_attrs [s] = Some (Str s ?fa [])" for c1
    by (simp add: scan_char_def isdigit_def chr_num no_attrs_def has_def word_sle_eq)
  have piece: "str_piece m ns dsize s ?fa (of_nat (length pre), pre) =
      Some (of_nat (length pre) + of_nat (length xs), pre @ xs)"
    using assms(5) small [of "length pre"] by (intro str_piece_cstr [OF assms(3,4)]) (simp_all add: with_flags_def no_attrs_def)
  have "vsn_loop m ns dsize ?fmt 0 False no_attrs (0, []) [s] =
      vsn_loop m ns dsize ?fmt (length pre) False no_attrs (of_nat (length pre), pre) [s]"
    using plain_run [OF assms(1), of ?fmt "[]" _ 0 dsize m ns "[]" "[s]"] assms(5) by simp
  also have "\<dots> = vsn_loop m ns dsize ?fmt (length (pre @ chrs ''%s'')) False no_attrs
      (of_nat (length pre) + of_nat (length xs), pre @ xs) []"
    using at scan piece
    by (subst vsn_loop.simps, simp add: Let_def chr_num, subst vsn_loop.simps) (simp add: Let_def chr_num chrs_def)
  also have "\<dots> = vsn_loop m ns dsize ?fmt (length ?fmt) False no_attrs
      (of_nat (length pre) + of_nat (length xs) + of_nat (length post), (pre @ xs) @ post) []"
    using assms(5) small [of "length pre + length xs"]
    by (subst plain_run [OF assms(2), of _ _ "[]"]) (simp_all add: add.assoc)
  finally show ?thesis by (simp add: vsnprintf_def end_run add.assoc)
qed

section \<open>The buffer of a panic\<close>

lemma put_text_outside:
  "length xs < 2 ^ 64 \<Longrightarrow> \<not> in_block a p (length xs) \<Longrightarrow> put_text p xs m a = m a"
proof (induction xs arbitrary: p m)
  case (Cons x xs)
  then show ?case using in_block_Suc [of "length xs" a p] by simp
qed simp

lemma put_text_cstr:
  assumes "0 \<notin> set xs" and "cstr m (p + of_nat (length xs)) ys" and "length xs + length ys < 2 ^ 64"
  shows "cstr (put_text p xs m) p (xs @ ys)"
  using assms
proof (induction xs arbitrary: p m)
  case (Cons x xs)
  have "\<not> in_block p (p + 1 + of_nat (length xs)) (Suc (length ys))"
  proof
    assume "in_block p (p + 1 + of_nat (length xs)) (Suc (length ys))"
    then have "unat (- (1 + of_nat (length xs)) :: u64) < Suc (length ys)" by (simp add: in_block_def)
    moreover have "- (1 + of_nat (length xs)) = (of_nat (2 ^ 64 - Suc (length xs)) :: u64)"
      using Cons.prems(3) by (simp add: of_nat_diff del: of_nat_Suc)
    moreover have "unat (of_nat (2 ^ 64 - Suc (length xs)) :: u64) = 2 ^ 64 - Suc (length xs)"
      by (intro unat_of_nat_small) simp
    ultimately show False using Cons.prems(3) by simp
  qed
  then have "cstr (m(p := x)) (p + 1 + of_nat (length xs)) ys"
    using Cons.prems(2,3) cstr_outside [of ys p "p + 1 + of_nat (length xs)" m x] by (simp add: add.assoc)
  then have "cstr (put_text (p + 1) xs (m(p := x))) (p + 1) (xs @ ys)" using Cons.prems by (intro Cons.IH) (simp_all add: fun_upd_def)
  moreover have "put_text (p + 1) xs (m(p := x)) p = x"
    using put_text_outside [of xs p "p + 1"] not_in_next_block [of "length xs" p] Cons.prems(3) by simp
  ultimately show ?case using Cons.prems(1) by auto
qed simp

text \<open>C34: A panic shows its message and then whatever stands on the stack behind it, up to the next null byte, since
  the message gets no terminator; with nine characters around it, a text of 1024 or more runs over the buffer of
  \<^verbatim>\<open>kprintf\<close>.\<close>

theorem panic_shows_stack:
  assumes "plain_text msg" and "length msg \<le> 1024" and "cstr (va_mem s) (panic_buf + of_nat (length msg)) rest"
    and "length rest < 2 ^ 30" and "panic_buf \<noteq> 0" and "va_enabled s"
  shows "panic bus ns panic_buf msg ap s = Some (if 9 + length msg + length rest < TMPBUF_SIZE
    then Inr (vga_cons_display_string bus (KO_PANIC @ msg @ rest @ [10]) (s\<lparr>va_mem := put_text panic_buf msg (va_mem s)\<rparr>))
    else Inl BadAccess)"
proof -
  let ?s = "s\<lparr>va_mem := put_text panic_buf msg (va_mem s)\<rparr>" and ?dsize = "ucast (drop_bit 1 (NOT 0 :: u32)) :: u64"
  let ?out = "KO_PANIC @ (msg @ rest) @ [10]"
  have "vsnprintf (va_mem s) ns PANIC_BUF_SIZE msg ap = Some (of_nat (length msg), msg)"
    using vsnprintf_plain [OF assms(1), of "va_mem s" ns PANIC_BUF_SIZE ap] assms(2) by (simp add: PANIC_BUF_SIZE_def)
  then have run: "panic bus ns panic_buf msg ap s = kprintf bus ns (KO_PANIC @ chrs ''%s'' @ [10]) [panic_buf] ?s"
    by (simp add: panic_def Let_def)
  have nz: "0 \<notin> set msg" using assms(1) by (auto simp: plain_text_def)
  then have c: "cstr (va_mem ?s) panic_buf (msg @ rest)" using put_text_cstr [OF _ assms(3)] assms(2,4) by simp
  then have nz': "0 \<notin> set (msg @ rest)" by (simp only: cstr_iff in_set_conv_nth) blast
  have dsize: "unat ?dsize = 2 ^ 31 - 1"
    by (simp add: unat_ucast_up mask_eq_exp_minus_1)
  have ko: "plain_text KO_PANIC" "plain_text [10]" "length KO_PANIC = 8" by (simp_all add: KO_PANIC_def chrs_def chr_num plain_text_def) (simp_all add: chr_def)
  have v: "vsprintf (va_mem ?s) ns (KO_PANIC @ chrs ''%s'' @ [10]) [panic_buf] = Some (of_nat (length ?out), ?out)"
    unfolding vsprintf_def using assms(2,4) ko(3) dsize by (intro string_run [OF ko(1,2) c assms(5)]) simp
  have "\<forall>x\<in>set ?out. x \<noteq> 0" using nz' ko(1) by (auto simp: plain_text_def)
  then have "display_text (?out @ replicate k 0) = ?out" for k
    unfolding display_text_def by (subst takeWhile_append2) (auto simp: takeWhile_replicate)
  then show ?thesis using v ko(3) assms(6) unfolding run
    by (auto simp: kprintf_def vkprintf_def Let_def)
qed

text \<open>A message of three characters with two bytes left behind it, on the screen of a machine without devices.\<close>

definition panic_screen :: "unit vga_state" where
  "panic_screen = \<lparr>va_dev = \<lparr>vg_base = VGA_TM_BASE, vg_cols = 80, vg_rows = 25, vg_x = 0, vg_y = 0,
       vg_es_char = 0, vg_fg = VC_WHITE, vg_bg = VC_BLACK\<rparr>, va_crtc = [], va_atr = [],
     va_mem = (\<lambda>a. if a \<in> {0x7003, 0x7004} then 0x3f else 0), va_hw = (), va_enabled = True\<rparr>"

theorem panic_shows_stack_witness:
  "panic \<lparr>bus_in = (\<lambda>_ d. (0, d)), bus_out = (\<lambda>_ _ d. d)\<rparr> 0 0x7000 (chrs ''oom'') [] panic_screen =
    Some (Inr (vga_cons_display_string \<lparr>bus_in = (\<lambda>_ d. (0, d)), bus_out = (\<lambda>_ _ d. d)\<rparr>
      (KO_PANIC @ chrs ''oom'' @ chrs ''??'' @ [10])
      (panic_screen\<lparr>va_mem := put_text 0x7000 (chrs ''oom'') (va_mem panic_screen)\<rparr>)))"
  by (subst panic_shows_stack [where rest = "chrs ''??''"])
    (simp_all add: panic_screen_def plain_text_def chrs_def chr_num TMPBUF_SIZE_def, simp_all add: chr_def)

end
