(* ===== verification/Mui_Entry.thy ===== *)
theory Mui_Entry
  imports Mui_Switch
begin

text \<open>
  The entries of interrupts and faults in \<^verbatim>\<open>eza/amd64/asm.S\<close>: what they save, what they hand to the C routine
  behind them, and where they return to. The C routine is a parameter that keeps to the calling convention; the
  processor has pushed the frame of the interrupted code, from the stack pointer up: the error code of the faults that
  have one, the instruction pointer, the code segment, the flags, the stack pointer and the stack segment.
\<close>

section \<open>Entries\<close>

text \<open>Of the flags the interrupt flag is modelled, bit 9; the segments are left out.\<close>

definition iretq :: "cpu \<Rightarrow> cpu" where
  "iretq s =
     (let sp = cp_regs s RSP
      in s\<lparr>cp_rip := cp_mem s sp, cp_if := bit (cp_mem s (sp + 16)) 9, cp_regs := (cp_regs s)(RSP := cp_mem s (sp + 24))\<rparr>)"

text \<open>A call leaves its return address on the stack; the routine takes it off again.\<close>

definition call_c :: "(cpu \<Rightarrow> cpu) \<Rightarrow> addr \<Rightarrow> cpu \<Rightarrow> cpu" where
  "call_c f ret s = retq (f (pushq ret s))"

definition common_interrupt :: "(cpu \<Rightarrow> cpu) \<Rightarrow> addr \<Rightarrow> cpu \<Rightarrow> cpu" where
  "common_interrupt do_irq ret s =
     (let s = SAVE_ALL s;
          s = set_reg RDI (cp_regs s RAX) s;
          s = call_c do_irq ret s;
          s = RESTORE_ALL s;
          s = popq RAX s
      in iretq s)"

definition low_irq_stub :: "nat \<Rightarrow> (cpu \<Rightarrow> cpu) \<Rightarrow> addr \<Rightarrow> cpu \<Rightarrow> cpu" where
  "low_irq_stub v do_irq ret s =
     (let s = pushq (cp_regs s RAX) s;
          s = set_reg RAX (of_nat v) s
      in common_interrupt do_irq ret s)"

definition SAVED_GPR_SIZE :: u64 where "SAVED_GPR_SIZE = 14 * 8"

text \<open>The routine is the entry of the table \<^verbatim>\<open>hi_level_fault_handlers\<close> that \<^verbatim>\<open>rax\<close> selects.\<close>

definition common_exception_path :: "(u64 \<Rightarrow> cpu \<Rightarrow> cpu) \<Rightarrow> addr \<Rightarrow> cpu \<Rightarrow> cpu" where
  "common_exception_path handlers ret s =
     (let s = SAVE_ALL s;
          s = set_reg RDI (cp_regs s R10) s;
          s = set_reg RDI (cp_regs s RDI + (SAVED_GPR_SIZE + 8)) s;
          s = call_c (handlers (cp_regs s RAX)) ret s;
          s = RESTORE_ALL s;
          s = popq RAX s
      in iretq s)"

definition fault_handler :: "u32 \<Rightarrow> (u64 \<Rightarrow> cpu \<Rightarrow> cpu) \<Rightarrow> addr \<Rightarrow> cpu \<Rightarrow> cpu" where
  "fault_handler slot handlers ret s =
     (let s = pushq (cp_regs s RAX) s;
          s = set_reg RAX (ucast slot) s
      in common_exception_path handlers ret s)"

section \<open>Saving\<close>

lemma saved_all:
  assumes "s1 = set_reg RAX v (pushq (cp_regs s RAX) s)"
  defines "b \<equiv> saved_base (cp_regs s RSP)"
  shows "cp_regs (SAVE_ALL s1) = (cp_regs s)(RAX := v, R8 := b, R9 := cp_regs s RSP - 120 - b + 512, RSP := b - 520)"
    and "(cp_mem (SAVE_ALL s1))(b - 528 := ret) = frame_mem ret s"
    and "\<not> cp_if (SAVE_ALL s1)" and "cp_fx (SAVE_ALL s1) = cp_fx s" and "cp_cr3 (SAVE_ALL s1) = cp_cr3 s"
proof -
  let ?p = "(SAVE_GPR s1)\<lparr>cp_if := False\<rparr>"
  have gpr: "RSP \<notin> set GPR_SAVED" "RAX \<notin> set GPR_SAVED" "length GPR_SAVED = 14" by (simp_all add: GPR_SAVED_def)
  have push: "SAVE_GPR s1 = push_regs GPR_SAVED s1" by (simp add: SAVE_GPR_def push_regs_def)
  have s1: "cp_regs s1 = (cp_regs s)(RSP := cp_regs s RSP - 8, RAX := v)" "cp_mem s1 = (cp_mem s)(cp_regs s RSP - 8 := cp_regs s RAX)"
    "cp_fx s1 = cp_fx s" "cp_cr3 s1 = cp_cr3 s"
    by (simp_all add: assms(1))
  have r: "cp_regs ?p = (cp_regs s)(RAX := v, RSP := cp_regs s RSP - 120)"
    using push_regs_regs [OF gpr(1), of s1] by (simp add: push s1 gpr(3) fun_upd_twist)
  have vals: "map (cp_regs s1) GPR_SAVED = map (cp_regs s) GPR_SAVED"
  proof (rule map_cong [OF refl])
    fix q assume "q \<in> set GPR_SAVED"
    then have "q \<noteq> RSP" "q \<noteq> RAX" using gpr(1,2) by auto
    then show "cp_regs s1 q = cp_regs s q" by (simp add: s1)
  qed
  have "cp_mem ?p = push_mem (cp_mem s1) (cp_regs s1 RSP) (map (cp_regs s1) GPR_SAVED)"
    using push_regs_mem [OF gpr(1), of s1] by (simp add: push)
  then have m: "cp_mem ?p = push_mem (cp_mem s) (cp_regs s RSP) (map (cp_regs s) (RAX # GPR_SAVED))"
    unfolding vals by (simp add: s1)
  have f: "cp_fx ?p = cp_fx s" "cp_cr3 ?p = cp_cr3 s" by (simp_all add: push s1)
  have "cp_regs ?p RSP = cp_regs s RSP - 120" "(cp_regs s RSP - 120) AND NOT 511 = b"
    using r by (simp_all add: b_def saved_base_def)
  note q = SAVE_MM_simps [OF this, unfolded r m f]
  show "cp_regs (SAVE_ALL s1) = (cp_regs s)(RAX := v, R8 := b, R9 := cp_regs s RSP - 120 - b + 512, RSP := b - 520)"
    unfolding SAVE_ALL_def q(1) by (simp add: fun_upd_twist)
  show "(cp_mem (SAVE_ALL s1))(b - 528 := ret) = frame_mem ret s"
    unfolding SAVE_ALL_def q(2) by (simp add: frame_mem_def Let_def b_def)
  show "\<not> cp_if (SAVE_ALL s1)" "cp_fx (SAVE_ALL s1) = cp_fx s" "cp_cr3 (SAVE_ALL s1) = cp_cr3 s"
    unfolding SAVE_ALL_def q by simp_all
qed

text \<open>The calling convention: a routine returns with the stack pointer it got and leaves the stack from there on, up
  to the frame of the interrupted code, as it was.\<close>

definition keeps_stack :: "(cpu \<Rightarrow> cpu) \<Rightarrow> u64 \<Rightarrow> bool" where
  "keeps_stack f sp \<longleftrightarrow> (\<forall>s. cp_regs s RSP = saved_rsp sp \<longrightarrow> cp_regs (f s) RSP = saved_rsp sp \<and>
     (\<forall>x. x - saved_rsp sp < sp + 48 - saved_rsp sp \<longrightarrow> cp_mem (f s) x = cp_mem s x))"

text \<open>The common part of both paths: the state the routine is called in, and what is restored after it.\<close>

lemma entry_returns:
  fixes f :: "cpu \<Rightarrow> cpu" and ret :: addr and c s s1 :: cpu
  assumes "length (cp_fx s) = 64" and "keeps_stack f (cp_regs s RSP)" and "s1 = set_reg RAX v (pushq (cp_regs s RAX) s)"
    and "cp_regs c = (cp_regs (SAVE_ALL s1))(RDI := a)" and "cp_mem c = cp_mem (SAVE_ALL s1)"
  defines "t \<equiv> popq RAX (RESTORE_ALL (call_c f ret c))" and "sp \<equiv> cp_regs s RSP"
  shows "cp_regs t = cp_regs s" and "cp_fx t = cp_fx s"
    and "\<forall>k<6. cp_mem t (sp + of_nat (8 * k)) = cp_mem s (sp + of_nat (8 * k))"
proof -
  obtain r n where o: "saved_base sp = r + 528" "saved_rsp sp = r" "sp = r + of_nat (648 + n)" "n < 512" "unat (sp - r) = 648 + n"
    using frame_offsets [of sp] by metis
  note saved = saved_all(1) [OF assms(3), folded sp_def, unfolded o(1)] saved_all(2) [OF assms(3), of ret, folded sp_def, unfolded o(1)]
  let ?c = "pushq ret c"
  have c: "cp_regs ?c RSP = r" "cp_mem ?c = frame_mem ret s"
    using saved(2) by (simp_all add: assms(4,5) saved(1))
  have f: "cp_regs (f ?c) RSP = r" "\<forall>x. x - r < sp + 48 - r \<longrightarrow> cp_mem (f ?c) x = frame_mem ret s x"
    using assms(2) c by (simp_all add: keeps_stack_def sp_def [symmetric] o(2))
  have size48: "sp + 48 - r = of_nat (696 + n)" by (simp add: o(3))
  then have wide: "unat (sp + 48 - r) = 696 + n" unfolding size48 using o(4) by (intro unat_of_nat_small) simp
  then have "\<forall>x. x - saved_rsp sp < sp - saved_rsp sp \<longrightarrow> cp_mem (f ?c) x = frame_mem ret s x"
    using f(2) o(5) by (simp add: word_less_nat_alt o(2))
  moreover have "cp_regs s RSP = sp" by (simp add: sp_def)
  ultimately have frame: "frame_saved ret s (cp_mem (f ?c))" using frame_cong frame_written(1) by blast
  let ?t = "call_c f ret c"
  have t: "cp_mem ?t = cp_mem (f ?c)" "cp_regs ?t RSP = saved_rsp (cp_regs s RSP) + 8"
    using f(1) by (simp_all add: call_c_def retq_def Let_def sp_def [symmetric] o(2))
  note res = restored [OF frame [folded t(1)] t(2) assms(1), folded t_def]
  show "cp_regs t = cp_regs s" "cp_fx t = cp_fx s" using res(1,2) by simp_all
  show "\<forall>k<6. cp_mem t (sp + of_nat (8 * k)) = cp_mem s (sp + of_nat (8 * k))"
  proof (intro allI impI)
    fix k :: nat
    assume k: "k < 6"
    define x where "x = sp + of_nat (8 * k)"
    have "x - r = of_nat (648 + n + 8 * k)" by (simp add: o(3) x_def)
    moreover have "unat (of_nat (648 + n + 8 * k) :: u64) = 648 + n + 8 * k" using o(4) k by (intro unat_of_nat_small) simp
    ultimately have "unat (x - r) = 648 + n + 8 * k" by simp
    then have "x - r < sp + 48 - r" "\<not> x - saved_rsp sp < sp - saved_rsp sp"
      using k wide o(5) unfolding o(2) word_less_nat_alt by linarith+
    then show "cp_mem t (sp + of_nat (8 * k)) = cp_mem s (sp + of_nat (8 * k))"
      using f(2) frame_written(2) [of x s ret] res(3) t(1) by (simp add: sp_def x_def)
  qed
qed

section \<open>Properties\<close>

text \<open>C8: An interrupt is transparent: \<^verbatim>\<open>do_irq\<close> is called with the number of the line and interrupts off, and
  whatever it does, the interrupted code goes on where the processor left it, with every register, the
  floating-point state and the interrupt flag as they were.\<close>

theorem interrupt_transparent:
  assumes "length (cp_fx s) = 64" and "keeps_stack do_irq (cp_regs s RSP)"
  shows "let t = low_irq_stub v do_irq ret s; sp = cp_regs s RSP in (\<exists>c. \<not> cp_if c \<and> cp_regs c RDI = of_nat v \<and>
      t = iretq (popq RAX (RESTORE_ALL (call_c do_irq ret c)))) \<and>
    cp_rip t = cp_mem s sp \<and> cp_if t = bit (cp_mem s (sp + 16)) 9 \<and>
    cp_regs t = (cp_regs s)(RSP := cp_mem s (sp + 24)) \<and> cp_fx t = cp_fx s"
proof -
  define t where "t = low_irq_stub v do_irq ret s"
  define sp where "sp = cp_regs s RSP"
  define s1 where "s1 = set_reg RAX (of_nat v) (pushq (cp_regs s RAX) s)"
  define c where "c = set_reg RDI (cp_regs (SAVE_ALL s1) RAX) (SAVE_ALL s1)"
  note saved = saved_all [OF s1_def]
  have c: "cp_regs c = (cp_regs (SAVE_ALL s1))(RDI := of_nat v)" "cp_mem c = cp_mem (SAVE_ALL s1)" "\<not> cp_if c"
    using saved(3) by (simp_all add: c_def saved(1))
  note ret = entry_returns [OF assms(1,2) s1_def c(1,2), where ret = ret]
  have t: "t = iretq (popq RAX (RESTORE_ALL (call_c do_irq ret c)))"
    by (simp add: t_def low_irq_stub_def common_interrupt_def Let_def s1_def [symmetric] c_def [symmetric])
  let ?u = "popq RAX (RESTORE_ALL (call_c do_irq ret c))"
  have m: "cp_mem ?u (sp + of_nat (8 * k)) = cp_mem s (sp + of_nat (8 * k))" if "k < 6" for k
    using ret(3) that unfolding sp_def by blast
  have "cp_mem ?u sp = cp_mem s sp" "cp_mem ?u (sp + 16) = cp_mem s (sp + 16)" "cp_mem ?u (sp + 24) = cp_mem s (sp + 24)"
    using m [of 0] m [of 2] m [of 3] by simp_all
  then have "cp_rip t = cp_mem s sp" "cp_if t = bit (cp_mem s (sp + 16)) 9" "cp_regs t = (cp_regs s)(RSP := cp_mem s (sp + 24))"
    "cp_fx t = cp_fx s"
    unfolding t iretq_def Let_def ret(1) sp_def [symmetric] using ret(2) by simp_all
  moreover have "cp_regs c RDI = of_nat v" by (simp add: c(1))
  ultimately show ?thesis using c(3) t unfolding t_def [symmetric] sp_def [symmetric] Let_def by blast
qed

text \<open>C31: A fault misreads its frame. The frame of a fault with an error code is at the stack pointer, but the routine
  behind it gets the address 120 behind what the interrupted code happened to have in \<^verbatim>\<open>r10\<close>; and when the routine
  returns, the error code is still on the stack, so that the processor takes it for the address to go on at, and the
  flags for the stack pointer. (A fault without an error code returns to its instruction.)\<close>

theorem fault_misreads_frame:
  assumes "length (cp_fx s) = 64" and "keeps_stack (handlers (ucast slot)) (cp_regs s RSP)"
  shows "let t = fault_handler slot handlers ret s; sp = cp_regs s RSP in (\<exists>c. cp_regs c RDI = cp_regs s R10 + 120 \<and>
      t = iretq (popq RAX (RESTORE_ALL (call_c (handlers (ucast slot)) ret c)))) \<and>
    cp_rip t = cp_mem s sp \<and> cp_regs t RSP = cp_mem s (sp + 24)"
proof -
  define t where "t = fault_handler slot handlers ret s"
  define sp where "sp = cp_regs s RSP"
  define s1 where "s1 = set_reg RAX (ucast slot) (pushq (cp_regs s RAX) s)"
  define c where "c = set_reg RDI (cp_regs (SAVE_ALL s1) R10 + 120) (SAVE_ALL s1)"
  note saved = saved_all [OF s1_def]
  have r: "cp_regs (SAVE_ALL s1) RAX = ucast slot" "cp_regs (SAVE_ALL s1) R10 = cp_regs s R10" by (simp_all add: saved(1))
  have c: "cp_regs c = (cp_regs (SAVE_ALL s1))(RDI := cp_regs s R10 + 120)" "cp_mem c = cp_mem (SAVE_ALL s1)"
    by (simp_all add: c_def r)
  note ret = entry_returns [OF assms(1,2) s1_def c, where ret = ret]
  have t: "t = iretq (popq RAX (RESTORE_ALL (call_c (handlers (ucast slot)) ret c)))"
    by (simp add: t_def fault_handler_def common_exception_path_def Let_def s1_def [symmetric] SAVED_GPR_SIZE_def r)
      (simp add: c_def r set_reg_def)
  let ?u = "popq RAX (RESTORE_ALL (call_c (handlers (ucast slot)) ret c))"
  have m: "cp_mem ?u (sp + of_nat (8 * k)) = cp_mem s (sp + of_nat (8 * k))" if "k < 6" for k
    using ret(3) that unfolding sp_def by blast
  have "cp_mem ?u sp = cp_mem s sp" "cp_mem ?u (sp + 24) = cp_mem s (sp + 24)" using m [of 0] m [of 3] by simp_all
  then have "cp_rip t = cp_mem s sp" "cp_regs t RSP = cp_mem s (sp + 24)"
    unfolding t iretq_def Let_def ret(1) sp_def [symmetric] by simp_all
  moreover have "cp_regs c RDI = cp_regs s R10 + 120" by (simp add: c(1))
  ultimately show ?thesis using t unfolding t_def [symmetric] sp_def [symmetric] Let_def by blast
qed

text \<open>A routine that uses the registers the convention leaves to it, and memory of its own.\<close>

definition sample_routine :: "cpu \<Rightarrow> cpu" where
  "sample_routine s = set_reg RAX 1 (set_reg R11 2 (s\<lparr>cp_fx := replicate 64 9, cp_if := True\<rparr>))"

lemma sample_routine_keeps: "keeps_stack sample_routine sp"
  by (simp add: keeps_stack_def sample_routine_def)

text \<open>The sample processor of \<open>Mui_Switch\<close> interrupted at 0x4000 with its stack pointer at 0x10040.\<close>

definition sample_interrupted :: cpu where
  "sample_interrupted = sample_cpu\<lparr>cp_mem := (\<lambda>a. if a = 0x10000 then 0x4000 else if a = 0x10010 then 0x200
     else if a = 0x10018 then 0x10040 else 0)\<rparr>"

theorem interrupt_transparent_witness:
  "let t = low_irq_stub 3 sample_routine 0x900 sample_interrupted
   in cp_rip t = 0x4000 \<and> cp_if t \<and> cp_regs t = (cp_regs sample_interrupted)(RSP := 0x10040) \<and> cp_fx t = replicate 64 5"
proof -
  have "length (cp_fx sample_interrupted) = 64" by (simp add: sample_interrupted_def sample_cpu_def)
  from interrupt_transparent [OF this sample_routine_keeps, of 3 "0x900"] show ?thesis
    by (simp add: Let_def) (simp add: sample_interrupted_def sample_cpu_def bit_numeral_rec)
qed

text \<open>An invalid task segment with the error code 0x28: the processor goes on at 0x28.\<close>

definition sample_faulted :: cpu where
  "sample_faulted = sample_cpu\<lparr>cp_mem := (\<lambda>a. if a = 0x10000 then 0x28 else if a = 0x10008 then 0x4000
     else if a = 0x10018 then 0x246 else 0)\<rparr>"

theorem fault_misreads_frame_witness:
  "let t = fault_handler 10 (\<lambda>_. sample_routine) 0x900 sample_faulted in cp_rip t = 0x28 \<and> cp_regs t RSP = 0x246"
proof -
  have "length (cp_fx sample_faulted) = 64" by (simp add: sample_faulted_def sample_cpu_def)
  from fault_misreads_frame [OF this, of "\<lambda>_. sample_routine" 10 "0x900"] show ?thesis
    by (simp add: Let_def sample_routine_keeps) (simp add: sample_faulted_def sample_cpu_def)
qed

end
