(* ===== verification/Mui_Fault.thy ===== *)
theory Mui_Fault
  imports Mui_Panic Mui_Descr Mui_Entry
begin

text \<open>
  The high-level fault handlers of \<^verbatim>\<open>eza/amd64/fault.c\<close>, to which the gates of \<open>Mui_Descr\<close> lead through the
  entries and the table of \<^verbatim>\<open>asm.S\<close>: what each reports on the console, and whether it returns to the code that
  faulted. The property joins them to the entry of \<open>Mui_Entry\<close>, which gives them the frame they read.
\<close>

section \<open>Handlers\<close>

record interrupt_stack_frame_err =
  sf_error_code :: u64
  sf_rip :: u64
  sf_cs :: u64
  sf_rflags :: u64
  sf_old_rsp :: u64
  sf_old_ss :: u64

text \<open>The structure as it lies in memory.\<close>

definition err_frame_at :: "(addr \<Rightarrow> u64) \<Rightarrow> addr \<Rightarrow> interrupt_stack_frame_err" where
  "err_frame_at m a = \<lparr>sf_error_code = m a, sf_rip = m (a + 8), sf_cs = m (a + 16), sf_rflags = m (a + 24),
     sf_old_rsp = m (a + 32), sf_old_ss = m (a + 40)\<rparr>"

definition kernel_fault :: "interrupt_stack_frame_err \<Rightarrow> bool" where
  "kernel_fault f \<longleftrightarrow> sf_cs f = ucast (gdtselector KTEXT_DES)"

definition divide_by_zero_fault_handler_impl :: "'d bus \<Rightarrow> addr \<Rightarrow> 'd vga_state \<Rightarrow> 'd vga_state res option" where
  "divide_by_zero_fault_handler_impl bus ns s = kprintf bus ns (chrs ''  [!!] #DE exception raised !'' @ [10]) [] s"

text \<open>The body of the handlers from \<^verbatim>\<open>debug_fault_handler_impl\<close> to \<^verbatim>\<open>stack_fault_handler_impl\<close>, and of the ones after
  the page fault.\<close>

definition empty_fault_handler_impl :: "'d vga_state \<Rightarrow> 'd vga_state res option" where
  "empty_fault_handler_impl s = Some (Inr s)"

text \<open>These two end in an endless loop; the state is the one in which they loop.\<close>

definition general_protection_fault_handler_impl ::
    "'d bus \<Rightarrow> addr \<Rightarrow> interrupt_stack_frame_err \<Rightarrow> 'd vga_state \<Rightarrow> 'd vga_state res option" where
  "general_protection_fault_handler_impl bus ns stack_frame s =
     obind (if kernel_fault stack_frame
            then kprintf bus ns (chrs ''#GPF in kernel mode: RIP = 0x%X'' @ [10]) [sf_rip stack_frame] s
            else Some (Inr s))
       (kprintf bus ns (chrs ''[!!!] Unhandled GPF exception ! Stopping ...'' @ [10]) [])"

definition page_fault_fault_handler_impl ::
    "'d bus \<Rightarrow> addr \<Rightarrow> interrupt_stack_frame_err \<Rightarrow> 'd vga_state \<Rightarrow> 'd vga_state res option" where
  "page_fault_fault_handler_impl bus ns stack_frame s =
     obind (if kernel_fault stack_frame
            then kprintf bus ns (chrs ''#PF in kernel mode: RIP = 0x%X'' @ [10]) [sf_rip stack_frame] s
            else Some (Inr s))
       (kprintf bus ns (chrs ''[!!!] Unhandled PF exception ! Stopping ...'' @ [10]) [])"

datatype 's fault_end = Returns 's | Stops 's

definition fault_handler_impl ::
    "'d bus \<Rightarrow> addr \<Rightarrow> nat \<Rightarrow> interrupt_stack_frame_err \<Rightarrow> 'd vga_state \<Rightarrow> 'd vga_state fault_end res option" where
  "fault_handler_impl bus ns vector f s =
     (if vector = 0 then obind (divide_by_zero_fault_handler_impl bus ns s) (\<lambda>s. Some (Inr (Returns s)))
      else if vector = 13 then obind (general_protection_fault_handler_impl bus ns f s) (\<lambda>s. Some (Inr (Stops s)))
      else if vector = 14 then obind (page_fault_fault_handler_impl bus ns f s) (\<lambda>s. Some (Inr (Stops s)))
      else obind (empty_fault_handler_impl s) (\<lambda>s. Some (Inr (Returns s))))"

section \<open>What they report\<close>

lemma big_dsize: "unat (ucast (drop_bit 1 (NOT 0 :: u32)) :: u64) = 2 ^ 31 - 1"
  by (simp add: unat_ucast_up mask_eq_exp_minus_1)

lemma display_nonzero: "0 \<notin> set xs \<Longrightarrow> display_text (xs @ replicate k 0) = xs"
  by (induction xs) (auto simp: display_text_def takeWhile_replicate)

lemma kprintf_shows:
  assumes "vsprintf (va_mem s) ns fmt ap = Some (ret, text)" and "0 \<notin> set text" and "length text < TMPBUF_SIZE" and "va_enabled s"
  shows "kprintf bus ns fmt ap s = Some (Inr (vga_cons_display_string bus text s))"
  using assms by (simp add: kprintf_def vkprintf_def Let_def rbind_def display_nonzero)

lemma kprintf_plain:
  assumes "plain_text fmt" and "length fmt < TMPBUF_SIZE" and "va_enabled s"
  shows "kprintf bus ns fmt ap s = Some (Inr (vga_cons_display_string bus fmt s))"
proof (rule kprintf_shows)
  show "vsprintf (va_mem s) ns fmt ap = Some (of_nat (length fmt), fmt)"
    using vsnprintf_plain [OF assms(1)] big_dsize assms(2) by (simp add: vsprintf_def TMPBUF_SIZE_def)
qed (use assms in \<open>auto simp: plain_text_def\<close>)

lemma display_keeps_enabled: "va_enabled (vga_cons_display_string bus str s) = va_enabled s"
proof -
  have putch: "va_enabled (vga_putch c s) = va_enabled s" for c and s :: "'a vga_state"
    by (simp add: vga_putch_def Let_def vga_scroll_def upd_dev_def)
  have "va_enabled (fold (\<lambda>c. vga_putch (scast c)) str s) = va_enabled s"
    by (induction str arbitrary: s) (simp_all add: putch)
  then show ?thesis
    by (simp add: vga_cons_display_string_def vga_update_cursor_def Let_def vga_in_def vga_out_def set_crtc_def split_beta)
qed

lemma kprintf_number:
  assumes "plain_text pre" and "plain_text post" and "number_format c a = Some (b, tab, v)"
    and "length pre + 22 + length post < TMPBUF_SIZE" and "va_enabled s"
  shows "\<exists>ds. kprintf bus ns (pre @ chr CHR ''%'' # c # post) [a] s = Some (Inr (vga_cons_display_string bus (pre @ ds @ post) s)) \<and>
    read_number b tab ds = v"
proof -
  have "length pre + 22 + length post \<le> unat (ucast (drop_bit 1 (NOT 0 :: u32)) :: u64)"
    unfolding big_dsize using assms(4) by (simp add: TMPBUF_SIZE_def)
  from number_run_short [OF assms(1-3) this]
  obtain ds where ds: "vsprintf (va_mem s) ns (pre @ chr CHR ''%'' # c # post) [a] = Some (of_nat (length (pre @ ds @ post)), pre @ ds @ post)"
    "length ds \<le> 22" "0 \<notin> set ds" "read_number b tab ds = v"
    unfolding vsprintf_def by blast
  have "kprintf bus ns (pre @ chr CHR ''%'' # c # post) [a] s = Some (Inr (vga_cons_display_string bus (pre @ ds @ post) s))"
    by (rule kprintf_shows [OF ds(1)]) (use assms ds(2,3) in \<open>auto simp: plain_text_def\<close>)
  then show ?thesis using ds(4) by blast
qed

lemma unat_low_half: "unat (ucast (a :: u64) :: u32) = unat a mod 2 ^ 32"
  by (simp add: unsigned_ucast_eq take_bit_eq_mod)

lemma report_run:
  assumes "plain_text pre" and "plain_text stop" and "length pre + 23 < TMPBUF_SIZE" and "length stop < TMPBUF_SIZE" and "va_enabled s"
  shows "\<exists>ds. obind (kprintf bus ns (pre @ chrs ''%X'' @ [10]) [rip] s) (kprintf bus ns stop []) =
      Some (Inr (vga_cons_display_string bus stop (vga_cons_display_string bus (pre @ ds @ [10]) s))) \<and>
    read_number 16 upper_digits ds = unat rip mod 2 ^ 32"
proof -
  have "number_format (chr CHR ''X'') rip = Some (16, upper_digits, unat rip mod 2 ^ 32)"
    by (simp add: number_format_def Let_def chr_num unat_low_half)
  moreover have "plain_text [10]" by (simp add: plain_text_def chr_num)
  ultimately obtain ds where ds: "kprintf bus ns (pre @ chrs ''%X'' @ [10]) [rip] s = Some (Inr (vga_cons_display_string bus (pre @ ds @ [10]) s))"
    "read_number 16 upper_digits ds = unat rip mod 2 ^ 32"
    using kprintf_number [OF assms(1), of "[10]" "chr CHR ''X''" rip 16 upper_digits _ s bus ns] assms(3,5) by (auto simp: chrs_def)
  then show ?thesis
    using kprintf_plain [OF assms(2,4), of "vga_cons_display_string bus (pre @ ds @ [10]) s" bus ns "[]"] assms(5)
    by (auto simp: display_keeps_enabled obind_def)
qed

text \<open>The handlers on a frame they are given: a page fault or a protection fault that the frame says is one of the kernel
  is reported with the lower half of the frame's instruction pointer, and the processor stops.\<close>

definition fault_name :: "nat \<Rightarrow> string" where
  "fault_name vector = (if vector = 13 then ''#GPF'' else ''#PF'')"

definition fault_stop :: "nat \<Rightarrow> u8 list" where
  "fault_stop vector = chrs (if vector = 13 then ''[!!!] Unhandled GPF exception ! Stopping ...''
     else ''[!!!] Unhandled PF exception ! Stopping ...'') @ [10]"

lemma fault_handler_reports:
  assumes "va_enabled s" and "vector \<in> {13, 14}"
  defines "name \<equiv> fault_name vector" and "stop \<equiv> fault_stop vector"
  shows "\<exists>ds. fault_handler_impl bus ns vector f s = Some (Inr (Stops (vga_cons_display_string bus stop
      (if kernel_fault f then vga_cons_display_string bus (chrs (name @ '' in kernel mode: RIP = 0x'') @ ds @ [10]) s else s)))) \<and>
    read_number 16 upper_digits ds = unat (sf_rip f) mod 2 ^ 32"
proof -
  let ?pre = "chrs (name @ '' in kernel mode: RIP = 0x'')"
  have pre: "plain_text ?pre" "length ?pre + 23 < TMPBUF_SIZE" and stop: "plain_text stop" "length stop < TMPBUF_SIZE"
    by (simp_all add: name_def stop_def fault_name_def fault_stop_def TMPBUF_SIZE_def chrs_def) (simp_all add: plain_text_def chr_def)
  obtain ds where ds: "obind (kprintf bus ns (?pre @ chrs ''%X'' @ [10]) [sf_rip f] s) (kprintf bus ns stop []) =
      Some (Inr (vga_cons_display_string bus stop (vga_cons_display_string bus (?pre @ ds @ [10]) s)))"
    "read_number 16 upper_digits ds = unat (sf_rip f) mod 2 ^ 32"
    using report_run [OF pre(1) stop(1) pre(2) stop(2) assms(1)] by blast
  have user: "kprintf bus ns stop [] s = Some (Inr (vga_cons_display_string bus stop s))"
    by (rule kprintf_plain [OF stop assms(1)])
  have run: "fault_handler_impl bus ns vector f s =
      obind (obind (if kernel_fault f then kprintf bus ns (?pre @ chrs ''%X'' @ [10]) [sf_rip f] s else Some (Inr s)) (kprintf bus ns stop []))
        (\<lambda>s. Some (Inr (Stops s)))"
    using assms(2)
    by (auto simp: fault_handler_impl_def general_protection_fault_handler_impl_def page_fault_fault_handler_impl_def
        name_def stop_def fault_name_def fault_stop_def chrs_def)
  show ?thesis using ds user unfolding run by (intro exI [of _ ds]) simp
qed

text \<open>All other handlers return to their entry.\<close>

lemma other_faults_return:
  assumes "va_enabled s" and "vector \<notin> {13, 14}"
  shows "\<exists>s'. fault_handler_impl bus ns vector f s = Some (Inr (Returns s')) \<and> (vector \<noteq> 0 \<longrightarrow> s' = s)"
proof -
  have "plain_text (chrs ''  [!!] #DE exception raised !'' @ [10])" by (simp add: plain_text_def chrs_def chr_def)
  from kprintf_plain [OF this _ assms(1)]
  have "kprintf bus ns (chrs ''  [!!] #DE exception raised !'' @ [10]) [] s = Some (Inr (vga_cons_display_string bus
      (chrs ''  [!!] #DE exception raised !'' @ [10]) s))" by (simp add: TMPBUF_SIZE_def chrs_def)
  then show ?thesis using assms(2)
    by (simp add: fault_handler_impl_def divide_by_zero_fault_handler_impl_def empty_fault_handler_impl_def obind_def)
qed

text \<open>Where the entry saves the registers, below the frame of the fault.\<close>

definition entry_area :: "u64 \<Rightarrow> addr \<Rightarrow> bool" where
  "entry_area sp x \<longleftrightarrow> x - saved_rsp sp < sp - saved_rsp sp"

text \<open>C35: The report of a page fault or a protection fault says nothing about the fault. The entry hands the handler
  the frame 120 bytes behind what the interrupted code had in \<^verbatim>\<open>r10\<close>; where that memory says that the kernel faulted,
  the handler prints, in upper-case hexadecimal digits, the lower half of the word 128 bytes behind \<^verbatim>\<open>r10\<close>, else no
  address at all; and the processor stops.\<close>

theorem fault_report_follows_r10:
  assumes "va_enabled t" and "vector \<in> {13, 14}"
    and "\<not> entry_area (cp_regs s RSP) (cp_regs s R10 + 128)" and "\<not> entry_area (cp_regs s RSP) (cp_regs s R10 + 136)"
  shows "\<exists>c ds. fault_handler (of_nat vector) handlers ret s = iretq (popq RAX (RESTORE_ALL (retq (handlers (of_nat vector) c)))) \<and>
    fault_handler_impl bus ns vector (err_frame_at (cp_mem c) (cp_regs c RDI)) t = Some (Inr (Stops
      (vga_cons_display_string bus (fault_stop vector)
        (if cp_mem s (cp_regs s R10 + 136) = ucast (gdtselector KTEXT_DES)
         then vga_cons_display_string bus (chrs (fault_name vector @ '' in kernel mode: RIP = 0x'') @ ds @ [10]) t else t)))) \<and>
    read_number 16 upper_digits ds = unat (cp_mem s (cp_regs s R10 + 128)) mod 2 ^ 32"
proof -
  define s1 where "s1 = set_reg RAX (of_nat vector) (pushq (cp_regs s RAX) s)"
  define d where "d = set_reg RDI (cp_regs (SAVE_ALL s1) R10 + 120) (SAVE_ALL s1)"
  note saved = saved_all [OF s1_def]
  let ?c = "pushq ret d" and ?a = "cp_regs s R10 + 120"
  have slot: "ucast (of_nat vector :: u32) = (of_nat vector :: u64)" using assms(2) by auto
  have r: "cp_regs (SAVE_ALL s1) RAX = of_nat vector" "cp_regs (SAVE_ALL s1) R10 = cp_regs s R10" by (simp_all add: saved(1))
  have run: "fault_handler (of_nat vector) handlers ret s = iretq (popq RAX (RESTORE_ALL (retq (handlers (of_nat vector) ?c))))"
    by (simp add: fault_handler_def common_exception_path_def call_c_def Let_def slot s1_def [symmetric] SAVED_GPR_SIZE_def r)
      (simp add: d_def r set_reg_def)
  have mem: "cp_mem ?c = frame_mem ret s" and rdi: "cp_regs ?c RDI = ?a"
    using saved(2) [of ret] by (simp_all add: d_def r saved(1))
  have "frame_mem ret s (cp_regs s R10 + 128) = cp_mem s (cp_regs s R10 + 128)"
    "frame_mem ret s (cp_regs s R10 + 136) = cp_mem s (cp_regs s R10 + 136)"
    using assms(3,4) by (simp_all add: entry_area_def frame_written(2))
  then have f: "sf_rip (err_frame_at (cp_mem ?c) (cp_regs ?c RDI)) = cp_mem s (cp_regs s R10 + 128)"
    "kernel_fault (err_frame_at (cp_mem ?c) (cp_regs ?c RDI)) \<longleftrightarrow> cp_mem s (cp_regs s R10 + 136) = ucast (gdtselector KTEXT_DES)"
    unfolding mem rdi by (simp_all add: err_frame_at_def kernel_fault_def add.assoc)
  show ?thesis
    using run fault_handler_reports [OF assms(1,2), of bus ns "err_frame_at (cp_mem ?c) (cp_regs ?c RDI)"] unfolding f by blast
qed

text \<open>A page fault at the address 0xffffffff80101234, whose frame is at 0x10000: the kernel had 0x20000 in \<^verbatim>\<open>r10\<close>, and the
  words there are taken for the frame, so that 0x2BAD0000 is reported.\<close>

definition sample_page_fault :: cpu where
  "sample_page_fault = set_reg R10 0x20000 (sample_cpu\<lparr>cp_mem := (\<lambda>a. if a = 0x10008 then 0xffffffff80101234
     else if a = 0x10010 then 8 else if a = 0x20080 then 0x12BAD0000 else if a = 0x20088 then 8 else 0)\<rparr>)"

theorem fault_report_follows_r10_witness:
  "let bus = \<lparr>bus_in = (\<lambda>_ d. (0, d)), bus_out = (\<lambda>_ _ d. d)\<rparr>
   in \<exists>(c :: cpu) ds. fault_handler_impl bus 0 14 (err_frame_at (cp_mem c) (cp_regs c RDI)) panic_screen =
      Some (Inr (Stops (vga_cons_display_string bus (fault_stop 14)
        (vga_cons_display_string bus (chrs ''#PF in kernel mode: RIP = 0x'' @ ds @ [10]) panic_screen)))) \<and>
    read_number 16 upper_digits ds = 0x2BAD0000"
proof -
  have s: "va_enabled panic_screen" "(14 :: nat) \<in> {13, 14}"
    "\<not> entry_area (cp_regs sample_page_fault RSP) (cp_regs sample_page_fault R10 + 128)"
    "\<not> entry_area (cp_regs sample_page_fault RSP) (cp_regs sample_page_fault R10 + 136)"
    by (simp_all add: panic_screen_def sample_page_fault_def sample_cpu_def entry_area_def saved_rsp_def saved_base_def)
  have at: "cp_mem sample_page_fault (cp_regs sample_page_fault R10 + 136) = ucast (gdtselector KTEXT_DES)"
    "unat (cp_mem sample_page_fault (cp_regs sample_page_fault R10 + 128)) mod 2 ^ 32 = 0x2BAD0000"
    "fault_name 14 @ '' in kernel mode: RIP = 0x'' = ''#PF in kernel mode: RIP = 0x''"
    by (simp_all add: sample_page_fault_def sample_cpu_def gdtselector_def KTEXT_DES_def fault_name_def)
  show ?thesis
    using fault_report_follows_r10 [OF s, where handlers = "\<lambda>_ c. c" and ret = 0 and ns = 0
        and bus = "\<lparr>bus_in = (\<lambda>_ d. (0, d)), bus_out = (\<lambda>_ _ d. d)\<rparr>"]
    unfolding at if_P [OF refl] Let_def by blast
qed

end
