(* ===== verification/Mui_Boot.thy ===== *)
theory Mui_Boot
  imports Mui_E820 Mui_Remap Mui_Idle Mui_Clock Mui_Apic Mui_Cpu Mui_Fault
begin

text \<open>
  The boot sequence: \<^verbatim>\<open>eza/generic_api/main.c\<close> with \<^verbatim>\<open>eza/amd64/mm/init.c\<close>, \<^verbatim>\<open>bios.c\<close>, the calls of
  \<^verbatim>\<open>arch_pmm_init\<close> and \<^verbatim>\<open>eza/amd64/platform.c\<close>. It composes the initialisations of the other theories
  in the order of the code, up to the call of \<^verbatim>\<open>idle_loop\<close>, with the messages of \<^verbatim>\<open>main.c\<close> and
  \<^verbatim>\<open>platform.c\<close> on the console; those of the functions in the other theories and the interrupts that
  arrive in the meantime are left out. The addresses of symbols and the devices are the record \<open>machine\<close>.
\<close>

section \<open>Machine and kernel state\<close>

record 'h machine =
  mc_bus :: "'h bus"
  mc_apic_hw :: apic_hw
  mc_delay_loop :: "u32 \<Rightarrow> 'h \<Rightarrow> 'h"
  mc_fake_loop :: "u32 \<Rightarrow> 'h \<Rightarrow> 'h"
  mc_e820table :: "e820memmap list"
  mc_e820count :: u8
  mc_kdata_end :: addr
  mc_k_entries :: addr
  mc_gdt :: addr
  mc_idt :: addr
  mc_tss :: "nat \<Rightarrow> addr"
  mc_fault_handlers :: "addr list"
  mc_irq_entries :: "addr list"
  mc_timer_handler :: addr
  mc_pic_link :: addr
  mc_known_hw_timers :: addr
  mc_i8254_link :: addr
  mc_null_str :: addr

text \<open>\<open>ks_bda\<close> is the word that the BIOS left at \<^verbatim>\<open>BIOS_EBDA_P\<close>, \<open>ks_chunk\<close> what the page that becomes the
  first chunk of the stack allocator held before. The allocator of pages and the memory of page tables are in
  the world of the tasks, the statistics are with the devices of the interrupt state.\<close>

record 'h kernel_state =
  ks_cpu :: cpu_regs
  ks_pmm :: pmm_state
  ks_idt :: "idescriptor list"
  ks_bda :: u16
  ks_ebda :: u64
  ks_zones :: mm_state
  ks_chunk :: kernel_stack_chunk
  ks_world :: task_world
  ks_idle_tasks :: "addr list"
  ks_irq :: "(swks \<times> 'h) irq_state"
  ks_timers :: "(swks \<times> 'h) hw_timer list"
  ks_online_cpus :: u32
  ks_apic :: apic_regs
  ks_screen :: "'h vga_state"

text \<open>The console drives the screen through the devices of the machine.\<close>

definition on_screen :: "('h vga_state \<Rightarrow> 'h vga_state res option) \<Rightarrow> 'h kernel_state \<Rightarrow> 'h kernel_state res option" where
  "on_screen f k =
     obind (f ((ks_screen k)\<lparr>va_hw := snd (irq_dev (ks_irq k))\<rparr>)) (\<lambda>s.
       Some (Inr (k\<lparr>ks_screen := s, ks_irq := upd_irq_dev (apsnd (\<lambda>_. va_hw s)) (ks_irq k)\<rparr>)))"

definition message :: "'h machine \<Rightarrow> u8 list \<Rightarrow> u64 list \<Rightarrow> 'h kernel_state \<Rightarrow> 'h kernel_state res option" where
  "message mc fmt ap = on_screen (kprintf (mc_bus mc) (mc_null_str mc) fmt ap)"

section \<open>Stage 0\<close>

definition arch_bios_init :: "'h kernel_state \<Rightarrow> 'h kernel_state" where
  "arch_bios_init k = k\<lparr>ks_ebda := ucast (ks_bda k) * 0x10\<rparr>"

definition idt_init :: "idescriptor list \<Rightarrow> idescriptor list" where
  "idt_init idt = idt"

text \<open>\<^verbatim>\<open>build_page_array\<close> leaves the page cache of the CPU and the number of pages in variables that the page
  allocator and the statistics share with \<^verbatim>\<open>mm/mm.c\<close>.\<close>

definition share_pages :: "'h kernel_state \<Rightarrow> mm_state \<Rightarrow> 'h kernel_state" where
  "share_pages k z = k\<lparr>ks_zones := z,
     ks_world := (ks_world k)\<lparr>tw_mm := kmm_of (kmem (tw_mm (ks_world k))) z\<rparr>,
     ks_irq := upd_irq_dev (\<lambda>(sw, h). (sw\<lparr>sw_mem_total_pages := swks_mem_total_pages z\<rparr>, h)) (ks_irq k)\<rparr>"

definition arch_pmm_init :: "'h machine \<Rightarrow> cpu_id \<Rightarrow> 'h kernel_state \<Rightarrow> 'h kernel_state res option" where
  "arch_pmm_init mc cpu k =
     (let k = (if cpu = 0 then k\<lparr>ks_idt := idt_init (ks_idt k)\<rparr> else k);
          k = k\<lparr>ks_pmm := arch_pmm_tables (mc_gdt mc) (mc_idt mc) (mc_tss mc) (unat cpu) (ks_pmm k)\<rparr>
      in obind (if cpu = 0
           then obind (build_page_array (mc_kdata_end mc) (mc_e820table mc) (mc_e820count mc) (ks_zones k))
                  (\<lambda>z. Some (Inr (share_pages k z)))
           else Some (Inr k)) (\<lambda>k.
         obind (arch_remap_memory cpu (mc_k_entries mc) (z_num_total_pages (memory_zones (ks_zones k) ZONE_DMA))
                  (tw_kernel_pd (ks_world k)) (tw_mm (ks_world k))) (\<lambda>(cr3, pd, mm).
           Some (Inr (k\<lparr>ks_cpu := (ks_cpu k)\<lparr>cr_cr3 := cr3\<rparr>,
                        ks_world := (ks_world k)\<lparr>tw_kernel_pd := pd, tw_mm := mm\<rparr>\<rparr>)))))"

definition arch_mm_stage0_init :: "'h machine \<Rightarrow> cpu_id \<Rightarrow> 'h kernel_state \<Rightarrow> 'h kernel_state res option" where
  "arch_mm_stage0_init mc cpu k =
     (let k = k\<lparr>ks_cpu := set_efer_flag AMD_NXE_FLAG (ks_cpu k)\<rparr>;
          k = k\<lparr>ks_cpu := cpu_setup_fpu (ks_cpu k)\<rparr>;
          k = arch_bios_init k
      in obind (arch_pmm_init mc cpu k) (\<lambda>k.
         let k = k\<lparr>ks_cpu := cpu_clean_iopl_nt_flags (ks_cpu k)\<rparr>
         in Some (Inr (k\<lparr>ks_cpu := cpu_clean_am_flag (ks_cpu k)\<rparr>))))"

section \<open>The platform\<close>

text \<open>The result goes through an unsigned variable, so that it is never negative; \<open>mm_map_pages\<close> is called on the
  kernel's directory.\<close>

definition map_apic_page :: "page_directory \<Rightarrow> kmm \<Rightarrow> (int \<times> kmm) res option" where
  "map_apic_page pd m =
     (let pa_ctx = \<lparr>lp_start_page = ucast (drop_bit PAGE_WIDTH APIC_BASE),
                    lp_end_page = ucast (drop_bit PAGE_WIDTH APIC_BASE), lp_curr_page = 0\<rparr>;
          pa_ctx = pa_reset pageaccs_linear_pa pa_ctx
      in obind (mm_map_pages (Some pd) (Some pageaccs_linear_pa) APIC_BASE 1 PF_IO_PAGE pa_ctx m) (\<lambda>(r, _, m).
           let res = word_of_int r :: u32
           in if uint res < 0 then Some (Inr (- 1, m)) else Some (Inr (0, m))))"

definition arch_smp_init :: "'h kernel_state \<Rightarrow> 'h kernel_state" where
  "arch_smp_init k = k"

definition arch_specific_init :: "'h machine \<Rightarrow> 'h kernel_state \<Rightarrow> 'h kernel_state res option" where
  "arch_specific_init mc k =
     obind (message mc (chrs ''[HW] Init arch specific ... '') [] k) (\<lambda>k.
     obind (map_apic_page (tw_kernel_pd (ks_world k)) (tw_mm (ks_world k))) (\<lambda>(r, mm).
       let k = k\<lparr>ks_world := (ks_world k)\<lparr>tw_mm := mm\<rparr>\<rparr>;
           err = (if r < 0 then 1 else 0 :: int)
       in if err \<noteq> 0 then message mc (chrs ''Fail'' @ [10] @ chrs ''Errors: %d'' @ [10]) [word_of_int err] k
          else obind (message mc (chrs ''OK'' @ [10]) [] k) (\<lambda>k.
            let k = k\<lparr>ks_apic := local_bsp_apic_init (mc_apic_hw mc) (ks_apic k)\<rparr>;
                k = k\<lparr>ks_apic := local_apic_timer_init (mc_apic_hw mc) (ks_apic k)\<rparr>;
                k = k\<lparr>ks_irq := upd_irq_dev (local_apic_bsp_switch (with_swks (mc_bus mc))) (ks_irq k)\<rparr>
            in Some (Inr (arch_smp_init k)))))"

text \<open>The mapping of the APIC is never seen to fail: its result is compared as an unsigned number.\<close>

lemma map_apic_page_never_fails:
  assumes "map_apic_page pd m = Some (Inr (r, m'))"
  shows "r = 0"
proof -
  have "\<not> uint (x :: u32) < 0" for x by (simp add: not_less)
  then show ?thesis using assms
    by (auto simp: map_apic_page_def Let_def obind_def split: Option.bind_splits sum.splits)
qed

section \<open>The main routine\<close>

definition set_cpu_online :: "cpu_id \<Rightarrow> u32 \<Rightarrow> u32 \<Rightarrow> u32" where
  "set_cpu_online cpu online online_cpus =
     (let m = push_bit (unat cpu) 1 in if online \<noteq> 0 then online_cpus OR m else online_cpus AND NOT m)"

definition start_init :: "'h kernel_state \<Rightarrow> 'h kernel_state" where
  "start_init k = k"

definition initialize_common_hardware :: "'h kernel_state \<Rightarrow> 'h kernel_state" where
  "initialize_common_hardware k = k"

text \<open>The statistics and the devices that the delay loops act on.\<close>

definition on_hardware :: "(u32 \<Rightarrow> 'h \<Rightarrow> 'h) \<Rightarrow> u32 \<Rightarrow> swks \<times> 'h \<Rightarrow> swks \<times> 'h" where
  "on_hardware f v = apsnd (f v)"

definition boot_swks :: "'h machine \<Rightarrow> 'h kernel_state \<Rightarrow> 'h kernel_state res option" where
  "boot_swks mc k =
     obind (initialize_swks (with_swks (mc_bus mc)) (on_hardware (mc_delay_loop mc)) (on_hardware (mc_fake_loop mc))
              (fst (irq_dev (ks_irq k))) (ks_irq k)) (\<lambda>(sw, s).
       Some (Inr (k\<lparr>ks_irq := upd_irq_dev (\<lambda>(_, h). (sw, h)) s\<rparr>)))"

definition main_routine_stage1 :: "'h machine \<Rightarrow> 'h kernel_state \<Rightarrow> 'h kernel_state res option" where
  "main_routine_stage1 mc k =
     obind (Some (arch_initialize_irqs (with_swks (mc_bus mc)) (mc_pic_link mc) (mc_irq_entries mc) (mc_timer_handler mc)
              (ks_idt k) (ks_irq k))) (\<lambda>(idt, irq).
     let k = k\<lparr>ks_idt := idt, ks_irq := irq\<rparr>;
         k = initialize_common_hardware k;
         k = k\<lparr>ks_cpu := snd (interrupts_enable (ks_cpu k))\<rparr>;
         k = k\<lparr>ks_online_cpus := set_cpu_online 0 1 (ks_online_cpus k)\<rparr>
     in obind (boot_swks mc k) (\<lambda>k.
        obind (arch_specific_init mc k) (\<lambda>k.
        map_option (\<lambda>irq. Inr (start_init (k\<lparr>ks_irq := irq\<rparr>))) (enable_all_irqs (ks_irq k)))))"

text \<open>Up to the call of \<^verbatim>\<open>idle_loop\<close> with the stack of the first idle task.\<close>

definition main_routine :: "'h machine \<Rightarrow> 'h kernel_state \<Rightarrow> 'h kernel_state res option" where
  "main_routine mc k =
     obind (on_screen (\<lambda>s. Some (Inr (vga_cons_enable (mc_bus mc) s))) k) (\<lambda>k.
     obind (message mc (chrs ''[LW] MuiString starts ...'' @ [10]) [] k) (\<lambda>k.
     obind (arch_mm_stage0_init mc 0 k) (\<lambda>k.
     obind (message mc (chrs ''[MM] Stage0 memory manager initied.'' @ [10]) [] k) (\<lambda>k.
     obind (Some (install_fault_handlers (mc_fault_handlers mc) (ks_idt k))) (\<lambda>idt.
     let k = k\<lparr>ks_idt := idt\<rparr>;
         k = k\<lparr>ks_irq := initialize_irqs (ks_irq k)\<rparr>
     in obind (initialize_scheduler (ks_chunk k) (ks_idle_tasks k) (ks_world k)) (\<lambda>(idle, w).
        let k = k\<lparr>ks_idle_tasks := idle, ks_world := w\<rparr>;
            (timer, irq) = initialize_timer (with_swks (mc_bus mc)) (mc_known_hw_timers mc) (mc_i8254_link mc) (ks_irq k);
            k = k\<lparr>ks_timers := timer # ks_timers k, ks_irq := irq\<rparr>;
            sp = ks_high_address (t_kernel_stack (task_of (ks_world k) (ks_idle_tasks k ! 0))) - 512;
            k = k\<lparr>ks_cpu := load_stack_pointer sp (ks_cpu k)\<rparr>
        in main_routine_stage1 mc k))))))"

section \<open>The interrupt state during the boot\<close>

text \<open>The nodes of the lists are apart: the heads of the lines, the links of the descriptors, the lists of
  controllers and of timers, and the links of the two drivers.\<close>

definition irq_layout :: "'h machine \<Rightarrow> 'd irq_state \<Rightarrow> bool" where
  "irq_layout mc s \<longleftrightarrow> distinct [known_hw_int_controllers s, mc_known_hw_timers mc, mc_pic_link mc, mc_i8254_link mc] \<and>
     (\<forall>i<NUM_IRQS. actions_head s i \<notin> {known_hw_int_controllers s, mc_known_hw_timers mc, mc_pic_link mc, mc_i8254_link mc}) \<and>
     (\<forall>j<128. action_link s j \<notin> {known_hw_int_controllers s, mc_known_hw_timers mc, mc_pic_link mc, mc_i8254_link mc}) \<and>
     (\<forall>i<NUM_IRQS. \<forall>j<128. actions_head s i \<noteq> action_link s j)"

text \<open>The state before the boot: empty lists of controllers and timers, descriptors left.\<close>

definition irq_blank :: "'h machine \<Rightarrow> 'd irq_state \<Rightarrow> bool" where
  "irq_blank mc s \<longleftrightarrow> irq_layout mc s \<and> dlist (irq_links s) (known_hw_int_controllers s) [] \<and>
     dlist (irq_links s) (mc_known_hw_timers mc) [] \<and> action_idx s < 128 \<and> 0 < length (irq_stat s)"

text \<open>After the set-up the timer handler is on line 0, which the PIC serves, the only controller.\<close>

definition timer_line :: "'h machine \<Rightarrow> (swks \<times> 'h) irq_state \<Rightarrow> addr \<Rightarrow> bool" where
  "timer_line mc s a \<longleftrightarrow> line_rep s 0 [a] \<and> ia_handler (irq_actions s a) = mc_timer_handler mc \<and>
     controller_of s 0 = Some (i8259A_pic (with_swks (mc_bus mc))) \<and>
     irq_ctrls s (mc_pic_link mc) = i8259A_pic (with_swks (mc_bus mc)) \<and>
     dlist (irq_links s) (known_hw_int_controllers s) [mc_pic_link mc]"

lemma timer_line_cong:
  "timer_line mc (s\<lparr>irq_dev := d\<rparr>) a = timer_line mc s a" "timer_line mc (s\<lparr>irq_stat := st\<rparr>) a = timer_line mc s a"
  "timer_line mc (upd_irq_dev f s) a = timer_line mc s a"
  by (simp_all add: timer_line_def line_rep_def actions_head_def controller_of_def upd_irq_dev_def)

lemma init_heads_other:
  assumes "dlist h l xs" and "\<forall>i\<in>set is. f i \<notin> insert l (set xs)"
  shows "dlist (fold (\<lambda>i. init_list_head (f i)) is h) l xs"
  using assms by (induction "is" arbitrary: h) (simp_all add: dlist_init_fresh)

lemma initialize_irqs_blank:
  assumes "irq_blank mc s"
  shows "irq_blank mc (initialize_irqs s)" and "lines_ok (initialize_irqs s) (\<lambda>_. [])"
    and "i < NUM_IRQS \<Longrightarrow> il_controller (irq_lines (initialize_irqs s) ! i) = None"
proof -
  let ?t = "initialize_irqs s"
  have same: "known_hw_int_controllers ?t = known_hw_int_controllers s" "action_idx ?t = action_idx s"
    "irq_stat ?t = irq_stat s" "actions_head ?t = actions_head s" "action_link ?t = action_link s"
    "irq_links ?t = fold (\<lambda>i. init_list_head (actions_head s i)) [0..<NUM_IRQS] (irq_links s)"
    by (simp_all add: initialize_irqs_def links_after_inits fun_eq_iff actions_head_def action_link_def)
  have b: "irq_layout mc s" "dlist (irq_links s) (known_hw_int_controllers s) []"
    "dlist (irq_links s) (mc_known_hw_timers mc) []" "action_idx s < 128" "0 < length (irq_stat s)"
    using assms by (simp_all add: irq_blank_def)
  have apart: "\<forall>i\<in>set [0..<NUM_IRQS]. actions_head s i \<notin> insert (known_hw_int_controllers s) (set [])"
    "\<forall>i\<in>set [0..<NUM_IRQS]. actions_head s i \<notin> insert (mc_known_hw_timers mc) (set [])"
    using b(1) by (simp_all add: irq_layout_def)
  have "irq_layout mc ?t" using b(1) unfolding irq_layout_def same .
  then show "irq_blank mc ?t"
    using init_heads_other [OF b(2) apart(1)] init_heads_other [OF b(3) apart(2)] b(4,5)
    by (simp add: irq_blank_def same)
  show "lines_ok ?t (\<lambda>_. [])" using b(1) by (intro initialize_irqs_lines_ok) (simp add: irq_layout_def)
  show "i < NUM_IRQS \<Longrightarrow> il_controller (irq_lines ?t ! i) = None" by (simp add: initialize_irqs_def)
qed

lemma initialize_timer_blank:
  fixes s :: "'d irq_state" and bus :: "'d bus" and mc :: "'h machine"
  assumes "irq_blank mc s" and "lines_ok s (\<lambda>_. [])" and "\<forall>i<NUM_IRQS. il_controller (irq_lines s ! i) = None"
  defines "t \<equiv> snd (initialize_timer bus (mc_known_hw_timers mc) (mc_i8254_link mc) s)"
  shows "irq_layout mc t" and "dlist (irq_links t) (known_hw_int_controllers t) []" and "lines_ok t (\<lambda>_. [])"
    and "\<forall>i<NUM_IRQS. il_controller (irq_lines t ! i) = None" and "action_idx t < 128" and "0 < length (irq_stat t)"
proof -
  have "NUM_IRQS > 0" by (simp add: NUM_IRQS_def)
  then have "controller_of s 0 = None" using assms(3) by (simp add: controller_of_def)
  from i8254_writes [OF this, of bus]
  have t: "irq_links t = list_add (mc_i8254_link mc) (mc_known_hw_timers mc) (irq_links s)"
    "known_hw_int_controllers t = known_hw_int_controllers s" "irq_lines t = irq_lines s" "action_idx t = action_idx s"
    "irq_stat t = irq_stat s" "irqs_base t = irqs_base s" "descs_base t = descs_base s"
    by (simp_all add: t_def initialize_timer_def arch_timer_init_def i8254_init_def Let_def hw_timer_register_def)
      (simp_all add: upd_irq_dev_def upd_irq_links_def)
  have heads: "actions_head t = actions_head s" "action_link t = action_link s"
    by (simp_all add: fun_eq_iff actions_head_def action_link_def t)
  have b: "irq_layout mc s" "dlist (irq_links s) (known_hw_int_controllers s) []"
    "dlist (irq_links s) (mc_known_hw_timers mc) []" "action_idx s < 128" "0 < length (irq_stat s)"
    using assms(1) by (simp_all add: irq_blank_def)
  show "irq_layout mc t" using b(1) unfolding irq_layout_def heads t(2) .
  have other: "dlist (irq_links t) l [] = dlist (irq_links s) l []"
    if "l \<notin> {mc_known_hw_timers mc, mc_i8254_link mc}" for l
    unfolding t(1) using list_add_frame [OF b(3)] that by (intro dlist_cong) auto
  show "dlist (irq_links t) (known_hw_int_controllers t) []"
    using b(1,2) unfolding t(2) by (subst other) (auto simp: irq_layout_def)
  show "lines_ok t (\<lambda>_. [])"
    using assms(2) b(1) other unfolding lines_ok_def line_rep_def heads t(4) by (simp add: irq_layout_def)
  show "\<forall>i<NUM_IRQS. il_controller (irq_lines t ! i) = None" "action_idx t < 128" "0 < length (irq_stat t)"
    using assms(3) b(4,5) by (simp_all add: t)
qed

lemma register_irq_links:
  assumes "register_irq irq handler data flags s = Inr (0, s')" and "unat irq < NUM_IRQS" and "handler \<noteq> 0"
    and "action_idx s < 128" and "controller_of s (unat irq) = Some c"
  shows "irq_links s' = list_add_tail (action_link s (action_idx s)) (actions_head s (unat irq))
      (init_list_head (action_link s (action_idx s)) (irq_links s))"
    and "known_hw_int_controllers s' = known_hw_int_controllers s" and "irq_ctrls s' = irq_ctrls s"
proof -
  have "controller_of (upd_irq_links f s) (unat irq) = Some c" for f
    using assms(5) by (simp add: controller_of_def)
  then show "irq_links s' = list_add_tail (action_link s (action_idx s)) (actions_head s (unat irq))
      (init_list_head (action_link s (action_idx s)) (irq_links s))"
    "known_hw_int_controllers s' = known_hw_int_controllers s" "irq_ctrls s' = irq_ctrls s"
    using assms by (auto simp: register_irq_def allocate_irq_action_def Let_def install_irq_action_def controller_of_def
        fun_eq_iff actions_head_def split: option.splits)
qed

lemma arch_initialize_irqs_ready:
  fixes s :: "(swks \<times> 'h) irq_state"
  assumes lay: "irq_layout mc s" and known: "dlist (irq_links s) (known_hw_int_controllers s) []"
    and lines: "lines_ok s (\<lambda>_. [])" and free: "\<forall>i<NUM_IRQS. il_controller (irq_lines s ! i) = None"
    and idx: "action_idx s < 128" and handler: "mc_timer_handler mc \<noteq> 0" and idt: "length idt = IDT_ITEMS"
  shows "\<exists>idt' s1 a. arch_initialize_irqs (with_swks (mc_bus mc)) (mc_pic_link mc) (mc_irq_entries mc) (mc_timer_handler mc) idt s
      = Inr (idt', s1) \<and>
    (\<forall>i<NUM_IRQS. gate_to (mc_irq_entries mc ! i) AR_INTR (idt' ! (32 + i))) \<and> (\<forall>j<32. idt' ! j = idt ! j) \<and>
    timer_line mc s1 a"
proof -
  let ?bus = "with_swks (mc_bus mc)" and ?pic = "mc_pic_link mc" and ?K = "known_hw_int_controllers s"
  let ?u = "i8259a_init ?bus ?pic s"
  have new: "?pic \<notin> insert ?K (set [])" using lay by (auto simp: irq_layout_def)
  have apart: "\<forall>i<NUM_IRQS. insert ?pic (insert ?K (set [])) \<inter> insert (actions_head s i) (set []) = {}"
    using lay by (auto simp: irq_layout_def)
  note u = i8259a_init_lines [OF lines known new apart free, of ?bus]
  have ul: "irq_links ?u = list_add ?pic ?K (irq_links s)" "known_hw_int_controllers ?u = ?K"
    "actions_head ?u = actions_head s" "action_link ?u = action_link s" "irq_ctrls ?u ?pic = i8259A_pic ?bus"
    by (simp_all add: i8259a_init_def register_hw_interrupt_controller_def Let_def fun_eq_iff actions_head_def action_link_def
        upd_irq_dev_def upd_irq_links_def)
  have zero: "unat TIMER_IRQ_LINE < NUM_IRQS" "unat TIMER_IRQ_LINE = 0" by (simp_all add: TIMER_IRQ_LINE_def NUM_IRQS_def)
  have c: "controller_of ?u (unat TIMER_IRQ_LINE) = Some (i8259A_pic ?bus)" using u(2) zero by simp
  have i: "action_idx ?u < 128" using u(4) idx by simp
  let ?a = "action_link s (action_idx s)"
  obtain s1 where s1: "register_irq TIMER_IRQ_LINE (mc_timer_handler mc) 0 0 ?u = Inr (0, s1)"
    "lines_ok s1 ((\<lambda>_. [])(0 := [?a]))"
    "irq_actions s1 = (irq_actions ?u)(?a := \<lparr>ia_handler = mc_timer_handler mc, ia_flags = 0, ia_private_data = 0\<rparr>)"
    "controller_of s1 = controller_of ?u"
    using register_irq_run [OF u(1) zero(1) handler i c, of 0 0] by (auto simp: zero ul u(4))
  note l1 = register_irq_links [OF s1(1) zero(1) handler i c]
  have "dlist (irq_links ?u) ?K [?pic]" using list_add_dlist [OF known new] by (simp add: ul)
  moreover have a: "?a \<notin> {?K, ?pic}" using lay idx by (simp add: irq_layout_def)
  ultimately have known': "dlist (init_list_head ?a (irq_links ?u)) ?K [?pic]" by (intro dlist_init_fresh) auto
  have line0: "dlist (init_list_head ?a (irq_links ?u)) (actions_head s 0) []"
  proof (rule dlist_init_fresh)
    show "dlist (irq_links ?u) (actions_head s 0) []" using lines_okD [OF u(1) zero(1)] by (simp add: line_rep_def ul zero)
    have "0 < NUM_IRQS" by (simp add: NUM_IRQS_def)
    then have "actions_head s 0 \<noteq> ?a" using lay idx unfolding irq_layout_def by blast
    then show "?a \<notin> insert (actions_head s 0) (set [])" by auto
  qed
  have "actions_head s 0 \<notin> {?K, ?pic}" using lay by (simp add: irq_layout_def NUM_IRQS_def)
  then have apart': "insert (actions_head s 0) (set []) \<inter> insert ?K (set [?pic]) = {}" "?a \<notin> insert ?K (set [?pic])"
    using a by auto
  have "dlist (list_add_tail ?a (actions_head s 0) (init_list_head ?a (irq_links ?u))) ?K [?pic]"
    by (rule dlist_add_tail_other [OF line0 known' apart'])
  then have "dlist (irq_links s1) (known_hw_int_controllers s1) [?pic]" by (simp only: l1 ul u(4) zero)
  then have "timer_line mc s1 ?a"
    using lines_okD [OF s1(2), of 0] s1(3,4) c zero by (simp add: timer_line_def l1(3) ul(5))
  moreover obtain idt' where gates: "install_irq_gates (mc_irq_entries mc) [0..<NUM_IRQS] idt = Inr idt'"
    "\<forall>i\<in>set [0..<NUM_IRQS]. gate_to (mc_irq_entries mc ! i) AR_INTR (idt' ! (32 + i))"
    "\<forall>k. k \<notin> (+) 32 ` set [0..<NUM_IRQS] \<longrightarrow> idt' ! k = idt ! k"
    using install_irq_gates_ok [of "[0..<NUM_IRQS]" idt "mc_irq_entries mc"] idt by (auto simp: atLeast0LessThan)
  moreover have "arch_initialize_irqs ?bus ?pic (mc_irq_entries mc) (mc_timer_handler mc) idt s = Inr (idt', s1)"
    using gates(1) s1(1) by (simp add: arch_initialize_irqs_def install_irq_handlers_def)
  ultimately show ?thesis by (intro exI [of _ idt'] exI [of _ s1] exI [of _ ?a]) auto
qed

text \<open>The calibration leaves everything but the devices alone.\<close>

definition dev_only :: "'d irq_state \<Rightarrow> 'd irq_state \<Rightarrow> bool" where
  "dev_only s s' \<longleftrightarrow> (\<exists>d. s' = s\<lparr>irq_dev := d\<rparr>)"

lemma dev_only_intros:
  "dev_only s s" "dev_only s t \<Longrightarrow> dev_only t u \<Longrightarrow> dev_only s u" "dev_only s (upd_irq_dev f s)"
  "dev_only s (port_out bus port v s)" "dev_only s (snd (port_in bus port s))"
proof -
  have "s = s\<lparr>irq_dev := irq_dev s\<rparr>" by simp
  then show "dev_only s s" unfolding dev_only_def by blast
  show "dev_only s t \<Longrightarrow> dev_only t u \<Longrightarrow> dev_only s u" by (auto simp: dev_only_def)
qed (auto simp: dev_only_def upd_irq_dev_def port_out_def port_in_def split_beta)

lemma dev_only_switch: "dev_only s (snd (disable_hw_irq irq s))" "dev_only s (snd (enable_hw_irq irq s))"
  by (auto simp: disable_hw_irq_def enable_hw_irq_def dev_only_intros split: option.splits)

lemma dev_only_read:
  "dev_only s (snd (read_counter bus s))" "dev_only s (snd (latch_and_read bus s))" "dev_only s (write_divisor bus n s)"
proof -
  show r: "dev_only s (snd (read_counter bus s))" for s
    by (simp add: read_counter_def Let_def split_beta) (meson dev_only_intros)
  show "dev_only s (snd (latch_and_read bus s))" unfolding latch_and_read_def by (meson dev_only_intros r)
  show "dev_only s (write_divisor bus n s)" unfolding write_divisor_def Let_def by (meson dev_only_intros)
qed

lemma dev_only_i8254_init: "dev_only s (arch_i8254_init bus s)"
  by (simp add: arch_i8254_init_def Let_def split_beta) (meson dev_only_intros dev_only_switch dev_only_read)

lemma dev_only_wait: "wait_loaded bus s = Some r \<Longrightarrow> dev_only s (snd r)"
proof (induction rule: wait_loaded.raw_induct [rotated, consumes 1, case_names loop])
  case (loop f bus s r)
  let ?p = "port_out bus (I8254_BASE + 3) 0xc2 s"
  obtain v q where q: "port_in bus I8254_BASE ?p = (v, q)" by fastforce
  obtain tt t where t: "read_counter bus q = (tt, t)" by fastforce
  have "dev_only ?p q" "dev_only q t" using dev_only_intros(5) [of ?p bus I8254_BASE] dev_only_read(1) [of q bus] q t by simp_all
  then have st: "dev_only s t" using dev_only_intros(2,4) by metis
  show ?case
  proof (cases "drop_bit 6 v AND 1 = 0")
    case True
    then have "r = (tt, t)" using loop(2) q t by (simp add: Let_def)
    then show ?thesis using st by simp
  next
    case False
    then have "f bus t = Some r" using loop(2) q t by (simp add: Let_def)
    then show ?thesis using loop(1) st dev_only_intros(2) by metis
  qed
qed

lemma dev_only_calibrate:
  assumes "i8254_calibrate_delay_loop bus delay fake s = Some (Inr (r, s'))"
  shows "dev_only s s'"
proof -
  define s0 where "s0 = port_out bus I8254_BASE 0xff (port_out bus I8254_BASE 0xff (port_out bus (I8254_BASE + 3) 0x30 s))"
  obtain tt1 s1 where w: "wait_loaded bus s0 = Some (tt1, s1)"
    using assms by (auto simp: i8254_calibrate_delay_loop_def Let_def s0_def)
  define s2 where "s2 = upd_irq_dev (delay DCLOCK) s1"
  obtain tt2 s3 where s3: "latch_and_read bus s2 = (tt2, s3)" by fastforce
  obtain oo1 s4 where s4: "latch_and_read bus s3 = (oo1, s4)" by fastforce
  define s5 where "s5 = upd_irq_dev (fake DCLOCK) s4"
  obtain oo2 s6 where s6: "latch_and_read bus s5 = (oo2, s6)" by fastforce
  have "s' = arch_i8254_init bus s6"
    using assms w by (simp add: i8254_calibrate_delay_loop_def Let_def s0_def [symmetric] s2_def [symmetric] s3 s4
        s5_def [symmetric] s6)
  moreover have "dev_only s s0" unfolding s0_def using dev_only_intros(2,4) by metis
  moreover have "dev_only s0 s1" using dev_only_wait [OF w] by simp
  moreover have "dev_only s1 s2" "dev_only s4 s5" by (simp_all add: s2_def s5_def dev_only_intros)
  moreover have "dev_only s2 s3" "dev_only s3 s4" "dev_only s5 s6"
    using dev_only_read(2) [of s2 bus] dev_only_read(2) [of s3 bus] dev_only_read(2) [of s5 bus] s3 s4 s6 by simp_all
  ultimately show ?thesis using dev_only_i8254_init [of s6 bus] dev_only_intros(2) by metis
qed

section \<open>From stage 1 to the idle loop\<close>

text \<open>One reading of the counter, one turn of the loop that waits for the count to be loaded (the flag in bit 6 of the
  status), and a reading after a latch command, on the devices.\<close>

definition pit_read :: "'h bus \<Rightarrow> 'h \<Rightarrow> u32 \<times> 'h" where
  "pit_read bus d =
     (let (lo, d) = inb bus I8254_BASE d; (hi, d) = inb bus I8254_BASE d in (ucast lo OR push_bit 8 (ucast hi), d))"

definition pit_poll :: "'h bus \<Rightarrow> 'h \<Rightarrow> bool \<times> u32 \<times> 'h" where
  "pit_poll bus d =
     (let (v, d) = inb bus I8254_BASE (outb bus (I8254_BASE + 3) 0xc2 d); (c, d) = pit_read bus d in (bit v 6, c, d))"

definition pit_latch :: "'h bus \<Rightarrow> 'h \<Rightarrow> u32 \<times> 'h" where
  "pit_latch bus d = pit_read bus (outb bus (I8254_BASE + 3) 0xd2 d)"

definition pit_load :: "'h bus \<Rightarrow> 'h \<Rightarrow> 'h" where
  "pit_load bus d = outb bus I8254_BASE 0xff (outb bus I8254_BASE 0xff (outb bus (I8254_BASE + 3) 0x30 d))"

text \<open>The timer chip in mode 0, which counts down from the value it is loaded with; \<open>cnt\<close> is the count. After the
  load finitely many polls find the null-count flag set; the first one that does not has a count of at least \<open>B\<close>
  left. Behind a latch command the count is read, within \<open>R\<close> ticks.\<close>

definition pit_loads :: "'h bus \<Rightarrow> ('h \<Rightarrow> nat) \<Rightarrow> nat \<Rightarrow> bool" where
  "pit_loads bus cnt B \<longleftrightarrow> (\<exists>fresh polls_left. (\<forall>d. fresh (pit_load bus d)) \<and>
     (\<forall>d null c d'. fresh d \<and> pit_poll bus d = (null, c, d') \<longrightarrow>
       (if null then fresh d' \<and> (polls_left d' :: nat) < polls_left d else B \<le> cnt d' \<and> cnt d' \<le> unat c \<and> unat c < 2 ^ 16)))"

definition pit_counts :: "'h bus \<Rightarrow> ('h \<Rightarrow> nat) \<Rightarrow> nat \<Rightarrow> bool" where
  "pit_counts bus cnt R \<longleftrightarrow> (\<forall>d c d'. pit_latch bus d = (c, d') \<longrightarrow> c = of_nat (cnt d) \<and> cnt d < 2 ^ 16 \<and>
     (R \<le> cnt d \<longrightarrow> cnt d' \<le> cnt d \<and> cnt d \<le> cnt d' + R))"

text \<open>The two loops of the assembly on this clock: the delay loop takes at least \<open>L\<close> ticks and ends before the
  count does, the other one at most \<open>F\<close>, and the difference shows in spite of the time that a reading takes.\<close>

definition loops_take :: "(u32 \<Rightarrow> 'h \<Rightarrow> 'h) \<Rightarrow> (u32 \<Rightarrow> 'h \<Rightarrow> 'h) \<Rightarrow> ('h \<Rightarrow> nat) \<Rightarrow> nat \<Rightarrow> nat \<Rightarrow> nat \<Rightarrow> nat \<Rightarrow> bool" where
  "loops_take delay fake cnt B R F L \<longleftrightarrow> R + F < L \<and>
     (\<forall>d. B \<le> cnt d \<longrightarrow> 3 * R + F \<le> cnt (delay DCLOCK d) \<and> cnt (delay DCLOCK d) + L \<le> cnt d) \<and>
     (\<forall>d. F \<le> cnt d \<longrightarrow> cnt (fake DCLOCK d) \<le> cnt d \<and> cnt d \<le> cnt (fake DCLOCK d) + F)"

definition delay_runs :: "'h machine \<Rightarrow> bool" where
  "delay_runs mc \<longleftrightarrow> (\<exists>cnt B R F L. pit_loads (mc_bus mc) cnt B \<and> pit_counts (mc_bus mc) cnt R \<and>
     loops_take (mc_delay_loop mc) (mc_fake_loop mc) cnt B R F L)"

lemma port_with_swks:
  "port_out (with_swks bus) port v s = s\<lparr>irq_dev := (fst (irq_dev s), outb bus port v (snd (irq_dev s)))\<rparr>"
  "port_in (with_swks bus) port s =
     (fst (inb bus port (snd (irq_dev s))), s\<lparr>irq_dev := (fst (irq_dev s), snd (inb bus port (snd (irq_dev s))))\<rparr>)"
  by (simp_all add: port_out_def port_in_def upd_irq_dev_def with_swks_def outb_def inb_def split_beta)

lemma reading_with_swks:
  "read_counter (with_swks bus) s =
     (fst (pit_read bus (snd (irq_dev s))), s\<lparr>irq_dev := (fst (irq_dev s), snd (pit_read bus (snd (irq_dev s))))\<rparr>)"
  "latch_and_read (with_swks bus) s =
     (fst (pit_latch bus (snd (irq_dev s))), s\<lparr>irq_dev := (fst (irq_dev s), snd (pit_latch bus (snd (irq_dev s))))\<rparr>)"
  by (simp_all add: read_counter_def latch_and_read_def pit_read_def pit_latch_def port_with_swks Let_def split_beta)

lemma bit_6: "(drop_bit 6 (v :: u8) AND 1 \<noteq> 0) = bit v 6"
  by (simp add: and_one_eq bit_iff_odd_drop_bit odd_iff_mod_2_eq_one)

lemma wait_loaded_ends:
  fixes s :: "(swks \<times> 'h) irq_state"
  assumes "pit_loads bus cnt B" and "snd (irq_dev s) = pit_load bus h"
  shows "\<exists>tt1 d1. wait_loaded (with_swks bus) s = Some (tt1, s\<lparr>irq_dev := (fst (irq_dev s), d1)\<rparr>) \<and>
    B \<le> cnt d1 \<and> cnt d1 \<le> unat tt1 \<and> unat tt1 < 2 ^ 16"
proof -
  obtain fresh and polls_left :: "'h \<Rightarrow> nat" where load: "\<forall>d. fresh (pit_load bus d)"
    and polls: "\<forall>d null c d'. fresh d \<and> pit_poll bus d = (null, c, d') \<longrightarrow>
      (if null then fresh d' \<and> polls_left d' < polls_left d else B \<le> cnt d' \<and> cnt d' \<le> unat c \<and> unat c < 2 ^ 16)"
    using assms(1) unfolding pit_loads_def by (elim exE conjE) (rule that)
  note poll = polls [rule_format, OF conjI]
  have "fresh (snd (irq_dev s))" using load assms(2) by simp
  then show ?thesis
  proof (induction "polls_left (snd (irq_dev s))" arbitrary: s rule: less_induct)
    case less': less
    obtain null c d' where p: "pit_poll bus (snd (irq_dev s)) = (null, c, d')" by (metis prod.exhaust)
    let ?s = "s\<lparr>irq_dev := (fst (irq_dev s), d')\<rparr>"
    have step: "wait_loaded (with_swks bus) s = (if null then wait_loaded (with_swks bus) ?s else Some (c, ?s))"
      using p by (subst wait_loaded.simps)
        (auto simp: port_with_swks reading_with_swks Let_def bit_6 pit_poll_def split_beta)
    show ?case
    proof (cases null)
      case True
      then show ?thesis using less'(1) [of ?s] poll [OF less'(2) p] step by auto
    next
      case False
      then show ?thesis using step poll [OF less'(2) p] by auto
    qed
  qed
qed

text \<open>Readings \<open>tt1\<close> and \<open>tt2\<close> around the delay loop, \<open>oo1\<close> and \<open>oo2\<close> around the other one.\<close>

lemma readings_differ:
  fixes tt1 :: u32
  assumes "pit_counts bus cnt R" and "loops_take delay fake cnt B R F L"
    and "B \<le> cnt d1" and "cnt d1 \<le> unat tt1" and "unat tt1 < 2 ^ 16"
    and "pit_latch bus (delay DCLOCK d1) = (tt2, d2)" and "pit_latch bus d2 = (oo1, d3)"
    and "pit_latch bus (fake DCLOCK d3) = (oo2, d4)"
  shows "tt1 - tt2 \<noteq> oo1 - oo2"
proof -
  have latch: "c = of_nat (cnt d) \<and> cnt d < 2 ^ 16 \<and> (R \<le> cnt d \<longrightarrow> cnt d' \<le> cnt d \<and> cnt d \<le> cnt d' + R)"
    if "pit_latch bus d = (c, d')" for c d d' using assms(1) that unfolding pit_counts_def by blast
  let ?e = "cnt (delay DCLOCK d1)" and ?f = "cnt (fake DCLOCK d3)"
  have l: "R + F < L" "3 * R + F \<le> ?e" "?e + L \<le> cnt d1" "F \<le> cnt d3 \<Longrightarrow> ?f \<le> cnt d3 \<and> cnt d3 \<le> ?f + F"
    using assms(2,3) by (simp_all add: loops_take_def)
  note r = latch [OF assms(6)] latch [OF assms(7)] latch [OF assms(8)]
  have d2: "cnt d2 \<le> ?e" "?e \<le> cnt d2 + R" using r(1) l(2) by auto
  then have d3: "cnt d3 \<le> cnt d2" "cnt d2 \<le> cnt d3 + R" using r(2) l(2) by auto
  then have f: "?f \<le> cnt d3" "cnt d3 \<le> ?f + F" using l(2,4) d2 by auto
  have nat: "unat (of_nat k :: u32) = k" if "k < 2 ^ 16" for k using that by (intro unat_of_nat_small) simp
  have "unat (tt1 - tt2) = unat tt1 - ?e" using r(1) l(3) assms(4) nat by (subst unat_sub) (auto simp: word_le_nat_alt)
  moreover have "unat (oo1 - oo2) = cnt d2 - ?f" using r(2,3) d3 f nat by (subst unat_sub) (auto simp: word_le_nat_alt)
  moreover have "cnt d2 - ?f < unat tt1 - ?e" using d2 d3 f l assms(4) by linarith
  ultimately show ?thesis by auto
qed

lemma calibration_ends:
  fixes s :: "(swks \<times> 'h) irq_state"
  assumes "delay_runs mc"
  shows "\<exists>r. i8254_calibrate_delay_loop (with_swks (mc_bus mc)) (on_hardware (mc_delay_loop mc))
     (on_hardware (mc_fake_loop mc)) s = Some (Inr r)"
proof -
  let ?bus = "mc_bus mc"
  obtain cnt B R F L where pit: "pit_loads ?bus cnt B" "pit_counts ?bus cnt R"
    "loops_take (mc_delay_loop mc) (mc_fake_loop mc) cnt B R F L"
    using assms unfolding delay_runs_def by blast
  define s0 where "s0 = port_out (with_swks ?bus) I8254_BASE 0xff (port_out (with_swks ?bus) I8254_BASE 0xff
    (port_out (with_swks ?bus) (I8254_BASE + 3) 0x30 s))"
  have "snd (irq_dev s0) = pit_load ?bus (snd (irq_dev s))" by (simp add: s0_def port_with_swks pit_load_def)
  from wait_loaded_ends [OF pit(1) this]
  obtain tt1 d1 where w: "wait_loaded (with_swks ?bus) s0 = Some (tt1, s0\<lparr>irq_dev := (fst (irq_dev s0), d1)\<rparr>)"
    "B \<le> cnt d1" "cnt d1 \<le> unat tt1" "unat tt1 < 2 ^ 16" by blast
  obtain tt2 d2 where l2: "pit_latch ?bus (mc_delay_loop mc DCLOCK d1) = (tt2, d2)" by fastforce
  obtain oo1 d3 where l3: "pit_latch ?bus d2 = (oo1, d3)" by fastforce
  obtain oo2 d4 where l4: "pit_latch ?bus (mc_fake_loop mc DCLOCK d3) = (oo2, d4)" by fastforce
  note readings_differ [OF pit(2,3) w(2-4) l2 l3 l4]
  then show ?thesis
    unfolding i8254_calibrate_delay_loop_def Let_def s0_def [symmetric] w(1)
    by (simp add: reading_with_swks upd_irq_dev_def on_hardware_def l2 l3 l4 delay_loops_def Let_def)
qed

lemma boot_swks_ok:
  assumes "delay_runs mc" and "timer_line mc (ks_irq k) a"
  shows "\<exists>s. boot_swks mc k = Some (Inr (k\<lparr>ks_irq := s\<rparr>)) \<and> timer_line mc s a \<and> 0 < length (irq_stat s) \<and>
    sw_system_ticks_64 (fst (irq_dev s)) = 0 \<and> sw_mem_total_pages (fst (irq_dev s)) = 0"
proof -
  let ?s = "(ks_irq k)\<lparr>irq_stat := replicate NUM_IRQS 0\<rparr>"
  obtain r t where cal: "i8254_calibrate_delay_loop (with_swks (mc_bus mc)) (on_hardware (mc_delay_loop mc))
      (on_hardware (mc_fake_loop mc)) ?s = Some (Inr (r, t))"
    using calibration_ends [OF assms(1)] by (metis prod.exhaust)
  obtain d where d: "t = ?s\<lparr>irq_dev := d\<rparr>" using dev_only_calibrate [OF cal] by (auto simp: dev_only_def)
  let ?sw = "zero_swks\<lparr>sw_system_ticks_64 := 0, sw_nr_cpus := 2, sw_timer_frequency := HZ, sw_delay_loop := r\<rparr>"
  let ?t = "upd_irq_dev (\<lambda>(_, h). (?sw, h)) t"
  have "boot_swks mc k = Some (Inr (k\<lparr>ks_irq := ?t\<rparr>))"
    using cal by (simp add: boot_swks_def initialize_swks_def Let_def)
  moreover have "timer_line mc ?t a" using assms(2) unfolding timer_line_cong d .
  moreover have "0 < length (irq_stat ?t)" by (simp add: d NUM_IRQS_def)
  moreover have "fst (irq_dev ?t) = ?sw" by (simp add: split_beta)
  ultimately show ?thesis by (auto simp: zero_swks_def)
qed

lemma enable_all_irqs_ok:
  assumes "timer_line mc s a"
  shows "enable_all_irqs s = Some (upd_irq_dev (i8259a_enable_all (with_swks (mc_bus mc))) s)"
proof -
  have c: "irq_ctrls s (mc_pic_link mc) = i8259A_pic (with_swks (mc_bus mc))" using assms by (simp add: timer_line_def)
  have "dlist (irq_links s) (known_hw_int_controllers s) [mc_pic_link mc]" using assms by (simp add: timer_line_def)
  from list_for_each_dlist [of irq_links s, OF this] show ?thesis by (simp add: enable_all_irqs_def c i8259A_pic_def)
qed

text \<open>A message without directives reaches the enabled console; only the screen and the devices change.\<close>

lemma enable_screen: "\<exists>s h. on_screen (\<lambda>s. Some (Inr (vga_cons_enable bus s))) k =
    Some (Inr (k\<lparr>ks_screen := s, ks_irq := upd_irq_dev (apsnd (\<lambda>_. h)) (ks_irq k)\<rparr>)) \<and> va_enabled s"
  by (auto simp: on_screen_def vga_cons_enable_def Let_def)

lemma message_plain:
  assumes "plain_text fmt" and "length fmt < TMPBUF_SIZE" and "va_enabled (ks_screen k)"
  shows "\<exists>s h. message mc fmt ap k = Some (Inr (k\<lparr>ks_screen := s, ks_irq := upd_irq_dev (apsnd (\<lambda>_. h)) (ks_irq k)\<rparr>)) \<and>
    va_enabled s"
  using assms kprintf_plain [OF assms(1,2), of "(ks_screen k)\<lparr>va_hw := snd (irq_dev (ks_irq k))\<rparr>" "mc_bus mc" "mc_null_str mc" ap]
  by (auto simp: message_def on_screen_def display_keeps_enabled)

lemma boot_message:
  assumes "va_enabled (ks_screen k)" and "fmt \<in> {chrs ''[HW] Init arch specific ... '', chrs ''OK'' @ [10], chrs ''[LW] MuiString starts ...'' @ [10],
    chrs ''[MM] Stage0 memory manager initied.'' @ [10]}"
  shows "\<exists>s h. message mc fmt [] k = Some (Inr (k\<lparr>ks_screen := s, ks_irq := upd_irq_dev (apsnd (\<lambda>_. h)) (ks_irq k)\<rparr>)) \<and>
    va_enabled s"
proof (rule message_plain [OF _ _ assms(1)])
  show "plain_text fmt" "length fmt < TMPBUF_SIZE"
    using assms(2) by (auto simp: plain_text_def chrs_def TMPBUF_SIZE_def chr_num) (simp_all add: chr_def)
qed

lemma arch_specific_init_ok:
  assumes "va_enabled (ks_screen k)" and "map_apic_page (tw_kernel_pd (ks_world k)) (tw_mm (ks_world k)) = Some (Inr (0, m))"
  shows "\<exists>s f. arch_specific_init mc k = Some (Inr (k\<lparr>ks_world := (ks_world k)\<lparr>tw_mm := m\<rparr>, ks_screen := s,
      ks_irq := upd_irq_dev f (ks_irq k), ks_apic := local_apic_timer_init (mc_apic_hw mc)
        (local_bsp_apic_init (mc_apic_hw mc) (ks_apic k))\<rparr>)) \<and> va_enabled s \<and> (\<forall>d. fst (f d) = fst d)"
proof -
  obtain s1 h1 where 1: "message mc (chrs ''[HW] Init arch specific ... '') [] k =
      Some (Inr (k\<lparr>ks_screen := s1, ks_irq := upd_irq_dev (apsnd (\<lambda>_. h1)) (ks_irq k)\<rparr>))" "va_enabled s1"
    using boot_message [OF assms(1), of "chrs ''[HW] Init arch specific ... ''" mc] by auto
  let ?k = "k\<lparr>ks_screen := s1, ks_irq := upd_irq_dev (apsnd (\<lambda>_. h1)) (ks_irq k), ks_world := (ks_world k)\<lparr>tw_mm := m\<rparr>\<rparr>"
  obtain s2 h2 where 2: "message mc (chrs ''OK'' @ [10]) [] ?k =
      Some (Inr (?k\<lparr>ks_screen := s2, ks_irq := upd_irq_dev (apsnd (\<lambda>_. h2)) (ks_irq ?k)\<rparr>))" "va_enabled s2"
    using boot_message [of ?k "chrs ''OK'' @ [10]" mc] 1(2) by auto
  let ?f = "local_apic_bsp_switch (with_swks (mc_bus mc)) \<circ> apsnd (\<lambda>_. h2) \<circ> apsnd (\<lambda>_. h1)"
  have "\<forall>d. fst (?f d) = fst d" by (simp add: local_apic_bsp_switch_def with_swks_keeps)
  moreover have "upd_irq_dev (local_apic_bsp_switch (with_swks (mc_bus mc))) (upd_irq_dev (apsnd (\<lambda>_. h2))
      (upd_irq_dev (apsnd (\<lambda>_. h1)) (ks_irq k))) = upd_irq_dev ?f (ks_irq k)"
    by (simp add: upd_irq_dev_def)
  ultimately show ?thesis
    using 1 2 assms(2)
    by (intro exI [of _ s2] exI [of _ ?f]) (simp add: arch_specific_init_def arch_smp_init_def Let_def)
qed

lemma map_apic_page_ok:
  assumes "cache_frames m frs" and "tables_ok (kmem m) (pd_entries pd) frs" and "pd_entries pd \<noteq> 0" and "3 \<le> length frs"
  shows "\<exists>m' frs'. map_apic_page pd m = Some (Inr (0, m')) \<and> cache_frames m' frs' \<and> tables_ok (kmem m') (pd_entries pd) frs' \<and>
    length frs \<le> length frs' + 3 \<and> set frs' \<subseteq> set frs \<and>
    (\<forall>va. mm_pin_virtual_address pd va m' =
      (if page_in_area 0xfee00 1 va = None then mm_pin_virtual_address pd va m else 0xfee00))"
proof -
  have r: "regions2 (vpn 0xfee00) 1 = 2" by (simp add: regions2_def regions_def)
  have "mappable pd m frs 0xfee00 1 PF_IO_PAGE"
    using assms r by (simp add: mappable_def PF_IO_PAGE_def PAF_DMA_PAGE_def)
  note map = map_verified [OF this assms(1)]
  let ?c = "pa_reset pageaccs_linear_pa \<lparr>lp_start_page = ucast (drop_bit PAGE_WIDTH APIC_BASE),
                    lp_end_page = ucast (drop_bit PAGE_WIDTH APIC_BASE), lp_curr_page = 0\<rparr>"
  have c: "lp_curr_page ?c = 0xfee00"
    by (simp add: pageaccs_linear_pa_def linear_pa_reset_def APIC_BASE_def PAGE_WIDTH_def drop_bit_eq_div)
  have addr: "page_addr 0xfee00 = APIC_BASE" by (simp add: page_addr_def APIC_BASE_def)
  obtain c' m' frs' where m': "mm_map_pages (Some pd) (Some pageaccs_linear_pa) APIC_BASE 1 PF_IO_PAGE ?c m
      = Some (Inr (0, c', m'))" "cache_frames m' frs'" "tables_ok (kmem m') (pd_entries pd) frs'"
      "length frs \<le> length frs' + 1 + regions2 (vpn 0xfee00) 1" "set frs' \<subseteq> set frs"
      "\<And>va. mm_pin_virtual_address pd va m' = (case page_in_area 0xfee00 1 va of Some i \<Rightarrow> lp_curr_page ?c + of_nat i
        | None \<Rightarrow> mm_pin_virtual_address pd va m)"
    using map [of ?c] unfolding addr by auto
  have "map_apic_page pd m = Some (Inr (0, m'))" using m'(1) by (simp add: map_apic_page_def Let_def)
  moreover have "mm_pin_virtual_address pd va m' =
      (if page_in_area 0xfee00 1 va = None then mm_pin_virtual_address pd va m else 0xfee00)" for va
  proof (cases "page_in_area 0xfee00 1 va")
    case (Some i)
    then have "i = 0" using page_in_area_less by fastforce
    then show ?thesis using Some unfolding m'(6) c by simp
  qed (simp add: m'(6))
  ultimately show ?thesis using m'(2-5) r by auto
qed

section \<open>Memory\<close>

lemma tables_ok_blank:
  assumes "aligned R" and "\<forall>i<512. mem (entry_ptr R (of_nat i)) = 0" and "distinct frs"
    and "\<And>r. r \<in> set frs \<Longrightarrow> unat r < 2 ^ 19 \<and> pframe_to_virt r \<noteq> R"
  shows "tables_ok mem R frs"
proof -
  have "walk mem R p = (if p = [] then Some R else None)" if "path_ok p" for p
  proof (cases p)
    case (Cons i rest)
    then have "i < 512" using that by (simp add: path_ok_def)
    then show ?thesis using assms(2) Cons by (simp add: Let_def)
  qed simp
  moreover have "R \<notin> pframe_to_virt ` set frs" using assms(4) by auto
  ultimately show ?thesis using assms(1,3,4) unfolding tables_ok_def by (auto split: if_splits)
qed

text \<open>The first pages of normal memory and a page of the kernel's image as the directory.\<close>

lemma boot_tables_ok:
  assumes "R = pframe_to_virt kp" and "unat kp < 4096" and "\<forall>i<512. mem (entry_ptr R (of_nat i)) = 0" and "n \<le> 2 ^ 18"
  shows "tables_ok mem R (map of_nat [4096..<n])" and "R \<noteq> 0"
proof -
  have nat: "unat (of_nat i :: page_idx) = i" if "i \<in> set [4096..<n]" for i
    using that assms(4) by (intro unat_of_nat_small) simp
  have kp: "unat kp < 2 ^ 19" using assms(2) by simp
  show "tables_ok mem R (map of_nat [4096..<n])"
  proof (rule tables_ok_blank [OF _ assms(3)])
    show "aligned R" using pframe_to_virt_small(2) [OF kp] assms(1) by simp
    show "distinct (map of_nat [4096..<n] :: page_idx list)"
      unfolding distinct_map by (intro conjI distinct_upt inj_on_inverseI [where g = unat] nat)
    fix r :: page_idx
    assume "r \<in> set (map of_nat [4096..<n])"
    then obtain i where i: "i \<in> set [4096..<n]" "r = of_nat i" by auto
    then have u: "unat r = i" "4096 \<le> i" "i < 2 ^ 19" using nat assms(4) by auto
    then show "unat r < 2 ^ 19 \<and> pframe_to_virt r \<noteq> R"
      using pframe_to_virt_inject [of r kp] kp assms(1,2) by auto
  qed
  show "R \<noteq> 0" using pframe_to_virt_small(1) [OF kp] assms(1) by (auto simp: word_unat_eq_iff)
qed

text \<open>What the boot finds: an ordered memory map with \<open>N\<close> pages, the kernel below 16 MB with a zeroed page for the
  directory.\<close>

definition memory_blank :: "'h machine \<Rightarrow> 'h kernel_state \<Rightarrow> nat \<Rightarrow> bool" where
  "memory_blank mc k N \<longleftrightarrow>
     (\<exists>j c0 c1. boot_map (mc_e820table mc) (mc_e820count mc) j N \<and> boot_layout (mc_kdata_end mc) N (ks_zones k) c0 c1) \<and>
     (\<exists>kp. mc_k_entries mc = pframe_to_virt kp \<and> unat kp < 4096) \<and>
     (\<forall>i<512. kmem (tw_mm (ks_world k)) (entry_ptr (mc_k_entries mc) (of_nat i)) = 0)"

text \<open>What it makes of it: the two direct mappings, and a cache with frames that are no tables.\<close>

definition direct_mapped :: "nat \<Rightarrow> page_directory \<Rightarrow> kmm \<Rightarrow> bool" where
  "direct_mapped N pd m \<longleftrightarrow> (\<forall>va i. page_in_area kernel_first_page N va = Some i \<longrightarrow> mm_pin_virtual_address pd va m = of_nat i) \<and>
     (\<forall>va i. page_in_area kernel_first_page N va = None \<and> page_in_area 1 4095 va = Some i \<longrightarrow>
        mm_pin_virtual_address pd va m = of_nat (i + 1))"

definition memory_up :: "'h machine \<Rightarrow> nat \<Rightarrow> page_directory \<Rightarrow> kmm \<Rightarrow> page_idx list \<Rightarrow> bool" where
  "memory_up mc N pd m frs \<longleftrightarrow> pd_entries pd = mc_k_entries mc \<and> pd_entries pd \<noteq> 0 \<and> cache_frames m frs \<and>
     tables_ok (kmem m) (pd_entries pd) frs \<and> direct_mapped N pd m"

lemma first_cache_room: "4608 \<le> N \<Longrightarrow> N div 512 + 50 \<le> first_cache N \<and> 4096 + first_cache N \<le> N"
proof -
  assume N: "4608 \<le> N"
  define X Y where "X = (N - 4096) div 2" and "Y = (X + 1) div 2"
  have "X * 2 \<le> N - 4096" "N - 4096 < 2 + X * 2" unfolding X_def by (simp_all add: dividend_less_div_times)
  moreover have "Y * 2 \<le> X + 1" "X + 1 < 2 + Y * 2" unfolding Y_def by (simp_all only: div_times_less_eq_dividend dividend_less_div_times zero_less_numeral)
  moreover have "N div 512 * 512 \<le> N" by simp
  ultimately have "N div 512 + 50 \<le> Y \<and> 4096 + Y \<le> N" using N by linarith
  then show "N div 512 + 50 \<le> first_cache N \<and> 4096 + first_cache N \<le> N" by (simp add: first_cache_def X_def Y_def)
qed

lemma arch_pmm_init_ok:
  assumes "memory_blank mc k N" and N: "4608 \<le> N" "N \<le> 2 ^ 18"
  shows "\<exists>z pd m frs f. arch_pmm_init mc 0 k = Some (Inr (k\<lparr>
      ks_cpu := (ks_cpu k)\<lparr>cr_cr3 := load_cr3 (k2p (mc_k_entries mc)) 1 1\<rparr>, ks_idt := ks_idt k,
      ks_pmm := arch_pmm_tables (mc_gdt mc) (mc_idt mc) (mc_tss mc) 0 (ks_pmm k), ks_zones := z,
      ks_world := (ks_world k)\<lparr>tw_kernel_pd := pd, tw_mm := m\<rparr>, ks_irq := upd_irq_dev f (ks_irq k)\<rparr>)) \<and>
    swks_mem_total_pages z = of_nat N \<and> memory_up mc N pd m frs \<and> 37 \<le> length frs"
proof -
  obtain j c0 c1 kp where b: "boot_map (mc_e820table mc) (mc_e820count mc) j N"
      "boot_layout (mc_kdata_end mc) N (ks_zones k) c0 c1" "mc_k_entries mc = pframe_to_virt kp" "unat kp < 4096"
      "\<forall>i<512. kmem (tw_mm (ks_world k)) (entry_ptr (mc_k_entries mc) (of_nat i)) = 0"
    using assms by (auto simp: memory_blank_def)
  let ?mem = "kmem (tw_mm (ks_world k))" and ?R = "mc_k_entries mc" and ?C = "first_cache N"
  obtain z where z: "build_page_array (mc_kdata_end mc) (mc_e820table mc) (mc_e820count mc) (ks_zones k) = Some (Inr z)"
      "cache_frames (kmm_of ?mem z) (map of_nat [4096..<4096 + ?C])" "swks_mem_total_pages z = of_nat N"
      "z_num_total_pages (memory_zones z ZONE_DMA) = 4096"
    using build_page_array_ok [OF b(1,2) N, of ?mem] by blast
  note room = first_cache_room [OF N(1)]
  have "4096 + ?C \<le> 2 ^ 18" using room N by linarith
  note tabs = boot_tables_ok [OF b(3,4,5) this]
  have total: "N = unat (mem_total_pages (kmm_of ?mem z))"
  proof -
    have "unat (of_nat N :: page_idx) = N" using N by (intro unat_of_nat_small) simp
    then show ?thesis by (simp add: kmm_of_def z(3))
  qed
  have "tables_ok (kmem (kmm_of ?mem z)) ?R (map of_nat [4096..<4096 + ?C])" using tabs(1) by (simp add: kmm_of_def)
  from arch_remap_memory_ok [OF this tabs(2) z(2) total, of "tw_kernel_pd (ks_world k)"]
  obtain pd m frs where r: "arch_remap_memory 0 ?R 4096 (tw_kernel_pd (ks_world k)) (kmm_of ?mem z)
      = Some (Inr (load_cr3 (k2p ?R) 1 1, pd, m))" "pd_entries pd = ?R" "cache_frames m frs" "tables_ok (kmem m) ?R frs"
      "?C \<le> length frs + (N div 512 + 13)"
      "\<And>va. mm_pin_virtual_address pd va m = (case page_in_area kernel_first_page N va of Some i \<Rightarrow> of_nat i
         | None \<Rightarrow> (case page_in_area 1 4095 va of Some i \<Rightarrow> of_nat (i + 1)
                     | None \<Rightarrow> mm_pin_virtual_address pd va (kmm_of ?mem z)))"
    using room N by auto
  have "memory_up mc N pd m frs" using r tabs(2) by (simp add: memory_up_def direct_mapped_def)
  moreover have "37 \<le> length frs" using r(5) room by linarith
  moreover let ?f = "\<lambda>(sw, h). (sw\<lparr>sw_mem_total_pages := swks_mem_total_pages z\<rparr>, h)"
  have "arch_pmm_init mc 0 k = Some (Inr (k\<lparr>
      ks_cpu := (ks_cpu k)\<lparr>cr_cr3 := load_cr3 (k2p ?R) 1 1\<rparr>, ks_idt := ks_idt k,
      ks_pmm := arch_pmm_tables (mc_gdt mc) (mc_idt mc) (mc_tss mc) 0 (ks_pmm k), ks_zones := z,
      ks_world := (ks_world k)\<lparr>tw_kernel_pd := pd, tw_mm := m\<rparr>, ks_irq := upd_irq_dev ?f (ks_irq k)\<rparr>))"
    using z(1,4) r(1) by (simp add: arch_pmm_init_def Let_def share_pages_def idt_init_def)
  ultimately show ?thesis using z(3) by blast
qed

text \<open>The mappings that are made later lie elsewhere.\<close>

lemma boot_areas_apart:
  assumes "page_in_area kernel_first_page N va = Some i \<or> page_in_area 1 4095 va = Some i" and "N \<le> 2 ^ 18"
  shows "page_in_area 0xfee00 1 va = None" and "c < 2 \<Longrightarrow> r + n \<le> 8 \<Longrightarrow> page_in_area (slot_page c + r) n va = None"
proof -
  let ?V = "vpn (unat va div 4096)"
  have V: "0xFFFF80000 \<le> ?V \<or> 1 \<le> ?V \<and> ?V < 4096"
    using assms(1) by (auto simp: page_in_area_def Let_def vpn_def kernel_first_page_def split: if_splits)
  then show "page_in_area 0xfee00 1 va = None" by (auto simp: page_in_area_def Let_def) (simp_all add: vpn_def)
  assume c: "c < 2" "r + n \<le> 8"
  show "page_in_area (slot_page c + r) n va = None"
  proof (cases "n = 0")
    case False
    then have "vpn (slot_page c + r) = (0x1FFFF0000 - Suc c) * 8 + r"
      using c by (intro vpn_slot_page) (simp_all add: stack_slots_def)
    then show ?thesis using V c by (auto simp: page_in_area_def Let_def)
  qed (simp add: page_in_area_def Let_def)
qed

lemma direct_mapped_later:
  assumes "direct_mapped N pd m" and "N \<le> 2 ^ 18"
    and "\<And>va. mm_pin_virtual_address pd va m' = slot_mapped 1 f1 ss1 (slot_mapped 0 f0 ss0 (\<lambda>va. mm_pin_virtual_address pd va m)) va"
  shows "direct_mapped N pd m'"
proof -
  have "mm_pin_virtual_address pd va m' = mm_pin_virtual_address pd va m"
    if "page_in_area kernel_first_page N va = Some i \<or> page_in_area 1 4095 va = Some i" for va i
    using boot_areas_apart(2) [OF that assms(2), of 0 0 1] boot_areas_apart(2) [OF that assms(2), of 1 0 1]
      boot_areas_apart(2) [OF that assms(2), of 0 3 4] boot_areas_apart(2) [OF that assms(2), of 1 3 4]
    by (simp add: assms(3) slot_mapped_def)
  then show ?thesis using assms(1) unfolding direct_mapped_def by metis
qed

section \<open>The processor after stage 0\<close>

lemma arch_pmm_init_cpu:
  assumes "arch_pmm_init mc cpu k = Some (Inr k')"
  shows "\<exists>cr3. ks_cpu k' = (ks_cpu k)\<lparr>cr_cr3 := cr3\<rparr>" and "ks_ebda k' = ks_ebda k"
  using assms
  by (auto simp: arch_pmm_init_def share_pages_def Let_def obind_def
      split: if_splits option.splits Option.bind_splits sum.splits prod.splits)

lemma clean_bits:
  "bit (v AND NOT 0x40000 :: u64) n = (n \<noteq> 18 \<and> bit v n)" "bit (v AND NOT 0x7000 :: u64) n = (n \<notin> {12, 13, 14} \<and> bit v n)"
proof -
  have "(0x40000 :: u64) = push_bit 18 1" "(0x7000 :: u64) = push_bit 12 (mask 3)" by (simp_all add: mask_eq_exp_minus_1)
  then show "bit (v AND NOT 0x40000 :: u64) n = (n \<noteq> 18 \<and> bit v n)"
    "bit (v AND NOT 0x7000 :: u64) n = (n \<notin> {12, 13, 14} \<and> bit v n)"
    by (auto simp only: bit_and_iff bit_not_iff bit_push_bit_iff bit_1_iff bit_mask_iff) (auto dest: bit_imp_le_length)
qed

text \<open>After stage 0 the processor has no-execute pages enabled and the FPU ready, no alignment checks, and I/O ports
  closed to user code; every other flag of these registers is as it was.\<close>

theorem stage0_sets_processor:
  assumes "arch_mm_stage0_init mc cpu k = Some (Inr k')"
  shows "let c = ks_cpu k; c' = ks_cpu k' in
    cr_msr c' = (cr_msr c)(EFER_MSR_NUM := set_bit 11 (cr_msr c EFER_MSR_NUM)) \<and>
    (\<forall>n. bit (cr_cr0 c') n = (n = 1 \<or> n \<noteq> 2 \<and> n \<noteq> 18 \<and> bit (cr_cr0 c) n)) \<and>
    cr_cr4 c' = set_bit 9 (cr_cr4 c) \<and>
    (\<forall>n. bit (cr_rflags c') n = (n \<notin> {12, 13, 14} \<and> bit (cr_rflags c) n)) \<and> ks_ebda k' = ucast (ks_bda k) * 16"
proof -
  let ?c = "cpu_setup_fpu (set_efer_flag AMD_NXE_FLAG (ks_cpu k))"
  let ?k = "arch_bios_init (k\<lparr>ks_cpu := ?c\<rparr>)"
  obtain k1 where k1: "arch_pmm_init mc cpu ?k = Some (Inr k1)"
    "k' = k1\<lparr>ks_cpu := cpu_clean_am_flag (cpu_clean_iopl_nt_flags (ks_cpu k1))\<rparr>"
    using assms by (auto simp: arch_mm_stage0_init_def Let_def obind_def split: option.splits Option.bind_splits sum.splits)
  obtain cr3 where "ks_cpu k1 = ?c\<lparr>cr_cr3 := cr3\<rparr>" "ks_ebda k1 = ucast (ks_bda k) * 16"
    using arch_pmm_init_cpu [OF k1(1)] by (auto simp: arch_bios_init_def)
  then have cpu: "ks_cpu k' = cpu_clean_am_flag (cpu_clean_iopl_nt_flags (?c\<lparr>cr_cr3 := cr3\<rparr>))" and ebda: "ks_ebda k' = ucast (ks_bda k) * 16"
    by (simp_all add: k1(2))
  have "set_efer_flag AMD_NXE_FLAG (ks_cpu k) = (ks_cpu k)\<lparr>cr_msr := (cr_msr (ks_cpu k))(EFER_MSR_NUM := set_bit 11 (cr_msr (ks_cpu k) EFER_MSR_NUM))\<rparr>"
    by (subst set_efer_flag_bits) (simp_all add: AMD_NXE_FLAG_def)
  then have "cr_cr0 (ks_cpu k') = unset_bit 2 (set_bit 1 (cr_cr0 (ks_cpu k))) AND NOT 0x40000"
    "cr_rflags (ks_cpu k') = cr_rflags (ks_cpu k) AND NOT 0x7000" and rest: "cr_cr4 (ks_cpu k') = set_bit 9 (cr_cr4 (ks_cpu k))"
    "cr_msr (ks_cpu k') = (cr_msr (ks_cpu k))(EFER_MSR_NUM := set_bit 11 (cr_msr (ks_cpu k) EFER_MSR_NUM))"
    by (simp_all add: cpu cpu_clean_am_flag_def cpu_clean_iopl_nt_flags_def cpu_setup_fpu_def Let_def)
  then have "bit (cr_cr0 (ks_cpu k')) n = (n = 1 \<or> n \<noteq> 2 \<and> n \<noteq> 18 \<and> bit (cr_cr0 (ks_cpu k)) n)"
    "bit (cr_rflags (ks_cpu k')) n = (n \<notin> {12, 13, 14} \<and> bit (cr_rflags (ks_cpu k)) n)" for n
    by (auto simp only: clean_bits) (auto simp: bit_simps dest: bit_imp_le_length)
  then show ?thesis using rest ebda by (simp add: Let_def)
qed

section \<open>The whole boot\<close>

definition irqs_cleared :: "'h machine \<Rightarrow> 'd irq_state \<Rightarrow> bool" where
  "irqs_cleared mc s \<longleftrightarrow> irq_layout mc s \<and> dlist (irq_links s) (known_hw_int_controllers s) [] \<and> lines_ok s (\<lambda>_. []) \<and>
     (\<forall>i<NUM_IRQS. il_controller (irq_lines s ! i) = None) \<and> action_idx s < 128"

text \<open>What stage 1 leaves: interrupts on, all lines at their gates, the timer on line 0 and a fresh clock.\<close>

definition interrupts_up :: "'h machine \<Rightarrow> 'h kernel_state \<Rightarrow> bool" where
  "interrupts_up mc k \<longleftrightarrow> bit (cr_rflags (ks_cpu k)) 9 \<and> bit (ks_online_cpus k) 0 \<and>
     (\<forall>i<NUM_IRQS. gate_to (mc_irq_entries mc ! i) AR_INTR (ks_idt k ! (32 + i))) \<and> (\<exists>a. timer_line mc (ks_irq k) a) \<and>
     0 < length (irq_stat (ks_irq k)) \<and> sw_system_ticks_64 (fst (irq_dev (ks_irq k))) = 0 \<and>
     sw_mem_total_pages (fst (irq_dev (ks_irq k))) = 0"

lemma main_routine_stage1_ok:
  assumes irqs: "irqs_cleared mc (ks_irq k)" and handler: "mc_timer_handler mc \<noteq> 0" and idt: "length (ks_idt k) = IDT_ITEMS"
    and delay: "delay_runs mc" and cache: "cache_frames (tw_mm (ks_world k)) frs"
    and tabs: "tables_ok (kmem (tw_mm (ks_world k))) (pd_entries (tw_kernel_pd (ks_world k))) frs"
    and root: "pd_entries (tw_kernel_pd (ks_world k)) \<noteq> 0" and len: "3 \<le> length frs" and screen: "va_enabled (ks_screen k)"
  shows "\<exists>k' m' frs'. main_routine_stage1 mc k = Some (Inr k') \<and> interrupts_up mc k' \<and> va_enabled (ks_screen k') \<and> (\<forall>j<32. ks_idt k' ! j = ks_idt k ! j) \<and>
    cr_rsp (ks_cpu k') = cr_rsp (ks_cpu k) \<and> cr_cr3 (ks_cpu k') = cr_cr3 (ks_cpu k) \<and>
    ks_idle_tasks k' = ks_idle_tasks k \<and> ks_world k' = (ks_world k)\<lparr>tw_mm := m'\<rparr> \<and>
    cache_frames m' frs' \<and> tables_ok (kmem m') (pd_entries (tw_kernel_pd (ks_world k))) frs' \<and> length frs \<le> length frs' + 3 \<and> set frs' \<subseteq> set frs \<and>
    (\<forall>va. mm_pin_virtual_address (tw_kernel_pd (ks_world k)) va m' =
      (if page_in_area 0xfee00 1 va = None then mm_pin_virtual_address (tw_kernel_pd (ks_world k)) va (tw_mm (ks_world k)) else 0xfee00))"
proof -
  obtain idt s1 a where s1: "arch_initialize_irqs (with_swks (mc_bus mc)) (mc_pic_link mc) (mc_irq_entries mc) (mc_timer_handler mc)
      (ks_idt k) (ks_irq k) = Inr (idt, s1)"
    "\<forall>i<NUM_IRQS. gate_to (mc_irq_entries mc ! i) AR_INTR (idt ! (32 + i))" "\<forall>j<32. idt ! j = ks_idt k ! j" "timer_line mc s1 a"
    using arch_initialize_irqs_ready [of mc "ks_irq k" "ks_idt k"] irqs handler idt by (auto simp: irqs_cleared_def)
  define k1 where "k1 = k\<lparr>ks_idt := idt, ks_irq := s1, ks_cpu := snd (interrupts_enable (ks_cpu k)),
     ks_online_cpus := set_cpu_online 0 1 (ks_online_cpus k)\<rparr>"
  have "timer_line mc (ks_irq k1) a" using s1(4) by (simp add: k1_def)
  from boot_swks_ok [OF delay this]
  obtain s2 where s2: "boot_swks mc k1 = Some (Inr (k1\<lparr>ks_irq := s2\<rparr>))" "timer_line mc s2 a" "0 < length (irq_stat s2)"
    "sw_system_ticks_64 (fst (irq_dev s2)) = 0" "sw_mem_total_pages (fst (irq_dev s2)) = 0" by blast
  obtain m' frs' where m': "map_apic_page (tw_kernel_pd (ks_world k)) (tw_mm (ks_world k)) = Some (Inr (0, m'))"
    "cache_frames m' frs'" "tables_ok (kmem m') (pd_entries (tw_kernel_pd (ks_world k))) frs'" "length frs \<le> length frs' + 3" "set frs' \<subseteq> set frs"
    "\<forall>va. mm_pin_virtual_address (tw_kernel_pd (ks_world k)) va m' =
      (if page_in_area 0xfee00 1 va = None then mm_pin_virtual_address (tw_kernel_pd (ks_world k)) va (tw_mm (ks_world k)) else 0xfee00)"
    using map_apic_page_ok [OF cache tabs root len] by blast
  let ?k2 = "k1\<lparr>ks_irq := s2\<rparr>"
  have "va_enabled (ks_screen ?k2)" "map_apic_page (tw_kernel_pd (ks_world ?k2)) (tw_mm (ks_world ?k2)) = Some (Inr (0, m'))"
    using screen m'(1) by (simp_all add: k1_def)
  from arch_specific_init_ok [OF this, of mc]
  obtain apic scr f where arch: "arch_specific_init mc ?k2 = Some (Inr (?k2\<lparr>ks_world := (ks_world k)\<lparr>tw_mm := m'\<rparr>,
      ks_screen := scr, ks_irq := upd_irq_dev f s2, ks_apic := apic\<rparr>))" "va_enabled scr" "\<forall>d. fst (f d) = fst d"
    by (auto simp: k1_def)
  let ?s3 = "upd_irq_dev f s2"
  define s4 where "s4 = upd_irq_dev (i8259a_enable_all (with_swks (mc_bus mc))) ?s3"
  let ?k = "?k2\<lparr>ks_world := (ks_world k)\<lparr>tw_mm := m'\<rparr>, ks_screen := scr, ks_irq := s4, ks_apic := apic\<rparr>"
  have s3: "timer_line mc ?s3 a" using s2(2) by (simp add: timer_line_cong)
  have "main_routine_stage1 mc k = Some (Inr ?k)"
    using s1(1) s2(1) arch(1) enable_all_irqs_ok [OF s3]
    by (simp add: main_routine_stage1_def Let_def initialize_common_hardware_def k1_def [symmetric] start_init_def s4_def [symmetric])
  moreover have "fst (irq_dev s4) = fst (irq_dev s2)"
    using spec [OF arch(3), of "irq_dev s2"] by (simp add: s4_def i8259a_enable_all_def with_swks_keeps)
  then have "interrupts_up mc ?k"
    using s1(2) s2(3-5) s3
    by (auto simp: interrupts_up_def k1_def s4_def timer_line_cong interrupts_enable_def set_cpu_online_def bit_simps)
  ultimately show ?thesis using s1(3) m'(2-6) arch(2)
    by (intro exI [of _ ?k] exI [of _ m'] exI [of _ frs']) (simp add: k1_def interrupts_enable_def)
qed

definition machine_blank :: "'h machine \<Rightarrow> 'h kernel_state \<Rightarrow> nat \<Rightarrow> bool" where
  "machine_blank mc k N \<longleftrightarrow> memory_blank mc k N \<and> irq_blank mc (ks_irq k) \<and> mc_timer_handler mc \<noteq> 0 \<and> delay_runs mc \<and>
     length (ks_idt k) = IDT_ITEMS \<and> length (mc_fault_handlers mc) = length fault_slots \<and> 0 \<notin> set (mc_fault_handlers mc) \<and>
     length (kc_bitmap (ks_chunk k)) = stack_slots \<and> length (ks_idle_tasks k) = 2"

text \<open>The kernel that enters the idle loop: it runs on the stack of the first idle task, in its own page tables, with
  the physical memory and the APIC mapped, the faults and interrupts led to their handlers, and the console on.\<close>

definition kernel_up :: "'h machine \<Rightarrow> 'h kernel_state \<Rightarrow> nat \<Rightarrow> bool" where
  "kernel_up mc k N \<longleftrightarrow>
     (let pd = tw_kernel_pd (ks_world k); m = tw_mm (ks_world k); sp = cr_rsp (ks_cpu k)
      in pd_entries pd = mc_k_entries mc \<and> cr_cr3 (ks_cpu k) = load_cr3 (k2p (pd_entries pd)) 1 1 \<and> direct_mapped N pd m \<and>
         mm_pin_virtual_address pd APIC_BASE m = 0xfee00 \<and>
         sp = slot_high KERNEL_BASE 0 - 512 \<and>
         pframe_to_virt (mm_pin_virtual_address pd (arch_current_task sp) m) = ks_idle_tasks k ! 0 \<and>
         t_state (task_of (ks_world k) (ks_idle_tasks k ! 0)) = TASK_STATE_RUNNING) \<and>
     (\<forall>i<length fault_slots. gate_to (mc_fault_handlers mc ! i) AR_TRAP (ks_idt k ! unat (fault_slots ! i))) \<and>
     interrupts_up mc k \<and> va_enabled (ks_screen k)"

lemma memory_blank_cong:
  "memory_blank mc (arch_bios_init (k\<lparr>ks_cpu := c\<rparr>)) N = memory_blank mc k N"
  "memory_blank mc (k\<lparr>ks_screen := s, ks_irq := t\<rparr>) N = memory_blank mc k N"
  by (simp_all add: memory_blank_def arch_bios_init_def)

lemma irq_blank_upd: "irq_blank mc (upd_irq_dev f s) = irq_blank mc s"
proof -
  have "actions_head (upd_irq_dev f s) = actions_head s" "action_link (upd_irq_dev f s) = action_link s" "action_idx (upd_irq_dev f s) = action_idx s"
    by (simp_all add: fun_eq_iff actions_head_def action_link_def upd_irq_dev_def)
  then show ?thesis by (simp add: irq_blank_def irq_layout_def)
qed

lemma stack_top_bounds:
  "slot_high KERNEL_BASE 0 - 16384 \<le> slot_high KERNEL_BASE 0 - 512" "slot_high KERNEL_BASE 0 - 512 \<le> slot_high KERNEL_BASE 0"
  by (simp_all add: slot_high_def KERNEL_BASE_def)

lemma stage0_ok:
  assumes "memory_blank mc k N" and N: "4608 \<le> N" "N \<le> 2 ^ 18"
  shows "\<exists>k1 pd m frs f. arch_mm_stage0_init mc 0 k = Some (Inr k1) \<and> memory_up mc N pd m frs \<and> 37 \<le> length frs \<and>
    ks_idt k1 = ks_idt k \<and> ks_chunk k1 = ks_chunk k \<and> ks_idle_tasks k1 = ks_idle_tasks k \<and>
    ks_world k1 = (ks_world k)\<lparr>tw_kernel_pd := pd, tw_mm := m\<rparr> \<and> ks_irq k1 = upd_irq_dev f (ks_irq k) \<and>
    cr_cr3 (ks_cpu k1) = load_cr3 (k2p (mc_k_entries mc)) 1 1 \<and> ks_screen k1 = ks_screen k"
proof -
  let ?R = "mc_k_entries mc"
  let ?k0 = "arch_bios_init (k\<lparr>ks_cpu := cpu_setup_fpu (set_efer_flag AMD_NXE_FLAG (ks_cpu k))\<rparr>)"
  have "memory_blank mc ?k0 N" using assms(1) by (simp add: memory_blank_cong)
  from arch_pmm_init_ok [OF this N] obtain z pd m frs f where pmm: "arch_pmm_init mc 0 ?k0 = Some (Inr (?k0\<lparr>
      ks_cpu := (ks_cpu ?k0)\<lparr>cr_cr3 := load_cr3 (k2p ?R) 1 1\<rparr>, ks_idt := ks_idt ?k0,
      ks_pmm := arch_pmm_tables (mc_gdt mc) (mc_idt mc) (mc_tss mc) 0 (ks_pmm ?k0), ks_zones := z,
      ks_world := (ks_world ?k0)\<lparr>tw_kernel_pd := pd, tw_mm := m\<rparr>, ks_irq := upd_irq_dev f (ks_irq ?k0)\<rparr>))"
    "memory_up mc N pd m frs" "37 \<le> length frs" by blast
  obtain k1 where "arch_mm_stage0_init mc 0 k = Some (Inr k1)" "ks_idt k1 = ks_idt k" "ks_chunk k1 = ks_chunk k"
    "ks_idle_tasks k1 = ks_idle_tasks k" "ks_world k1 = (ks_world k)\<lparr>tw_kernel_pd := pd, tw_mm := m\<rparr>"
    "ks_irq k1 = upd_irq_dev f (ks_irq k)" "cr_cr3 (ks_cpu k1) = load_cr3 (k2p ?R) 1 1"
    "ks_screen k1 = ks_screen k"
    using pmm(1) by (simp add: arch_mm_stage0_init_def Let_def)
      (simp add: arch_bios_init_def cpu_clean_am_flag_def cpu_clean_iopl_nt_flags_def)
  then show ?thesis using pmm(2,3) by blast
qed

text \<open>The first steps of \<^verbatim>\<open>main_routine\<close>: the console, stage 0, and the message after it.\<close>

lemma stage0_with_console:
  assumes "memory_blank mc k N" and N: "4608 \<le> N" "N \<le> 2 ^ 18"
  shows "\<exists>ka kb kc k1 pd m frs f. on_screen (\<lambda>s. Some (Inr (vga_cons_enable (mc_bus mc) s))) k = Some (Inr ka) \<and>
    message mc (chrs ''[LW] MuiString starts ...'' @ [10]) [] ka = Some (Inr kb) \<and>
    arch_mm_stage0_init mc 0 kb = Some (Inr kc) \<and>
    message mc (chrs ''[MM] Stage0 memory manager initied.'' @ [10]) [] kc = Some (Inr k1) \<and>
    memory_up mc N pd m frs \<and> 37 \<le> length frs \<and>
    ks_idt k1 = ks_idt k \<and> ks_chunk k1 = ks_chunk k \<and> ks_idle_tasks k1 = ks_idle_tasks k \<and>
    ks_world k1 = (ks_world k)\<lparr>tw_kernel_pd := pd, tw_mm := m\<rparr> \<and> ks_irq k1 = upd_irq_dev f (ks_irq k) \<and>
    cr_cr3 (ks_cpu k1) = load_cr3 (k2p (mc_k_entries mc)) 1 1 \<and> va_enabled (ks_screen k1)"
proof -
  obtain s1 h1 where 1: "on_screen (\<lambda>s. Some (Inr (vga_cons_enable (mc_bus mc) s))) k =
      Some (Inr (k\<lparr>ks_screen := s1, ks_irq := upd_irq_dev (apsnd (\<lambda>_. h1)) (ks_irq k)\<rparr>))" "va_enabled s1"
    using enable_screen [of "mc_bus mc" k] by (elim exE conjE) (rule that)
  let ?k1 = "k\<lparr>ks_screen := s1, ks_irq := upd_irq_dev (apsnd (\<lambda>_. h1)) (ks_irq k)\<rparr>"
  obtain s2 h2 where 2: "message mc (chrs ''[LW] MuiString starts ...'' @ [10]) [] ?k1 =
      Some (Inr (?k1\<lparr>ks_screen := s2, ks_irq := upd_irq_dev (apsnd (\<lambda>_. h2)) (ks_irq ?k1)\<rparr>))" "va_enabled s2"
    using boot_message [of ?k1 "chrs ''[LW] MuiString starts ...'' @ [10]" mc] 1(2) by auto
  let ?k2 = "?k1\<lparr>ks_screen := s2, ks_irq := upd_irq_dev (apsnd (\<lambda>_. h2)) (ks_irq ?k1)\<rparr>"
  have "memory_blank mc ?k2 N" using assms(1) by (simp add: memory_blank_def)
  from stage0_ok [OF this N] obtain k3 pd m frs f where 3: "arch_mm_stage0_init mc 0 ?k2 = Some (Inr k3)" "memory_up mc N pd m frs"
    "37 \<le> length frs" "ks_idt k3 = ks_idt k" "ks_chunk k3 = ks_chunk k" "ks_idle_tasks k3 = ks_idle_tasks k"
    "ks_world k3 = (ks_world k)\<lparr>tw_kernel_pd := pd, tw_mm := m\<rparr>" "ks_irq k3 = upd_irq_dev f (ks_irq ?k2)"
    "cr_cr3 (ks_cpu k3) = load_cr3 (k2p (mc_k_entries mc)) 1 1" "ks_screen k3 = s2" by auto
  obtain s4 h4 where 4: "message mc (chrs ''[MM] Stage0 memory manager initied.'' @ [10]) [] k3 =
      Some (Inr (k3\<lparr>ks_screen := s4, ks_irq := upd_irq_dev (apsnd (\<lambda>_. h4)) (ks_irq k3)\<rparr>))" "va_enabled s4"
    using boot_message [of k3 "chrs ''[MM] Stage0 memory manager initied.'' @ [10]" mc] 2(2) 3(10) by auto
  let ?f = "apsnd (\<lambda>_. h4) \<circ> f \<circ> apsnd (\<lambda>_. h2) \<circ> apsnd (\<lambda>_. h1)"
  have "upd_irq_dev (apsnd (\<lambda>_. h4)) (ks_irq k3) = upd_irq_dev ?f (ks_irq k)" by (simp add: 3(8) upd_irq_dev_def)
  then show ?thesis using 1 2 3 4
    by (intro exI [of _ ?k1] exI [of _ ?k2] exI [of _ k3] exI [of _ "k3\<lparr>ks_screen := s4, ks_irq := upd_irq_dev (apsnd (\<lambda>_. h4)) (ks_irq k3)\<rparr>"] exI [of _ pd] exI [of _ m]
        exI [of _ frs] exI [of _ ?f]) simp
qed

text \<open>The scheduler in the memory of stage 0: two idle tasks, the first one running.\<close>

lemma boot_scheduler_ok:
  assumes "memory_up mc N (tw_kernel_pd w) (tw_mm w) frs" and "37 \<le> length frs" and "N \<le> 2 ^ 18"
    and "length (kc_bitmap chunk) = stack_slots" and "length idle = 2"
  shows "\<exists>idle' w' frs'. initialize_scheduler chunk idle w = Some (Inr (idle', w')) \<and> idle_inv w' 2 (mc_k_entries mc) frs' \<and>
    14 \<le> length frs' \<and> (\<forall>r\<in>set frs'. pframe_to_virt r \<noteq> idle' ! 0) \<and> direct_mapped N (tw_kernel_pd w') (tw_mm w') \<and>
    t_kernel_stack (task_of w' (idle' ! 0)) = slot_stack KERNEL_BASE 0 \<and>
    pd_entries (t_page_dir (task_of w' (idle' ! 0))) = mc_k_entries mc \<and> t_state (task_of w' (idle' ! 0)) = TASK_STATE_RUNNING \<and>
    (\<forall>sp. slot_high KERNEL_BASE 0 - 16384 \<le> sp \<and> sp \<le> slot_high KERNEL_BASE 0 \<longrightarrow>
      pframe_to_virt (mm_pin_virtual_address (tw_kernel_pd w') (arch_current_task sp) (tw_mm w')) = idle' ! 0)"
proof -
  let ?pd = "tw_kernel_pd w" and ?R = "mc_k_entries mc"
  have R: "pd_entries ?pd = ?R" using assms(1) by (simp add: memory_up_def)
  have up: "pd_entries ?pd = ?R" "?R \<noteq> 0" "cache_frames (tw_mm w) frs" "tables_ok (kmem (tw_mm w)) ?R frs"
    "direct_mapped N ?pd (tw_mm w)"
    using assms(1) unfolding memory_up_def R by simp_all
  obtain p rest where frs: "frs = p # rest" "36 \<le> length rest" using assms(2) by (cases frs) auto
  have "distinct frs" using up(4) by (rule tables_okD(4))
  then have "set rest \<subseteq> set frs" "distinct rest" by (auto simp: frs(1))
  then have tabs: "tables_ok (kmem (tw_mm w)) ?R rest" by (rule tables_ok_fewer [OF up(4)])
  have "cache_frames (tw_mm w) (p # rest)" "24 \<le> length rest" "tables_ok (kmem (tw_mm w)) (pd_entries ?pd) rest" "pd_entries ?pd \<noteq> 0"
    using up frs tabs by simp_all
  from initialize_scheduler_ok [OF this(1,2) assms(4) this(3,4) assms(5)]
  obtain f0 ss0 f1 ss1 frs' w' where w': "initialize_scheduler chunk idle w = Some (Inr ([pframe_to_virt f0, pframe_to_virt f1], w'))"
    "distinct (f0 # f1 # ss0 @ ss1)" "set (f0 # f1 # ss0 @ ss1) \<subseteq> set rest" "two_idle_tasks w w' ?pd f0 ss0 f1 ss1"
    "idle_inv w' 2 (pd_entries ?pd) frs'" "length rest \<le> length frs' + 22"
    "{f0, f1} \<inter> set frs' = {}" "set frs' \<subseteq> set rest"
    "\<forall>k<2. \<forall>sp. slot_high KERNEL_BASE k - 16384 \<le> sp \<and> sp \<le> slot_high KERNEL_BASE k \<longrightarrow>
      pframe_to_virt (mm_pin_virtual_address ?pd (arch_current_task sp) (tw_mm w')) = [pframe_to_virt f0, pframe_to_virt f1] ! k"
    by (elim exE conjE) (rule that, assumption+)
  have pd: "tw_kernel_pd w' = ?pd" using w'(5) by (simp add: idle_inv_def)
  have "f0 \<in> set rest" "f1 \<in> set rest" "f0 \<noteq> f1" using w'(2,3) by auto
  then have ne: "pframe_to_virt f0 \<noteq> pframe_to_virt f1"
    using pframe_to_virt_inject tables_okD(5) [OF tabs] by blast
  have two: "tw_data w' = (tw_data w)(pframe_to_virt f0 := idle_data 0 (pd_entries ?pd), pframe_to_virt f1 := idle_data 1 (pd_entries ?pd))"
    "\<And>va. mm_pin_virtual_address ?pd va (tw_mm w') = slot_mapped 1 f1 ss1 (slot_mapped 0 f0 ss0 (\<lambda>va. mm_pin_virtual_address ?pd va (tw_mm w))) va"
    using w'(4) by (simp_all add: two_idle_tasks_def)
  have "direct_mapped N (tw_kernel_pd w') (tw_mm w')" unfolding pd by (rule direct_mapped_later [OF up(5) assms(3) two(2)])
  moreover have "task_of w' (pframe_to_virt f0) = td_task (idle_data 0 (pd_entries ?pd))" using ne by (simp add: task_of_def two(1))
  moreover have "\<forall>sp. slot_high KERNEL_BASE 0 - 16384 \<le> sp \<and> sp \<le> slot_high KERNEL_BASE 0 \<longrightarrow>
      pframe_to_virt (mm_pin_virtual_address ?pd (arch_current_task sp) (tw_mm w')) = pframe_to_virt f0"
    using w'(9) [rule_format, of 0] by simp
  moreover have "\<forall>r\<in>set frs'. pframe_to_virt r \<noteq> pframe_to_virt f0"
  proof
    fix r
    assume "r \<in> set frs'"
    then have "r \<in> set rest" "r \<noteq> f0" using w'(7,8) by auto
    then show "pframe_to_virt r \<noteq> pframe_to_virt f0"
      using pframe_to_virt_inject tables_okD(5) [OF tabs] \<open>f0 \<in> set rest\<close> by blast
  qed
  ultimately show ?thesis using w'(1,5,6) frs(2) up(1)
    by (intro exI [of _ "[pframe_to_virt f0, pframe_to_virt f1]"] exI [of _ w'] exI [of _ frs']) (simp add: idle_data_def pd)
qed

text \<open>The page of the APIC is none of those.\<close>

lemma apic_page_apart:
  assumes "\<And>va. mm_pin_virtual_address pd va m' =
      (if page_in_area 0xfee00 1 va = None then mm_pin_virtual_address pd va m else 0xfee00)" and "N \<le> 2 ^ 18"
  shows "mm_pin_virtual_address pd APIC_BASE m' = 0xfee00" and "direct_mapped N pd m \<Longrightarrow> direct_mapped N pd m'"
    and "slot_high KERNEL_BASE 0 - 16384 \<le> sp \<Longrightarrow> sp \<le> slot_high KERNEL_BASE 0 \<Longrightarrow>
      mm_pin_virtual_address pd (arch_current_task sp) m' = mm_pin_virtual_address pd (arch_current_task sp) m"
proof -
  have "page_in_area 0xfee00 1 APIC_BASE = Some 0" by (simp add: page_in_area_def APIC_BASE_def)
  then show "mm_pin_virtual_address pd APIC_BASE m' = 0xfee00" by (simp add: assms(1))
  have "mm_pin_virtual_address pd va m' = mm_pin_virtual_address pd va m"
    if "page_in_area kernel_first_page N va = Some i \<or> page_in_area 1 4095 va = Some i" for va i
    using boot_areas_apart(1) [OF that assms(2)] by (simp add: assms(1))
  then show "direct_mapped N pd m \<Longrightarrow> direct_mapped N pd m'" unfolding direct_mapped_def by metis
  assume "slot_high KERNEL_BASE 0 - 16384 \<le> sp" "sp \<le> slot_high KERNEL_BASE 0"
  then have "page_in_area (slot_page 0) 1 (arch_current_task sp) = Some 0"
    by (intro current_task_page) (simp_all add: stack_slots_def)
  then have "vpn (unat (arch_current_task sp) div 4096) = vpn (slot_page 0)" by (auto simp: page_in_area_def Let_def split: if_splits)
  then have "page_in_area 0xfee00 1 (arch_current_task sp) = None"
    using vpn_slot_page [of 0 0] by (simp add: page_in_area_def stack_slots_def vpn_def)
  then show "mm_pin_virtual_address pd (arch_current_task sp) m' = mm_pin_virtual_address pd (arch_current_task sp) m"
    by (simp add: assms(1))
qed

text \<open>The whole boot; the cache it leaves is enough for the thread that \<^verbatim>\<open>idle_loop\<close> creates first.\<close>

lemma main_routine_ok:
  assumes "machine_blank mc k N" and N18: "4608 \<le> N" and N: "N \<le> 2 ^ 18"
  shows "\<exists>k' f ss frs. main_routine mc k = Some (Inr k') \<and> kernel_up mc k' N \<and>
    can_create (ks_world k') (ks_idle_tasks k' ! 0) 2 f ss frs"
proof -
  have b: "memory_blank mc k N" "irq_blank mc (ks_irq k)" "mc_timer_handler mc \<noteq> 0" "delay_runs mc" "length (ks_idt k) = IDT_ITEMS"
    "length (mc_fault_handlers mc) = length fault_slots" "0 \<notin> set (mc_fault_handlers mc)"
    "length (kc_bitmap (ks_chunk k)) = stack_slots" "length (ks_idle_tasks k) = 2"
    using assms(1) by (simp_all add: machine_blank_def)
  obtain ka kb kc k1 pd m frs f where start: "on_screen (\<lambda>s. Some (Inr (vga_cons_enable (mc_bus mc) s))) k = Some (Inr ka)"
    "message mc (chrs ''[LW] MuiString starts ...'' @ [10]) [] ka = Some (Inr kb)" "arch_mm_stage0_init mc 0 kb = Some (Inr kc)"
    "message mc (chrs ''[MM] Stage0 memory manager initied.'' @ [10]) [] kc = Some (Inr k1)"
    and k1: "memory_up mc N pd m frs" "37 \<le> length frs"
    "ks_idt k1 = ks_idt k" "ks_chunk k1 = ks_chunk k" "ks_idle_tasks k1 = ks_idle_tasks k"
    "ks_world k1 = (ks_world k)\<lparr>tw_kernel_pd := pd, tw_mm := m\<rparr>" "ks_irq k1 = upd_irq_dev f (ks_irq k)"
    "cr_cr3 (ks_cpu k1) = load_cr3 (k2p (mc_k_entries mc)) 1 1" "va_enabled (ks_screen k1)"
    using stage0_with_console [OF b(1) N18 N] by (elim exE conjE) (rule that, assumption+)
  obtain idt where idt: "install_fault_handlers (mc_fault_handlers mc) (ks_idt k) = Inr idt" "length idt = IDT_ITEMS"
    "\<forall>i<length fault_slots. gate_to (mc_fault_handlers mc ! i) AR_TRAP (idt ! unat (fault_slots ! i))"
    using install_fault_handlers_ok [OF b(6,7,5)] by blast
  have "memory_up mc N (tw_kernel_pd (ks_world k1)) (tw_mm (ks_world k1)) frs" using k1(1) by (simp add: k1(6))
  from boot_scheduler_ok [OF this k1(2) N b(8,9)]
  obtain idle w frs' where w: "initialize_scheduler (ks_chunk k) (ks_idle_tasks k) (ks_world k1) = Some (Inr (idle, w))"
    "idle_inv w 2 (mc_k_entries mc) frs'" "14 \<le> length frs'" "\<forall>r\<in>set frs'. pframe_to_virt r \<noteq> idle ! 0" "direct_mapped N (tw_kernel_pd w) (tw_mm w)"
    "t_kernel_stack (task_of w (idle ! 0)) = slot_stack KERNEL_BASE 0" "pd_entries (t_page_dir (task_of w (idle ! 0))) = mc_k_entries mc" "t_state (task_of w (idle ! 0)) = TASK_STATE_RUNNING"
    "\<And>sp. slot_high KERNEL_BASE 0 - 16384 \<le> sp \<Longrightarrow> sp \<le> slot_high KERNEL_BASE 0 \<Longrightarrow>
      pframe_to_virt (mm_pin_virtual_address (tw_kernel_pd w) (arch_current_task sp) (tw_mm w)) = idle ! 0" by blast
  have blank1: "irq_blank mc (ks_irq k1)" using b(2) by (simp add: k1(7) irq_blank_upd)
  note blank = initialize_irqs_blank [OF blank1]
  obtain timer irq where irq: "initialize_timer (with_swks (mc_bus mc)) (mc_known_hw_timers mc) (mc_i8254_link mc) (initialize_irqs (ks_irq k1))
      = (timer, irq)" by fastforce
  have cleared: "irqs_cleared mc irq"
    using initialize_timer_blank [OF blank(1,2), of "with_swks (mc_bus mc)"] blank(3) irq by (simp add: irqs_cleared_def)
  define k2 where "k2 = k1\<lparr>ks_idt := idt, ks_idle_tasks := idle, ks_world := w, ks_timers := timer # ks_timers k1, ks_irq := irq,
    ks_cpu := load_stack_pointer (slot_high KERNEL_BASE 0 - 512) (ks_cpu k1)\<rparr>"
  have run: "main_routine mc k = main_routine_stage1 mc k2"
    using start idt(1) w(1) irq by (simp add: main_routine_def Let_def k1(3-5) k2_def w(6) slot_stack_def)
  have pd: "pd_entries (tw_kernel_pd w) = mc_k_entries mc" "mc_k_entries mc \<noteq> 0" "cache_frames (tw_mm w) frs'"
    "tables_ok (kmem (tw_mm w)) (mc_k_entries mc) frs'" "kstack_ready KERNEL_BASE (tw_stacks w) 2"
    using w(2) by (simp_all add: idle_inv_def)
  obtain k' m' gs where k': "main_routine_stage1 mc k2 = Some (Inr k')" "interrupts_up mc k' \<and> va_enabled (ks_screen k')" "\<forall>j<32. ks_idt k' ! j = idt ! j"
    "cr_rsp (ks_cpu k') = slot_high KERNEL_BASE 0 - 512" "cr_cr3 (ks_cpu k') = load_cr3 (k2p (mc_k_entries mc)) 1 1"
    "ks_idle_tasks k' = idle" "ks_world k' = w\<lparr>tw_mm := m'\<rparr>" "cache_frames m' gs" "tables_ok (kmem m') (mc_k_entries mc) gs"
    "11 \<le> length gs" "set gs \<subseteq> set frs'"
    "\<And>va. mm_pin_virtual_address (tw_kernel_pd w) va m' =
      (if page_in_area 0xfee00 1 va = None then mm_pin_virtual_address (tw_kernel_pd w) va (tw_mm w) else 0xfee00)"
    using main_routine_stage1_ok [of mc k2 frs'] cleared b(3,4) idt(2) pd w(3) k1(8,9)
    by (auto simp: k2_def load_stack_pointer_def)
  note apic = apic_page_apart [OF k'(12) N]
  have low: "unat (fault_slots ! i) < 32" if "i < length fault_slots" for i
  proof -
    have "\<forall>s\<in>set fault_slots. unat s < 32" by (simp add: fault_slots_def)
    then show ?thesis using nth_mem [OF that] by blast
  qed
  have "task_of (ks_world k') = task_of w" by (simp add: fun_eq_iff task_of_def k'(7))
  then have "kernel_up mc k' N"
    using pd(1) k'(2-6) apic(1,3) apic(2) [OF w(5)] w(8,9) stack_top_bounds idt(3) low
    by (simp add: kernel_up_def Let_def k'(7))
  moreover obtain f ss left where gs: "gs = f # ss @ left" "length ss = 4" "6 \<le> length left"
  proof -
    obtain f rest where "gs = f # rest" "10 \<le> length rest" using k'(10) by (cases gs) auto
    then show ?thesis using that [of f "take 4 rest" "drop 4 rest"] by simp
  qed
  have "idle ! 0 \<noteq> pframe_to_virt f" using w(4) k'(11) gs(1) by auto
  then have "can_create (ks_world k') (ks_idle_tasks k' ! 0) 2 f ss left"
    using pd(2,5) k'(6-9) gs w(7) by (simp add: can_create_def stack_slots_def task_of_def)
  ultimately show ?thesis using run k'(1) by auto
qed

section \<open>Properties\<close>

text \<open>C2: The kernel boots on a machine with 18 MB to 1 GB of memory: with an ordered memory map whose main area ends with
  page \<open>N\<close>, the image and the page array below 16 MB, and a timer chip that counts, \<^verbatim>\<open>main_routine\<close> reaches the idle
  loop without a panic. It then runs on the stack of the first idle task in its own page tables, all physical memory
  and the APIC are mapped, every fault and interrupt leads through a gate to its handler, the console is on, and each
  timer interrupt advances the clock, which starts at 0. With more memory the mapping at \<open>KERNEL_BASE\<close> would not end
  in the address space.\<close>

theorem boot_reaches_idle_loop:
  assumes "machine_blank mc k N" and "4608 \<le> N" and "N \<le> 2 ^ 18"
  shows "\<exists>k'. main_routine mc k = Some (Inr k') \<and> kernel_up mc k' N \<and>
    (\<forall>n. \<exists>s. timer_irqs (mc_timer_handler mc) n (ks_irq k') = Some (Inr s) \<and>
      sw_system_ticks_64 (fst (irq_dev s)) = of_nat n)"
proof -
  obtain k' where k': "main_routine mc k = Some (Inr k')" "kernel_up mc k' N" using main_routine_ok [OF assms] by blast
  then have up: "interrupts_up mc k'" by (simp add: kernel_up_def)
  then obtain a where a: "timer_line mc (ks_irq k') a" by (auto simp: interrupts_up_def)
  have "\<exists>s. timer_irqs (mc_timer_handler mc) n (ks_irq k') = Some (Inr s) \<and> sw_system_ticks_64 (fst (irq_dev s)) = of_nat n" for n
    using timer_irqs_run [of "ks_irq k'" a "mc_timer_handler mc" "mc_bus mc" n] a up
    by (auto simp: timer_line_def interrupts_up_def)
  then show ?thesis using k' by blast
qed

text \<open>The number of pages that the memory set-up found is lost when the statistics are cleared.\<close>

lemma boot_loses_page_count:
  assumes "machine_blank mc k N" and "4608 \<le> N" and "N \<le> 2 ^ 18"
  shows "\<exists>k'. main_routine mc k = Some (Inr k') \<and> sw_mem_total_pages (fst (irq_dev (ks_irq k'))) = 0"
proof -
  obtain k' where "main_routine mc k = Some (Inr k')" "kernel_up mc k' N" using main_routine_ok [OF assms] by blast
  then show ?thesis by (auto simp: kernel_up_def interrupts_up_def)
qed

text \<open>A machine with 32 MB and devices of one bit: the load of the timer chip sets it, the chip answers with it, and
  the delay loop clears it.\<close>

definition sample_machine :: "bool machine" where
  "sample_machine = \<lparr>mc_bus = \<lparr>bus_in = (\<lambda>_ d. (of_bool d, d)), bus_out = (\<lambda>p v d. d \<or> p = I8254_BASE \<and> v = 0xff)\<rparr>,
     mc_apic_hw = (\<lambda>m a v. v), mc_delay_loop = (\<lambda>_ _. False), mc_fake_loop = (\<lambda>_ d. d),
     mc_e820table = sample_e820, mc_e820count = 2, mc_kdata_end = 0xffffffff80200000,
     mc_k_entries = pframe_to_virt 0x150, mc_gdt = 0xffffffff80151000, mc_idt = 0xffffffff80152000,
     mc_tss = (\<lambda>_. 0xffffffff80153000), mc_fault_handlers = map of_nat [1..<20], mc_irq_entries = replicate 16 0x7000,
     mc_timer_handler = 0x9000, mc_pic_link = 0x500, mc_known_hw_timers = 0x600, mc_i8254_link = 0x700, mc_null_str = 0\<rparr>"

definition sample_kernel :: "bool kernel_state" where
  "sample_kernel = \<lparr>ks_cpu = \<lparr>cr_cr0 = 0, cr_cr3 = 0, cr_cr4 = 0, cr_rflags = 0, cr_rsp = 0, cr_msr = (\<lambda>_. 0)\<rparr>,
     ks_pmm = sample_pmm, ks_idt = replicate 64 blank_gate, ks_bda = 0, ks_ebda = 0, ks_zones = sample_state,
     ks_chunk = sample_chunk, ks_world = idle_world, ks_idle_tasks = [0, 0],
     ks_irq = (blank_irq (i8259A_pic (with_swks (mc_bus sample_machine))) (zero_swks, False))
       \<lparr>irq_links := init_list_head 0x600 (init_list_head 0x400 \<lparr>lh_next = (\<lambda>_. 0), lh_prev = (\<lambda>_. 0)\<rparr>)\<rparr>,
     ks_timers = [], ks_online_cpus = 0, ks_apic = (\<lambda>_. 0),
     ks_screen = \<lparr>va_dev = \<lparr>vg_base = 0, vg_cols = 0, vg_rows = 0, vg_x = 0, vg_y = 0, vg_es_char = 0, vg_fg = VC_BLACK, vg_bg = VC_BLACK\<rparr>,
       va_crtc = [], va_atr = [], va_mem = (\<lambda>_. 0), va_hw = False, va_enabled = False\<rparr>\<rparr>"

lemma sample_memory_blank: "memory_blank sample_machine sample_kernel 8192"
proof -
  have "boot_map sample_e820 2 1 8192"
    using sample_ordered by (simp add: boot_map_def) (simp add: sample_e820_def main_memory_area_def e820_end_def e820_length_def
      E820_USABLE_def KERNEL_PHYS_START_def)
  moreover have "boot_layout 0xffffffff80200000 8192 sample_state \<lparr>pc_pages = 0x3000, pc_num_free_pages = 0, pc_total_pages = 0\<rparr>
      \<lparr>pc_pages = 0x4000, pc_num_free_pages = 0, pc_total_pages = 0\<rparr>"
  proof -
    have "KERNEL_BASE + KERNEL_PHYS_START \<le> 0xffffffff80200000" "image_end 0xffffffff80200000 8192 < 0x1000000"
      by (simp_all add: image_end_def KERNEL_BASE_def KERNEL_PHYS_START_def sizeof_page_frame_def)
    moreover have "unat (frame_at 0xffffffff80200000 (of_nat i)) = 0xffffffff80200000 + 40 * i" if "i < 8192" for i
      using that by (simp add: frame_at_def sizeof_page_frame_def unat_word_ariths unat_ucast_up unat_of_nat)
    then have "frame_at 0xffffffff80200000 (of_nat i) \<notin> {0x3000, 0x4000}" if "i < 8192" for i
      using that by (auto simp: word_unat_eq_iff)
    ultimately show ?thesis
      using sample_layout by (auto simp: boot_layout_def) (auto simp: sample_state_def ring_head_def sample_zone_def)
  qed
  ultimately show ?thesis
    unfolding memory_blank_def
    by (auto simp: sample_machine_def sample_kernel_def idle_world_def intro: exI [of _ "0x150 :: page_idx"])
qed

lemma sample_delay_runs: "delay_runs sample_machine"
proof -
  let ?bus = "mc_bus sample_machine" and ?cnt = "\<lambda>d. if d then 257 else 0 :: nat"
  have out: "outb ?bus port v d = (d \<or> port = I8254_BASE \<and> v = 0xff)" and in1: "inb ?bus port d = (of_bool d, d)" for port v d
    by (simp_all add: outb_def inb_def sample_machine_def)
  have "pit_load ?bus d" for d by (simp add: pit_load_def out)
  moreover have poll: "pit_poll ?bus d = (False, if d then 257 else 0, d)" and latch: "pit_latch ?bus d = (if d then 257 else 0, d)" for d
    by (simp_all add: pit_poll_def pit_latch_def pit_read_def out in1 I8254_BASE_def)
  ultimately have "pit_loads ?bus ?cnt 257" unfolding pit_loads_def
    by (intro exI [of _ "\<lambda>d. d"] exI [of _ "\<lambda>_. 0"]) simp
  moreover have "pit_counts ?bus ?cnt 0" by (simp add: pit_counts_def latch)
  moreover have "loops_take (mc_delay_loop sample_machine) (mc_fake_loop sample_machine) ?cnt 257 0 0 257"
    by (simp add: loops_take_def sample_machine_def)
  ultimately show ?thesis unfolding delay_runs_def by blast
qed

lemma sample_irq_blank: "irq_blank sample_machine (ks_irq sample_kernel)"
proof -
  let ?s = "ks_irq sample_kernel"
  have head: "actions_head ?s i = of_nat (0x1000 + 32 * i)" and link: "action_link ?s j = of_nat (0x2018 + 40 * j)" for i j
    by (simp_all add: actions_head_def action_link_def sample_kernel_def blank_irq_def)
  have ne: "(of_nat m :: addr) \<noteq> of_nat n" if "m < 2 ^ 20" "n < 2 ^ 20" "m \<noteq> n" for m n
    using of_nat_eq_iff_small [where 'a = 64, of m n] that by simp
  have "actions_head ?s i \<notin> {of_nat 0x400, of_nat 0x600, of_nat 0x500, of_nat 0x700}" if "i < NUM_IRQS" for i
    unfolding head using that ne [of "0x1000 + 32 * i"] by (simp del: of_nat_add of_nat_mult of_nat_numeral add: NUM_IRQS_def)
  moreover have "action_link ?s j \<notin> {of_nat 0x400, of_nat 0x600, of_nat 0x500, of_nat 0x700}" if "j < 128" for j
    unfolding link using that ne [of "0x2018 + 40 * j"] by (simp del: of_nat_add of_nat_mult of_nat_numeral)
  moreover have "actions_head ?s i \<noteq> action_link ?s j" if "i < NUM_IRQS" "j < 128" for i j
    unfolding head link using that by (intro ne) (simp_all add: NUM_IRQS_def)
  moreover have "known_hw_int_controllers ?s = of_nat 0x400" "mc_known_hw_timers sample_machine = of_nat 0x600"
    "mc_pic_link sample_machine = of_nat 0x500" "mc_i8254_link sample_machine = of_nat 0x700"
    by (simp_all add: sample_kernel_def blank_irq_def sample_machine_def)
  ultimately have "irq_layout sample_machine ?s" unfolding irq_layout_def by simp
  then show ?thesis
    by (simp add: irq_blank_def) (simp add: sample_kernel_def sample_machine_def blank_irq_def dlist_def init_list_head_def)
qed

lemma sample_machine_blank: "machine_blank sample_machine sample_kernel 8192"
  using sample_memory_blank sample_irq_blank sample_delay_runs
  by (simp add: machine_blank_def) (simp add: upt_rec sample_machine_def sample_kernel_def IDT_ITEMS_def fault_slots_def sample_chunk_def
      stack_slots_def)

theorem boot_reaches_idle_loop_witness:
  "\<exists>k'. main_routine sample_machine sample_kernel = Some (Inr k') \<and> kernel_up sample_machine k' 8192"
  using boot_reaches_idle_loop [OF sample_machine_blank] by simp blast

end
