(* ===== verification/Mui_Lock.thy ===== *)
theory Mui_Lock
  imports Mui_Prelude
begin

text \<open>
  Locks and atomics: \<^verbatim>\<open>include/eza/spinlock.h\<close> as the kernel includes it, where taking a lock is an
  empty macro, and \<^verbatim>\<open>include/eza/amd64/spinlock.h\<close> with the spin loop that is meant to be behind it.
  A processor is stepped instruction by instruction; any number of them share the lock word.
\<close>

section \<open>Atomic variables\<close>

record atomic_t =
  at_c :: u64

definition atomic_set :: "u64 \<Rightarrow> atomic_t \<Rightarrow> atomic_t" where
  "atomic_set c v = v\<lparr>at_c := c\<rparr>"

definition atomic_get :: "atomic_t \<Rightarrow> u64" where
  "atomic_get v = at_c v"

definition atomic_inc :: "atomic_t \<Rightarrow> atomic_t" where
  "atomic_inc v = v\<lparr>at_c := at_c v + 1\<rparr>"

definition atomic_dec :: "atomic_t \<Rightarrow> atomic_t" where
  "atomic_dec v = v\<lparr>at_c := at_c v - 1\<rparr>"

text \<open>The exchange-and-add and the exchange instructions give back the old value.\<close>

definition atomic_post_inc :: "atomic_t \<Rightarrow> u64 \<times> atomic_t" where
  "atomic_post_inc v = (let r = 1 in (at_c v, v\<lparr>at_c := at_c v + r\<rparr>))"

definition atomic_post_dec :: "atomic_t \<Rightarrow> u64 \<times> atomic_t" where
  "atomic_post_dec v = (let r = -1 in (at_c v, v\<lparr>at_c := at_c v + r\<rparr>))"

definition atomic_pre_inc :: "atomic_t \<Rightarrow> u64 \<times> atomic_t" where
  "atomic_pre_inc v = (let (o', v) = atomic_post_inc v in (o' + 1, v))"

definition atomic_pre_dec :: "atomic_t \<Rightarrow> u64 \<times> atomic_t" where
  "atomic_pre_dec v = (let (o', v) = atomic_post_dec v in (o' - 1, v))"

definition atomic_test_set :: "atomic_t \<Rightarrow> u64 \<times> atomic_t" where
  "atomic_test_set v = (let o' = 1 in (at_c v, v\<lparr>at_c := o'\<rparr>))"

lemmas atomic_defs = atomic_set_def atomic_get_def atomic_inc_def atomic_dec_def atomic_post_inc_def
  atomic_post_dec_def atomic_pre_inc_def atomic_pre_dec_def atomic_test_set_def

text \<open>The pre-increments are the plain operations with the new value, and an increment is undone by a decrement.\<close>

lemma atomic_pre_new:
  "atomic_pre_inc v = (atomic_get (atomic_inc v), atomic_inc v)"
  "atomic_pre_dec v = (atomic_get (atomic_dec v), atomic_dec v)"
  "atomic_dec (atomic_inc v) = v"
  by (simp_all add: atomic_defs)

section \<open>The lock of the kernel\<close>

record spinlock_t =
  sl_v :: atomic_t

definition spinlock_initialize_macro :: spinlock_t where
  "spinlock_initialize_macro = \<lparr>sl_v = \<lparr>at_c = 0\<rparr>\<rparr>"

text \<open>\<^verbatim>\<open>spinlock_lock(u)\<close> expands to \<^verbatim>\<open>arch_atomic_spinlock(&(u)->v)\<close>, and \<^verbatim>\<open>spinlock.h\<close> itself defines
  \<^verbatim>\<open>arch_atomic_spinlock(x)\<close> as nothing.\<close>

definition spinlock_lock :: "spinlock_t \<Rightarrow> spinlock_t" where
  "spinlock_lock s = s"

definition spinlock_unlock :: "spinlock_t \<Rightarrow> spinlock_t" where
  "spinlock_unlock s = (if atomic_get (sl_v s) = 0 then s else s\<lparr>sl_v := atomic_set 0 (sl_v s)\<rparr>)"

text \<open>So the lock word is 0 from its initialisation on, and releasing the lock does not write it either.\<close>

lemma lock_word_untouched:
  "atomic_get (sl_v s) = 0 \<Longrightarrow> spinlock_unlock (spinlock_lock s) = s"
  by (simp add: spinlock_lock_def spinlock_unlock_def)

section \<open>The spin loop\<close>

text \<open>Where a processor is: outside, before one of the seven instructions of the loop, inside the critical section, or
  between the test and the store of \<^verbatim>\<open>spinlock_unlock\<close>.\<close>

datatype lock_pc = Outside | Load | Test1 | Jump1 | Inc | Xchg | Test2 | Jump2 | Inside | Clear

text \<open>The register of the loop and the zero flag of the last test.\<close>

record lock_cpu =
  lc_pc :: lock_pc
  lc_t :: u64
  lc_zf :: bool

record spin_state =
  sp_v :: atomic_t
  sp_cpu :: "nat \<Rightarrow> lock_cpu"

text \<open>One instruction of \<^verbatim>\<open>arch_atomic_spinlock\<close>; a processor in \<open>Outside\<close> calls it and one in \<open>Inside\<close> calls
  \<^verbatim>\<open>spinlock_unlock\<close>.\<close>

definition spin_instr :: "atomic_t \<times> lock_cpu \<Rightarrow> atomic_t \<times> lock_cpu" where
  "spin_instr vc = (let (v, c) = vc in case lc_pc c of
     Outside \<Rightarrow> (v, c\<lparr>lc_pc := Load\<rparr>)
   | Load \<Rightarrow> (v, c\<lparr>lc_t := atomic_get v, lc_pc := Test1\<rparr>)
   | Test1 \<Rightarrow> (v, c\<lparr>lc_zf := (lc_t c AND lc_t c = 0), lc_pc := Jump1\<rparr>)
   | Jump1 \<Rightarrow> (v, c\<lparr>lc_pc := (if lc_zf c then Inc else Load)\<rparr>)
   | Inc \<Rightarrow> (v, c\<lparr>lc_t := lc_t c + 1, lc_pc := Xchg\<rparr>)
   | Xchg \<Rightarrow> (atomic_set (lc_t c) v, c\<lparr>lc_t := atomic_get v, lc_pc := Test2\<rparr>)
   | Test2 \<Rightarrow> (v, c\<lparr>lc_zf := (lc_t c AND lc_t c = 0), lc_pc := Jump2\<rparr>)
   | Jump2 \<Rightarrow> (v, c\<lparr>lc_pc := (if lc_zf c then Inside else Load)\<rparr>)
   | Inside \<Rightarrow> if atomic_get v = 0 then (v, c\<lparr>lc_pc := Outside\<rparr>) else (v, c\<lparr>lc_pc := Clear\<rparr>)
   | Clear \<Rightarrow> (atomic_set 0 v, c\<lparr>lc_pc := Outside\<rparr>))"

inductive spin_step :: "spin_state \<Rightarrow> nat \<Rightarrow> spin_state \<Rightarrow> bool" where
  "spin_instr (sp_v s, sp_cpu s i) = (v, c) \<Longrightarrow> spin_step s i \<lparr>sp_v = v, sp_cpu = (sp_cpu s)(i := c)\<rparr>"

inductive_simps spin_step_iff: "spin_step s i s'"

definition spin_start :: spin_state where
  "spin_start = \<lparr>sp_v = \<lparr>at_c = 0\<rparr>, sp_cpu = (\<lambda>_. \<lparr>lc_pc = Outside, lc_t = 0, lc_zf = False\<rparr>)\<rparr>"

inductive spin_reach :: "spin_state \<Rightarrow> bool" where
  start: "spin_reach spin_start"
| step: "spin_reach s \<Longrightarrow> spin_step s i s' \<Longrightarrow> spin_reach s'"

text \<open>A processor has the lock from the exchange that answered 0 to the store that clears the word.\<close>

definition has_lock :: "lock_cpu \<Rightarrow> bool" where
  "has_lock c \<longleftrightarrow> (case lc_pc c of Test2 \<Rightarrow> lc_t c = 0 | Jump2 \<Rightarrow> lc_zf c | Inside \<Rightarrow> True | Clear \<Rightarrow> True | _ \<Rightarrow> False)"

definition cpu_ok :: "lock_cpu \<Rightarrow> bool" where
  "cpu_ok c \<longleftrightarrow> (lc_pc c = Jump1 \<longrightarrow> lc_zf c \<longrightarrow> lc_t c = 0) \<and> (lc_pc c = Inc \<longrightarrow> lc_t c = 0) \<and>
     (lc_pc c = Xchg \<longrightarrow> lc_t c = 1)"

definition spin_inv :: "spin_state \<Rightarrow> bool" where
  "spin_inv s \<longleftrightarrow> (\<forall>i. cpu_ok (sp_cpu s i)) \<and> at_c (sp_v s) \<in> {0, 1} \<and>
     (at_c (sp_v s) = 0 \<longrightarrow> (\<forall>i. \<not> has_lock (sp_cpu s i))) \<and>
     (at_c (sp_v s) \<noteq> 0 \<longrightarrow> (\<exists>!i. has_lock (sp_cpu s i)))"

text \<open>What one instruction does to the processor and the word.\<close>

lemma spin_instr_ok:
  assumes "spin_instr (v, c) = (v', c')" and "cpu_ok c" and "at_c v \<in> {0, 1}" and "has_lock c \<Longrightarrow> at_c v \<noteq> 0"
  shows "cpu_ok c' \<and> (v' = v \<and> has_lock c' = has_lock c \<or>
    \<not> has_lock c \<and> at_c v' = 1 \<and> has_lock c' = (at_c v = 0) \<or>
    has_lock c \<and> at_c v' = 0 \<and> \<not> has_lock c')"
  using assms
  by (cases "lc_pc c")
    (auto simp: spin_instr_def Let_def cpu_ok_def has_lock_def atomic_defs split: if_splits)

lemma spin_inv_step:
  assumes "spin_inv s" and "spin_step s i s'"
  shows "spin_inv s'"
proof -
  obtain v c where i: "spin_instr (sp_v s, sp_cpu s i) = (v, c)" and s': "s' = \<lparr>sp_v = v, sp_cpu = (sp_cpu s)(i := c)\<rparr>"
    using assms(2) by (auto simp: spin_step_iff)
  have s: "\<And>j. cpu_ok (sp_cpu s j)" "at_c (sp_v s) \<in> {0, 1}"
    "at_c (sp_v s) = 0 \<Longrightarrow> (\<forall>j. \<not> has_lock (sp_cpu s j))" "at_c (sp_v s) \<noteq> 0 \<Longrightarrow> (\<exists>!j. has_lock (sp_cpu s j))"
    using assms(1) by (auto simp: spin_inv_def)
  have "has_lock (sp_cpu s i) \<Longrightarrow> at_c (sp_v s) \<noteq> 0" using s(3) by blast
  note ok = spin_instr_ok [OF i s(1) s(2) this]
  from ok consider
      "v = sp_v s" "has_lock c = has_lock (sp_cpu s i)"
    | "\<not> has_lock (sp_cpu s i)" "at_c v = 1" "has_lock c = (at_c (sp_v s) = 0)"
    | "has_lock (sp_cpu s i)" "at_c v = 0" "\<not> has_lock c" by blast
  then show ?thesis
  proof cases
    case 1
    then have "has_lock (sp_cpu s' j) = has_lock (sp_cpu s j)" for j by (simp add: s')
    then show ?thesis using 1 s ok by (auto simp: spin_inv_def s')
  next
    case 2
    have "\<exists>!j. has_lock (sp_cpu s' j)"
    proof (cases "at_c (sp_v s) = 0")
      case True
      then show ?thesis using 2 s(3) by (auto simp: s')
    next
      case False
      then have "has_lock (sp_cpu s' k) = has_lock (sp_cpu s k)" for k by (cases "k = i") (simp_all add: s' 2)
      then show ?thesis using s(4) [OF False] by simp
    qed
    then show ?thesis using 2 s(1) ok by (simp add: spin_inv_def s')
  next
    case 3
    then have "at_c (sp_v s) \<noteq> 0" using s(3) by blast
    then show ?thesis using 3 s(1,4) ok by (auto simp: spin_inv_def s')
  qed
qed

lemma spin_inv_start: "spin_inv spin_start"
  by (simp add: spin_inv_def spin_start_def cpu_ok_def has_lock_def)

lemma spin_reach_inv: "spin_reach s \<Longrightarrow> spin_inv s"
  by (induction rule: spin_reach.induct) (auto intro: spin_inv_start spin_inv_step)

lemma inside_alone:
  assumes "spin_reach s" and "lc_pc (sp_cpu s i) \<in> {Inside, Clear}"
  shows "atomic_get (sp_v s) = 1" and "lc_pc (sp_cpu s j) \<in> {Inside, Clear} \<Longrightarrow> j = i"
proof -
  have inv: "spin_inv s" using assms(1) by (rule spin_reach_inv)
  have lock: "has_lock (sp_cpu s j)" if "lc_pc (sp_cpu s j) \<in> {Inside, Clear}" for j
    using that by (auto simp: has_lock_def)
  then show v: "atomic_get (sp_v s) = 1" using inv assms(2) by (auto simp: spin_inv_def atomic_get_def)
  then have "\<exists>!j. has_lock (sp_cpu s j)" using inv by (simp add: spin_inv_def atomic_get_def)
  then show "j = i" if "lc_pc (sp_cpu s j) \<in> {Inside, Clear}" using lock [OF that] lock [OF assms(2)] by blast
qed

text \<open>C12: The spin loop of \<^verbatim>\<open>arch_atomic_spinlock\<close> excludes: however the instructions of the processors interleave,
  at most one of them is in its critical section, and the lock word is 1 while there is one.\<close>

theorem spin_lock_excludes:
  assumes "spin_reach s" and "lc_pc (sp_cpu s i) \<in> {Inside, Clear}"
  shows "atomic_get (sp_v s) = 1 \<and> (\<forall>j. lc_pc (sp_cpu s j) \<in> {Inside, Clear} \<longrightarrow> j = i)"
  using inside_alone [OF assms] by blast

text \<open>The lock can be taken: a processor that finds the word 0 and is not interrupted is inside after eight
  instructions, from the call on; one that releases the lock has cleared the word after two.\<close>

primrec run_cpu :: "nat \<Rightarrow> nat \<Rightarrow> spin_state \<Rightarrow> spin_state" where
  "run_cpu 0 i s = s"
| "run_cpu (Suc n) i s =
     run_cpu n i (let (v, c) = spin_instr (sp_v s, sp_cpu s i) in \<lparr>sp_v = v, sp_cpu = (sp_cpu s)(i := c)\<rparr>)"

lemma run_cpu_reach: "spin_reach s \<Longrightarrow> spin_reach (run_cpu n i s)"
proof (induction n arbitrary: s)
  case (Suc n)
  have "spin_step s i (let (v, c) = spin_instr (sp_v s, sp_cpu s i) in \<lparr>sp_v = v, sp_cpu = (sp_cpu s)(i := c)\<rparr>)"
    by (cases "spin_instr (sp_v s, sp_cpu s i)") (simp add: spin_step_iff)
  then show ?case using Suc by (simp add: spin_reach.step)
qed simp

lemma takes_free_lock:
  assumes "lc_pc (sp_cpu s i) = Outside" and "atomic_get (sp_v s) = 0"
  shows "lc_pc (sp_cpu (run_cpu 8 i s) i) = Inside" and "j \<noteq> i \<Longrightarrow> sp_cpu (run_cpu 8 i s) j = sp_cpu s j"
  using assms by (simp_all add: numeral_eq_Suc spin_instr_def atomic_defs)

lemma releases_lock:
  assumes "lc_pc (sp_cpu s i) = Inside" and "atomic_get (sp_v s) \<noteq> 0"
  shows "lc_pc (sp_cpu (run_cpu 2 i s) i) = Outside" and "atomic_get (sp_v (run_cpu 2 i s)) = 0"
    and "j \<noteq> i \<Longrightarrow> sp_cpu (run_cpu 2 i s) j = sp_cpu s j"
  using assms by (simp_all add: numeral_eq_Suc spin_instr_def atomic_defs)

text \<open>The lock is handed over: once the holder has released it, a processor that waits outside gets it.\<close>

lemma lock_handed_over:
  assumes "spin_reach s" and "lc_pc (sp_cpu s i) = Inside" and "lc_pc (sp_cpu s j) = Outside"
  shows "lc_pc (sp_cpu (run_cpu 8 j (run_cpu 2 i s)) j) = Inside"
    and "lc_pc (sp_cpu (run_cpu 8 j (run_cpu 2 i s)) i) = Outside"
proof -
  have ne: "j \<noteq> i" using assms(2,3) by auto
  have "atomic_get (sp_v s) = 1" using inside_alone(1) [OF assms(1), of i] assms(2) by simp
  then have "lc_pc (sp_cpu (run_cpu 2 i s) i) = Outside" "atomic_get (sp_v (run_cpu 2 i s)) = 0"
    "lc_pc (sp_cpu (run_cpu 2 i s) j) = Outside" using releases_lock [OF assms(2)] ne assms(3) by simp_all
  then show "lc_pc (sp_cpu (run_cpu 8 j (run_cpu 2 i s)) j) = Inside"
    "lc_pc (sp_cpu (run_cpu 8 j (run_cpu 2 i s)) i) = Outside"
    using takes_free_lock [of "run_cpu 2 i s" j] ne by (simp_all only: simp_thms not_sym)
qed

lemma start_takes: "lc_pc (sp_cpu (run_cpu 8 1 spin_start) 1) = Inside"
  by (rule takes_free_lock) (simp_all add: spin_start_def atomic_get_def)

theorem spin_lock_excludes_witness:
  "atomic_get (sp_v (run_cpu 8 1 spin_start)) = 1 \<and> lc_pc (sp_cpu (run_cpu 8 1 spin_start) 0) \<notin> {Inside, Clear}"
proof -
  have "spin_reach (run_cpu 8 1 spin_start)" "lc_pc (sp_cpu (run_cpu 8 1 spin_start) 1) \<in> {Inside, Clear}"
    by (simp_all only: run_cpu_reach spin_reach.start start_takes insertI1)
  from spin_lock_excludes [OF this] show ?thesis by (metis zero_neq_one)
qed

end
