(* ===== verification/Mui_StrMem.thy ===== *)
theory Mui_StrMem
  imports Mui_CString
begin

text \<open>
  The routines of \<^verbatim>\<open>eza/amd64/strmem.c\<close>: blocks copied, filled and compared with the string instructions
  of the processor. The direction flag is clear, as the calling convention has it; the zero flag and the
  registers are what the caller left in them.
\<close>

section \<open>String instructions\<close>

record string_regs =
  sr_rax :: u64
  sr_rcx :: u64
  sr_rdi :: u64
  sr_rsi :: u64
  sr_zf :: bool
  sr_mem :: bytes

definition movsq :: "string_regs \<Rightarrow> string_regs" where
  "movsq r = r\<lparr>sr_mem := store_bytes (sr_rdi r) 8 (load_bytes (sr_mem r) (sr_rsi r) 8) (sr_mem r),
     sr_rdi := sr_rdi r + 8, sr_rsi := sr_rsi r + 8\<rparr>"

definition movsb :: "string_regs \<Rightarrow> string_regs" where
  "movsb r = r\<lparr>sr_mem := (sr_mem r)(sr_rdi r := sr_mem r (sr_rsi r)), sr_rdi := sr_rdi r + 1, sr_rsi := sr_rsi r + 1\<rparr>"

definition stosb :: "string_regs \<Rightarrow> string_regs" where
  "stosb r = r\<lparr>sr_mem := (sr_mem r)(sr_rdi r := ucast (sr_rax r)), sr_rdi := sr_rdi r + 1\<rparr>"

definition cmpsb :: "string_regs \<Rightarrow> string_regs" where
  "cmpsb r = r\<lparr>sr_zf := (sr_mem r (sr_rsi r) = sr_mem r (sr_rdi r)), sr_rdi := sr_rdi r + 1, sr_rsi := sr_rsi r + 1\<rparr>"

text \<open>The prefixes \<^verbatim>\<open>rep\<close> and \<^verbatim>\<open>repe\<close> with the number of rounds left in \<^verbatim>\<open>rcx\<close>.\<close>

fun rep_rounds :: "nat \<Rightarrow> (string_regs \<Rightarrow> string_regs) \<Rightarrow> string_regs \<Rightarrow> string_regs" where
  "rep_rounds 0 instr r = r"
| "rep_rounds (Suc n) instr r = (let r = instr r in rep_rounds n instr (r\<lparr>sr_rcx := sr_rcx r - 1\<rparr>))"

definition rep :: "(string_regs \<Rightarrow> string_regs) \<Rightarrow> string_regs \<Rightarrow> string_regs" where
  "rep instr r = rep_rounds (unat (sr_rcx r)) instr r"

fun repe_rounds :: "nat \<Rightarrow> (string_regs \<Rightarrow> string_regs) \<Rightarrow> string_regs \<Rightarrow> string_regs" where
  "repe_rounds 0 instr r = r"
| "repe_rounds (Suc n) instr r =
     (let r = instr r; r = r\<lparr>sr_rcx := sr_rcx r - 1\<rparr> in if sr_zf r then repe_rounds n instr r else r)"

definition repe :: "(string_regs \<Rightarrow> string_regs) \<Rightarrow> string_regs \<Rightarrow> string_regs" where
  "repe instr r = repe_rounds (unat (sr_rcx r)) instr r"

section \<open>Routines\<close>

definition str_memcpy :: "addr \<Rightarrow> addr \<Rightarrow> u64 \<Rightarrow> string_regs \<Rightarrow> addr \<times> string_regs" where
  "str_memcpy dest src size' r =
     (let r = r\<lparr>sr_rcx := size' div 8, sr_rdi := dest, sr_rsi := src\<rparr>;
          r = rep movsq r;
          r = r\<lparr>sr_rcx := size'\<rparr>;
          r = r\<lparr>sr_rcx := sr_rcx r AND 7, sr_zf := (sr_rcx r AND 7 = 0)\<rparr>
      in (dest, if sr_zf r then r else rep movsb r))"

text \<open>The result is the register, which the callers cut to an \<^verbatim>\<open>int\<close>.\<close>

definition str_memcmp :: "addr \<Rightarrow> addr \<Rightarrow> u64 \<Rightarrow> string_regs \<Rightarrow> int" where
  "str_memcmp dest src size' r =
     (let r = r\<lparr>sr_rax := 0, sr_rsi := src, sr_rdi := dest, sr_rcx := size'\<rparr>;
          r = repe cmpsb r;
          r = (if sr_zf r then r else let r = r\<lparr>sr_rax := sr_rcx r\<rparr> in r\<lparr>sr_rax := sr_rax r + 1\<rparr>)
      in sint (ucast (sr_rax r) :: u32))"

definition str_memsetb :: "addr \<Rightarrow> u64 \<Rightarrow> u8 \<Rightarrow> string_regs \<Rightarrow> string_regs" where
  "str_memsetb dest size' c r = rep stosb (r\<lparr>sr_rdi := dest, sr_rcx := size', sr_rax := ucast c\<rparr>)"

definition arch_memset :: "addr \<Rightarrow> u8 \<Rightarrow> u64 \<Rightarrow> string_regs \<Rightarrow> addr \<times> string_regs" where
  "arch_memset dest s size' r = (dest, str_memsetb dest size' s r)"

definition arch_memcpy :: "addr \<Rightarrow> addr \<Rightarrow> u64 \<Rightarrow> string_regs \<Rightarrow> addr \<times> string_regs" where
  "arch_memcpy dest src size' r = str_memcpy dest src size' r"

definition arch_memcmp :: "addr \<Rightarrow> addr \<Rightarrow> u64 \<Rightarrow> string_regs \<Rightarrow> int" where
  "arch_memcmp dest src size' r = str_memcmp dest src size' r"

section \<open>Eight bytes at once\<close>

lemma store_bytes_eq:
  assumes "k < 2 ^ 64"
  shows "store_bytes p k v m = (\<lambda>a. if in_block a p k then ucast (drop_bit (8 * unat (a - p)) v) else m a)"
  using assms
proof (induction k arbitrary: p v m)
  case 0
  then show ?case by (simp add: in_block_def)
next
  case (Suc k)
  have "unat (a - p) = Suc (unat (a - (p + 1)))" if "in_block a (p + 1) k" for a
    using that not_in_next_block [of k p] Suc.prems by (intro offset_step) auto
  then have "ucast (drop_bit (8 * unat (a - (p + 1))) (drop_bit 8 v)) = (ucast (drop_bit (8 * unat (a - p)) v) :: u8)"
    if "in_block a (p + 1) k" for a
    using that by (simp add: drop_bit_drop_bit add.commute)
  moreover have "store_bytes (p + 1) k (drop_bit 8 v) (m(p := ucast v)) =
      (\<lambda>a. if in_block a (p + 1) k then ucast (drop_bit (8 * unat (a - (p + 1))) (drop_bit 8 v)) else (m(p := ucast v)) a)"
    using Suc.prems by (intro Suc.IH) simp
  ultimately show ?case
    using Suc.prems not_in_next_block [of k p] in_block_Suc [of k _ p] by (auto simp: fun_eq_iff)
qed

lemma load_bytes_byte:
  "j < k \<Longrightarrow> k \<le> 8 \<Longrightarrow> ucast (drop_bit (8 * j) (load_bytes m s k)) = m (s + of_nat j)"
proof (induction k arbitrary: s j)
  case 0
  then show ?case by simp
next
  case (Suc k)
  show ?case
  proof (cases j)
    case 0
    have "ucast (ucast (m s) OR push_bit 8 (load_bytes m (s + 1) k) :: u64) = m s"
      by (rule bit_word_eqI) (auto simp: bit_simps)
    then show ?thesis using 0 by simp
  next
    case j: (Suc i)
    have "ucast (drop_bit (8 * j) (ucast (m s) OR push_bit 8 (load_bytes m (s + 1) k) :: u64)) =
        (ucast (drop_bit (8 * i) (load_bytes m (s + 1) k)) :: u8)"
      using j Suc.prems by (intro bit_word_eqI) (auto simp: bit_simps dest: bit_imp_le_length)
    then show ?thesis using Suc.IH [of i "s + 1"] Suc.prems j by (simp add: add.assoc)
  qed
qed

lemma copy_chars_add:
  "copy_chars to from (k + n) m = copy_chars (to + of_nat k) (from + of_nat k) n (copy_chars to from k m)"
  by (induction k arbitrary: to "from" m) (simp_all add: add.assoc)

lemma movsq_copies:
  assumes "dest = src \<or> 8 \<le> unat (dest - src)"
  shows "store_bytes dest 8 (load_bytes m src 8) m = copy_chars dest src 8 m"
proof -
  have "ucast (drop_bit (8 * unat (a - dest)) (load_bytes m src 8)) = m (src + (a - dest))" if "in_block a dest 8" for a
    using load_bytes_byte [of "unat (a - dest)" 8 m src] that by (simp add: in_block_def)
  then show ?thesis using assms by (subst store_bytes_eq, simp, subst copy_chars_eq) (auto simp: fun_eq_iff)
qed

lemma rep_movsq:
  assumes "dest = src \<or> 8 * n \<le> unat (dest - src)" and "sr_rdi r = dest" and "sr_rsi r = src"
  shows "sr_mem (rep_rounds n movsq r) = copy_chars dest src (8 * n) (sr_mem r) \<and>
    sr_rdi (rep_rounds n movsq r) = dest + of_nat (8 * n) \<and> sr_rsi (rep_rounds n movsq r) = src + of_nat (8 * n)"
  using assms
proof (induction n arbitrary: r dest src)
  case 0
  then show ?case by simp
next
  case (Suc n)
  let ?r = "(movsq r)\<lparr>sr_rcx := sr_rcx (movsq r) - 1\<rparr>"
  have m: "sr_mem ?r = copy_chars dest src 8 (sr_mem r)" "sr_rdi ?r = dest + 8" "sr_rsi ?r = src + 8"
    using Suc.prems movsq_copies [of dest src] by (auto simp: movsq_def)
  have "sr_mem (rep_rounds n movsq ?r) = copy_chars (dest + 8) (src + 8) (8 * n) (sr_mem ?r) \<and>
      sr_rdi (rep_rounds n movsq ?r) = dest + 8 + of_nat (8 * n) \<and> sr_rsi (rep_rounds n movsq ?r) = src + 8 + of_nat (8 * n)"
    using Suc.prems(1) m(2,3) by (intro Suc.IH) auto
  then show ?case using m(1) copy_chars_add [of dest src 8 "8 * n" "sr_mem r"] by (simp add: Let_def algebra_simps)
qed

lemma rep_movsb:
  "sr_mem (rep_rounds n movsb r) = copy_chars (sr_rdi r) (sr_rsi r) n (sr_mem r)"
  by (induction n arbitrary: r) (simp_all add: movsb_def Let_def)

lemma rep_stosb:
  "sr_mem (rep_rounds n stosb r) = fill_chars (ucast (sr_rax r)) (sr_rdi r) n (sr_mem r)"
proof (induction n arbitrary: r)
  case (Suc n)
  have "ucast (ucast (sr_rax r) :: u32) = (ucast (sr_rax r) :: u8)" by (rule bit_word_eqI) (auto simp: bit_simps)
  then show ?case using Suc by (simp add: stosb_def Let_def fun_upd_def)
qed simp

text \<open>A comparison stops after the first pair of bytes that differ.\<close>

lemma repe_cmpsb:
  assumes "n < 2 ^ 64" and "sr_rcx r = of_nat n" and "n \<noteq> 0 \<or> sr_zf r"
  defines "t \<equiv> repe_rounds n cmpsb r"
  shows "sr_rax t = sr_rax r \<and>
    (if \<forall>i<n. sr_mem r (sr_rsi r + of_nat i) = sr_mem r (sr_rdi r + of_nat i) then sr_zf t
     else \<not> sr_zf t \<and> unat (sr_rcx t) < n)"
  using assms(1-3) unfolding t_def
proof (induction n arbitrary: r)
  case 0
  then show ?case by simp
next
  case (Suc n)
  let ?r = "(cmpsb r)\<lparr>sr_rcx := sr_rcx (cmpsb r) - 1\<rparr>"
  have rcx: "sr_rcx ?r = of_nat n" using Suc.prems(2) by (simp add: cmpsb_def)
  have regs: "sr_mem ?r = sr_mem r" "sr_rsi ?r = sr_rsi r + 1" "sr_rdi ?r = sr_rdi r + 1" "sr_rax ?r = sr_rax r"
    by (simp_all add: cmpsb_def)
  have all: "(\<forall>i<Suc n. f (s + of_nat i) = f (d + of_nat i)) \<longleftrightarrow> f s = f d \<and> (\<forall>i<n. f (s + 1 + of_nat i) = f (d + 1 + of_nat i))"
    for f :: bytes and s d by (auto simp: less_Suc_eq_0_disj add.assoc)
  show ?case
  proof (cases "sr_zf ?r")
    case True
    then have "sr_mem r (sr_rsi r) = sr_mem r (sr_rdi r)" by (simp add: cmpsb_def)
    moreover have "sr_rax (repe_rounds n cmpsb ?r) = sr_rax r \<and>
        (if \<forall>i<n. sr_mem r (sr_rsi r + 1 + of_nat i) = sr_mem r (sr_rdi r + 1 + of_nat i) then sr_zf (repe_rounds n cmpsb ?r)
         else \<not> sr_zf (repe_rounds n cmpsb ?r) \<and> unat (sr_rcx (repe_rounds n cmpsb ?r)) < n)"
      using Suc.IH [of ?r, unfolded regs] Suc.prems(1) rcx True by (metis Suc_lessD)
    moreover have "repe_rounds (Suc n) cmpsb r = repe_rounds n cmpsb ?r" using True by (simp add: Let_def)
    ultimately show ?thesis unfolding all by (simp only: simp_thms) (metis less_SucI)
  next
    case False
    then have "sr_mem r (sr_rsi r) \<noteq> sr_mem r (sr_rdi r)" "repe_rounds (Suc n) cmpsb r = ?r" by (simp_all add: cmpsb_def Let_def)
    moreover have "unat (sr_rcx ?r) = n" using rcx Suc.prems(1) by (simp add: unat_of_nat_small)
    ultimately show ?thesis unfolding all using False by (simp add: cmpsb_def)
  qed
qed

section \<open>Properties\<close>

text \<open>C27: The routines with string instructions do what the C routines that are compiled in their place do: the copy
  in 64-bit units with a rest of bytes is the copy byte by byte when the destination does not start inside the source,
  and the filling is that of \<^verbatim>\<open>memset\<close> for every block.\<close>

theorem arch_routines_agree:
  assumes "dest = src \<or> unat n \<le> unat (dest - src)"
  shows "fst (arch_memcpy dest src n r) = dest \<and> sr_mem (snd (arch_memcpy dest src n r)) = memcpy dest src n (sr_mem r) \<and>
    fst (arch_memset s c n r) = s \<and> sr_mem (snd (arch_memset s c n r)) = memset s (ucast c) n (sr_mem r)"
proof -
  let ?q = "unat n div 8" and ?b = "unat n mod 8"
  have n: "unat n < 2 ^ 64" using unsigned_less [of n, where 'a = nat] by simp
  have q: "unat (n div 8) = ?q" by (simp add: unat_div)
  have "n AND 7 = n AND mask 3" by (simp add: mask_eq_exp_minus_1)
  then have b: "unat (n AND 7) = ?b" by (simp add: unat_and_mask)
  define r1 where "r1 = rep movsq (r\<lparr>sr_rcx := n div 8, sr_rdi := dest, sr_rsi := src\<rparr>)"
  have "dest = src \<or> 8 * ?q \<le> unat (dest - src)" using assms by linarith
  then have r1: "sr_mem r1 = copy_chars dest src (8 * ?q) (sr_mem r)" "sr_rdi r1 = dest + of_nat (8 * ?q)" "sr_rsi r1 = src + of_nat (8 * ?q)"
    using rep_movsq [of dest src ?q "r\<lparr>sr_rcx := n div 8, sr_rdi := dest, sr_rsi := src\<rparr>"] by (simp_all add: r1_def rep_def q)
  have run: "arch_memcpy dest src n r = (dest, if n AND 7 = 0 then r1\<lparr>sr_rcx := 0, sr_zf := True\<rparr>
      else rep movsb (r1\<lparr>sr_rcx := n AND 7, sr_zf := False\<rparr>))"
    by (simp add: arch_memcpy_def str_memcpy_def Let_def r1_def)
  have tail: "sr_mem (snd (arch_memcpy dest src n r)) = copy_chars (sr_rdi r1) (sr_rsi r1) ?b (sr_mem r1)"
  proof (cases "n AND 7 = 0")
    case True
    then have "?b = 0" using b by simp
    then show ?thesis using True by (simp add: run)
  next
    case False
    then show ?thesis using rep_movsb [of "unat (n AND 7)" "r1\<lparr>sr_rcx := n AND 7, sr_zf := False\<rparr>"]
      by (simp add: run rep_def b)
  qed
  also have "\<dots> = memcpy dest src n (sr_mem r)"
    unfolding r1 copy_chars_add [symmetric] memcpy_def by simp
  finally have "sr_mem (snd (arch_memcpy dest src n r)) = memcpy dest src n (sr_mem r)" .
  moreover have "fst (arch_memcpy dest src n r) = dest" by (simp add: arch_memcpy_def str_memcpy_def Let_def)
  moreover have "ucast (ucast (ucast c :: u64) :: u32) = c" "ucast (ucast c :: u32) = c" by (rule bit_word_eqI, auto simp: bit_simps)+
  note narrow = this
  let ?r = "r\<lparr>sr_rdi := s, sr_rcx := n, sr_rax := ucast c\<rparr>"
  have "sr_mem (snd (arch_memset s c n r)) = sr_mem (rep_rounds (unat n) stosb ?r)"
    by (simp add: arch_memset_def str_memsetb_def rep_def)
  then have "sr_mem (snd (arch_memset s c n r)) = memset s (ucast c) n (sr_mem r)"
    using rep_stosb [of "unat n" ?r] fill_chars_eq [OF n, of "ucast (sr_rax ?r)" s] narrow
    by (simp add: memset_fills cong: if_cong)
  ultimately show ?thesis by (simp add: arch_memset_def)
qed

text \<open>A comparison of 1 to \<open>2 ^ 31 - 1\<close> bytes answers 0 for equal blocks, as \<^verbatim>\<open>memcmp\<close> does, but a positive
  number for every difference; of no bytes it answers what the zero flag happens to be.\<close>

theorem arch_memcmp_unordered:
  "0 < n \<Longrightarrow> n < 2 ^ 31 \<Longrightarrow> (arch_memcmp p1 p2 n r = 0) = (memcmp (sr_mem r) p1 p2 n = 0) \<and> 0 \<le> arch_memcmp p1 p2 n r"
  "arch_memcmp p1 p2 0 r = (if sr_zf r then 0 else 1)"
proof -
  assume n: "0 < n" "n < 2 ^ 31"
  let ?r = "r\<lparr>sr_rax := 0, sr_rsi := p2, sr_rdi := p1, sr_rcx := n\<rparr>"
  let ?t = "repe_rounds (unat n) cmpsb ?r"
  let ?eq = "\<forall>i<unat n. sr_mem r (p2 + of_nat i) = sr_mem r (p1 + of_nat i)"
  have nonzero: "0 < unat n" using n(1) by (simp add: unat_gt_0 word_greater_zero_iff)
  have small: "unat n < 2 ^ 31" using n(2) by (simp add: word_less_nat_alt)
  have t: "sr_rax ?t = 0" "if ?eq then sr_zf ?t else \<not> sr_zf ?t \<and> unat (sr_rcx ?t) < unat n"
    using repe_cmpsb [of "unat n" ?r] nonzero small by simp_all
  have res: "arch_memcmp p1 p2 n r = sint (ucast (if sr_zf ?t then sr_rax ?t else sr_rcx ?t + 1) :: u32)"
    by (simp add: arch_memcmp_def str_memcmp_def Let_def repe_def)
  have eq: "memcmp (sr_mem r) p1 p2 n = 0 \<longleftrightarrow> ?eq" by (auto simp: memcmp_def compare_chars_equal)
  show "(arch_memcmp p1 p2 n r = 0) = (memcmp (sr_mem r) p1 p2 n = 0) \<and> 0 \<le> arch_memcmp p1 p2 n r"
  proof (cases ?eq)
    case True
    then show ?thesis using t unfolding eq res by simp
  next
    case False
    define k where "k = Suc (unat (sr_rcx ?t))"
    have k: "\<not> sr_zf ?t" "0 < k" "k < 2 ^ 31" using t(2) False small by (auto simp: k_def)
    have "sr_rcx ?t + 1 = of_nat k" by (simp add: k_def add.commute)
    then have "(ucast (sr_rcx ?t + 1) :: u32) = of_nat k" using k(3) by (simp add: unsigned_of_nat take_bit_nat_eq_self)
    moreover have "sint (of_nat k :: u32) = int k"
      using k(3) by (simp add: signed_of_nat signed_take_bit_int_eq_self)
    ultimately show ?thesis using k False unfolding eq res by simp
  qed
next
  show "arch_memcmp p1 p2 0 r = (if sr_zf r then 0 else 1)"
    by (simp add: arch_memcmp_def str_memcmp_def Let_def repe_def)
qed

theorem arch_routines_agree_witness:
  "sr_mem (snd (arch_memcpy 0x200 0x100 13 \<lparr>sr_rax = 0, sr_rcx = 0, sr_rdi = 0, sr_rsi = 0, sr_zf = False, sr_mem = sample_bytes\<rparr>)) =
    memcpy 0x200 0x100 13 sample_bytes"
  using arch_routines_agree [of "0x200" "0x100" 13
      "\<lparr>sr_rax = 0, sr_rcx = 0, sr_rdi = 0, sr_rsi = 0, sr_zf = False, sr_mem = sample_bytes\<rparr>"] by simp

end
