(* ===== verification/Mui_BuddyFree.thy ===== *)
theory Mui_BuddyFree
  imports Mui_Buddy
begin

text \<open>
  The release of a block, \<^verbatim>\<open>bbuddy_block_release\<close> of \<^verbatim>\<open>mm/bbuddy.c\<close>, on a buddy of 32 to 63 blocks. In
  a tidy tree no two siblings are free and the nodes above a free one are split; an allocation keeps it tidy, and the
  release of the block just allocated brings the free nodes back. A release that joins two blocks marks every node of a
  word as not split, and the next release may free a block that holds blocks in use.
\<close>

declare block_alloc.simps [code] split_up.simps [code] block_release.simps [code]

section \<open>Nodes\<close>

definition sibling :: "nat \<Rightarrow> nat" where
  "sibling v = (if v mod 2 = 0 then v + 1 else v - 1)"

definition tidy :: "bbuddy \<Rightarrow> bool" where
  "tidy b \<longleftrightarrow> small_tree b \<and> 32 \<le> bb_pn b \<and> bb_pn b < 64 \<and> apart (frees b) \<and>
     (\<forall>v\<in>frees b. 2 \<le> v \<longrightarrow> sibling v \<notin> frees b) \<and>
     (\<forall>v\<in>frees b. \<forall>k. 1 \<le> k \<and> 1 \<le> v div 2 ^ k \<longrightarrow> v div 2 ^ k \<in> splits b)"

lemma node_layer:
  assumes "1 \<le> (x :: nat)" and "x < 64"
  shows "\<exists>l\<le>5. 2 ^ l \<le> x \<and> x < 2 ^ Suc l"
proof -
  consider "x < 2" | "2 \<le> x" "x < 4" | "4 \<le> x" "x < 8" | "8 \<le> x" "x < 16" | "16 \<le> x" "x < 32" | "32 \<le> x" by linarith
  then show ?thesis
  proof cases
    case 1 then show ?thesis using assms by (intro exI [of _ 0]) simp
  next
    case 2 then show ?thesis by (intro exI [of _ 1]) simp
  next
    case 3 then show ?thesis by (intro exI [of _ 2]) simp
  next
    case 4 then show ?thesis by (intro exI [of _ 3]) simp
  next
    case 5 then show ?thesis by (intro exI [of _ 4]) simp
  next
    case 6 then show ?thesis using assms by (intro exI [of _ 5]) simp
  qed
qed

lemma apart_anc:
  assumes "apart F" and "x \<in> F" and "x < 64" and "1 \<le> k" and "1 \<le> x div 2 ^ k"
  shows "x div 2 ^ k \<notin> F"
proof -
  have "1 \<le> x" using assms(5) by (cases x) simp_all
  then obtain l where l: "l \<le> 5" "2 ^ l \<le> x" "x < 2 ^ Suc l" using node_layer assms(3) by blast
  have "(2 :: nat) ^ k < 2 ^ Suc l"
  proof -
    have "2 ^ k \<le> x" using assms(5) by (cases "x < 2 ^ k") simp_all
    then show ?thesis using l(3) by simp
  qed
  then have "k \<le> l" by (simp add: power_strict_increasing_iff less_Suc_eq_le del: power_Suc)
  then show ?thesis using apart_above [OF assms(1,2) l(2,3,1) assms(4)] by simp
qed

text \<open>A node of which no unit is free: neither it nor a node above it is.\<close>

lemma taken_above:
  assumes "2 ^ l \<le> w" and "w < 2 ^ Suc l" and "l \<le> 5" and "free_units F \<inter> block_units l w = {}" and "1 \<le> w div 2 ^ k"
  shows "w div 2 ^ k \<notin> F"
proof
  assume F: "w div 2 ^ k \<in> F"
  have p: "(2 :: nat) ^ l * 2 ^ (5 - l) = 32" "(2 :: nat) ^ Suc l * 2 ^ (5 - l) = 64"
    using assms(3) by (simp_all flip: power_add)
  have "2 ^ k \<le> w" using assms(5) by (cases "w < 2 ^ k") simp_all
  then have "(2 :: nat) ^ k < 2 ^ Suc l" using assms(2) by simp
  then have k: "k \<le> l" by (simp add: power_strict_increasing_iff less_Suc_eq_le del: power_Suc)
  then have e: "5 - (l - k) = (5 - l) + k" using assms(3) by simp
  define u where "u = w * 2 ^ (5 - l)"
  have "2 ^ l * 2 ^ (5 - l) \<le> u" unfolding u_def by (rule mult_le_mono1 [OF assms(1)])
  moreover have "u < 2 ^ Suc l * 2 ^ (5 - l)" unfolding u_def using assms(2) by (intro mult_strict_right_mono) simp_all
  ultimately have u: "u \<in> units" unfolding p by (simp add: units_def)
  have "path u l = w" "path u (l - k) = w div 2 ^ k"
    unfolding path_def u_def e by (simp_all add: power_add div_mult2_eq)
  then have "u \<in> block_units l w" "u \<in> free_units F"
    using u F assms(3) by (auto simp: block_units_def free_units_def intro!: exI [of _ "l - k"])
  then show False using assms(4) by blast
qed

lemma node_place:
  assumes "i \<le> 5" and "k < 2 ^ i"
  shows "bbuddy_indexp (2 ^ i) (of_nat k) = of_nat ((2 ^ i + k) div 32)"
    and "node_bit (2 ^ i) (of_nat k) = of_nat ((2 ^ i + k) mod 32)"
proof -
  have "(2 :: nat) ^ i \<le> 2 ^ 5" using assms(1) by (intro power_increasing) simp_all
  then have k: "k < 32" "unat (of_nat k :: u32) = k" using assms(2) by (simp, intro unat_of_nat_small) simp
  have top: "drop_bit 5 (of_nat k :: u32) = 0"
  proof -
    have "unat (drop_bit 5 (of_nat k :: u32)) = 0" unfolding unat_drop_bit k(2) using k(1) by simp
    then show ?thesis by (simp only: word_unat_eq_iff unat_0)
  qed
  consider "i < 5" | "i = 5" using assms(1) by linarith
  then have "bbuddy_indexp (2 ^ i) (of_nat k) = of_nat ((2 ^ i + k) div 32) \<and>
    node_bit (2 ^ i) (of_nat k) = of_nat ((2 ^ i + k) mod 32)"
  proof cases
    case 1
    then have "(2 :: nat) ^ Suc i \<le> 2 ^ 5" by (intro power_increasing) simp_all
    then have "2 ^ i + k < 32" using assms(2) by simp
    moreover have "(2 ^ i :: u32) < 32" using small_layers [OF 1] by auto
    ultimately show ?thesis using layer_words(1) [OF 1] by (simp add: bbuddy_indexp_def node_bit_def add.commute)
  next
    case 2
    then have "(2 ^ i + k) div 32 = 1" "(2 ^ i + k) mod 32 = k" using k(1) by (simp_all add: div_nat_eqI)
    then show ?thesis using 2 top by (simp add: bbuddy_indexp_def node_bit_def bbuddy_indexbn_def drop_bit_eq_div)
  qed
  then show "bbuddy_indexp (2 ^ i) (of_nat k) = of_nat ((2 ^ i + k) div 32)"
    "node_bit (2 ^ i) (of_nat k) = of_nat ((2 ^ i + k) mod 32)" by blast+
qed

lemma node_read:
  assumes "tree b F S n" and "v < 64"
  obtains nw pw where "nb_read (of_nat (v div 32)) b = Inr nw" "pb_read (of_nat (v div 32)) b = Inr pw"
    "\<And>u. u < 64 \<Longrightarrow> u div 32 = v div 32 \<Longrightarrow> nw AND shl1 (of_nat (u mod 32)) = 0 \<longleftrightarrow> u \<notin> F"
    "pw AND shl1 (of_nat (v mod 32)) = 0 \<longleftrightarrow> v \<in> S"
proof -
  note b = treeD [OF assms(1)]
  have "v div 32 < 2" using assms(2) by simp
  then have "unat (of_nat (v div 32) :: u32) = v div 32" by (intro unat_of_nat_small) simp
  then have "nb_read (of_nat (v div 32)) b = Inr (bb_area b ! (2 + v div 32))"
    "pb_read (of_nat (v div 32)) b = Inr (bb_area b ! (v div 32))"
    using b(1) \<open>v div 32 < 2\<close> by (simp_all add: nb_read_def pb_read_def area_read_def small_tree_def del: of_nat_div)
  moreover have "bb_area b ! (2 + v div 32) AND shl1 (of_nat (u mod 32)) = 0 \<longleftrightarrow> u \<notin> F" if "u < 64" "u div 32 = v div 32" for u
    using and_shl1 [of "u mod 32" "bb_area b ! (2 + v div 32)"] that b(2) by (auto simp: frees_iff)
  moreover have "bb_area b ! (v div 32) AND shl1 (of_nat (v mod 32)) = 0 \<longleftrightarrow> v \<in> S"
    using and_shl1 [of "v mod 32" "bb_area b ! (v div 32)"] assms(2) b(3) by (auto simp: splits_iff)
  ultimately show thesis using that by blast
qed

section \<open>Joining free siblings\<close>

text \<open>The node whose bit \<^verbatim>\<open>n + succ\<close> is, for block \<open>k\<close> of layer \<open>2 ^ i\<close>.\<close>

definition other_node :: "nat \<Rightarrow> nat \<Rightarrow> nat" where
  "other_node i k = (if k mod 2 = 0 then 2 ^ i + k + 1 else 2 ^ i + k - 1)"

lemma word_odd:
  assumes "k < 2 ^ 32"
  shows "(of_nat k :: u32) mod 2 \<noteq> 0 \<longleftrightarrow> k mod 2 \<noteq> 0"
proof -
  have "unat (of_nat k :: u32) = k" using assms by (intro unat_of_nat_small) simp
  then have "unat ((of_nat k :: u32) mod 2) = k mod 2" by (simp add: unat_mod)
  then show ?thesis by (simp add: word_unat_eq_iff)
qed

lemma word_half:
  assumes "k < 2 ^ 32"
  shows "drop_bit 1 (of_nat k) = (of_nat (k div 2) :: u32)"
proof -
  have k: "unat (of_nat k :: u32) = k" "unat (of_nat (k div 2) :: u32) = k div 2"
    using assms by (auto intro!: unat_of_nat_small simp del: of_nat_div)
  show ?thesis by (simp only: word_unat_eq_iff unat_drop_bit k) simp
qed

lemma other_place:
  assumes "i \<le> 5" and "k < 2 ^ i"
  defines "v \<equiv> 2 ^ i + k" and "w \<equiv> other_node i k"
  shows "v < 64" and "w < 64" and "w div 32 = v div 32"
    and "(of_nat (v mod 32) :: u32) + (if (of_nat k :: u32) mod 2 \<noteq> 0 then - 1 else 1) = of_nat (w mod 32)"
proof -
  have i: "i = 0 \<or> i = 1 \<or> i = 2 \<or> i = 3 \<or> i = 4 \<or> i = 5" using assms(1) by linarith
  have "(2 :: nat) ^ i \<le> 2 ^ 5" using assms(1) by (intro power_increasing) simp_all
  then have "v < 64" using assms(2) by (simp add: v_def)
  have even: "v mod 2 = k mod 2" if i0: "i \<noteq> 0"
  proof -
    obtain j where "i = Suc j" using i0 by (cases i) simp_all
    then have "v = k + 2 * 2 ^ j" by (simp add: v_def)
    then show ?thesis by simp
  qed
  have odd: "(of_nat k :: u32) mod 2 \<noteq> 0 \<longleftrightarrow> k mod 2 \<noteq> 0"
    using assms(2) \<open>(2 :: nat) ^ i \<le> 2 ^ 5\<close> by (intro word_odd) simp
  have "w div 32 = v div 32 \<and> w mod 32 = (if k mod 2 = 0 then v mod 32 + 1 else v mod 32 - 1) \<and> (k mod 2 \<noteq> 0 \<longrightarrow> 1 \<le> v mod 32)"
  proof (cases "i = 0")
    case True
    then show ?thesis using assms(2) by (simp add: v_def w_def other_node_def)
  next
    case False
    note ev = even [OF False]
    have split: "v = 2 * (v div 2) + v mod 2" by simp
    show ?thesis
    proof (cases "k mod 2 = 0")
      case True
      have half: "v = 2 * (v div 2)" using split unfolding ev True by simp
      have "w = Suc v" using True by (simp add: w_def other_node_def v_def)
      then show ?thesis using double_place [of "v div 2"] True unfolding half [symmetric] by simp
    next
      case False
      then have "v mod 2 = 1" using ev by simp
      then have half: "v = Suc (2 * (v div 2))" using split by simp
      have "w = v - 1" using False by (simp add: w_def other_node_def v_def)
      then have w: "w = 2 * (v div 2)" using half by linarith
      then have "v = Suc w" using half by linarith
      then show ?thesis using double_place [of "v div 2"] False unfolding w [symmetric] by simp
    qed
  qed
  then have w: "w div 32 = v div 32" "w mod 32 = (if k mod 2 = 0 then v mod 32 + 1 else v mod 32 - 1)" "k mod 2 \<noteq> 0 \<Longrightarrow> 1 \<le> v mod 32"
    by blast+
  show "v < 64" "w div 32 = v div 32" by fact+
  then have "w div 32 < 2" by simp
  then show "w < 64" by (simp add: div_less_iff_less_mult)
  show "(of_nat (v mod 32) :: u32) + (if (of_nat k :: u32) mod 2 \<noteq> 0 then - 1 else 1) = of_nat (w mod 32)"
    unfolding odd w(2) using w(3) by (simp add: of_nat_diff del: of_nat_mod)
qed

lemma pb_any:
  assumes "tree b F S n" and "p < 2"
  obtains b' S' where "pb_upd (of_nat p) f b = Inr b'" "tree b' F S' n"
  using pb_upd_tree [OF assms, of f] by blast

lemma split_stop:
  assumes "tree b F S n" and "i \<le> 5" and "k < 2 ^ i" and "other_node i k \<notin> F"
  shows "split_up (2 ^ i) (of_nat k) b = Some (Inr (0, b))"
proof -
  note place = other_place [OF assms(2,3)] and node = node_place [OF assms(2,3)]
  obtain nw pw where r: "nb_read (of_nat ((2 ^ i + k) div 32)) b = Inr nw"
    "\<And>u. u < 64 \<Longrightarrow> u div 32 = (2 ^ i + k) div 32 \<Longrightarrow> nw AND shl1 (of_nat (u mod 32)) = 0 \<longleftrightarrow> u \<notin> F"
    using node_read [OF assms(1) place(1)] by blast
  have "nw AND shl1 (of_nat (other_node i k mod 32)) = 0" using r(2) [OF place(2,3)] assms(4) by blast
  then show ?thesis
    by (subst split_up.simps) (simp only: Let_def node r(1) obind_simps place(4) if_False simp_thms not_True_eq_False)
qed

lemma split_merge:
  assumes "tree b F S n" and "1 \<le> i" and "i \<le> 5" and "k < 2 ^ i" and "other_node i k \<in> F"
  obtains b' S' where "split_up (2 ^ i) (of_nat k) b =
      (if 1 < i then split_up (2 ^ (i - 1)) (of_nat (k div 2)) b' else Some (Inr (0, b')))"
    "tree b' (insert ((2 ^ i + k) div 2) (F - {other_node i k} - {2 ^ i + k})) S' n"
proof -
  let ?v = "2 ^ i + k" and ?w = "other_node i k" and ?x = "2 ^ (i - 1) + k div 2"
  note place = other_place [OF assms(3,4)] and node = node_place [OF assms(3,4)]
  have j: "i - 1 \<le> 5" "k div 2 < 2 ^ (i - 1)" and x: "?v div 2 = ?x" and p2: "?v div 32 < 2"
  proof -
    obtain j where i: "i = Suc j" using assms(2) by (cases i) simp_all
    show "i - 1 \<le> 5" "k div 2 < 2 ^ (i - 1)" "?v div 2 = ?x" using assms(3,4) by (simp_all add: i)
    show "?v div 32 < 2" using place(1) by simp
  qed
  note up = other_place(1) [OF j] and up_node = node_place [OF j]
  obtain nw pw where r: "nb_read (of_nat (?v div 32)) b = Inr nw"
    "\<And>u. u < 64 \<Longrightarrow> u div 32 = ?v div 32 \<Longrightarrow> nw AND shl1 (of_nat (u mod 32)) = 0 \<longleftrightarrow> u \<notin> F"
    using node_read [OF assms(1) place(1)] by blast
  have free: "nw AND shl1 (of_nat (?w mod 32)) \<noteq> 0" using r(2) [OF place(2,3)] assms(5) by blast
  obtain b1 where b1: "nb_upd (of_nat (?v div 32)) (\<lambda>w. w AND NOT (shl1 (of_nat (?w mod 32)))) b = Inr b1" "tree b1 (F - {?w}) S n"
    using clear_node [OF assms(1) place(2)] unfolding place(3) by blast
  obtain b2 where b2: "nb_upd (of_nat (?v div 32)) (\<lambda>w. w AND NOT (shl1 (of_nat (?v mod 32)))) b1 = Inr b2" "tree b2 (F - {?w} - {?v}) S n"
    using clear_node [OF b1(2) place(1)] by blast
  obtain b3 S3 where b3: "pb_upd (of_nat (?v div 32)) (\<lambda>w. w OR NOT (shl1 (of_nat (?w mod 32)))) b2 = Inr b3" "tree b3 (F - {?w} - {?v}) S3 n"
    using pb_any [OF b2(2) p2] .
  obtain b4 S4 where b4: "pb_upd (of_nat (?v div 32)) (\<lambda>w. w OR NOT (shl1 (of_nat (?v mod 32)))) b3 = Inr b4" "tree b4 (F - {?w} - {?v}) S4 n"
    using pb_any [OF b3(2) p2] .
  obtain b5 where b5: "nb_upd (of_nat (?x div 32)) (\<lambda>w. w OR shl1 (of_nat (?x mod 32))) b4 = Inr b5" "tree b5 (insert ?x (F - {?w} - {?v})) S4 n"
    using set_node [OF b4(2) up] by blast
  obtain b6 where b6: "pb_upd (of_nat (?x div 32)) (\<lambda>w. w OR shl1 (of_nat (?x mod 32))) b5 = Inr b6"
    "tree b6 (insert ?x (F - {?w} - {?v})) (S4 - {?x}) n"
    using join_node [OF b5(2) up] by blast
  have align: "drop_bit 1 (2 ^ i :: u32) = 2 ^ (i - 1)" "1 < (2 ^ (i - 1) :: u32) \<longleftrightarrow> 1 < i"
  proof -
    have "i = 1 \<or> i = 2 \<or> i = 3 \<or> i = 4 \<or> i = 5" using assms(2,3) by linarith
    then show "drop_bit 1 (2 ^ i :: u32) = 2 ^ (i - 1)" "1 < (2 ^ (i - 1) :: u32) \<longleftrightarrow> 1 < i" by (auto simp: drop_bit_eq_div)
  qed
  have half: "drop_bit 1 (if (of_nat k :: u32) mod 2 \<noteq> 0 then of_nat k - 1 else of_nat k) = (of_nat (k div 2) :: u32)"
  proof -
    have "(2 :: nat) ^ i \<le> 2 ^ 5" using assms(3) by (intro power_increasing) simp_all
    then have k: "k < 2 ^ 32" using assms(4) by simp
    show ?thesis
    proof (cases "k mod 2 = 0")
      case True
      then show ?thesis using word_odd [OF k] word_half [OF k] by simp
    next
      case False
      then have "0 < k" by (cases k) simp_all
      then have "(of_nat k :: u32) - 1 = of_nat (k - 1)" "(k - 1) div 2 = k div 2" using False
        by (simp_all add: of_nat_diff) presburger
      then show ?thesis using False word_odd [OF k] word_half [of "k - 1"] k by simp
    qed
  qed
  have "split_up (2 ^ i) (of_nat k) b = (if 1 < i then split_up (2 ^ (i - 1)) (of_nat (k div 2)) b6 else Some (Inr (0, b6)))"
    by (subst split_up.simps) (simp only: Let_def node up_node r(1) free obind_simps place(4) if_True simp_thms not_False_eq_True
      b1(1) b2(1) b3(1) b4(1) b5(1) b6(1) align half)
  with that b6(2) x show thesis by metis
qed

section \<open>A release after an allocation\<close>

lemma merge_chain:
  assumes "apart F" and "v \<in> F" and "2 ^ l \<le> v" and "v < 2 ^ Suc l" and "l + m \<le> 5"
    and "2 \<le> v \<longrightarrow> sibling v \<notin> F" and "tree b (insert (v * 2 ^ m) (chain F v m)) S n"
  shows "\<exists>b' S'. split_up (2 ^ (l + m)) (of_nat (v * 2 ^ m - 2 ^ (l + m))) b = Some (Inr (0, b')) \<and> tree b' F S' n"
  using assms(5,7)
proof (induction m arbitrary: b S)
  case 0
  let ?k = "v - 2 ^ l"
  have b: "tree b F S n" using "0.prems"(2) assms(2) by (simp add: chain_0 insert_absorb)
  have k: "?k < 2 ^ l" "2 ^ l + ?k = v" using assms(3,4) by simp_all
  have "other_node l ?k \<notin> F"
  proof (cases l)
    case 0
    then have "v = 1" "other_node l ?k = 2" using assms(3,4) by (simp_all add: other_node_def)
    then show ?thesis using apart_below [OF assms(1,2), of 0 1 0] by simp
  next
    case (Suc j)
    then have "?k mod 2 = v mod 2" using k(2) by (metis mod_mult_self4 power_Suc)
    then have "other_node l ?k = sibling v" using k(2) by (simp add: other_node_def sibling_def)
    moreover have "2 \<le> v" using assms(3) Suc by (metis le_trans one_le_numeral one_le_power mult_le_mono2 mult_1_right power_Suc)
    ultimately show ?thesis using assms(6) by simp
  qed
  then show ?case using split_stop [OF b _ k(1)] "0.prems"(1) b by auto
next
  case (Suc m)
  let ?x = "v * 2 ^ m" and ?i = "l + Suc m"
  let ?k = "2 * ?x - 2 ^ ?i"
  have x: "2 ^ (l + m) \<le> ?x" "?x < 2 ^ Suc (l + m)"
    using block_layer [OF assms(3,4), of "l + m"] by simp_all
  have i: "1 \<le> ?i" "?i \<le> 5" "?i - 1 = l + m" using Suc.prems(1) by simp_all
  have k: "?k < 2 ^ ?i" "2 ^ ?i + ?k = 2 * ?x" "?k div 2 = ?x - 2 ^ (l + m)" "other_node ?i ?k = 2 * ?x + 1"
    using x by (simp_all add: other_node_def)
  have v: "0 < v" using assms(3) by (cases v) simp_all
  have below: "2 * ?x \<notin> F" "2 * ?x + 1 \<notin> F"
    using apart_below [OF assms(1-4) Suc.prems(1), of 0] apart_below [OF assms(1-4) Suc.prems(1), of 1] one_less_power [of "2 :: nat" "Suc m"]
    by (simp_all add: mult.left_commute)
  have later: "v * 2 ^ j + 1 < 2 * ?x" if "j \<in> {1..m}" for j
  proof -
    have j: "1 \<le> m" "j \<le> m" using that by simp_all
    have "(2 :: nat) ^ 1 \<le> 2 ^ m" using j(1) by (intro power_increasing) simp_all
    then have "1 * 2 \<le> ?x" using v by (intro mult_le_mono) simp_all
    moreover have "v * 2 ^ j \<le> ?x" using j(2) by (intro mult_le_mono2 power_increasing) simp_all
    ultimately show ?thesis by linarith
  qed
  have range: "{1..Suc m} = insert (Suc m) {1..m}" by auto
  have old: "chain F v (Suc m) = insert (2 * ?x + 1) (chain F v m)"
    unfolding chain_def range image_insert Un_insert_right by (simp add: mult.left_commute)
  have fresh: "2 * ?x \<notin> chain F v m" "2 * ?x + 1 \<notin> chain F v m"
    using below later by (fastforce simp: chain_def)+
  have "tree b (insert (2 * ?x) (insert (2 * ?x + 1) (chain F v m))) S n"
    using Suc.prems(2) unfolding old by (simp add: mult.left_commute)
  from split_merge [OF this i(1,2) k(1)] obtain c T where
    c: "split_up (2 ^ ?i) (of_nat ?k) b = (if 1 < ?i then split_up (2 ^ (l + m)) (of_nat (?x - 2 ^ (l + m))) c else Some (Inr (0, c)))"
      "tree c (insert ?x (insert (2 * ?x) (insert (2 * ?x + 1) (chain F v m)) - {2 * ?x + 1} - {2 * ?x})) T n"
    unfolding i(3) k(2,3,4) by auto
  have "insert (2 * ?x) (insert (2 * ?x + 1) (chain F v m)) - {2 * ?x + 1} - {2 * ?x} = chain F v m"
    using fresh by auto
  with c(2) have tree: "tree c (insert ?x (chain F v m)) T n" by simp
  have e: "v * 2 ^ Suc m = 2 * ?x" by simp
  show ?case
  proof (cases "1 < ?i")
    case True
    then show ?thesis using Suc.IH [OF _ tree] Suc.prems(1) unfolding e c(1) by simp
  next
    case False
    then have "m = 0" by simp
    then have "tree c F T n" using tree assms(2) by (simp add: chain_0 insert_absorb)
    then show ?thesis using False unfolding e c(1) by auto
  qed
qed

text \<open>The layer a release starts at, and its descent through the split nodes.\<close>

lemma bit_count_drop:
  assumes "\<And>j. j < k \<Longrightarrow> drop_bit (d + j) n \<noteq> 0" and "drop_bit (d + k) n = 0"
  shows "bit_count (k + f) (drop_bit d n) = k"
  using assms
proof (induction k arbitrary: d)
  case 0
  then show ?case by (cases f) simp_all
next
  case (Suc k)
  have "drop_bit d n \<noteq> 0" using Suc.prems(1) [of 0] by simp
  moreover have "bit_count (k + f) (drop_bit (Suc d) n) = k"
    by (rule Suc.IH) (use Suc.prems(1) [of "Suc _"] Suc.prems(2) in simp_all)
  ultimately show ?case by (simp add: drop_bit_drop_bit)
qed

lemma bit_count_small:
  assumes "32 \<le> n" and "n < 64"
  shows "bit_count 32 n = 6"
proof -
  have n: "32 \<le> unat n" "unat n < 64" using assms by (simp_all add: word_le_nat_alt word_less_nat_alt)
  have nz: "drop_bit j n \<noteq> 0" if j: "j \<le> 5" for j
  proof -
    have "(2 :: nat) ^ j \<le> 2 ^ 5" using j by (intro power_increasing) simp_all
    then have "0 < unat n div 2 ^ j" using n(1) by (simp add: div_greater_zero_iff)
    then show ?thesis by (metis less_irrefl unat_drop_bit drop_bit_eq_div unat_0)
  qed
  have "unat (drop_bit 6 n) = unat n div 2 ^ 6" unfolding unat_drop_bit by simp
  also have "\<dots> = 0" using n(2) by simp
  finally have z: "drop_bit 6 n = 0" by (simp only: word_unat_eq_iff unat_0)
  have "bit_count (6 + 26) (drop_bit 0 n) = 6" by (rule bit_count_drop) (use nz z in simp_all)
  then show ?thesis by simp
qed

lemma highest_layer_ok:
  assumes "u < 2 ^ 32"
  shows "\<exists>j\<le>a. highest_layer a (of_nat u) = (j, of_nat (u div 2 ^ (a - j))) \<and> (0 < j \<longrightarrow> u div 2 ^ (a - j) mod 2 \<noteq> 0) \<and> 2 ^ (a - j) dvd u"
  using assms
proof (induction a arbitrary: u)
  case (Suc a)
  show ?case
  proof (cases "u mod 2 = 0")
    case True
    then obtain h where h: "u = 2 * h" by auto
    obtain j where j: "j \<le> a" "highest_layer a (of_nat h) = (j, of_nat (h div 2 ^ (a - j)))"
      "0 < j \<longrightarrow> h div 2 ^ (a - j) mod 2 \<noteq> 0" "2 ^ (a - j) dvd h"
      using Suc.IH [of h] Suc.prems h by auto
    have e: "Suc a - j = Suc (a - j)" using j(1) by simp
    have "highest_layer (Suc a) (of_nat u) = highest_layer a (of_nat h)"
      using word_odd [OF Suc.prems] word_half [OF Suc.prems] True h by simp
    then show ?thesis using j by (intro exI [of _ j]) (simp add: e h)
  qed (use word_odd [OF Suc.prems] in \<open>auto intro!: exI [of _ "Suc a"]\<close>)
qed simp

text \<open>Where a call begins: the caller gives the first unit of a block, a deeper call gives the layer too.\<close>

definition release_start :: "u32 \<Rightarrow> u32 \<Rightarrow> u32 \<times> u32" where
  "release_start i num = (if i = 0 then let (j, num) = highest_layer 5 num in (of_nat j, num) else (i, num))"

lemma release_step:
  assumes "tree b F S n" and "32 \<le> n" and "n < 64" and "num \<le> 32" and "release_start i0 num = (of_nat i, of_nat k)" and "i \<le> 5" and "k < 2 ^ i"
    and "2 ^ i + k \<notin> F"
  shows "2 ^ i + k \<in> S \<Longrightarrow> i < 5 \<Longrightarrow> block_release num i0 b = block_release (of_nat (2 * k)) (of_nat (Suc i)) b"
    and "2 ^ i + k \<notin> S \<Longrightarrow> \<exists>b'. block_release num i0 b = split_up (2 ^ i) (of_nat k) b' \<and> tree b' (insert (2 ^ i + k) F) S n"
proof -
  let ?v = "2 ^ i + k"
  note v = other_place(1) [OF assms(6,7)] and node = node_place [OF assms(6,7)]
  obtain nw pw where r: "nb_read (of_nat (?v div 32)) b = Inr nw" "pb_read (of_nat (?v div 32)) b = Inr pw"
    "nw AND shl1 (of_nat (?v mod 32)) = 0" "pw AND shl1 (of_nat (?v mod 32)) = 0 \<longleftrightarrow> ?v \<in> S"
    using node_read [OF assms(1) v] assms(8) v by metis
  have pn: "bb_pn b = n" by (rule treeD(4) [OF assms(1)])
  have in_range: "\<not> num > bb_pn b" using assms(2,4) unfolding pn by simp
  have layer: "shl1 (of_nat i) = 2 ^ i"
  proof -
    have "unat (of_nat i :: u32) mod 32 = i" using assms(6) unat_of_nat_small [where 'a = 32, of i] by simp
    then show ?thesis by (simp add: shl1_def push_bit_eq_mult)
  qed
  have count: "bit_count 32 (bb_pn b) = 6" unfolding pn by (rule bit_count_small [OF assms(2,3)])
  have less: "(6 :: nat) - 1 = 5" by simp
  have st: "(if i0 = 0 then let (j, num) = highest_layer 5 num in (of_nat j, num) else (i0, num)) = (of_nat i :: u32, of_nat k)"
    using assms(5) by (simp only: release_start_def)
  note st = st [unfolded Let_def]
  show "block_release num i0 b = block_release (of_nat (2 * k)) (of_nat (Suc i)) b" if S: "?v \<in> S" "i < 5"
  proof -
    have last: "\<not> of_nat (Suc i) \<ge> (of_nat 6 :: u32)" using small_layers [OF S(2)] by (auto simp: word_le_def)
    have down: "(of_nat k * 2 :: u32) = of_nat (2 * k)" "(of_nat i + 1 :: u32) = of_nat (Suc i)" by simp_all
    show ?thesis using r S(1) last
      by (subst block_release.simps) (simp only: Let_def in_range if_False count less st prod.case layer node obind_simps simp_thms if_True down)
  qed
  show "\<exists>b'. block_release num i0 b = split_up (2 ^ i) (of_nat k) b' \<and> tree b' (insert ?v F) S n" if "?v \<notin> S"
  proof -
    obtain b' where b': "nb_upd (of_nat (?v div 32)) (\<lambda>w. w OR shl1 (of_nat (?v mod 32))) b = Inr b'" "tree b' (insert ?v F) S n"
      using set_node [OF assms(1) v] by blast
    have "block_release num i0 b = split_up (2 ^ i) (of_nat k) b'" using r that b'(1)
      by (subst block_release.simps) (simp only: Let_def in_range if_False count less st prod.case layer node obind_simps simp_thms if_True)
    with b'(2) show ?thesis by blast
  qed
qed

text \<open>A release that starts at a node above node \<open>w\<close> with the same first unit ends there, when the nodes between are
  split.\<close>

lemma release_descends:
  assumes "tree b F S n" and "32 \<le> n" and "n < 64" and "num \<le> 32" and "release_start i0 num = (of_nat i, of_nat k)" and "k < 2 ^ i"
    and "i + d \<le> 5" and "w = (2 ^ i + k) * 2 ^ d" and "w \<notin> S" and "w \<notin> F"
    and "\<And>j. 1 \<le> j \<Longrightarrow> j \<le> d \<Longrightarrow> w div 2 ^ j \<in> S \<and> w div 2 ^ j \<notin> F"
  shows "\<exists>b'. block_release num i0 b = split_up (2 ^ (i + d)) (of_nat (w - 2 ^ (i + d))) b' \<and> tree b' (insert w F) S n"
  using assms(4-11)
proof (induction d arbitrary: i k i0 num)
  case 0
  have "2 ^ i + k \<notin> F" "2 ^ i + k \<notin> S" "i \<le> 5" using "0.prems" by simp_all
  then show ?case using release_step(2) [OF assms(1-3) "0.prems"(1,2) _ "0.prems"(3)] "0.prems"(5) by simp
next
  case (Suc d)
  let ?v = "2 ^ i + k"
  have i: "i < 5" "i \<le> 5" using Suc.prems(4) by simp_all
  have "w div 2 ^ Suc d = ?v" unfolding Suc.prems(5) by simp
  then have v: "?v \<in> S" "?v \<notin> F" using Suc.prems(8) [of "Suc d"] by simp_all
  have k: "2 * k < 2 ^ Suc i" using Suc.prems(3) by simp
  have "(2 :: nat) ^ Suc i \<le> 2 ^ 5" using i by (intro power_increasing) simp_all
  then have k32: "2 * k < 32" using k by simp
  have step: "block_release num i0 b = block_release (of_nat (2 * k)) (of_nat (Suc i)) b"
    by (rule release_step(1) [OF assms(1-3) Suc.prems(1,2) i(2) Suc.prems(3) v(2,1) i(1)])
  have "unat (of_nat (Suc i) :: u32) = Suc i" using i by (intro unat_of_nat_small) simp
  then have "(of_nat (Suc i) :: u32) \<noteq> 0" by (metis unat_0 nat.distinct(1))
  then have st: "release_start (of_nat (Suc i)) (of_nat (2 * k)) = (of_nat (Suc i), of_nat (2 * k))" by (simp only: release_start_def if_False)
  have "unat (of_nat (2 * k) :: u32) = 2 * k" using k32 by (intro unat_of_nat_small) simp
  then have "(of_nat (2 * k) :: u32) \<le> 32" using k32 by (simp add: word_le_nat_alt)
  moreover have "Suc i + d \<le> 5" using Suc.prems(4) by simp
  moreover have "w = (2 ^ Suc i + 2 * k) * 2 ^ d" unfolding Suc.prems(5) by (simp add: algebra_simps)
  moreover have "w div 2 ^ j \<in> S \<and> w div 2 ^ j \<notin> F" if "1 \<le> j" "j \<le> d" for j using Suc.prems(8) [of j] that by simp
  ultimately have "\<exists>b'. block_release (of_nat (2 * k)) (of_nat (Suc i)) b = split_up (2 ^ (Suc i + d)) (of_nat (w - 2 ^ (Suc i + d))) b' \<and>
      tree b' (insert w F) S n"
    by (intro Suc.IH [OF _ st k _ _ Suc.prems(6,7)]) blast+
  then show ?case unfolding step by simp
qed

lemma even_quotient: "x = 2 * y * z \<Longrightarrow> 0 < z \<Longrightarrow> x div z mod 2 = (0 :: nat)"
  by simp

lemma release_block:
  assumes "tree b F S n" and "32 \<le> n" and "n < 64" and "l \<le> 5" and "2 ^ l \<le> w" and "w < 2 ^ Suc l" and "w \<notin> S" and "w \<notin> F"
    and "\<And>j. 1 \<le> j \<Longrightarrow> j \<le> l \<Longrightarrow> w div 2 ^ j \<in> S \<and> w div 2 ^ j \<notin> F"
  shows "\<exists>b'. bbuddy_block_release b (of_nat ((w - 2 ^ l) * 2 ^ (5 - l))) = split_up (2 ^ l) (of_nat (w - 2 ^ l)) b' \<and>
    tree b' (insert w F) S n"
proof -
  let ?u = "(w - 2 ^ l) * 2 ^ (5 - l)"
  have p: "(2 :: nat) ^ l * 2 ^ (5 - l) = 32" using assms(4) by (simp flip: power_add)
  have "w - 2 ^ l < 2 ^ l" using assms(5,6) by simp
  then have "?u < 2 ^ l * 2 ^ (5 - l)" by (intro mult_strict_right_mono) simp_all
  then have u: "?u < 32" unfolding p .
  then have u32: "?u < 2 ^ 32" by simp
  obtain j where j: "j \<le> 5" "highest_layer 5 (of_nat ?u) = (j, of_nat (?u div 2 ^ (5 - j)))"
    "0 < j \<longrightarrow> ?u div 2 ^ (5 - j) mod 2 \<noteq> 0" "2 ^ (5 - j) dvd ?u"
    using highest_layer_ok [OF u32, of 5] by blast
  have jl: "j \<le> l"
  proof (rule ccontr)
    assume "\<not> j \<le> l"
    then have e: "5 - l = Suc (j - l - 1) + (5 - j)" and "0 < j" using j(1) by simp_all
    have "(2 :: nat) ^ (5 - l) = 2 * 2 ^ (j - l - 1) * 2 ^ (5 - j)" unfolding e power_add power_Suc ..
    then have "?u = 2 * ((w - 2 ^ l) * 2 ^ (j - l - 1)) * 2 ^ (5 - j)" by (simp only: ac_simps)
    then have "?u div 2 ^ (5 - j) mod 2 = 0" by (rule even_quotient) simp
    then show False using j(3) \<open>0 < j\<close> by simp
  qed
  let ?k = "?u div 2 ^ (5 - j)"
  have e: "?k * 2 ^ (5 - j) = ?u" using j(4) by simp
  have k: "?k < 2 ^ j"
  proof -
    have "?k * 2 ^ (5 - j) < 2 ^ j * 2 ^ (5 - j)" unfolding e using u j(1) by (simp flip: power_add)
    then show ?thesis by simp
  qed
  have w: "w = (2 ^ j + ?k) * 2 ^ (l - j)"
  proof -
    have s: "5 - j = (l - j) + (5 - l)" using jl assms(4) by simp
    have "?k * 2 ^ (l - j) * 2 ^ (5 - l) = (w - 2 ^ l) * 2 ^ (5 - l)" using e unfolding s power_add by (simp add: mult.assoc)
    then have "?k * 2 ^ (l - j) = w - 2 ^ l" by simp
    moreover have "(2 :: nat) ^ j * 2 ^ (l - j) = 2 ^ l" using jl by (simp flip: power_add)
    ultimately show ?thesis using assms(5) by (simp only: add_mult_distrib)
  qed
  have "release_start 0 (of_nat ?u) = (of_nat j, of_nat ?k)" by (simp only: release_start_def j(2) prod.case if_True simp_thms Let_def)
  moreover have "(of_nat ?u :: u32) \<le> 32"
  proof -
    have "unat (of_nat ?u :: u32) = ?u" using u by (intro unat_of_nat_small) simp
    then show ?thesis using u by (simp add: word_le_nat_alt)
  qed
  moreover have "j + (l - j) = l" using jl by simp
  ultimately show ?thesis
    using release_descends [OF assms(1-3) _ _ k _ w assms(7,8)] assms(4,9) by (simp add: bbuddy_block_release_def)
qed

text \<open>The tree after the block \<open>v * 2 ^ m\<close> is split off the free node \<open>v\<close>.\<close>

lemma shift_down:
  assumes "k \<le> j"
  shows "v * 2 ^ j div 2 ^ k = v * (2 :: nat) ^ (j - k)"
proof -
  obtain i where "j = i + k" using assms by (metis le_add_diff_inverse2)
  then show ?thesis by (simp add: power_add flip: mult.assoc)
qed

lemma chain_anc:
  assumes "splits_to S v m S'" and "j \<le> m" and "1 \<le> k" and "1 \<le> v * 2 ^ j div 2 ^ k"
    and "\<And>s. 1 \<le> s \<Longrightarrow> 1 \<le> v div 2 ^ s \<Longrightarrow> v div 2 ^ s \<in> S"
  shows "v * 2 ^ j div 2 ^ k \<in> S'"
proof (cases "k \<le> j")
  case True
  then have "v * 2 ^ j div 2 ^ k = v * 2 ^ (j - k)" by (rule shift_down)
  moreover have "j - k < m" using True assms(2,3) by simp
  ultimately show ?thesis using assms(1) by (simp add: splits_to_def)
next
  case False
  then have k: "k = j + (k - j)" by simp
  have w: "v * 2 ^ j div 2 ^ k = v div 2 ^ (k - j)" by (subst k) (simp only: power_add div_mult2_eq, simp)
  then have S: "v div 2 ^ (k - j) \<in> S" and v: "0 < v" using assms(4,5) False by (auto intro: gr0I)
  have "v div 2 ^ (k - j) div 2 ^ i \<noteq> v" for i
  proof -
    have "v div 2 ^ (k - j) < v" using v False one_less_power [of "2 :: nat" "k - j"] by (intro div_less_dividend) simp_all
    then show ?thesis using div_le_dividend [of "v div 2 ^ (k - j)" "2 ^ i"] by linarith
  qed
  then show ?thesis using assms(1) S unfolding w by (auto simp: splits_to_def)
qed

lemma sibling_odd: "sibling (2 * y + 1) = 2 * y" "sibling x = 2 * y + 1 \<Longrightarrow> x = 2 * y"
  by (simp_all add: sibling_def split: if_splits) presburger

lemma chain_tidy:
  assumes "tidy b" and "frees b = F" and "splits b = S" and "v \<in> F" and "2 ^ l \<le> v" and "v < 2 ^ Suc l" and "l + m \<le> 5"
    and "tree b' (chain F v m) S' (bb_pn b)" and "splits_to S v m S'"
  shows "tidy b'"
proof -
  let ?w = "v * 2 ^ m" and ?L = "l + m"
  have b: "32 \<le> bb_pn b" "bb_pn b < 64" "apart F" "\<And>x. x \<in> F \<Longrightarrow> 2 \<le> x \<Longrightarrow> sibling x \<notin> F"
    "\<And>x k. x \<in> F \<Longrightarrow> 1 \<le> k \<Longrightarrow> 1 \<le> x div 2 ^ k \<Longrightarrow> x div 2 ^ k \<in> S"
    using assms(1-3) by (auto simp: tidy_def)
  have F64: "x < 64" if "x \<in> F" for x using that assms(2) by (auto simp: frees_iff)
  note units = chain_units [OF b(3) assms(4-7)]
  have v0: "0 < v" using assms(5) by (cases v) simp_all
  have w: "2 ^ ?L \<le> ?w" "?w < 2 ^ Suc ?L" using block_layer [OF assms(5,6), of ?L] by simp_all
  have inside: "v * 2 ^ j \<notin> chain F v m" if "j \<le> m" for j
  proof -
    have "?w div 2 ^ (m - j) = v * 2 ^ j" using shift_down [of "m - j" m v] that by simp
    then show ?thesis using taken_above [OF w assms(7), of "chain F v m" "m - j"] units(2) v0 by auto
  qed
  have "sibling x \<notin> chain F v m" if x: "x \<in> chain F v m" "2 \<le> x" for x
  proof
    assume s: "sibling x \<in> chain F v m"
    consider "x \<in> F" | j where "x = v * 2 ^ Suc j + 1" "Suc j \<le> m" using x(1) by (fastforce simp: chain_def dest: Suc_le_D)
    then show False
    proof cases
      case 1
      then obtain j where j: "sibling x = v * 2 ^ Suc j + 1" "Suc j \<le> m"
        using s b(4) [OF 1 x(2)] by (fastforce simp: chain_def dest: Suc_le_D)
      then have "x = v * 2 ^ Suc j" using sibling_odd(2) [of x "v * 2 ^ j"] by (simp add: mult.left_commute)
      then show False using apart_below [OF b(3) assms(4-6), of "Suc j" 0] 1 j(2) assms(7) by simp
    next
      case 2
      then have "sibling x = v * 2 ^ Suc j" using sibling_odd(1) [of "v * 2 ^ j"] by (simp add: mult.left_commute)
      then show False using s inside [OF 2(2)] by simp
    qed
  qed
  moreover have "x div 2 ^ k \<in> S'" if x: "x \<in> chain F v m" and k: "1 \<le> k" "1 \<le> x div 2 ^ k" for x k
  proof -
    consider "x \<in> F" "x \<noteq> v" | j where "x = v * 2 ^ Suc j + 1" "Suc j \<le> m" using x by (fastforce simp: chain_def dest: Suc_le_D)
    then show ?thesis
    proof cases
      case 1
      have "x div 2 ^ k div 2 ^ s \<noteq> v" for s
      proof
        assume v: "x div 2 ^ k div 2 ^ s = v"
        then have "x div 2 ^ (k + s) = v" by (simp only: power_add div_mult2_eq)
        then show False using apart_anc [OF b(3) 1(1) F64 [OF 1(1)], of "k + s"] k(1) v0 assms(4) by simp
      qed
      then show ?thesis using assms(9) b(5) [OF 1(1) k] by (auto simp: splits_to_def)
    next
      case 2
      obtain i where i: "k = Suc i" using k(1) by (cases k) simp_all
      have "x = 2 * (v * 2 ^ j) + 1" "v * 2 ^ Suc j = 2 * (v * 2 ^ j)" unfolding 2(1) by simp_all
      then have "x div 2 ^ k = v * 2 ^ Suc j div 2 ^ k" unfolding i power_Suc div_mult2_eq by simp
      then show ?thesis using chain_anc [OF assms(9) 2(2) k(1)] k(2) b(5) [OF assms(4)] by simp
    qed
  qed
  ultimately show ?thesis using assms(8) b(1,2) units(1) by (auto simp: tidy_def tree_def)
qed

section \<open>Properties\<close>

text \<open>A fresh buddy is tidy.\<close>

definition fresh_buddy :: "u32 \<Rightarrow> bbuddy" where
  "fresh_buddy n = \<lparr>bb_area = [0xffffffff, 0xffffffff, 3, 0], bb_pbmp = 0, bb_nbmp = 2, bb_pn = n\<rparr>"

lemma fresh_tidy:
  assumes "32 \<le> n" and "n < 64"
  shows "tidy (fresh_buddy n)"
proof -
  have F: "frees (fresh_buddy n) = {0, 1}" by (simp only: fresh_buddy_def frees_init)
  have "x div 2 ^ k = 0" if "x \<le> 1" "1 \<le> k" for x k :: nat
    using that one_less_power [of "2 :: nat" k] by simp
  then show ?thesis unfolding tidy_def F using assms start_apart by (auto simp: fresh_buddy_def small_tree_def)
qed

text \<open>C20: On a tidy buddy of 32 to 63 blocks, an allocation that finds a block leaves the buddy tidy, and the release
  of that block, named by its first unit, succeeds and joins the parts again: the free nodes are those from before
  the allocation.\<close>

theorem buddy_release_undoes_alloc:
  assumes "tidy b" and "l \<le> 5" and "\<exists>j\<le>l. layer_free j b \<noteq> None"
  shows "\<exists>k b' b''. bbuddy_block_alloc b (2 ^ l) = Some (Inr (of_nat k, b')) \<and> k < 2 ^ l \<and> tidy b' \<and>
    bbuddy_block_release b' (of_nat (k * 2 ^ (5 - l))) = Some (Inr (0, b'')) \<and> frees b'' = frees b"
proof -
  let ?F = "frees b" and ?S = "splits b" and ?n = "bb_pn b"
  have b: "tree b ?F ?S ?n" "apart ?F" "32 \<le> ?n" "?n < 64" using assms(1) by (simp_all add: tidy_def tree_def)
  obtain j v where v: "j \<le> l" "layer_free j b = Some v" "gives_block (bbuddy_block_alloc b (2 ^ l)) j (l - j) v ?F ?S ?n"
    using alloc_ok [OF b(1,2) assms(2)] assms(3) by auto
  let ?m = "l - j"
  let ?w = "v * 2 ^ ?m"
  have l: "j + ?m = l" using v(1) by simp
  note free = layer_freeD [OF v(2)]
  obtain b' S' where b': "bbuddy_block_alloc b (2 ^ l) = Some (Inr (of_nat (?w - 2 ^ l), b'))" "tree b' (chain ?F v ?m) S' ?n"
    "splits_to ?S v ?m S'"
    using v(3) unfolding gives_block_def l by blast
  note w = block_layer [OF free(1,2) v(1)]
  note units = chain_units [OF b(2) free(3,1,2), of ?m, unfolded l, OF assms(2)]
  have tidy: "tidy b'" by (rule chain_tidy [OF assms(1) refl refl free(3,1,2) _ b'(2,3)]) (use l assms(2) in simp)
  have taken: "?w div 2 ^ i \<notin> chain ?F v ?m" if "1 \<le> ?w div 2 ^ i" for i
    by (rule taken_above [OF w assms(2) _ that]) (use units(2) in blast)
  have "1 \<le> ?w" using w(1) one_le_power [of "2 :: nat" l] by linarith
  then have not_free: "?w \<notin> chain ?F v ?m" using taken [of 0] by simp
  have above: "?w div 2 ^ i \<in> S' \<and> ?w div 2 ^ i \<notin> chain ?F v ?m" if "1 \<le> i" "i \<le> l" for i
  proof -
    have "(2 :: nat) ^ i \<le> 2 ^ l" using that(2) by (intro power_increasing) simp_all
    then have "2 ^ i \<le> ?w" using w(1) by (rule order_trans)
    then have pos: "1 \<le> ?w div 2 ^ i" by (simp add: div_greater_zero_iff Suc_le_eq)
    have "?w div 2 ^ i \<in> S'"
      by (rule chain_anc [OF b'(3) order_refl that(1) pos]) (use assms(1) free(3) in \<open>auto simp: tidy_def\<close>)
    with taken [OF pos] show ?thesis by blast
  qed
  have "?w \<notin> S'" using b'(3) by (simp add: splits_to_def)
  from release_block [OF b'(2) b(3,4) assms(2) w this not_free above] obtain c
    where c: "bbuddy_block_release b' (of_nat ((?w - 2 ^ l) * 2 ^ (5 - l))) = split_up (2 ^ l) (of_nat (?w - 2 ^ l)) c"
      "tree c (insert ?w (chain ?F v ?m)) S' ?n" by blast
  have "2 \<le> v \<longrightarrow> sibling v \<notin> ?F" using assms(1) free(3) by (simp add: tidy_def)
  from merge_chain [OF b(2) free(3,1,2) _ this c(2), unfolded l] assms(2) obtain b'' S''
    where "split_up (2 ^ l) (of_nat (?w - 2 ^ l)) c = Some (Inr (0, b''))" "tree b'' ?F S'' ?n" by blast
  then have "bbuddy_block_release b' (of_nat ((?w - 2 ^ l) * 2 ^ (5 - l))) = Some (Inr (0, b''))" "frees b'' = ?F"
    unfolding c(1) by (simp_all add: tree_def)
  moreover have "?w - 2 ^ l < 2 ^ l" using w by simp
  ultimately show ?thesis using b'(1) tidy by blast
qed


theorem buddy_release_undoes_alloc_witness:
  "\<exists>k b' b''. bbuddy_block_alloc (fresh_buddy 40) (2 ^ 3) = Some (Inr (of_nat k, b')) \<and> k < 2 ^ 3 \<and>
    bbuddy_block_release b' (of_nat (k * 2 ^ (5 - 3))) = Some (Inr (0, b'')) \<and> frees b'' = {0, 1}"
proof -
  have F: "frees (fresh_buddy 40) = {0, 1}" by (simp only: fresh_buddy_def frees_init)
  then have "layer_free 0 (fresh_buddy 40) \<noteq> None" by (simp add: layer_free_def upt_rec)
  then have "\<exists>j\<le>3. layer_free j (fresh_buddy 40) \<noteq> None" by blast
  then show ?thesis using buddy_release_undoes_alloc [OF fresh_tidy, of 40 3] unfolding F by auto
qed

end
