(* ===== verification/Spec2Isabelle.thy ===== *)
theory Spec2Isabelle
  imports Mui_Remap Mui_E820 Mui_Itoa Mui_Clock Mui_Vga Mui_Apic Mui_Buddy Mui_Switch Mui_Yield Mui_Boot Mui_Lock
    Mui_StrMem Mui_Fault Mui_Entry Mui_BuddyFree
begin

text \<open>
  MString (MuiString) is a small 64-bit kernel. This development models its C code, file by file,
  and proves what its parts compute. All paths are relative to \<^verbatim>\<open>src/\<close>.

  \<^bold>\<open>The parts and how they interact.\<close> At boot, \<^verbatim>\<open>mm/mm.c\<close> reads the E820 map and puts
  every physical page on a ring of its zone; a part of the pages goes to per-CPU caches, from which
  \<^verbatim>\<open>mm/pagealloc.c\<close> allocates. \<^verbatim>\<open>eza/amd64/mm/pt.c\<close> maps areas of pages: it takes the
  frames to map, and the frames of new tables, from a page accessor (\<^verbatim>\<open>mm/pageaccs.c\<close>).
  \<^verbatim>\<open>eza/amd64/mm/mm.c\<close> uses it for the boot mappings, \<^verbatim>\<open>eza/generic_api/task.c\<close> for the
  stacks of tasks, whose addresses come from \<^verbatim>\<open>eza/generic_api/kstack.c\<close> and its bitmap
  (\<^verbatim>\<open>eza/amd64/bits.h\<close>). \<^verbatim>\<open>eza/generic_api/interrupt.c\<close> keeps the interrupt lines with
  their controllers (\<^verbatim>\<open>eza/amd64/i8259.c\<close>) and handlers; the gates that lead to it are set by
  \<^verbatim>\<open>eza/amd64/interrupt.c\<close>, \<^verbatim>\<open>pmm.c\<close> and \<^verbatim>\<open>fault.c\<close>; the timer drives the clock of
  \<^verbatim>\<open>eza/generic_api/time.c\<close>. \<^verbatim>\<open>main_routine\<close> (\<^verbatim>\<open>eza/generic_api/main.c\<close>) runs all these
  set-ups in order and enters the idle loop, whose tasks then switch to each other
  (\<^verbatim>\<open>eza/generic_api/idletask.c\<close>, \<^verbatim>\<open>eza/amd64/sched/context.S\<close>). \<^verbatim>\<open>include/eza/list.h\<close>, the string
  routines and the formatted output are used throughout.

  \<^bold>\<open>The theories.\<close>
  \<^item> \<open>Mui_Prelude\<close>: \<^verbatim>\<open>types.h\<close>, \<^verbatim>\<open>errno.h\<close>, \<^verbatim>\<open>page.h\<close>; the outcome type \<open>res\<close>
    with the errors \<open>kerror\<close> (a bad access, a panic), its monad, and lemmas on words and lists.
  \<^item> \<open>Mui_List\<close>: \<^verbatim>\<open>include/eza/list.h\<close> on a heap of links. The abstraction \<open>dlist\<close> says which
    nodes a ring holds; the locale \<open>node_list\<close> is the interface of the other components.
  \<^item> \<open>Mui_Bits\<close>, \<open>Mui_KStack\<close>: the bit-scan instructions and the stack allocator, with the
    abstraction of a bitmap to the set of its bits and the locale \<open>slot_allocator\<close>.
  \<^item> \<open>Mui_Frames\<close>: page frames, the page cache, the page accessors. The locale \<open>frame_source\<close>
    is what the page tables ask of an accessor; both accessors of the kernel are instances.
  \<^item> \<open>Mui_PageTable\<close>, \<open>Mui_PageMap\<close>, \<open>Mui_Mapping\<close>: entry layouts and the mapping code; the
    reading of a directory as a tree of tables with its invariant \<open>tables_ok\<close>; the properties
    of \<^verbatim>\<open>mm_map_pages\<close> and \<^verbatim>\<open>mm_pin_virtual_address\<close>.
  \<^item> \<open>Mui_Remap\<close>: \<^verbatim>\<open>arch_remap_memory\<close>. \<open>Mui_Zones\<close>: \<^verbatim>\<open>mm/mm.c\<close>, with the usable pages stated apart from the code:
    the areas of the map without the pages that the image and the page array behind it touch. \<open>Mui_E820\<close>: what the
    page array holds when the E820 map is ordered.
  \<^item> \<open>Mui_Irq\<close>, \<open>Mui_Pic\<close>, \<open>Mui_Descr\<close>, \<open>Mui_Clock\<close>, \<open>Mui_Apic\<close>: interrupt lines, PIC,
    descriptor tables and gates, timers and ticks, the local APIC.
  \<^item> \<open>Mui_CString\<close>, \<open>Mui_Printf\<close>, \<open>Mui_Itoa\<close>, \<open>Mui_Vga\<close>: memory and string routines,
    \<^verbatim>\<open>vsnprintf\<close>, \<^verbatim>\<open>itoa\<close>, the text screen. \<open>Mui_StrMem\<close>: \<^verbatim>\<open>eza/amd64/strmem.c\<close>, the memory
    routines with string instructions.
  \<^item> \<open>Mui_Panic\<close>, \<open>Mui_Fault\<close>: messages on the console, \<^verbatim>\<open>panic\<close>, and the fault handlers of
    \<^verbatim>\<open>eza/amd64/fault.c\<close>.
  \<^item> \<open>Mui_Lock\<close>: \<^verbatim>\<open>spinlock.h\<close>, atomics and locks, with the spin loop as instructions that several
    processors interleave.
  \<^item> \<open>Mui_Task\<close>, \<open>Mui_Idle\<close>: creation of tasks and kernel threads, what the first switch to
    one loads, and the idle tasks that the scheduler starts with.
  \<^item> \<open>Mui_Switch\<close>: the context switch, the macros of \<^verbatim>\<open>context.h\<close> and the assembly that uses
    them, on a processor with its registers, its stack and its floating-point state. \<open>Mui_Entry\<close>: the
    entries of interrupts and faults in \<^verbatim>\<open>eza/amd64/asm.S\<close> on the same processor.
  \<^item> \<open>Mui_Yield\<close>: \<^verbatim>\<open>eza/generic_api/idletask.c\<close>, two tasks that switch to each other at ticks
    they wait for, as a step relation of turns and ticks.
  \<^item> \<open>Mui_Cpu\<close>: control registers, flags and model-specific registers, and the set-up of \<^verbatim>\<open>cpu.c\<close> and
    \<^verbatim>\<open>mm/init.c\<close>. \<open>Mui_Boot\<close>: \<^verbatim>\<open>main_routine\<close>, the composition of all set-ups up to the call of
    \<^verbatim>\<open>idle_loop\<close>, over the record \<open>kernel_state\<close> that holds the states of the parts.
  \<^item> This theory: the boot followed by the runs of the two tasks.
  \<^item> \<open>Mui_Buddy\<close>, \<open>Mui_BuddyFree\<close>: the binary buddy allocator \<^verbatim>\<open>mm/bbuddy.c\<close>, which no other part calls yet, its
    allocation and its release, as a tree of free and of split nodes.

  \<^bold>\<open>State and operations.\<close> A structure is a record, a machine integer a word of its width, a
  pointer an address. Links are kept in a \<open>list_heap\<close> by the address of the node; the memory of
  page tables is a function from addresses to 64-bit entries, that of strings and of the screen one to
  bytes. An operation takes the state and returns it updated. A dereference of a null or
  uninitialised pointer and a panic are values of \<open>kerror\<close>; a loop that may not end is a partial
  function into \<open>option\<close>, and that it returns is part of the property.

  \<^bold>\<open>Parameters.\<close> Devices and assembly that is not C code are parameters: the bus of I/O ports
  (\<open>bus\<close>, with \<open>pic_chips\<close> for what the PIC driver relies on), the APIC registers (\<open>apic_chip\<close>),
  the delay loops (with \<open>pit_loads\<close>, \<open>pit_counts\<close> and \<open>loops_take\<close> for what the calibration relies on: a timer
  chip that is loaded byte by byte, counts down and is latched, and loops that take time), the addresses of
  the assembly entry points (\<open>image\<close>), and the C routines behind an interrupt entry, which keep to the
  calling convention (\<open>keeps_stack\<close>). The boot takes all of them and the addresses of symbols as the record
  \<open>machine\<close>. Each property with such a hypothesis has a witness with a concrete device.

  \<^bold>\<open>What the lemmas show.\<close> The whole: from a blank machine the boot ends without a panic, on the
  stack of the first idle task, with memory mapped, gates set and a running clock, and the two tasks run on
  from there. Mapping: each page of an area leads to its frame and no other address
  changes; the errors and the limits of the code (one 512 GB entry, wrap-around in the last
  gigabyte, an empty cache). Memory: every page is on exactly one ring, on an ordered map the usable ones
  on the free rings, unless the rests of the image and of the page array add up to one page more, which then counts
  as free; the caches. Buddy: an allocation takes a free block, its release gives it back, and two
  releases can free a block in use. Interrupts: registration, dispatch and acknowledgement; the path from a
  timer interrupt to the clock; the entry gives the interrupted code back everything it had. Faults: what
  the handlers report, and that the entry hands them a wrong frame. Locks: the spin loop excludes; the lock
  that is compiled is empty. Tasks:
  what a creation maps and what the first switch pops off the new stack; a task that switches away
  goes on with everything it had; the two loops take turns, never fault, and starve once a tick is missed
  or the counter leaves the range of an \<^verbatim>\<open>int\<close>. Text: \<^verbatim>\<open>vsnprintf\<close> never
  exceeds its bound, prints numbers that read back (a negative one as an unsigned one); the screen refines a terminal above its last row.
  Several properties state what the code does where it differs from its comments or purpose; the
  manifest lists them as findings.

  \<^bold>\<open>Bounds.\<close> The boot is shown for an ordered map of 18 MB to 1 GB: the boot maps 16 MB and needs free pages above,
  and beyond 1 GB the mapping at \<^verbatim>\<open>KERNEL_BASE\<close> enters the last gigabyte, where \<^verbatim>\<open>pt.c\<close> wraps around.
  The mapping theorems ask for a cache with as many frames as the area needs tables, and frame numbers below
  \<open>2 ^ 19\<close> for tables (the address computation sign-extends above). The stack allocator has 507 slots. The buddy
  theorems hold for 32 to 63 blocks (\<open>small_tree\<close>, \<open>tidy\<close>), where a bitmap is a word for the upper layers and one for
  the lowest; from 96 blocks on the initialisation is shown to leave its area. The fuel \<open>bit_count\<close> of the release of a buddy is 32, the width of the word the loop shifts to zero.

  \<^bold>\<open>Not modelled.\<close> The console messages on the way of the operations of the memory, the statistics and the
  APIC (what a message shows is in \<open>Mui_Panic\<close>; the boot, the panic and the faults print theirs); the interrupts that arrive during the boot; the assembly before
  \<^verbatim>\<open>main_routine\<close> and the entry of system calls, with \<^verbatim>\<open>syscall_handler\<close>, which returns an
  uninitialised variable; the start of the other processors, which only loop; segments and the flags but the
  interrupt flag at a switch or an entry; the memory barriers, since memory changes in program order here;
  \<^verbatim>\<open>kassert\<close>, which cannot be compiled; and headers whose declarations nothing uses.
\<close>

section \<open>The running kernel\<close>

text \<open>C1: From \<^verbatim>\<open>main_routine\<close> to the running tasks, on a blank machine whose ordered memory map has 18 MB to 1 GB
  (\<open>N\<close> pages): the boot reaches \<^verbatim>\<open>idle_loop\<close>; in every order of turns and ticks after it the running task can go on
  without a fault; and on a machine that makes two turns between ticks the first task and the thread it creates give
  each other the processor, each after its three lines, for all rounds that end below tick \<open>2 ^ 31\<close>. From that tick on
  the comparison of the counter with an \<^verbatim>\<open>int\<close> fails, and \<open>Mui_Yield.late_task_never_switches\<close> shows the opposite.\<close>

theorem kernel_boots_and_runs:
  assumes "machine_blank mc k N" and "4608 \<le> N" and "N \<le> 2 ^ 18"
  shows "\<exists>k' f. main_routine mc k = Some (Inr k') \<and>
    (let idle = ks_idle_tasks k' ! 0; start = yield_start (ks_world k') idle (fst (irq_dev (ks_irq k')))
     in (\<forall>n s. ytrace im fn start n s \<longrightarrow> (\<exists>s'. loop_step im fn s = Some (Inr s'))) \<and>
        (\<forall>n ms. (\<forall>m \<in> set ms. 2 \<le> m) \<and> length ms = n * 40500 \<and> n * 40500 + 100 < 2 ^ 31 \<longrightarrow>
          (\<exists>w' s1 s2. kernel_thread im idle fn 0 (ks_world k') = Some (Inr (0, w')) \<and> turns im fn 2 start = Some (Inr s1) \<and>
            ticks_and_turns im fn ms s1 = Some (Inr s2) \<and> ys_current s2 = idle \<and>
            ys_log s2 = concat (map (\<lambda>i. turn_lines w' idle (pframe_to_virt f) Idle_Loop (i * 40500) @
              turn_lines w' idle (pframe_to_virt f) Clone_Fn (i * 40500 + 20100)) [0..<n]))))"
proof -
  obtain k' f ss frs where k': "main_routine mc k = Some (Inr k')" "kernel_up mc k' N"
    "can_create (ks_world k') (ks_idle_tasks k' ! 0) 2 f ss frs"
    using main_routine_ok [OF assms] by blast
  let ?start = "yield_start (ks_world k') (ks_idle_tasks k' ! 0) (fst (irq_dev (ks_irq k')))"
  have t: "ys_ticks ?start = of_nat 0" using k'(2) by (simp add: kernel_up_def interrupts_up_def yield_start_def)
  have "\<exists>s'. loop_step im fn s = Some (Inr s')" if "ytrace im fn ?start n s" for n s
    using loops_safe [OF k'(3) that] by blast
  moreover have "(0 :: nat) + 100 < 2 ^ 31" by simp
  note take_turns_ok [OF k'(3) t this, of im fn]
  then obtain w' s1 where "kernel_thread im (ks_idle_tasks k' ! 0) fn 0 (ks_world k') = Some (Inr (0, w'))"
    "turns im fn 2 ?start = Some (Inr s1)"
    "\<forall>n ms. (\<forall>m \<in> set ms. 2 \<le> m) \<and> length ms = n * 40500 \<and> 0 + n * 40500 + 100 < 2 ^ 31 \<longrightarrow>
      (\<exists>s2. ticks_and_turns im fn ms s1 = Some (Inr s2) \<and> ys_current s2 = ks_idle_tasks k' ! 0 \<and>
        ys_log s2 = concat (map (\<lambda>i. turn_lines w' (ks_idle_tasks k' ! 0) (pframe_to_virt f) Idle_Loop (0 + i * 40500) @
          turn_lines w' (ks_idle_tasks k' ! 0) (pframe_to_virt f) Clone_Fn (0 + i * 40500 + 20100)) [0..<n]))"
    by blast
  ultimately show ?thesis using k'(1) unfolding Let_def add_0
    by (intro exI [of _ k'] exI [of _ f] conjI) blast+
qed

theorem kernel_boots_and_runs_witness:
  "\<exists>k' f w' s1 s2. main_routine sample_machine sample_kernel = Some (Inr k') \<and>
    turns \<lparr>im_thread_helper = 1, im_fork_path = 2, im_rflags = 0\<rparr> 7 2
      (yield_start (ks_world k') (ks_idle_tasks k' ! 0) (fst (irq_dev (ks_irq k')))) = Some (Inr s1) \<and>
    ticks_and_turns \<lparr>im_thread_helper = 1, im_fork_path = 2, im_rflags = 0\<rparr> 7 (replicate 40500 2) s1 = Some (Inr s2) \<and>
    ys_log s2 = turn_lines w' (ks_idle_tasks k' ! 0) (pframe_to_virt f) Idle_Loop 0 @
      turn_lines w' (ks_idle_tasks k' ! 0) (pframe_to_virt f) Clone_Fn 20100"
proof -
  let ?ms = "replicate 40500 2 :: nat list" and ?im = "\<lparr>im_thread_helper = 1, im_fork_path = 2, im_rflags = 0\<rparr>"
  have sample_pages: "(4608 :: nat) \<le> 8192" "(8192 :: nat) \<le> 2 ^ 18" by simp_all
  have ms: "(\<forall>m \<in> set ?ms. 2 \<le> m) \<and> length ?ms = 1 * 40500 \<and> 1 * 40500 + 100 < (2 :: nat) ^ 31"
    by (simp only: length_replicate in_set_replicate) simp
  obtain k' f where k': "main_routine sample_machine sample_kernel = Some (Inr k')"
    "\<forall>n ms. (\<forall>m \<in> set ms. 2 \<le> m) \<and> length ms = n * 40500 \<and> n * 40500 + 100 < 2 ^ 31 \<longrightarrow>
      (\<exists>w' s1 s2. kernel_thread ?im (ks_idle_tasks k' ! 0) 7 0 (ks_world k') = Some (Inr (0, w')) \<and>
        turns ?im 7 2 (yield_start (ks_world k') (ks_idle_tasks k' ! 0) (fst (irq_dev (ks_irq k')))) = Some (Inr s1) \<and>
        ticks_and_turns ?im 7 ms s1 = Some (Inr s2) \<and> ys_current s2 = ks_idle_tasks k' ! 0 \<and>
        ys_log s2 = concat (map (\<lambda>i. turn_lines w' (ks_idle_tasks k' ! 0) (pframe_to_virt f) Idle_Loop (i * 40500) @
          turn_lines w' (ks_idle_tasks k' ! 0) (pframe_to_virt f) Clone_Fn (i * 40500 + 20100)) [0..<n]))"
    using kernel_boots_and_runs [OF sample_machine_blank sample_pages, of ?im 7] unfolding Let_def by (elim exE conjE) (rule that)
  have log: "concat (map g [0..<1]) = g 0" for g :: "nat \<Rightarrow> 'z list" by simp
  from k'(2) [THEN spec, THEN spec, THEN mp, OF ms] show ?thesis
    using k'(1) unfolding log mult_0 add_0 by blast
qed

end
